(* ===== verification/Wadb_Prelude.thy ===== *)
theory Wadb_Prelude
  imports Main "HOL-Library.Word"
begin

unbundle bit_operations_syntax

text \<open>
  The shared vocabulary of the development: machine types, the status codes and
  fallible results, unsigned arithmetic with its wrap-around written out, C buffers
  as byte lists, and the generic lemmas on lists that the components rewrite with.

  Conventions used everywhere below:
  \<^item> a byte buffer is a list of 8-bit words; \<open>drop off p\<close> is the pointer \<open>p + off\<close>;
  \<^item> a fallible function returns \<open>wadb_status + 'a\<close>: \<open>Inl\<close> carries the code that
    \<^verbatim>\<open>wadb_fail\<close> returns (never \<open>WADB_OK\<close>), \<open>Inr\<close> the outputs of a successful call;
  \<^item> unsigned 32- and 64-bit quantities are natural numbers whose sums and differences
    go through \<open>add32\<close>, \<open>sub32\<close>, \<open>add64\<close>, \<open>sub64\<close> where the C expression could wrap;
  \<^item> \<^verbatim>\<open>int64_t\<close> quantities are integers; \<open>i64_range\<close> is the range of the type.
\<close>

section \<open>Machine types\<close>

type_synonym byte = "8 word"
type_synonym u16 = "16 word"
type_synonym u32 = "32 word"
type_synonym u64 = "64 word"
type_synonym bytes = "byte list"

abbreviation UINT32_MAX :: nat where "UINT32_MAX \<equiv> 4294967295"
abbreviation UINT64_MAX :: nat where "UINT64_MAX \<equiv> 18446744073709551615"
abbreviation INT64_MAX :: int where "INT64_MAX \<equiv> 9223372036854775807"
abbreviation INT64_MIN :: int where "INT64_MIN \<equiv> -9223372036854775808"

definition i64_range :: "int \<Rightarrow> bool" where
  "i64_range t \<longleftrightarrow> INT64_MIN \<le> t \<and> t \<le> INT64_MAX"

definition u32_range :: "nat \<Rightarrow> bool" where
  "u32_range n \<longleftrightarrow> n \<le> UINT32_MAX"

definition u64_range :: "nat \<Rightarrow> bool" where
  "u64_range n \<longleftrightarrow> n \<le> UINT64_MAX"

section \<open>Status codes and fallible results\<close>

text \<open>The enumeration \<^verbatim>\<open>wadb_status\<close> of \<^verbatim>\<open>include/wadb.h\<close>.\<close>

datatype wadb_status =
    WADB_OK | WADB_INVALID | WADB_NOMEM | WADB_IO | WADB_CORRUPT | WADB_VERSION
  | WADB_EXISTS | WADB_NOT_FOUND | WADB_LOCKED | WADB_SCHEMA_MISMATCH
  | WADB_BACKPRESSURE | WADB_LIMIT | WADB_INDETERMINATE | WADB_EXPIRED
  | WADB_READ_ONLY | WADB_CANCELLED

type_synonym 'a res = "wadb_status + 'a"

text \<open>Sequencing: \<open>if (status) return status;\<close> between two steps.\<close>

definition bind_res :: "'a res \<Rightarrow> ('a \<Rightarrow> 'b res) \<Rightarrow> 'b res" where
  "bind_res r f = (case r of Inl e \<Rightarrow> Inl e | Inr x \<Rightarrow> f x)"

definition ensure :: "bool \<Rightarrow> wadb_status \<Rightarrow> unit res" where
  "ensure b e = (if b then Inr () else Inl e)"

definition is_ok :: "'a res \<Rightarrow> bool" where
  "is_ok r = (case r of Inl _ \<Rightarrow> False | Inr _ \<Rightarrow> True)"

named_theorems res_simps \<open>evaluation of fallible results\<close>

lemma bind_res_simps [simp]:
  "bind_res (Inl e) f = Inl e"
  "bind_res (Inr x) f = f x"
  by (simp_all add: bind_res_def)

lemma bind_res_Inr_iff [res_simps]:
  "bind_res r f = Inr y \<longleftrightarrow> (\<exists>x. r = Inr x \<and> f x = Inr y)"
  by (auto simp: bind_res_def split: sum.splits)

lemma bind_res_Inl_iff [res_simps]:
  "bind_res r f = Inl e \<longleftrightarrow> r = Inl e \<or> (\<exists>x. r = Inr x \<and> f x = Inl e)"
  by (auto simp: bind_res_def split: sum.splits)

lemma ensure_simps [simp]:
  "ensure True e = Inr ()"
  "ensure False e = Inl e"
  by (simp_all add: ensure_def)

lemma ensure_iff [res_simps]:
  "ensure b e = Inr u \<longleftrightarrow> b"
  "ensure b e = Inl c \<longleftrightarrow> \<not> b \<and> c = e"
  by (auto simp: ensure_def)

lemma is_ok_simps [simp]: "is_ok (Inr x)" "\<not> is_ok (Inl e)"
  by (simp_all add: is_ok_def)

section \<open>Unsigned arithmetic with wrap-around\<close>

definition add32 :: "nat \<Rightarrow> nat \<Rightarrow> nat" where
  "add32 a b = (a + b) mod 4294967296"

definition sub32 :: "nat \<Rightarrow> nat \<Rightarrow> nat" where
  "sub32 a b = (a + (4294967296 - b mod 4294967296)) mod 4294967296"

definition mul32 :: "nat \<Rightarrow> nat \<Rightarrow> nat" where
  "mul32 a b = (a * b) mod 4294967296"

definition add64 :: "nat \<Rightarrow> nat \<Rightarrow> nat" where
  "add64 a b = (a + b) mod 18446744073709551616"

definition sub64 :: "nat \<Rightarrow> nat \<Rightarrow> nat" where
  "sub64 a b = (a + (18446744073709551616 - b mod 18446744073709551616)) mod 18446744073709551616"

definition mul64 :: "nat \<Rightarrow> nat \<Rightarrow> nat" where
  "mul64 a b = (a * b) mod 18446744073709551616"

named_theorems wrap_simps \<open>unsigned operations that do not wrap\<close>

lemma add32_exact [wrap_simps]: "a + b \<le> UINT32_MAX \<Longrightarrow> add32 a b = a + b"
  by (simp add: add32_def)

lemma sub32_exact [wrap_simps]:
  assumes "b \<le> a" and "a \<le> UINT32_MAX" shows "sub32 a b = a - b"
proof -
  have "b mod 4294967296 = b" using assms by simp
  moreover have "a + (4294967296 - b) = (a - b) + 4294967296" using assms by simp
  ultimately show ?thesis using assms by (simp only: sub32_def mod_add_self2) simp
qed

lemma mul32_exact [wrap_simps]: "a * b \<le> UINT32_MAX \<Longrightarrow> mul32 a b = a * b"
  by (simp add: mul32_def)

lemma add64_exact [wrap_simps]: "a + b \<le> UINT64_MAX \<Longrightarrow> add64 a b = a + b"
  by (simp add: add64_def)

lemma sub64_exact [wrap_simps]:
  assumes "b \<le> a" and "a \<le> UINT64_MAX" shows "sub64 a b = a - b"
proof -
  have "b mod 18446744073709551616 = b" using assms by simp
  moreover have "a + (18446744073709551616 - b) = (a - b) + 18446744073709551616"
    using assms by simp
  ultimately show ?thesis using assms by (simp only: sub64_def mod_add_self2) simp
qed

lemma mul64_exact [wrap_simps]: "a * b \<le> UINT64_MAX \<Longrightarrow> mul64 a b = a * b"
  by (simp add: mul64_def)

lemma wrap_bounds:
  "add32 a b \<le> UINT32_MAX" "sub32 a b \<le> UINT32_MAX" "mul32 a b \<le> UINT32_MAX"
  "add64 a b \<le> UINT64_MAX" "sub64 a b \<le> UINT64_MAX" "mul64 a b \<le> UINT64_MAX"
  by (simp_all add: add32_def sub32_def mul32_def add64_def sub64_def mul64_def less_Suc_eq_le
      flip: less_Suc_eq_le)

section \<open>C buffers\<close>

text \<open>
  \<open>blit p off bs\<close> is \<^verbatim>\<open>memcpy(p + off, bs, len)\<close> inside a buffer long enough for it;
  \<open>chunk p off n\<close> is the \<open>n\<close> bytes at \<open>p + off\<close>. A pointer that the caller may
  leave \<^verbatim>\<open>NULL\<close>, together with its element count, is a \<open>carr\<close>; a byte buffer of that kind
  is a \<open>cbuf\<close>. Pointers through which a function returns its outputs are not modelled: the
  outputs are the components of the result.

  A C string is a byte list in which the first zero byte, or the end of the list, is the
  terminator: \<open>cstr\<close> is its content, \<open>cchar\<close> the read of one character, and equality of
  contents is the outcome zero of \<^verbatim>\<open>strcmp\<close>. A \<^verbatim>\<open>char *\<close> that may be \<^verbatim>\<open>NULL\<close> is an option.
\<close>

definition blit :: "'a list \<Rightarrow> nat \<Rightarrow> 'a list \<Rightarrow> 'a list" where
  "blit p off bs =
     map (\<lambda>i. if off \<le> i \<and> i < off + length bs then bs ! (i - off) else p ! i) [0..<length p]"

definition chunk :: "'a list \<Rightarrow> nat \<Rightarrow> nat \<Rightarrow> 'a list" where
  "chunk p off n = take n (drop off p)"

datatype 'a carr = CNull nat | CMem "'a list"

type_synonym cbuf = "byte carr"

fun carr_length :: "'a carr \<Rightarrow> nat" where
  "carr_length (CNull n) = n"
| "carr_length (CMem xs) = length xs"

fun carr_items :: "'a carr \<Rightarrow> 'a list" where
  "carr_items (CNull n) = []"
| "carr_items (CMem xs) = xs"

fun carr_null :: "'a carr \<Rightarrow> bool" where
  "carr_null (CNull n) = True"
| "carr_null (CMem xs) = False"

definition cchar :: "bytes \<Rightarrow> nat \<Rightarrow> byte" where
  "cchar s i = (if i < length s then s ! i else 0)"

definition cstr :: "bytes \<Rightarrow> bytes" where
  "cstr s = takeWhile (\<lambda>c. c \<noteq> 0) s"

definition strcmp_eq :: "bytes \<Rightarrow> bytes \<Rightarrow> bool" where
  "strcmp_eq a b \<longleftrightarrow> cstr a = cstr b"

definition zeroes_bytes :: "nat \<Rightarrow> bytes" where
  "zeroes_bytes n = replicate n 0"

text \<open>A string literal of the source, as the bytes of its characters.\<close>

definition ascii :: "string \<Rightarrow> bytes" where
  "ascii s = map of_char s"

named_theorems codec_simps \<open>reads from and writes to byte buffers\<close>

lemma length_zeroes_bytes [simp, codec_simps]: "length (zeroes_bytes n) = n"
  by (simp add: zeroes_bytes_def)

lemma length_ascii [simp, codec_simps]: "length (ascii s) = length s"
  by (simp add: ascii_def)

lemma length_blit [simp, codec_simps]: "length (blit p off bs) = length p"
  by (simp add: blit_def)

lemma length_chunk [simp, codec_simps]:
  "off + n \<le> length p \<Longrightarrow> length (chunk p off n) = n"
  by (simp add: chunk_def)

lemma length_cstr_le: "length (cstr s) \<le> length s"
  by (simp add: cstr_def length_takeWhile_le)

lemma cstr_nonzero: "0 \<notin> set (cstr s)"
  by (auto simp: cstr_def dest: set_takeWhileD)

lemma cstr_id: "0 \<notin> set s \<Longrightarrow> cstr s = s"
  by (auto simp: cstr_def takeWhile_eq_all_conv)

lemma cstr_idem [simp]: "cstr (cstr s) = cstr s"
  by (simp add: cstr_id cstr_nonzero)

lemma cchar_cstr: "i \<le> length (cstr s) \<Longrightarrow> cchar s i = cchar (cstr s) i"
  unfolding cchar_def cstr_def
  by (metis (mono_tags, lifting) le_neq_implies_less length_takeWhile_le linorder_not_less
      nth_length_takeWhile order_trans takeWhile_nth)

lemma cchar_zero_iff:
  "i \<le> length (cstr s) \<Longrightarrow> cchar s i = 0 \<longleftrightarrow> i = length (cstr s)"
  by (metis cchar_cstr cchar_def cstr_nonzero le_neq_implies_less less_irrefl nth_mem)

lemma nth_blit:
  "i < length p \<Longrightarrow>
   blit p off bs ! i = (if off \<le> i \<and> i < off + length bs then bs ! (i - off) else p ! i)"
  by (simp add: blit_def)

lemma blit_Nil [simp]: "blit p off [] = p"
  by (rule nth_equalityI) (auto simp: nth_blit)

lemma blit_eq_append:
  "off + length bs \<le> length p \<Longrightarrow> blit p off bs = take off p @ bs @ drop (off + length bs) p"
  by (rule nth_equalityI) (auto simp: nth_blit nth_append min_def)

lemma nth_chunk [simp]: "i < n \<Longrightarrow> off + n \<le> length p \<Longrightarrow> chunk p off n ! i = p ! (off + i)"
  by (simp add: chunk_def)

lemma chunk_blit_same [codec_simps]:
  "n = length bs \<Longrightarrow> off + length bs \<le> length p \<Longrightarrow> chunk (blit p off bs) off n = bs"
  by (rule nth_equalityI) (simp_all add: nth_blit)

lemma chunk_blit_other [codec_simps]:
  "off + n \<le> length p \<Longrightarrow> off + n \<le> off' \<or> off' + length bs \<le> off \<Longrightarrow>
   chunk (blit p off' bs) off n = chunk p off n"
  by (rule nth_equalityI) (auto simp: nth_blit)

lemma chunk_zeroes [codec_simps]:
  "off + n \<le> m \<Longrightarrow> chunk (zeroes_bytes m) off n = zeroes_bytes n"
  by (simp add: chunk_def zeroes_bytes_def)

lemma take_blit [codec_simps]: "n \<le> off \<Longrightarrow> take n (blit p off bs) = take n p"
  by (rule nth_equalityI) (simp_all add: nth_blit)

lemma take_eq_chunk: "take n p = chunk p 0 n"
  by (simp add: chunk_def)

lemma chunk_chunk [simp]:
  "off' + n' \<le> n \<Longrightarrow> chunk (chunk p off n) off' n' = chunk p (off + off') n'"
  by (simp add: chunk_def take_drop min_def add.commute)

lemma chunk_all [simp]: "chunk p 0 (length p) = p"
  by (simp add: chunk_def)

lemma chunk_append_left [simp]:
  "off + n \<le> length xs \<Longrightarrow> chunk (xs @ ys) off n = chunk xs off n"
  by (simp add: chunk_def)

lemma chunk_append_right:
  "off = length xs + k \<Longrightarrow> chunk (xs @ ys) off n = chunk ys k n"
  by (simp add: chunk_def)

section \<open>Interleavings\<close>

text \<open>
  Threads that share a structure under a mutex are an interleaving of their critical sections: a
  step relation on the shared state. A state that every step keeps well formed stays so through
  any interleaving.
\<close>

locale step_invariant =
  fixes step :: "'s \<Rightarrow> 's \<Rightarrow> bool" and inv :: "'s \<Rightarrow> bool"
  assumes keeps: "step s s' \<Longrightarrow> inv s \<Longrightarrow> inv s'"
begin

lemma reachable: "step\<^sup>*\<^sup>* s s' \<Longrightarrow> inv s \<Longrightarrow> inv s'"
  by (induction rule: rtranclp_induct) (auto intro: keeps)

end

end
