(* ===== verification/Wadb_Encoding.thy ===== *)
theory Wadb_Encoding
  imports Wadb_Prelude
begin

unbundle bit_operations_syntax

text \<open>
  The model of \<^verbatim>\<open>src/core/encoding.c\<close>: status names, checked size arithmetic,
  identifier and UTF-8 validation, little-endian integers, CRC-32C and FNV-1a.
\<close>

section \<open>Definitions\<close>

subsection \<open>Status names and checked sizes\<close>

text \<open>The value of a status code as the C enumeration numbers it.\<close>

fun status_code :: "wadb_status \<Rightarrow> nat" where
  "status_code WADB_OK = 0"
| "status_code WADB_INVALID = 1"
| "status_code WADB_NOMEM = 2"
| "status_code WADB_IO = 3"
| "status_code WADB_CORRUPT = 4"
| "status_code WADB_VERSION = 5"
| "status_code WADB_EXISTS = 6"
| "status_code WADB_NOT_FOUND = 7"
| "status_code WADB_LOCKED = 8"
| "status_code WADB_SCHEMA_MISMATCH = 9"
| "status_code WADB_BACKPRESSURE = 10"
| "status_code WADB_LIMIT = 11"
| "status_code WADB_INDETERMINATE = 12"
| "status_code WADB_EXPIRED = 13"
| "status_code WADB_READ_ONLY = 14"
| "status_code WADB_CANCELLED = 15"

definition status_names :: "string list" where
  "status_names =
     [''ok'', ''invalid'', ''out_of_memory'', ''io_error'', ''corrupt'', ''unsupported_version'',
      ''already_exists'', ''not_found'', ''locked'', ''schema_mismatch'', ''backpressure'',
      ''resource_limit'', ''indeterminate_commit'', ''expired'', ''read_only'', ''cancelled'']"

definition wadb_status_name :: "nat \<Rightarrow> string" where
  "wadb_status_name status =
     (if status < length status_names then status_names ! status else ''unknown'')"

text \<open>\<open>None\<close> is the result \<^verbatim>\<open>false\<close>; \<open>Some n\<close> is \<^verbatim>\<open>true\<close> with \<^verbatim>\<open>*out = n\<close>.\<close>

definition wadb_add_size :: "nat \<Rightarrow> nat \<Rightarrow> nat option" where
  "wadb_add_size a b = (if a > sub64 UINT64_MAX b then None else Some (add64 a b))"

definition wadb_mul_size :: "nat \<Rightarrow> nat \<Rightarrow> nat option" where
  "wadb_mul_size a b = (if b \<noteq> 0 \<and> a > UINT64_MAX div b then None else Some (mul64 a b))"

subsection \<open>Identifiers\<close>

definition WADB_NAME_CAP :: nat where "WADB_NAME_CAP = 64"

definition identifier_char :: "nat \<Rightarrow> byte \<Rightarrow> bool" where
  "identifier_char i c \<longleftrightarrow>
     c = 95 \<or> (c \<ge> 65 \<and> c \<le> 90) \<or> (c \<ge> 97 \<and> c \<le> 122) \<or> (i \<noteq> 0 \<and> c \<ge> 48 \<and> c \<le> 57)"

function identifier_loop :: "bytes \<Rightarrow> nat \<Rightarrow> bool" where
  "identifier_loop name i =
     (if i < WADB_NAME_CAP then
        (let c = cchar name i in
         if c = 0 then True
         else if \<not> identifier_char i c then False
         else identifier_loop name (Suc i))
      else False)"
  by pat_completeness auto
termination
  by (relation "measure (\<lambda>(name, i). WADB_NAME_CAP - i)") auto

declare identifier_loop.simps [simp del]

definition wadb_identifier :: "bytes option \<Rightarrow> bool" where
  "wadb_identifier name =
     (case name of
        None \<Rightarrow> False
      | Some s \<Rightarrow> if cchar s 0 = 0 then False else identifier_loop s 0)"

subsection \<open>UTF-8\<close>

text \<open>
  The lead byte gives the number of continuation bytes, the least code point of that
  length and the payload bits of the lead byte; \<open>None\<close> is the final \<^verbatim>\<open>else return false\<close>.
\<close>

definition utf8_lead :: "u32 \<Rightarrow> (nat \<times> u32 \<times> u32) option" where
  "utf8_lead cp =
     (if cp \<ge> 0xc2 \<and> cp \<le> 0xdf then Some (1, 0x80, cp AND 0x1f)
      else if cp \<ge> 0xe0 \<and> cp \<le> 0xef then Some (2, 0x800, cp AND 0x0f)
      else if cp \<ge> 0xf0 \<and> cp \<le> 0xf4 then Some (3, 0x10000, cp AND 7)
      else None)"

fun utf8_more :: "nat \<Rightarrow> u32 \<Rightarrow> bytes \<Rightarrow> (u32 \<times> bytes) option" where
  "utf8_more 0 cp p = Some (cp, p)"
| "utf8_more (Suc more) cp [] = None"
| "utf8_more (Suc more) cp (b # p) =
     (if b AND 0xc0 \<noteq> 0x80 then None
      else utf8_more more (push_bit 6 cp OR ucast (b AND 0x3f)) p)"

lemma utf8_more_length:
  "utf8_more k cp p = Some (cp', p') \<Longrightarrow> length p' \<le> length p"
  by (induction k cp p rule: utf8_more.induct) (auto split: if_splits)

function utf8_loop :: "bytes \<Rightarrow> bool" where
  "utf8_loop [] = True"
| "utf8_loop (c # rest) =
     (let cp = ucast c :: u32 in
      if cp < 0x80 then utf8_loop rest
      else (case utf8_lead cp of
        None \<Rightarrow> False
      | Some (more, least, cp0) \<Rightarrow>
          if more > length rest then False
          else (case utf8_more more cp0 rest of
            None \<Rightarrow> False
          | Some (cp', rest') \<Rightarrow>
              if cp' < least \<or> cp' > 0x10ffff \<or> (cp' \<ge> 0xd800 \<and> cp' \<le> 0xdfff) then False
              else utf8_loop rest')))"
  by pat_completeness auto
termination
  by (relation "measure length") (auto dest!: utf8_more_length)

definition wadb_utf8 :: "cbuf \<Rightarrow> bool" where
  "wadb_utf8 data =
     (if carr_length data \<noteq> 0 \<and> carr_null data then False else utf8_loop (carr_items data))"

subsection \<open>Little-endian integers\<close>

definition wadb_get_u16 :: "bytes \<Rightarrow> u16" where
  "wadb_get_u16 p = ucast (p ! 0) OR push_bit 8 (ucast (p ! 1))"

definition wadb_get_u32 :: "bytes \<Rightarrow> u32" where
  "wadb_get_u32 p = ucast (p ! 0) OR push_bit 8 (ucast (p ! 1))
     OR push_bit 16 (ucast (p ! 2)) OR push_bit 24 (ucast (p ! 3))"

definition wadb_get_u64 :: "bytes \<Rightarrow> u64" where
  "wadb_get_u64 p = ucast (wadb_get_u32 p) OR push_bit 32 (ucast (wadb_get_u32 (drop 4 p)))"

definition wadb_get_i64 :: "bytes \<Rightarrow> int" where
  "wadb_get_i64 p =
     (let u = uint (wadb_get_u64 p)
      in if u \<le> INT64_MAX then u else -1 - (18446744073709551615 - u))"

definition wadb_put_u16 :: "u16 \<Rightarrow> bytes" where
  "wadb_put_u16 n = [ucast n, ucast (drop_bit 8 n)]"

definition wadb_put_u32 :: "u32 \<Rightarrow> bytes" where
  "wadb_put_u32 n = map (\<lambda>i. ucast (drop_bit (i * 8) n)) [0..<4]"

definition wadb_put_u64 :: "u64 \<Rightarrow> bytes" where
  "wadb_put_u64 n = map (\<lambda>i. ucast (drop_bit (i * 8) n)) [0..<8]"

subsection \<open>CRC-32C\<close>

definition crc_bit :: "u32 \<Rightarrow> u32" where
  "crc_bit x = drop_bit 1 x XOR (if x AND 1 \<noteq> 0 then 0x82f63b78 else 0)"

definition crc_entry :: "u32 \<Rightarrow> u32" where
  "crc_entry i = (crc_bit ^^ 8) i"

definition crc_init :: "u32 list" where
  "crc_init = map (\<lambda>i. crc_entry (of_nat i)) [0..<256]"

definition crc_step :: "u32 \<Rightarrow> byte \<Rightarrow> u32" where
  "crc_step crc b = crc_init ! unat ((crc XOR ucast b) AND 255) XOR drop_bit 8 crc"

definition wadb_crc32c :: "bytes \<Rightarrow> u32" where
  "wadb_crc32c data = NOT (foldl crc_step 0xffffffff data)"

subsection \<open>FNV-1a\<close>

definition wadb_hash :: "bytes \<Rightarrow> u64 \<Rightarrow> u64" where
  "wadb_hash data hash = foldl (\<lambda>h b. (h XOR ucast b) * 1099511628211) hash data"

section \<open>Checked sizes\<close>

lemma wadb_add_size_eq:
  assumes "a \<le> UINT64_MAX" and "b \<le> UINT64_MAX"
  shows "wadb_add_size a b = (if a + b \<le> UINT64_MAX then Some (a + b) else None)"
  using assms by (auto simp: wadb_add_size_def wrap_simps)

lemma wadb_mul_size_eq:
  assumes "a \<le> UINT64_MAX" and "b \<le> UINT64_MAX"
  shows "wadb_mul_size a b = (if a * b \<le> UINT64_MAX then Some (a * b) else None)"
proof (cases "b = 0")
  case True
  then show ?thesis by (simp add: wadb_mul_size_def mul64_def)
next
  case False
  then have "a \<le> UINT64_MAX div b \<longleftrightarrow> a * b \<le> UINT64_MAX"
    by (simp add: less_eq_div_iff_mult_less_eq)
  then show ?thesis
    using False by (auto simp: wadb_mul_size_def wrap_simps not_le)
qed

section \<open>Little-endian integers\<close>

lemma upt_4: "[0..<4] = [0, 1, 2, 3::nat]" by (simp add: upt_conv_Cons)
lemma upt_8: "[0..<8] = [0, 1, 2, 3, 4, 5, 6, 7::nat]" by (simp add: upt_conv_Cons)

lemma length_put_u16 [simp, codec_simps]: "length (wadb_put_u16 n) = 2"
  by (simp add: wadb_put_u16_def)

lemma length_put_u32 [simp, codec_simps]: "length (wadb_put_u32 n) = 4"
  by (simp add: wadb_put_u32_def)

lemma length_put_u64 [simp, codec_simps]: "length (wadb_put_u64 n) = 8"
  by (simp add: wadb_put_u64_def)

lemma get_put_u16 [simp, codec_simps]: "wadb_get_u16 (wadb_put_u16 n) = n"
  by (rule bit_word_eqI) (auto simp: wadb_get_u16_def wadb_put_u16_def bit_simps)

lemma get_put_u32 [simp, codec_simps]: "wadb_get_u32 (wadb_put_u32 n) = n"
proof (rule bit_word_eqI)
  fix k assume "k < LENGTH(32)"
  then have "k < 8 \<or> 8 \<le> k \<and> k < 16 \<or> 16 \<le> k \<and> k < 24 \<or> 24 \<le> k \<and> k < 32" by auto
  then show "bit (wadb_get_u32 (wadb_put_u32 n)) k = bit n k"
    by (elim disjE) (auto simp: wadb_get_u32_def wadb_put_u32_def upt_4 bit_simps)
qed

lemma get_put_u64 [simp, codec_simps]: "wadb_get_u64 (wadb_put_u64 n) = n"
proof (rule bit_word_eqI)
  have lo: "wadb_get_u32 (wadb_put_u64 n) = ucast n"
  proof (rule bit_word_eqI)
    fix k assume "k < LENGTH(32)"
    then have "k < 8 \<or> 8 \<le> k \<and> k < 16 \<or> 16 \<le> k \<and> k < 24 \<or> 24 \<le> k \<and> k < 32" by auto
    then show "bit (wadb_get_u32 (wadb_put_u64 n)) k = bit (ucast n :: u32) k"
      by (elim disjE) (auto simp: wadb_get_u32_def wadb_put_u64_def upt_8 bit_simps)
  qed
  have hi: "wadb_get_u32 (drop 4 (wadb_put_u64 n)) = ucast (drop_bit 32 n)"
  proof (rule bit_word_eqI)
    fix k assume "k < LENGTH(32)"
    then have "k < 8 \<or> 8 \<le> k \<and> k < 16 \<or> 16 \<le> k \<and> k < 24 \<or> 24 \<le> k \<and> k < 32" by auto
    then show "bit (wadb_get_u32 (drop 4 (wadb_put_u64 n))) k = bit (ucast (drop_bit 32 n) :: u32) k"
      by (elim disjE) (auto simp: wadb_get_u32_def wadb_put_u64_def upt_8 bit_simps)
  qed
  fix k assume "k < LENGTH(64)"
  then show "bit (wadb_get_u64 (wadb_put_u64 n)) k = bit n k"
    by (auto simp: wadb_get_u64_def lo hi bit_simps)
qed

lemma get_u16_chunk: "off + 2 \<le> length p \<Longrightarrow> wadb_get_u16 (drop off p) = wadb_get_u16 (chunk p off 2)"
  by (simp add: wadb_get_u16_def chunk_def)
lemma get_u32_chunk: "off + 4 \<le> length p \<Longrightarrow> wadb_get_u32 (drop off p) = wadb_get_u32 (chunk p off 4)"
  by (simp add: wadb_get_u32_def chunk_def)
lemma get_u64_chunk: "off + 8 \<le> length p \<Longrightarrow> wadb_get_u64 (drop off p) = wadb_get_u64 (chunk p off 8)"
  by (simp add: wadb_get_u64_def wadb_get_u32_def chunk_def add.commute)

lemma get_i64_put [codec_simps]:
  assumes "i64_range t"
  shows "wadb_get_i64 (wadb_put_u64 (word_of_int t)) = t"
proof (cases "0 \<le> t")
  case True
  then have "uint (word_of_int t :: u64) = t"
    using assms by (simp add: i64_range_def uint_word_of_int)
  then show ?thesis using assms by (simp add: wadb_get_i64_def i64_range_def)
next
  case False
  have "t mod 18446744073709551616 = t + 18446744073709551616"
  proof -
    have "(t + 18446744073709551616) mod 18446744073709551616 = t + 18446744073709551616"
      using assms False by (intro mod_pos_pos_trivial) (simp_all add: i64_range_def)
    then show ?thesis by (simp only: mod_add_self2)
  qed
  then have "uint (word_of_int t :: u64) = t + 18446744073709551616"
    by (simp add: uint_word_of_int)
  then show ?thesis using assms False by (simp add: wadb_get_i64_def i64_range_def)
qed


text \<open>Reads at an offset of a buffer into which fields have been written.\<close>

lemma get_at_chunk [codec_simps]:
  "off + 2 \<le> length p \<Longrightarrow> wadb_get_u16 (drop off p) = wadb_get_u16 (chunk p off 2)"
  "off + 4 \<le> length p \<Longrightarrow> wadb_get_u32 (drop off p) = wadb_get_u32 (chunk p off 4)"
  "off + 8 \<le> length p \<Longrightarrow> wadb_get_u64 (drop off p) = wadb_get_u64 (chunk p off 8)"
  "off + 8 \<le> length p \<Longrightarrow> wadb_get_i64 (drop off p) = wadb_get_i64 (chunk p off 8)"
  by (simp_all add: get_u16_chunk get_u32_chunk get_u64_chunk wadb_get_i64_def)

lemma get_zeroes [codec_simps]:
  "wadb_get_u16 (zeroes_bytes 2) = 0"
  "wadb_get_u32 (zeroes_bytes 4) = 0"
  "wadb_get_u64 (zeroes_bytes 8) = 0"
  by (simp_all add: wadb_get_u16_def wadb_get_u32_def wadb_get_u64_def zeroes_bytes_def)

section \<open>CRC-32C\<close>

lemma xor_cancel_left: "c XOR a = c XOR b \<longleftrightarrow> a = (b :: 'a::len word)"
  by (auto simp: bit_eq_iff bit_xor_iff)

lemma xor_cancel_right: "a XOR c = b XOR c \<longleftrightarrow> a = (b :: 'a::len word)"
  by (auto simp: bit_eq_iff bit_xor_iff)

lemma crc_bit_alt: "crc_bit x = drop_bit 1 x XOR (if bit x 0 then 0x82f63b78 else 0)"
  by (simp add: crc_bit_def and_one_eq bit_0 odd_iff_mod_2_eq_one)

lemma crc_bit_linear: "crc_bit (x XOR y) = crc_bit x XOR crc_bit y"
  by (rule bit_word_eqI) (auto simp: crc_bit_alt bit_simps)

lemma crc_bit_pow_linear: "(crc_bit ^^ k) (x XOR y) = (crc_bit ^^ k) x XOR (crc_bit ^^ k) y"
  by (induction k) (simp_all add: crc_bit_linear)

lemma crc_bit_push:
  assumes "\<not> bit y (31 - k)" and "k < 31"
  shows "crc_bit (push_bit (Suc k) y) = push_bit k y"
proof (rule bit_word_eqI)
  fix n assume "n < LENGTH(32)"
  then show "bit (crc_bit (push_bit (Suc k) y)) n = bit (push_bit k y) n"
    using assms
    by (cases "n = 31") (auto simp: crc_bit_alt bit_simps simp del: push_bit_Suc
        dest: bit_imp_le_length)
qed

lemma crc_bit_pow_push:
  "k \<le> 8 \<Longrightarrow> (\<And>n. 24 \<le> n \<Longrightarrow> \<not> bit y n) \<Longrightarrow> (crc_bit ^^ k) (push_bit k y) = y"
proof (induction k)
  case (Suc k)
  have "(crc_bit ^^ Suc k) (push_bit (Suc k) y) = (crc_bit ^^ k) (crc_bit (push_bit (Suc k) y))"
    by (simp add: funpow_swap1)
  also have "\<dots> = (crc_bit ^^ k) (push_bit k y)"
    using Suc.prems by (subst crc_bit_push) simp_all
  finally show ?case using Suc by simp
qed simp

lemma crc_bit_0: "crc_bit z = 0 \<Longrightarrow> z = 0"
proof -
  assume z: "crc_bit z = 0"
  then have "\<not> bit (crc_bit z) 31" by simp
  then have "\<not> bit z 0" 
    by (auto simp: crc_bit_alt bit_simps split: if_splits dest: bit_imp_le_length)
  show "z = 0"
  proof (rule bit_word_eqI)
    fix n assume n: "n < LENGTH(32)"
    have "\<not> bit (crc_bit z) (n - 1)" using z by simp
    with \<open>\<not> bit z 0\<close> n show "bit z n = bit 0 n"
      by (cases n) (auto simp: crc_bit_alt bit_simps)
  qed
qed

lemma crc_bit_pow_inj: "(crc_bit ^^ k) x = (crc_bit ^^ k) y \<longleftrightarrow> x = y"
proof
  assume "(crc_bit ^^ k) x = (crc_bit ^^ k) y"
  then have "(crc_bit ^^ k) (x XOR y) = 0" by (simp add: crc_bit_pow_linear)
  moreover have "(crc_bit ^^ k) z = 0 \<Longrightarrow> z = 0" for z
    by (induction k) (auto dest: crc_bit_0)
  ultimately have "x XOR y = 0" by blast
  then have "bit (x XOR y) n = bit (0 :: u32) n" for n by simp
  then show "x = y" by (intro bit_word_eqI) (simp add: bit_xor_iff)
qed simp

lemma crc_init_nth: "n < 256 \<Longrightarrow> crc_init ! n = crc_entry (of_nat n)"
  by (simp add: crc_init_def del: upt_rec_numeral)

lemma and_255: "x AND 255 = take_bit 8 (x :: u32)"
  by (simp add: take_bit_eq_mask mask_eq_exp_minus_1)

lemma crc_byte_split:
  "(crc_bit ^^ 8) x = crc_init ! unat (take_bit 8 x) XOR drop_bit 8 x"
proof -
  have split: "x = take_bit 8 x XOR push_bit 8 (drop_bit 8 x)"
  proof (rule bit_word_eqI)
    fix n assume "n < LENGTH(32)"
    then show "bit x n = bit (take_bit 8 x XOR push_bit 8 (drop_bit 8 x)) n"
      by (cases "n < 8") (auto simp: bit_simps)
  qed
  have "unat (take_bit 8 x) = take_bit 8 (unat x)" by (rule unsigned_take_bit_eq)
  then have "unat (take_bit 8 x) < 256" by (simp add: take_bit_eq_mod)
  then have lo: "crc_init ! unat (take_bit 8 x) = (crc_bit ^^ 8) (take_bit 8 x)"
    by (simp add: crc_init_nth crc_entry_def)
  have hi: "(crc_bit ^^ 8) (push_bit 8 (drop_bit 8 x)) = drop_bit 8 x"
    by (rule crc_bit_pow_push) (auto simp: bit_simps dest: bit_imp_le_length)
  have "(crc_bit ^^ 8) x
      = (crc_bit ^^ 8) (take_bit 8 x) XOR (crc_bit ^^ 8) (push_bit 8 (drop_bit 8 x))"
    by (subst split) (rule crc_bit_pow_linear)
  then show ?thesis by (simp only: lo hi)
qed

lemma crc_step_eq: "crc_step crc b = (crc_bit ^^ 8) (crc XOR ucast b)"
proof -
  have "drop_bit 8 (crc XOR ucast b) = drop_bit 8 crc"
    by (rule bit_word_eqI) (auto simp: bit_simps dest: bit_imp_le_length)
  then show ?thesis by (simp only: crc_step_def and_255 crc_byte_split)
qed

definition castagnoli_exponents :: "nat list" where
  "castagnoli_exponents = [28, 27, 26, 25, 23, 22, 20, 19, 18, 14, 13, 11, 10, 9, 8, 6, 0]"

definition crc_reference_bit :: "u32 \<Rightarrow> u32" where
  "crc_reference_bit x =
     drop_bit 1 x XOR (if bit x 0 then foldl (\<lambda>p e. set_bit (31 - e) p) 0 castagnoli_exponents else 0)"

definition crc_reference_step :: "u32 \<Rightarrow> byte \<Rightarrow> u32" where
  "crc_reference_step c b = (crc_reference_bit ^^ 8) (c XOR ucast b)"

definition crc_reference :: "bytes \<Rightarrow> u32" where
  "crc_reference data = NOT (foldl crc_reference_step 0xffffffff data)"

lemma crc_reference_bit_eq: "crc_reference_bit = crc_bit"
  by (intro ext) (simp add: crc_reference_bit_def crc_bit_alt castagnoli_exponents_def set_bit_eq_or)

lemma crc32c_reference: "wadb_crc32c data = crc_reference data"
proof -
  have "crc_step = crc_reference_step"
    by (intro ext) (simp only: crc_step_eq crc_reference_step_def crc_reference_bit_eq)
  then show ?thesis by (simp add: wadb_crc32c_def crc_reference_def)
qed

fun le_word :: "bytes \<Rightarrow> u32" where
  "le_word [] = 0"
| "le_word (b # bs) = ucast b XOR push_bit 8 (le_word bs)"

lemma le_word_bit: "bit (le_word bs) n \<Longrightarrow> n < 8 * length bs"
proof (induction bs arbitrary: n)
  case (Cons b bs)
  show ?case
  proof (cases "n < 8")
    case False
    then have "bit (le_word bs) (n - 8)"
      using Cons.prems by (auto simp: bit_simps dest: bit_imp_le_length)
    then show ?thesis using Cons.IH [of "n - 8"] False by simp
  qed simp
qed simp

lemma crc_run_window:
  "length bs \<le> 4 \<Longrightarrow> foldl crc_step c bs = (crc_bit ^^ (8 * length bs)) (c XOR le_word bs)"
proof (induction bs arbitrary: c)
  case (Cons b bs)
  let ?w = "le_word bs"
  have top: "\<not> bit ?w n" if "24 \<le> n" for n
    using le_word_bit [of bs n] that Cons.prems by auto
  have "foldl crc_step c (b # bs) = foldl crc_step ((crc_bit ^^ 8) (c XOR ucast b)) bs"
    by (simp add: crc_step_eq)
  also have "\<dots> = (crc_bit ^^ (8 * length bs)) ((crc_bit ^^ 8) (c XOR ucast b) XOR ?w)"
    using Cons by simp
  also have "(crc_bit ^^ 8) (c XOR ucast b) XOR ?w
      = (crc_bit ^^ 8) ((c XOR ucast b) XOR push_bit 8 ?w)"
    using crc_bit_pow_push [of 8 ?w] top by (simp add: crc_bit_pow_linear)
  also have "(crc_bit ^^ (8 * length bs)) ((crc_bit ^^ 8) ((c XOR ucast b) XOR push_bit 8 ?w))
      = (crc_bit ^^ (8 * length bs + 8)) ((c XOR ucast b) XOR push_bit 8 ?w)"
    by (simp only: funpow_add comp_apply)
  finally show ?case by (simp only: list.size le_word.simps xor.assoc mult_Suc_right add.commute
      add_0_right Suc_eq_plus1 distrib_left mult_1_right)
qed simp

lemma le_word_inj:
  "length xs = length ys \<Longrightarrow> length xs \<le> 4 \<Longrightarrow> le_word xs = le_word ys \<Longrightarrow> xs = ys"
proof (induction xs ys rule: list_induct2)
  case (Cons x xs y ys)
  have eq: "bit (le_word (x # xs)) n = bit (le_word (y # ys)) n" for n
    using Cons.prems by simp
  have "x = y"
  proof (rule bit_word_eqI)
    fix n assume "n < LENGTH(8)"
    then show "bit x n = bit y n" using eq [of n] by (simp add: bit_simps)
  qed
  have "le_word xs = le_word ys"
  proof (rule bit_word_eqI)
    fix n assume n: "n < LENGTH(32)"
    show "bit (le_word xs) n = bit (le_word ys) n"
    proof (cases "n < 24")
      case True
      then show ?thesis using eq [of "n + 8"] by (auto simp: bit_simps dest: bit_imp_le_length)
    next
      case False
      then show ?thesis using Cons.prems Cons.hyps le_word_bit [of xs n] le_word_bit [of ys n] by auto
    qed
  qed
  then show ?case using Cons \<open>x = y\<close> by simp
qed simp

lemma crc_run_inj: "foldl crc_step c zs = foldl crc_step d zs \<longleftrightarrow> c = d"
  by (induction zs arbitrary: c d) (simp_all add: crc_step_eq crc_bit_pow_inj xor_cancel_right)

lemma crc32c_burst:
  assumes "length xs = length ys" and "length xs \<le> 4" and "xs \<noteq> ys"
  shows "wadb_crc32c (as @ xs @ bs) \<noteq> wadb_crc32c (as @ ys @ bs)"
proof
  let ?c = "foldl crc_step 0xffffffff as"
  assume "wadb_crc32c (as @ xs @ bs) = wadb_crc32c (as @ ys @ bs)"
  then have "foldl crc_step ?c xs = foldl crc_step ?c ys"
    by (simp add: wadb_crc32c_def crc_run_inj)
  then have "?c XOR le_word xs = ?c XOR le_word ys"
    using assms by (simp only: crc_run_window crc_bit_pow_inj)
  then have "le_word xs = le_word ys" by (simp only: xor_cancel_left)
  then show False using assms le_word_inj by blast
qed

lemma funpow_8: "(f ^^ 8) x = f (f (f (f (f (f (f (f x)))))))"
  by (simp add: numeral_eq_Suc)

lemma crc32c_check: "wadb_crc32c (ascii ''123456789'') = 0xe3069283"
  by (simp add: crc32c_reference crc_reference_def ascii_def crc_reference_step_def crc_reference_bit_eq funpow_8 crc_bit_def)

section \<open>Identifiers\<close>

lemma identifier_loop_iff:
  "identifier_loop s i \<longleftrightarrow>
     (\<exists>n. i \<le> n \<and> n < WADB_NAME_CAP \<and> cchar s n = 0 \<and>
        (\<forall>j. i \<le> j \<and> j < n \<longrightarrow> cchar s j \<noteq> 0 \<and> identifier_char j (cchar s j)))"
proof (induction s i rule: identifier_loop.induct)
  case (1 s i)
  show ?case
  proof (cases "i < WADB_NAME_CAP \<and> cchar s i \<noteq> 0 \<and> identifier_char i (cchar s i)")
    case True
    then have "identifier_loop s i = identifier_loop s (Suc i)"
      by (simp add: identifier_loop.simps [of s i] Let_def)
    also have "\<dots> \<longleftrightarrow> (\<exists>n. Suc i \<le> n \<and> n < WADB_NAME_CAP \<and> cchar s n = 0 \<and>
        (\<forall>j. Suc i \<le> j \<and> j < n \<longrightarrow> cchar s j \<noteq> 0 \<and> identifier_char j (cchar s j)))"
      using True by (intro "1.IH") auto
    also have "\<dots> \<longleftrightarrow> (\<exists>n. i \<le> n \<and> n < WADB_NAME_CAP \<and> cchar s n = 0 \<and>
        (\<forall>j. i \<le> j \<and> j < n \<longrightarrow> cchar s j \<noteq> 0 \<and> identifier_char j (cchar s j)))"
      (is "?L \<longleftrightarrow> ?R")
    proof
      assume ?L
      then obtain n where n: "i < n" "n < WADB_NAME_CAP" "cchar s n = 0"
        "\<And>j. i < j \<Longrightarrow> j < n \<Longrightarrow> cchar s j \<noteq> 0 \<and> identifier_char j (cchar s j)"
        by (auto simp: Suc_le_eq)
      have "cchar s j \<noteq> 0 \<and> identifier_char j (cchar s j)" if "i \<le> j" "j < n" for j
        using that True n(4) by (cases "i = j") auto
      then show ?R using n by (intro exI [of _ n]) auto
    next
      assume ?R
      then obtain n where n: "i \<le> n" "n < WADB_NAME_CAP" "cchar s n = 0"
        "\<And>j. i \<le> j \<Longrightarrow> j < n \<Longrightarrow> cchar s j \<noteq> 0 \<and> identifier_char j (cchar s j)"
        by auto
      moreover have "n \<noteq> i" using True n(3) by auto
      ultimately show ?L by (intro exI [of _ n]) auto
    qed
    finally show ?thesis .
  next
    case False
    then show ?thesis
      by (auto simp: identifier_loop.simps [of s i] Let_def) (metis le_less nat_less_le)+
  qed
qed

lemma wadb_identifier_iff:
  "wadb_identifier (Some s) \<longleftrightarrow>
     cstr s \<noteq> [] \<and> length (cstr s) < WADB_NAME_CAP \<and>
     (\<forall>i < length (cstr s). identifier_char i (cstr s ! i))"
proof -
  let ?n = "length (cstr s)"
  have end_iff: "cchar s n = 0 \<and> (\<forall>j < n. cchar s j \<noteq> 0 \<and> P j) \<longleftrightarrow> n = ?n \<and> (\<forall>j < n. P j)" for n P
    using cchar_zero_iff [of n s] cchar_zero_iff [of ?n s] cchar_zero_iff [of _ s]
    by (cases "n \<le> ?n") (auto simp: not_le)
  have "identifier_loop s 0 \<longleftrightarrow>
      ?n < WADB_NAME_CAP \<and> (\<forall>j < ?n. identifier_char j (cchar s j))"
    unfolding identifier_loop_iff using end_iff [of _ "\<lambda>j. identifier_char j (cchar s j)"] by auto
  moreover have "cchar s j = cstr s ! j" if "j < ?n" for j
    using that cchar_cstr [of j s] by (simp add: cchar_def)
  ultimately show ?thesis
    using cchar_zero_iff [of 0 s] by (auto simp: wadb_identifier_def)
qed

text \<open>The letters that may begin a name and the digits that may follow.\<close>

definition name_letters :: bytes where
  "name_letters = ascii ''ABCDEFGHIJKLMNOPQRSTUVWXYZabcdefghijklmnopqrstuvwxyz_''"

definition name_digits :: bytes where
  "name_digits = ascii ''0123456789''"

lemma byte_interval: "(a :: byte) \<le> c \<and> c \<le> b \<longleftrightarrow> c \<in> set (map of_nat [unat a..<unat b + 1])"
proof
  assume "a \<le> c \<and> c \<le> b"
  then have "unat c \<in> set [unat a..<unat b + 1]" by (auto simp: word_le_nat_alt)
  moreover have "c = of_nat (unat c)" by simp
  ultimately show "c \<in> set (map of_nat [unat a..<unat b + 1])" by (metis image_eqI list.set_map)
next
  assume "c \<in> set (map of_nat [unat a..<unat b + 1])"
  then obtain n where n: "c = of_nat n" "unat a \<le> n" "n \<le> unat b" by auto
  have "n < 256" using n(3) unsigned_less [where ?'a = nat, of b] by simp
  then have "unat c = n" using n(1) by (simp add: unat_of_nat)
  then show "a \<le> c \<and> c \<le> b" using n by (simp add: word_le_nat_alt)
qed

lemma identifier_char_letters: "identifier_char 0 c \<longleftrightarrow> c \<in> set name_letters"
  unfolding identifier_char_def byte_interval
  by (simp add: name_letters_def ascii_def upt_rec) blast

lemma identifier_char_later: "identifier_char (Suc i) c \<longleftrightarrow> c \<in> set (name_letters @ name_digits)"
  unfolding identifier_char_def byte_interval
  by (simp add: name_letters_def name_digits_def ascii_def upt_rec) blast

section \<open>UTF-8\<close>

definition unicode_scalar :: "nat \<Rightarrow> bool" where
  "unicode_scalar cp \<longleftrightarrow> cp \<le> 0x10ffff \<and> \<not> (0xd800 \<le> cp \<and> cp \<le> 0xdfff)"

definition utf8_units :: "nat \<Rightarrow> nat list" where
  "utf8_units cp =
     (if cp < 0x80 then [cp]
      else if cp < 0x800 then [0xc0 + cp div 64, 0x80 + cp mod 64]
      else if cp < 0x10000 then [0xe0 + cp div 4096, 0x80 + cp div 64 mod 64, 0x80 + cp mod 64]
      else [0xf0 + cp div 262144, 0x80 + cp div 4096 mod 64, 0x80 + cp div 64 mod 64, 0x80 + cp mod 64])"

definition utf8_encode :: "nat \<Rightarrow> bytes" where
  "utf8_encode cp = map of_nat (utf8_units cp)"

lemma continuation_byte: "b AND 0xc0 = (0x80 :: byte) \<longleftrightarrow> 128 \<le> unat b \<and> unat b < 192"
proof -
  have mask: "b AND 0xc0 = push_bit 6 (drop_bit 6 b)"
  proof (rule bit_word_eqI)
    fix n assume "n < LENGTH(8)"
    then have "n \<in> {0,1,2,3,4,5,6,7}" by auto
    then show "bit (b AND 0xc0) n = bit (push_bit 6 (drop_bit 6 b)) n"
      by (auto simp: bit_simps)
  qed
  have "drop_bit 6 (b AND 0xc0) = drop_bit 6 b"
    unfolding mask by (rule bit_word_eqI) (auto simp: bit_simps dest: bit_imp_le_length)
  then have "b AND 0xc0 = 0x80 \<longleftrightarrow> drop_bit 6 b = 2"
    using mask by auto
  also have "\<dots> \<longleftrightarrow> unat (drop_bit 6 b) = 2"
    by (simp add: word_unat_eq_iff)
  also have "unat (drop_bit 6 b) = unat b div 64"
    by (simp add: drop_bit_eq_div unat_div)
  finally show ?thesis by auto
qed

lemma unat_low6: "unat (b AND 0x3f :: byte) = unat b mod 64"
proof -
  have "b AND 0x3f = b mod 64" 
  proof -
    have "b AND 0x3f = take_bit 6 b" by (simp only: take_bit_eq_mask) (simp add: mask_eq_exp_minus_1)
    then show ?thesis by (simp add: take_bit_eq_mod)
  qed
  then show ?thesis by (simp add: unat_mod)
qed

lemma unat_lead_bits:
  "unat (cp AND 0x1f :: u32) = unat cp mod 32"
  "unat (cp AND 0x0f :: u32) = unat cp mod 16"
  "unat (cp AND 7 :: u32) = unat cp mod 8"
proof -
  have "cp AND 0x1f = take_bit 5 cp" "cp AND 0x0f = take_bit 4 cp" "cp AND 7 = take_bit 3 cp"
    by (simp_all add: take_bit_eq_mask mask_eq_exp_minus_1)
  then show "unat (cp AND 0x1f) = unat cp mod 32" "unat (cp AND 0x0f) = unat cp mod 16"
    "unat (cp AND 7) = unat cp mod 8"
    by (simp_all add: take_bit_eq_mod unat_mod)
qed

lemma unat_utf8_shift:
  assumes "unat cp < 2 ^ 16"
  shows "unat (push_bit 6 cp OR ucast (b AND 0x3f :: byte) :: u32) = 64 * unat cp + unat b mod 64"
proof -
  let ?l = "ucast (b AND 0x3f) :: u32"
  have l: "unat ?l = unat b mod 64" using unat_low6 [of b] by (simp add: unsigned_ucast_eq take_bit_eq_mod)
  have "bit ?l n \<Longrightarrow> n < 6" for n
  proof -
    assume "bit ?l n"
    then have "bit (unat ?l) n" by (simp add: bit_unsigned_iff)
    then have "bit (take_bit 6 (unat b)) n" by (simp add: l take_bit_eq_mod)
    then show "n < 6" by (simp add: bit_take_bit_iff)
  qed
  then have "push_bit 6 cp AND ?l = 0"
    by (intro bit_word_eqI) (fastforce simp: bit_and_iff bit_push_bit_iff)
  then have "push_bit 6 cp OR ?l = push_bit 6 cp + ?l"
    by (simp add: disjunctive_add_eq_or)
  moreover have "unat (push_bit 6 cp) = 64 * unat cp"
    using assms by (simp add: push_bit_eq_mult unat_word_ariths mult.commute)
  ultimately show ?thesis
    using assms l by (simp add: unat_word_ariths)
qed

lemma unat_ucast_byte [simp]: "unat (ucast (c :: byte) :: u32) = unat c"
proof -
  have "unat c < 2 ^ LENGTH(8)" by (rule unsigned_less)
  then have "unat c < 4294967296" by simp
  then show ?thesis by (simp add: unsigned_ucast_eq take_bit_eq_mod)
qed

definition continuation :: "byte \<Rightarrow> bool" where
  "continuation b \<longleftrightarrow> 128 \<le> unat b \<and> unat b < 192"

lemma utf8_more_Cons:
  "utf8_more (Suc k) cp (b # p) =
     (if continuation b then utf8_more k (push_bit 6 cp OR ucast (b AND 0x3f)) p else None)"
  by (simp add: continuation_def continuation_byte)

declare utf8_more.simps(3) [simp del] utf8_more_Cons [simp]

definition code_point :: "nat \<Rightarrow> bytes \<Rightarrow> nat" where
  "code_point n bs = foldl (\<lambda>v b. 64 * v + unat b mod 64) n bs"

lemma utf8_more_Some:
  "(unat cp + 1) * 64 ^ k \<le> 2 ^ 22 \<Longrightarrow> length bs = k \<Longrightarrow> list_all continuation bs \<Longrightarrow>
   \<exists>cp'. utf8_more k cp (bs @ r) = Some (cp', r) \<and> unat cp' = code_point (unat cp) bs"
proof (induction k arbitrary: cp bs)
  case (Suc k)
  then obtain b bs' where bs: "bs = b # bs'" by (cases bs) auto
  let ?cp = "push_bit 6 cp OR ucast (b AND 0x3f) :: u32"
  have bound: "(64 * unat cp + 64) * 64 ^ k \<le> 2 ^ 22" using Suc.prems(1) by (simp add: algebra_simps)
  have "(64 * unat cp + 64) * 1 \<le> (64 * unat cp + 64) * 64 ^ k" by (intro mult_le_mono2) simp
  then have "(64 * unat cp + 64) * 1 \<le> 2 ^ 22" using bound by (rule order_trans)
  then have "unat cp < 2 ^ 16" by simp
  then have v: "unat ?cp = 64 * unat cp + unat b mod 64" by (rule unat_utf8_shift)
  have "(unat ?cp + 1) * 64 ^ k \<le> (64 * unat cp + 64) * 64 ^ k"
    unfolding v by (intro mult_le_mono1) (simp add: Suc_leI)
  with bound have "(unat ?cp + 1) * 64 ^ k \<le> 2 ^ 22" by (rule order_trans [rotated])
  then show ?case using Suc.IH [of ?cp bs'] Suc.prems v by (simp add: bs code_point_def)
qed (simp add: code_point_def)

lemma utf8_more_inv:
  "utf8_more k cp p = Some (cp', r) \<Longrightarrow> \<exists>bs. p = bs @ r \<and> length bs = k \<and> list_all continuation bs"
proof (induction k arbitrary: cp p)
  case (Suc k)
  then obtain b p' where p: "p = b # p'" by (cases p) auto
  with Suc.prems obtain bs where "p' = bs @ r" "length bs = k" "list_all continuation bs" "continuation b"
    using Suc.IH by (auto split: if_splits)
  then show ?case using p by (intro exI [of _ "b # bs"]) simp
qed simp

text \<open>The lead byte classes of the loop, on naturals.\<close>

definition lead_class :: "nat \<Rightarrow> (nat \<times> nat \<times> nat) option" where
  "lead_class c =
     (if 194 \<le> c \<and> c < 224 then Some (1, 0x80, c - 192)
      else if 224 \<le> c \<and> c < 240 then Some (2, 0x800, c - 224)
      else if 240 \<le> c \<and> c < 245 then Some (3, 0x10000, c - 240)
      else None)"

lemma mod_offset: "k * m \<le> n \<Longrightarrow> n < k * m + m \<Longrightarrow> n mod m = n - k * (m :: nat)"
  using mod_mult_self1 [of "n - k * m" k m] by simp

lemma utf8_lead_class:
  "utf8_lead (ucast (c :: byte)) =
     (case lead_class (unat c) of None \<Rightarrow> None
      | Some (k, m, v) \<Rightarrow> Some (k, of_nat m, of_nat v))"
proof -
  have "(ucast c AND 31 :: u32) = of_nat (unat c mod 32)" "(ucast c AND 15 :: u32) = of_nat (unat c mod 16)"
    "(ucast c AND 7 :: u32) = of_nat (unat c mod 8)"
    by (simp_all add: word_unat_eq_iff unat_lead_bits unat_of_nat)
  moreover have "192 \<le> n \<Longrightarrow> n < 224 \<Longrightarrow> n mod 32 = n - 192"
    "224 \<le> n \<Longrightarrow> n < 240 \<Longrightarrow> n mod 16 = n - 224"
    "240 \<le> n \<Longrightarrow> n < 248 \<Longrightarrow> n mod 8 = n - 240" for n :: nat
    using mod_offset [of 6 32 n] mod_offset [of 14 16 n] mod_offset [of 30 8 n] by simp_all
  ultimately show ?thesis
    by (auto simp: utf8_lead_def lead_class_def word_le_nat_alt)
qed

lemma utf8_loop_seq:
  assumes "lead_class (unat c) = Some (k, m, v)" and "length bs = k" and "list_all continuation bs"
  shows "utf8_loop (c # bs @ r) \<longleftrightarrow>
    m \<le> code_point v bs \<and> unicode_scalar (code_point v bs) \<and> utf8_loop r"
proof -
  have v: "(v + 1) * 64 ^ k \<le> 2 ^ 22" "v < 32" "m \<le> 0x10000" "128 \<le> unat c"
    using assms(1) by (auto simp: lead_class_def split: if_splits)
  have uv: "unat (of_nat v :: u32) = v" "unat (of_nat m :: u32) = m"
    using v by (simp_all add: unat_of_nat)
  obtain cp' where cp': "utf8_more k (of_nat v) (bs @ r) = Some (cp', r)"
    "unat cp' = code_point v bs"
    using utf8_more_Some [of "of_nat v" k bs r] assms(2,3) v uv by auto
  show ?thesis
    using assms v uv cp'
    by (auto simp: utf8_lead_class word_le_nat_alt word_less_nat_alt unicode_scalar_def Let_def)
qed

lemma utf8_loop_other:
  "unat c < 128 \<Longrightarrow> utf8_loop (c # r) = utf8_loop r"
  "128 \<le> unat c \<Longrightarrow> lead_class (unat c) = None \<Longrightarrow> \<not> utf8_loop (c # r)"
  by (simp_all add: utf8_lead_class word_less_nat_alt)

lemma utf8_loop_seqD:
  assumes "utf8_loop (c # p)" and "lead_class (unat c) = Some (k, m, v)"
  obtains bs r where "p = bs @ r" "length bs = k" "list_all continuation bs"
proof -
  have "128 \<le> unat c" using assms(2) by (auto simp: lead_class_def split: if_splits)
  then obtain cp' r where "utf8_more k (of_nat v) p = Some (cp', r)"
    using assms by (auto simp: utf8_lead_class word_less_nat_alt split: if_splits option.splits)
  then show ?thesis using utf8_more_inv that by blast
qed

lemma list_all_length_cases:
  "length bs = 1 \<Longrightarrow> \<exists>a. bs = [a]"
  "length bs = 2 \<Longrightarrow> \<exists>a b. bs = [a, b]"
  "length bs = 3 \<Longrightarrow> \<exists>a b c. bs = [a, b, c]"
  by (auto simp: numeral_eq_Suc length_Suc_conv)

text \<open>Every sequence the loop accepts is the encoding of its code point, and conversely.\<close>

lemma of_nat_byte: "of_nat (unat (b :: byte)) = b"
  by simp

lemma continuation_payload:
  "continuation b \<Longrightarrow> \<exists>y < 64. unat b = 128 + y"
  by (intro exI [of _ "unat b - 128"]) (auto simp: continuation_def)

lemma digit64:
  assumes "y < (64 :: nat)"
  shows "(64 * v + y) div 64 = v" "(64 * v + y) mod 64 = y"
  using assms by simp_all

lemma payload_mod: "y < 64 \<Longrightarrow> (128 + y) mod 64 = (y :: nat)"
  using mod_offset [of 2 64 "128 + y"] by simp

lemma unat_of_nat_byte: "n < 256 \<Longrightarrow> unat (of_nat n :: byte) = n"
  by (simp only: unat_of_nat) simp

lemma div_64_steps: "n div 4096 = n div 64 div 64" "n div 262144 = n div 64 div 64 div (64 :: nat)"
  by (simp_all flip: div_mult2_eq)

lemma utf8_encode_eqI: "utf8_units n = map unat p \<Longrightarrow> utf8_encode n = p"
  by (simp add: utf8_encode_def comp_def)

lemma encode_of_class:
  assumes "lead_class (unat c) = Some (k, m, v)" and "length bs = k" and "list_all continuation bs"
    and "m \<le> code_point v bs"
  shows "utf8_encode (code_point v bs) = c # bs"
proof (rule utf8_encode_eqI)
  consider "k = 1" | "k = 2" | "k = 3" using assms(1) by (auto simp: lead_class_def split: if_splits)
  then show "utf8_units (code_point v bs) = map unat (c # bs)"
  proof cases
    case 1
    then obtain a where bs: "bs = [a]" using assms(2) list_all_length_cases(1) [of bs] by auto
    then obtain y where y: "y < 64" "unat a = 128 + y"
      using assms(3) continuation_payload [of a] by auto
    have c: "unat c = 192 + v" "2 \<le> v" "v < 32"
      using assms(1) 1 by (auto simp: lead_class_def split: if_splits)
    have n: "code_point v bs = 64 * v + y" using y by (simp add: bs code_point_def payload_mod)
    have "\<not> 64 * v + y < 128" "64 * v + y < 2048" using c y by simp_all
    then show ?thesis unfolding n using y c by (simp add: utf8_units_def bs)
  next
    case 2
    then obtain a b where bs: "bs = [a, b]" using assms(2) list_all_length_cases(2) [of bs] by auto
    then obtain y z where y: "y < 64" "unat a = 128 + y" and z: "z < 64" "unat b = 128 + z"
      using assms(3) continuation_payload [of a] continuation_payload [of b] by auto
    have c: "unat c = 224 + v" "v < 16" "m = 0x800"
      using assms(1) 2 by (auto simp: lead_class_def split: if_splits)
    define u where "u = 64 * v + y"
    have n: "code_point v bs = 64 * u + z"
      using y z by (simp add: bs code_point_def payload_mod u_def)
    have "\<not> 64 * u + z < 2048" "64 * u + z < 65536" using c y z assms(4) n by (simp_all add: u_def)
    moreover have "u div 64 = v" "u mod 64 = y" using y by (simp_all add: u_def)
    ultimately show ?thesis
      unfolding n using y z c by (simp add: utf8_units_def bs div_64_steps)
  next
    case 3
    then obtain a b d where bs: "bs = [a, b, d]" using assms(2) list_all_length_cases(3) [of bs] by auto
    then obtain y z w where y: "y < 64" "unat a = 128 + y" and z: "z < 64" "unat b = 128 + z"
      and w: "w < 64" "unat d = 128 + w"
      using assms(3) continuation_payload [of a] continuation_payload [of b]
        continuation_payload [of d] by auto
    have c: "unat c = 240 + v" "v < 8" "m = 0x10000"
      using assms(1) 3 by (auto simp: lead_class_def split: if_splits)
    define u where "u = 64 * v + y"
    define t where "t = 64 * u + z"
    have n: "code_point v bs = 64 * t + w"
      using y z w by (simp add: bs code_point_def payload_mod u_def t_def)
    have "\<not> 64 * t + w < 65536" using c assms(4) n by simp
    moreover have "u div 64 = v" "u mod 64 = y" using y by (simp_all add: u_def)
    moreover have "t div 64 = u" "t mod 64 = z" using z by (simp_all add: t_def)
    ultimately show ?thesis
      unfolding n using y z w c by (simp add: utf8_units_def bs div_64_steps)
  qed
qed

lemma continuation_of_nat:
  assumes "y < 64"
  shows "continuation (of_nat (128 + y))" "unat (of_nat (128 + y) :: byte) mod 64 = y"
proof -
  have "unat (of_nat (128 + y) :: byte) = 128 + y" using assms by (intro unat_of_nat_byte) simp
  then show "continuation (of_nat (128 + y))" "unat (of_nat (128 + y) :: byte) mod 64 = y"
    using assms by (simp_all only: continuation_def payload_mod) simp
qed

lemma code_point_lists:
  "code_point v [a] = 64 * v + unat a mod 64"
  "code_point v [a, b] = 64 * (64 * v + unat a mod 64) + unat b mod 64"
  "code_point v [a, b, c] = 64 * (64 * (64 * v + unat a mod 64) + unat b mod 64) + unat c mod 64"
  by (simp_all add: code_point_def)

lemma recompose_64: "64 * (n div 64) + n mod 64 = (n :: nat)"
  by (rule mult_div_mod_eq)

lemma class_of_encode:
  assumes "unicode_scalar cp" and "128 \<le> cp"
  obtains c k m v bs where "utf8_encode cp = c # bs" "lead_class (unat c) = Some (k, m, v)"
    "length bs = k" "list_all continuation bs" "m \<le> cp" "code_point v bs = cp"
proof -
  have "x mod 64 < 64" for x :: nat by simp
  note cont = continuation_of_nat [OF this]
  consider "cp < 2048" | "2048 \<le> cp" "cp < 65536" | "65536 \<le> cp" by linarith
  then show ?thesis
  proof cases
    case 1
    let ?c = "of_nat (192 + cp div 64) :: byte"
    have c: "unat ?c = 192 + cp div 64" using 1 by (intro unat_of_nat_byte) simp
    have "2 \<le> cp div 64" "cp div 64 < 32" using assms 1 by simp_all
    then have "lead_class (unat ?c) = Some (1, 128, cp div 64)"
      unfolding c by (simp add: lead_class_def)
    moreover have "code_point (cp div 64) [of_nat (128 + cp mod 64)] = cp"
      by (simp only: code_point_lists cont recompose_64)
    moreover have "utf8_encode cp = [?c, of_nat (128 + cp mod 64)]"
      using 1 assms by (simp add: utf8_encode_def utf8_units_def)
    ultimately show ?thesis
      using assms by (intro that [of ?c "[of_nat (128 + cp mod 64)]"]) (simp_all add: cont del: of_nat_add)
  next
    case 2
    let ?c = "of_nat (224 + cp div 4096) :: byte"
    let ?bs = "[of_nat (128 + cp div 64 mod 64), of_nat (128 + cp mod 64)] :: bytes"
    have c: "unat ?c = 224 + cp div 4096" using 2 by (intro unat_of_nat_byte) simp
    have "cp div 4096 < 16" using 2 by simp
    then have "lead_class (unat ?c) = Some (2, 2048, cp div 4096)"
      unfolding c by (simp add: lead_class_def)
    moreover have "code_point (cp div 4096) ?bs = cp"
      by (simp only: code_point_lists cont div_64_steps recompose_64)
    moreover have "utf8_encode cp = ?c # ?bs"
      using 2 by (simp add: utf8_encode_def utf8_units_def)
    ultimately show ?thesis
      using 2 by (intro that [of ?c ?bs]) (simp_all add: cont del: of_nat_add)
  next
    case 3
    let ?c = "of_nat (240 + cp div 262144) :: byte"
    let ?bs = "[of_nat (128 + cp div 4096 mod 64), of_nat (128 + cp div 64 mod 64),
      of_nat (128 + cp mod 64)] :: bytes"
    have "cp div 262144 < 5" using assms by (simp add: unicode_scalar_def div_less_iff_less_mult)
    moreover from this have c: "unat ?c = 240 + cp div 262144" by (intro unat_of_nat_byte) simp
    ultimately have "lead_class (unat ?c) = Some (3, 65536, cp div 262144)"
      unfolding c by (simp add: lead_class_def)
    moreover have "code_point (cp div 262144) ?bs = cp"
      by (simp only: code_point_lists cont div_64_steps recompose_64)
    moreover have "utf8_encode cp = ?c # ?bs"
      using 3 by (simp add: utf8_encode_def utf8_units_def)
    ultimately show ?thesis
      using 3 by (intro that [of ?c ?bs]) (simp_all add: cont del: of_nat_add)
  qed
qed

lemma utf8_loop_encode:
  assumes "unicode_scalar cp"
  shows "utf8_loop (utf8_encode cp @ r) = utf8_loop r"
proof (cases "cp < 128")
  case True
  then have "utf8_encode cp = [of_nat cp]" "unat (of_nat cp :: byte) = cp"
    by (simp_all add: utf8_encode_def utf8_units_def unat_of_nat)
  then show ?thesis using True by (simp add: utf8_loop_other del: utf8_loop.simps)
next
  case False
  then obtain c k m v bs where e: "utf8_encode cp = c # bs" "lead_class (unat c) = Some (k, m, v)"
    "length bs = k" "list_all continuation bs" "m \<le> cp" "code_point v bs = cp"
    using assms by (elim class_of_encode) simp_all
  then show ?thesis
    using utf8_loop_seq [OF e(2,3,4), of r] assms by (simp del: utf8_loop.simps)
qed

lemma utf8_loop_decode:
  assumes "utf8_loop (c # p)"
  obtains cp r where "unicode_scalar cp" "c # p = utf8_encode cp @ r" "utf8_loop r"
proof (cases "unat c < 128")
  case True
  then have "utf8_encode (unat c) = [c]" by (simp add: utf8_encode_def utf8_units_def)
  then show ?thesis
    using True assms that [of "unat c" p]
    by (simp add: unicode_scalar_def utf8_loop_other del: utf8_loop.simps)
next
  case False
  then obtain k m v where cl: "lead_class (unat c) = Some (k, m, v)"
    using assms utf8_loop_other(2) [of c p] by (cases "lead_class (unat c)") auto
  then obtain bs r where p: "p = bs @ r" "length bs = k" "list_all continuation bs"
    using assms by (elim utf8_loop_seqD)
  then have "m \<le> code_point v bs" "unicode_scalar (code_point v bs)" "utf8_loop r"
    using assms utf8_loop_seq [OF cl p(2,3)] by blast+
  then show ?thesis
    using that [of "code_point v bs" r] encode_of_class [OF cl p(2,3)] p(1) by simp
qed

lemma utf8_loop_iff:
  "utf8_loop p \<longleftrightarrow> (\<exists>cps. list_all unicode_scalar cps \<and> p = concat (map utf8_encode cps))"
proof
  show "utf8_loop p \<Longrightarrow> \<exists>cps. list_all unicode_scalar cps \<and> p = concat (map utf8_encode cps)"
  proof (induction p rule: length_induct)
    case (1 p)
    show ?case
    proof (cases p)
      case Nil
      then show ?thesis by (intro exI [of _ "[]"]) simp
    next
      case (Cons c p')
      then obtain cp r where cp: "unicode_scalar cp" "p = utf8_encode cp @ r" "utf8_loop r"
        using 1 by (metis utf8_loop_decode)
      have "utf8_encode cp \<noteq> []" by (simp add: utf8_encode_def utf8_units_def)
      then have "length r < length p" using cp(2) by simp
      then obtain cps where "list_all unicode_scalar cps" "r = concat (map utf8_encode cps)"
        using 1 cp(3) by blast
      then show ?thesis using cp by (intro exI [of _ "cp # cps"]) simp
    qed
  qed
next
  have "list_all unicode_scalar cps \<Longrightarrow> utf8_loop (concat (map utf8_encode cps))" for cps
    by (induction cps) (simp_all add: utf8_loop_encode)
  then show "\<exists>cps. list_all unicode_scalar cps \<and> p = concat (map utf8_encode cps) \<Longrightarrow> utf8_loop p"
    by blast
qed

section \<open>Properties\<close>

text \<open>
  C21: the table-driven CRC-32C computes, for every input, the bit-at-a-time reflected CRC
  with polynomial \<open>0x82f63b78\<close>, initial value and final complement all ones.
\<close>

theorem crc32c_table_is_bitwise: "wadb_crc32c data = crc_reference data"
  by (rule crc32c_reference)

text \<open>
  C22: the checksum tells apart any two inputs of equal length that differ only inside one
  window of at most four bytes, wherever the window lies.
\<close>

theorem crc32c_detects_bursts:
  assumes "length xs = length ys" and "length xs \<le> 4" and "xs \<noteq> ys"
  shows "wadb_crc32c (as @ xs @ bs) \<noteq> wadb_crc32c (as @ ys @ bs)"
  using assms by (rule crc32c_burst)

theorem crc32c_detects_bursts_witness:
  "length [1, 2 :: byte] = length [1, 3 :: byte] \<and> length [1, 2 :: byte] \<le> 4 \<and> [1, 2 :: byte] \<noteq> [1, 3] \<and>
   wadb_crc32c ([7] @ [1, 2] @ [9]) \<noteq> wadb_crc32c ([7] @ [1, 3] @ [9])"
  using crc32c_detects_bursts [of "[1, 2]" "[1, 3]" "[7]" "[9]"] by simp

text \<open>
  C23: the UTF-8 validator accepts exactly the concatenations of UTF-8 encodings of Unicode
  scalar values: it rejects overlong forms, surrogates, code points past \<open>0x10ffff\<close>, stray
  and missing continuation bytes, and a null pointer with a nonzero length.
\<close>

theorem utf8_accepts_exactly_unicode:
  "wadb_utf8 data =
     (case data of
        CNull n \<Rightarrow> n = 0
      | CMem p \<Rightarrow> \<exists>cps. list_all unicode_scalar cps \<and> p = concat (map utf8_encode cps))"
  by (cases data) (simp_all add: wadb_utf8_def flip: utf8_loop_iff)

text \<open>
  C24: a C string is accepted as an identifier exactly when it is one of the 53 letters and
  underscore followed by at most 62 letters, underscores and digits; a null pointer never is.
\<close>

theorem identifier_language:
  "wadb_identifier name \<longleftrightarrow>
     (\<exists>s c cs. name = Some s \<and> cstr s = c # cs \<and> length cs \<le> 62 \<and>
        c \<in> set name_letters \<and> set cs \<subseteq> set (name_letters @ name_digits))"
proof (cases name)
  case (Some s)
  have "(\<forall>i < length (c # cs). identifier_char i ((c # cs) ! i)) \<longleftrightarrow>
      c \<in> set name_letters \<and> set cs \<subseteq> set (name_letters @ name_digits)" for c cs
    by (simp only: length_Cons All_less_Suc2 nth_Cons_0 nth_Cons_Suc identifier_char_letters identifier_char_later set_conv_nth [of cs]) auto
  then show ?thesis
    using Some by (cases "cstr s") (auto simp: wadb_identifier_iff WADB_NAME_CAP_def)
qed (simp add: wadb_identifier_def)

end
