(* ===== verification/Wadb_Float.thy ===== *)
theory Wadb_Float
  imports Wadb_Encoding
begin

unbundle bit_operations_syntax

text \<open>
  IEEE-754 binary32 and binary64 values as bit patterns, for the parts of the language that
  the sources use: \<^verbatim>\<open>isfinite\<close>, comparison with \<^verbatim>\<open>FLT_MAX\<close>, and the conversions between
  \<^verbatim>\<open>float\<close> and \<^verbatim>\<open>double\<close> under the default rounding mode (to nearest, ties to even).

  A magnitude (the pattern without its sign bit) with \<open>p\<close> bits of precision denotes the
  natural number \<open>fp_mag p bits\<close> in units of the smallest positive value of the format
  (\<open>2\<^sup>-\<^sup>1\<^sup>0\<^sup>7\<^sup>4\<close> for \<^verbatim>\<open>double\<close>, \<open>2\<^sup>-\<^sup>1\<^sup>4\<^sup>9\<close> for \<^verbatim>\<open>float\<close>). \<open>fp_round p s M\<close> is the
  magnitude nearest to \<open>M / 2\<^sup>s\<close> units.
\<close>

section \<open>Rounding\<close>

fun bit_length :: "nat \<Rightarrow> nat" where
  "bit_length n = (if n = 0 then 0 else Suc (bit_length (n div 2)))"

declare bit_length.simps [simp del]

definition round_half_even :: "nat \<Rightarrow> nat \<Rightarrow> nat" where
  "round_half_even M s =
     (let q = M div 2 ^ s; r = M mod 2 ^ s
      in if 2 * r < 2 ^ s \<or> (2 * r = 2 ^ s \<and> even q) then q else Suc q)"

definition fp_mag :: "nat \<Rightarrow> nat \<Rightarrow> nat" where
  "fp_mag p bits =
     (let e = bits div 2 ^ (p - 1); m = bits mod 2 ^ (p - 1)
      in if e = 0 then m else (2 ^ (p - 1) + m) * 2 ^ (e - 1))"

definition fp_round :: "nat \<Rightarrow> nat \<Rightarrow> nat \<Rightarrow> nat" where
  "fp_round p s M =
     (let k = bit_length M - (s + p) in k * 2 ^ (p - 1) + round_half_even M (s + k))"

section \<open>The two formats\<close>

definition f64_isfinite :: "u64 \<Rightarrow> bool" where
  "f64_isfinite w \<longleftrightarrow> drop_bit 52 (take_bit 63 w) \<noteq> 2047"

definition f32_isfinite :: "u32 \<Rightarrow> bool" where
  "f32_isfinite w \<longleftrightarrow> drop_bit 23 (take_bit 31 w) \<noteq> 255"

definition FLT_MAX :: u64 where "FLT_MAX = 0x47EFFFFFE0000000"

definition f64_fabs :: "u64 \<Rightarrow> u64" where
  "f64_fabs w = take_bit 63 w"

text \<open>\<^verbatim>\<open>fabs(x) > FLT_MAX\<close> for a finite \<open>x\<close>: nonnegative patterns are ordered as integers.\<close>

definition f64_exceeds_flt_max :: "u64 \<Rightarrow> bool" where
  "f64_exceeds_flt_max w \<longleftrightarrow> f64_fabs w > FLT_MAX"

definition f64_to_f32 :: "u64 \<Rightarrow> u32" where
  "f64_to_f32 w =
     (if bit w 63 then 0x80000000 else 0) OR
     of_nat (fp_round 24 925 (fp_mag 53 (unat (take_bit 63 w))))"

definition f32_to_f64 :: "u32 \<Rightarrow> u64" where
  "f32_to_f64 w =
     (if bit w 31 then 0x8000000000000000 else 0) OR
     of_nat (fp_round 53 0 (fp_mag 24 (unat (take_bit 31 w)) * 2 ^ 925))"

section \<open>Rounding is monotone and exact on representable values\<close>

lemma bit_length_0 [simp]: "bit_length 0 = 0"
  by (simp add: bit_length.simps)

lemma bit_length_bounds: "0 < n \<Longrightarrow> 0 < bit_length n \<and> 2 ^ (bit_length n - 1) \<le> n \<and> n < 2 ^ bit_length n"
proof (induction n rule: bit_length.induct)
  case (1 n)
  show ?case
  proof (cases "n div 2 = 0")
    case True
    then have "n = 1" using 1 by auto
    then show ?thesis by (simp add: bit_length.simps)
  next
    case False
    then have IH: "0 < bit_length (n div 2)" "2 ^ (bit_length (n div 2) - 1) \<le> n div 2" "n div 2 < 2 ^ bit_length (n div 2)"
      using 1 by auto
    have "2 * 2 ^ (bit_length (n div 2) - 1) = (2::nat) ^ bit_length (n div 2)"
      using IH(1) by (cases "bit_length (n div 2)") simp_all
    moreover have "bit_length n = Suc (bit_length (n div 2))" using 1 by (simp add: bit_length.simps [of n])
    moreover have "n = 2 * (n div 2) + n mod 2" by simp
    ultimately show ?thesis using IH by simp linarith
  qed
qed

lemma bit_length_eqI: "2 ^ k \<le> n \<Longrightarrow> n < 2 ^ Suc k \<Longrightarrow> bit_length n = Suc k"
proof -
  assume a: "2 ^ k \<le> n" "n < 2 ^ Suc k"
  have "0 < (2::nat) ^ k" by simp
  then have n: "0 < n" using a by linarith
  have "2 ^ k < (2::nat) ^ bit_length n" "(2::nat) ^ (bit_length n - 1) < 2 ^ Suc k"
    using a bit_length_bounds [OF n] by linarith+
  then have "k < bit_length n" "bit_length n - 1 < Suc k" by (simp_all only: power_strict_increasing_iff one_less_numeral_iff semiring_norm)
  then show ?thesis by simp
qed

lemma bit_length_mono: "m \<le> n \<Longrightarrow> bit_length m \<le> bit_length n"
proof (cases "m = 0")
  case False
  assume "m \<le> n"
  then have "2 ^ (bit_length m - 1) < (2::nat) ^ bit_length n"
    using False bit_length_bounds [of m] bit_length_bounds [of n] by linarith
  then show ?thesis by simp
qed simp

lemma bit_length_le: "n < 2 ^ k \<Longrightarrow> bit_length n \<le> k"
proof (cases "n = 0")
  case False
  assume "n < 2 ^ k"
  then have "2 ^ (bit_length n - 1) < (2::nat) ^ k"
    using False bit_length_bounds [of n] by linarith
  then show ?thesis by simp
qed simp

lemma bit_length_mult: "0 < m \<Longrightarrow> bit_length (m * 2 ^ s) = bit_length m + s"
proof -
  assume m: "0 < m"
  obtain k where k: "bit_length m = Suc k" using bit_length_bounds [OF m] by (cases "bit_length m") auto
  have "2 ^ k \<le> m" "m < 2 ^ Suc k" using bit_length_bounds [OF m] k by auto
  then have "2 ^ (k + s) \<le> m * 2 ^ s" "m * 2 ^ s < 2 ^ Suc (k + s)" by (simp_all add: power_add)
  then show ?thesis using bit_length_eqI k by simp
qed

lemma round_half_even_exact [simp]: "round_half_even (q * 2 ^ s) s = q"
  by (simp add: round_half_even_def)

lemma round_half_even_bounds: "M div 2 ^ s \<le> round_half_even M s" "round_half_even M s \<le> Suc (M div 2 ^ s)"
  by (simp_all add: round_half_even_def Let_def)

lemma round_half_even_mono: "M \<le> N \<Longrightarrow> round_half_even M s \<le> round_half_even N s"
proof -
  assume le: "M \<le> N"
  show ?thesis
  proof (cases "M div 2 ^ s = N div 2 ^ s")
    case True
    then have "M mod 2 ^ s \<le> N mod 2 ^ s"
      using le by (metis add_le_cancel_left div_mult_mod_eq)
    then show ?thesis using True by (auto simp: round_half_even_def Let_def)
  next
    case False
    then have "Suc (M div 2 ^ s) \<le> N div 2 ^ s" using div_le_mono [OF le, of "2 ^ s"] by linarith
    then show ?thesis using round_half_even_bounds [of M s] round_half_even_bounds [of N s] by linarith
  qed
qed

lemma round_half_even_upper: "M < 2 ^ (s + n) \<Longrightarrow> round_half_even M s \<le> 2 ^ n"
  using round_half_even_bounds(2) [of M s]
  by (metis Suc_leI dual_order.trans less_mult_imp_div_less mult.commute power_add)

lemma fp_round_mono:
  assumes "0 < p" and "M \<le> N"
  shows "fp_round p s M \<le> fp_round p s N"
proof -
  let ?k = "bit_length M - (s + p)" and ?l = "bit_length N - (s + p)"
  have kl: "?k \<le> ?l" using bit_length_mono [OF assms(2)] by simp
  show ?thesis
  proof (cases "?k = ?l")
    case True
    then show ?thesis using round_half_even_mono [OF assms(2)] by (simp add: fp_round_def Let_def)
  next
    case False
    have two: "2 * 2 ^ (p - 1) = (2::nat) ^ p" using assms(1) by (cases p) simp_all
    have "M < 2 ^ (s + ?k + p)"
    proof (cases "M = 0")
      case False
      then have "M < 2 ^ bit_length M" using bit_length_bounds by auto
      also have "\<dots> \<le> 2 ^ (s + ?k + p)" by (rule power_increasing) auto
      finally show ?thesis .
    qed simp
    then have up: "round_half_even M (s + ?k) \<le> 2 ^ p" using round_half_even_upper by blast
    have "0 < N" using False assms(2) kl by (cases "N = 0") auto
    moreover have "bit_length N - 1 = s + ?l + (p - 1)" using False kl assms(1) by simp
    ultimately have "2 ^ (s + ?l + (p - 1)) \<le> N" using bit_length_bounds [of N] by simp
    then have "2 ^ (s + ?l + (p - 1)) div 2 ^ (s + ?l) \<le> N div 2 ^ (s + ?l)" by (rule div_le_mono)
    moreover have "2 ^ (s + ?l + (p - 1)) div 2 ^ (s + ?l) = (2::nat) ^ (p - 1)"
      using power_diff [of "2::nat" "s + ?l" "s + ?l + (p - 1)"] by simp
    ultimately have "2 ^ (p - 1) \<le> round_half_even N (s + ?l)"
      using round_half_even_bounds(1) [of N "s + ?l"] by linarith
    moreover have "(?k + 1) * 2 ^ (p - 1) \<le> ?l * 2 ^ (p - 1)" using False kl by (intro mult_right_mono) auto
    ultimately show ?thesis using two up by (simp add: fp_round_def Let_def algebra_simps)
  qed
qed

lemma fp_round_exact:
  assumes "0 < p"
  shows "fp_round p s (fp_mag p bits * 2 ^ s) = bits"
proof -
  let ?b = "2 ^ (p - 1) :: nat"
  define e m where "e = bits div ?b" and "m = bits mod ?b"
  have bits: "bits = e * ?b + m" by (simp only: e_def m_def div_mult_mod_eq)
  have m: "m < ?b" by (simp add: m_def)
  have two: "2 * ?b = 2 ^ p" using assms by (cases p) simp_all
  have mag: "fp_mag p bits = (if e = 0 then m else (?b + m) * 2 ^ (e - 1))"
    by (simp add: fp_mag_def e_def m_def Let_def)
  show ?thesis
  proof (cases e)
    case 0
    have "bit_length (m * 2 ^ s) \<le> s + p"
      using m by (intro bit_length_le) (simp add: power_add mult.commute less_le_trans power_increasing)
    moreover have "fp_mag p bits = m" using 0 mag by simp
    ultimately show ?thesis using 0 bits by (simp add: fp_round_def)
  next
    case (Suc k)
    have "bit_length (?b + m) = p"
      using m assms two bit_length_eqI [of "p - 1" "?b + m"] by simp
    then have "bit_length ((?b + m) * 2 ^ k * 2 ^ s) = p + (k + s)"
      using bit_length_mult [of "?b + m" "k + s"] by (simp add: power_add mult.assoc)
    moreover have "(?b + m) * 2 ^ k * 2 ^ s = (?b + m) * 2 ^ (s + k)" by (simp add: power_add)
    moreover have "fp_mag p bits = (?b + m) * 2 ^ k" using Suc mag by simp
    ultimately have "fp_round p s (fp_mag p bits * 2 ^ s) = k * ?b + (?b + m)"
      by (simp only: fp_round_def Let_def) simp
    then show ?thesis using Suc bits by simp
  qed
qed

lemma fp_mag_mono:
  assumes "a \<le> b"
  shows "fp_mag p a \<le> fp_mag p b"
proof -
  let ?h = "2 ^ (p - 1) :: nat"
  let ?e = "a div ?h" and ?e' = "b div ?h"
  have e: "?e \<le> ?e'" using assms by (rule div_le_mono)
  show ?thesis
  proof (cases "?e = ?e'")
    case True
    then have "a mod ?h \<le> b mod ?h" using assms by (metis add_le_cancel_left div_mult_mod_eq)
    then show ?thesis using True by (simp add: fp_mag_def Let_def)
  next
    case False
    have "fp_mag p a \<le> ?h * 2 ^ ?e"
    proof (cases ?e)
      case (Suc k)
      have "(?h + a mod ?h) * 2 ^ k \<le> (2 * ?h) * 2 ^ k"
        by (intro mult_right_mono) (simp_all add: mult_2 less_imp_le)
      then show ?thesis using Suc by (simp add: fp_mag_def Let_def mult_ac)
    qed (simp add: fp_mag_def less_imp_le)
    also have "\<dots> \<le> ?h * 2 ^ (?e' - 1)"
      using False e by (intro mult_left_mono power_increasing) auto
    also have "\<dots> \<le> fp_mag p b"
      using False e by (simp add: fp_mag_def Let_def)
    finally show ?thesis .
  qed
qed

lemma fp_mag_round:
  assumes "0 < p" and "q < 2 ^ p"
  shows "fp_mag p (fp_round p 0 (q * 2 ^ j)) = q * 2 ^ j"
proof (cases "q = 0")
  case True
  then show ?thesis by (simp add: fp_mag_def fp_round_def round_half_even_def)
next
  case False
  let ?M = "q * 2 ^ j" and ?h = "2 ^ (p - 1) :: nat"
  define k where "k = bit_length ?M - p"
  have two: "2 * ?h = 2 ^ p" using assms(1) by (cases p) simp_all
  have len: "bit_length ?M = bit_length q + j" using False bit_length_mult by simp
  then have kj: "k \<le> j" using bit_length_le [OF assms(2)] by (simp add: k_def)
  define r where "r = q * 2 ^ (j - k)"
  have M: "?M = r * 2 ^ k" using kj by (simp add: r_def mult.assoc flip: power_add)
  have "fp_round p 0 ?M = k * ?h + round_half_even ?M k"
    by (simp add: fp_round_def k_def Let_def)
  then have rnd: "fp_round p 0 ?M = k * ?h + r"
    by (simp only: M round_half_even_exact)
  have "?M < 2 ^ bit_length ?M" "2 ^ (bit_length ?M - 1) \<le> ?M"
    using bit_length_bounds [of ?M] False by simp_all
  moreover have "bit_length ?M \<le> p + k" by (simp add: k_def)
  ultimately have "?M < 2 ^ p * 2 ^ k" unfolding power_add [symmetric]
    by (meson less_le_trans one_le_numeral power_increasing)
  then have r_hi: "r < 2 ^ p" unfolding M by simp
  show ?thesis
  proof (cases "r < ?h")
    case True
    have "k = 0"
    proof (rule ccontr)
      assume "k \<noteq> 0"
      then have "bit_length ?M - 1 = (p - 1) + k" using assms(1) by (simp add: k_def)
      then have "?h * 2 ^ k \<le> r * 2 ^ k"
        using \<open>2 ^ (bit_length ?M - 1) \<le> ?M\<close> M by (simp add: power_add)
      then show False using True by simp
    qed
    then show ?thesis using True rnd M by (simp add: fp_mag_def)
  next
    case False
    then obtain x where x: "r = ?h + x" using le_Suc_ex not_less by blast
    have "x < ?h" using r_hi two x by linarith
    then have "(x + (k + 1) * ?h) div ?h = k + 1" "(x + (k + 1) * ?h) mod ?h = x"
      by (simp_all only: div_mult_self1 mod_mult_self1 power_not_zero zero_neq_numeral not_False_eq_True
          div_less mod_less add_0_right)
    moreover have "k * ?h + r = x + (k + 1) * ?h" using x by simp
    ultimately show ?thesis using rnd M x by (simp only: fp_mag_def Let_def) simp
  qed
qed

lemma fp_mag_significand: "0 < p \<Longrightarrow> \<exists>q j. fp_mag p bits = q * 2 ^ j \<and> q < 2 ^ p"
proof -
  assume p: "0 < p"
  have two: "2 * 2 ^ (p - 1) = (2::nat) ^ p" using p by (cases p) simp_all
  have m: "bits mod 2 ^ (p - 1) < 2 ^ (p - 1)" by simp
  have "fp_mag p bits = bits mod 2 ^ (p - 1) * 2 ^ 0 \<or>
      fp_mag p bits = (2 ^ (p - 1) + bits mod 2 ^ (p - 1)) * 2 ^ (bits div 2 ^ (p - 1) - 1)"
    by (simp add: fp_mag_def Let_def)
  moreover have "bits mod 2 ^ (p - 1) < 2 ^ p" "2 ^ (p - 1) + bits mod 2 ^ (p - 1) < 2 ^ p"
    using m two by linarith+
  ultimately show ?thesis by metis
qed

section \<open>Conversions between the formats\<close>

lemma take_bit_nat_bound: "unat (take_bit n (w :: 'a::len word)) < 2 ^ n"
  by (metis take_bit_nat_less_exp unsigned_take_bit_eq)

lemma flt_max_widened: "fp_mag 53 (unat FLT_MAX) = fp_mag 24 0x7F7FFFFF * 2 ^ 925"
  by (simp add: fp_mag_def FLT_MAX_def)

lemma f32_magnitude_max:
  assumes "\<not> f64_exceeds_flt_max w"
  shows "fp_round 24 925 (fp_mag 53 (unat (take_bit 63 w))) \<le> 0x7F7FFFFF"
proof -
  have "unat (take_bit 63 w) \<le> unat FLT_MAX"
    using assms by (simp add: f64_exceeds_flt_max_def f64_fabs_def not_less word_le_nat_alt)
  then have "fp_mag 53 (unat (take_bit 63 w)) \<le> fp_mag 24 0x7F7FFFFF * 2 ^ 925"
    using fp_mag_mono flt_max_widened by metis
  then show ?thesis
    using fp_round_mono [of 24 _ "fp_mag 24 0x7F7FFFFF * 2 ^ 925" 925] fp_round_exact [of 24 925 "0x7F7FFFFF"]
    by (metis zero_less_numeral)
qed

lemma unat_or_sign32:
  assumes "n < 0x80000000"
  shows "unat (take_bit 31 ((if b then 0x80000000 else 0) OR of_nat n :: u32)) = n"
    and "bit ((if b then 0x80000000 else 0) OR of_nat n :: u32) 31 = b"
proof -
  have z: "take_bit 31 (0x80000000 :: u32) = 0" by simp
  have "take_bit 31 (of_nat n :: u32) = of_nat n"
    using assms by (simp only: take_bit_of_nat) (simp add: take_bit_nat_eq_self)
  then show "unat (take_bit 31 ((if b then 0x80000000 else 0) OR of_nat n :: u32)) = n"
    using assms z by (simp add: unat_of_nat take_bit_or)
  have "\<not> bit (of_nat n :: u32) 31"
    using \<open>take_bit 31 (of_nat n :: u32) = of_nat n\<close> by (metis bit_take_bit_iff less_irrefl)
  moreover have "bit (0x80000000 :: u32) 31" by simp
  ultimately show "bit ((if b then 0x80000000 else 0) OR of_nat n :: u32) 31 = b"
    by (simp add: bit_or_iff)
qed

lemma unat_or_sign64:
  assumes "n < 0x8000000000000000"
  shows "unat (take_bit 63 ((if b then 0x8000000000000000 else 0) OR of_nat n :: u64)) = n"
    and "bit ((if b then 0x8000000000000000 else 0) OR of_nat n :: u64) 63 = b"
proof -
  have z: "take_bit 63 (0x8000000000000000 :: u64) = 0" by simp
  have "take_bit 63 (of_nat n :: u64) = of_nat n"
    using assms by (simp only: take_bit_of_nat) (simp add: take_bit_nat_eq_self)
  then show "unat (take_bit 63 ((if b then 0x8000000000000000 else 0) OR of_nat n :: u64)) = n"
    using assms z by (simp add: unat_of_nat take_bit_or)
  have "\<not> bit (of_nat n :: u64) 63"
    using \<open>take_bit 63 (of_nat n :: u64) = of_nat n\<close> by (metis bit_take_bit_iff less_irrefl)
  moreover have "bit (0x8000000000000000 :: u64) 63" by simp
  ultimately show "bit ((if b then 0x8000000000000000 else 0) OR of_nat n :: u64) 63 = b"
    by (simp add: bit_or_iff)
qed

lemma sign_or_magnitude32: "(if bit w 31 then 0x80000000 else 0) OR take_bit 31 w = (w :: u32)"
proof (rule bit_word_eqI)
  fix n assume "n < LENGTH(32)"
  moreover have "bit (0x80000000 :: u32) n \<longleftrightarrow> n = 31" if "n < 32" for n
    using that bit_exp_iff [of 31 n, where 'a = u32] by simp
  ultimately show "bit ((if bit w 31 then 0x80000000 else 0) OR take_bit 31 w) n = bit w n"
    by (cases "n = 31") (auto simp: bit_or_iff bit_take_bit_iff)
qed

lemma isfinite_iff:
  "f32_isfinite v \<longleftrightarrow> unat (take_bit 31 v) div 2 ^ 23 \<noteq> 255"
  "f64_isfinite w \<longleftrightarrow> unat (take_bit 63 w) div 2 ^ 52 \<noteq> 2047"
  by (simp_all add: f32_isfinite_def f64_isfinite_def word_unat_eq_iff drop_bit_eq_div unat_div)

text \<open>Narrowing a finite double within the range of \<^verbatim>\<open>float\<close> gives a finite float.\<close>

lemma f64_to_f32_finite:
  "\<not> f64_exceeds_flt_max w \<Longrightarrow> f32_isfinite (f64_to_f32 w)"
proof -
  assume "\<not> f64_exceeds_flt_max w"
  then have le: "fp_round 24 925 (fp_mag 53 (unat (take_bit 63 w))) \<le> 0x7F7FFFFF"
    by (rule f32_magnitude_max)
  then have "unat (take_bit 31 (f64_to_f32 w)) = fp_round 24 925 (fp_mag 53 (unat (take_bit 63 w)))"
    unfolding f64_to_f32_def by (intro unat_or_sign32) simp
  then show ?thesis using le by (simp add: isfinite_iff)
qed

text \<open>Widening is exact, so a stored float survives being read and stored again.\<close>

lemma f32_widened:
  assumes "f32_isfinite x"
  shows "unat (take_bit 63 (f32_to_f64 x)) = fp_round 53 0 (fp_mag 24 (unat (take_bit 31 x)) * 2 ^ 925)"
    and "bit (f32_to_f64 x) 63 = bit x 31"
    and "\<not> f64_exceeds_flt_max (f32_to_f64 x)"
proof -
  let ?b = "unat (take_bit 31 x)"
  have "?b div 2 ^ 23 \<noteq> 255" using assms by (simp only: isfinite_iff) simp
  moreover have "?b < 2 ^ 31" by (rule take_bit_nat_bound)
  ultimately have b: "?b \<le> 0x7F7FFFFF" by simp
  have "fp_mag 24 ?b * 2 ^ 925 \<le> fp_mag 53 (unat FLT_MAX) * 2 ^ 0"
    using fp_mag_mono [OF b, of 24] flt_max_widened by simp
  then have le: "fp_round 53 0 (fp_mag 24 ?b * 2 ^ 925) \<le> unat FLT_MAX"
    using fp_round_mono [of 53 _ "fp_mag 53 (unat FLT_MAX) * 2 ^ 0" 0] fp_round_exact [of 53 0 "unat FLT_MAX"]
    by (metis zero_less_numeral)
  moreover have "unat FLT_MAX < 0x8000000000000000" by (simp add: FLT_MAX_def)
  ultimately have lt: "fp_round 53 0 (fp_mag 24 ?b * 2 ^ 925) < 0x8000000000000000" by linarith
  show mag: "unat (take_bit 63 (f32_to_f64 x)) = fp_round 53 0 (fp_mag 24 ?b * 2 ^ 925)"
    and "bit (f32_to_f64 x) 63 = bit x 31"
    by (simp_all only: f32_to_f64_def unat_or_sign64 [OF lt])
  show "\<not> f64_exceeds_flt_max (f32_to_f64 x)"
    using le by (simp add: f64_exceeds_flt_max_def f64_fabs_def not_less word_le_nat_alt mag)
qed

lemma f64_to_f32_widened:
  assumes "f32_isfinite x"
  shows "f64_to_f32 (f32_to_f64 x) = x"
proof -
  let ?b = "unat (take_bit 31 x)"
  obtain q j where q: "fp_mag 24 ?b = q * 2 ^ j" "q < 2 ^ 24" using fp_mag_significand [of 24] zero_less_numeral by blast
  then have "q < 2 ^ 53" by simp
  then have "fp_mag 53 (fp_round 53 0 (fp_mag 24 ?b * 2 ^ 925)) = fp_mag 24 ?b * 2 ^ 925"
    using fp_mag_round [of 53 q "j + 925"] q(1) by (simp only: power_add mult.assoc zero_less_numeral)
  then have "fp_round 24 925 (fp_mag 53 (unat (take_bit 63 (f32_to_f64 x)))) = ?b"
    using fp_round_exact [of 24 925 ?b] by (simp only: f32_widened [OF assms] zero_less_numeral)
  then have "f64_to_f32 (f32_to_f64 x) = (if bit x 31 then 0x80000000 else 0) OR of_nat ?b"
    by (simp only: f64_to_f32_def f32_widened [OF assms])
  also have "\<dots> = x" using sign_or_magnitude32 [of x] by simp
  finally show ?thesis .
qed

lemma f32_to_f64_finite: "f32_isfinite x \<Longrightarrow> f64_isfinite (f32_to_f64 x)"
proof -
  assume "f32_isfinite x"
  then have "take_bit 63 (f32_to_f64 x) \<le> FLT_MAX"
    using f32_widened(3) by (simp add: f64_exceeds_flt_max_def f64_fabs_def not_less)
  then have "unat (take_bit 63 (f32_to_f64 x)) div 2 ^ 52 \<le> unat FLT_MAX div 2 ^ 52"
    by (intro div_le_mono) (simp add: word_le_nat_alt)
  then show ?thesis
    by (auto simp: isfinite_iff FLT_MAX_def)
qed

end
