(* ===== verification/Wadb_Schema.thy ===== *)
theory Wadb_Schema
  imports Wadb_Encoding Wadb_Float
begin

unbundle bit_operations_syntax

text \<open>
  The model of \<^verbatim>\<open>src/core/schema.c\<close>: field types, the construction of a row layout from
  field definitions, and the row codec (\<^verbatim>\<open>wadb_encode_row\<close>, \<^verbatim>\<open>wadb_decode_value\<close>,
  \<^verbatim>\<open>wadb_validate_row\<close>).

  The C union in \<^verbatim>\<open>wadb_value\<close> has two views here: \<open>as_word\<close> is the 64 bits shared by
  \<^verbatim>\<open>i64\<close>, \<^verbatim>\<open>u64\<close> and \<^verbatim>\<open>f64\<close>, \<open>as_bytes\<close> the pointer and length. The field's type selects
  the view, as the header requires. A decoded value has the other view zero.

  The symbol resolvers are arguments, as in the code: the encoder threads a context through
  its resolver, the decoder only reads one. What the row codec needs of them is the locale
  \<open>symbol_table\<close>, interpreted on the dictionary in \<open>Wadb_Dictionary\<close>.
\<close>

section \<open>Types\<close>

datatype wadb_type =
    WADB_I8 | WADB_U8 | WADB_I16 | WADB_U16 | WADB_I32 | WADB_U32
  | WADB_I64 | WADB_U64 | WADB_F32 | WADB_F64 | WADB_BOOL
  | WADB_TIMESTAMP_US | WADB_UUID | WADB_BYTES | WADB_TEXT | WADB_SYMBOL32
  | WADB_TYPE_OTHER nat

text \<open>The number of an enumerator; \<open>WADB_TYPE_OTHER\<close> stands for a number that names none.\<close>

fun type_code :: "wadb_type \<Rightarrow> nat" where
  "type_code WADB_I8 = 1"
| "type_code WADB_U8 = 2"
| "type_code WADB_I16 = 3"
| "type_code WADB_U16 = 4"
| "type_code WADB_I32 = 5"
| "type_code WADB_U32 = 6"
| "type_code WADB_I64 = 7"
| "type_code WADB_U64 = 8"
| "type_code WADB_F32 = 9"
| "type_code WADB_F64 = 10"
| "type_code WADB_BOOL = 11"
| "type_code WADB_TIMESTAMP_US = 12"
| "type_code WADB_UUID = 13"
| "type_code WADB_BYTES = 14"
| "type_code WADB_TEXT = 15"
| "type_code WADB_SYMBOL32 = 16"
| "type_code (WADB_TYPE_OTHER n) = n"

definition type_list :: "wadb_type list" where
  "type_list =
     [WADB_I8, WADB_U8, WADB_I16, WADB_U16, WADB_I32, WADB_U32, WADB_I64, WADB_U64, WADB_F32,
      WADB_F64, WADB_BOOL, WADB_TIMESTAMP_US, WADB_UUID, WADB_BYTES, WADB_TEXT, WADB_SYMBOL32]"

definition type_of_code :: "nat \<Rightarrow> wadb_type" where
  "type_of_code n = (if 1 \<le> n \<and> n \<le> 16 then type_list ! (n - 1) else WADB_TYPE_OTHER n)"

definition type_names :: "string list" where
  "type_names =
     [''invalid'', ''i8'', ''u8'', ''i16'', ''u16'', ''i32'', ''u32'', ''i64'', ''u64'', ''f32'',
      ''f64'', ''bool'', ''timestamp_us'', ''uuid'', ''bytes'', ''text'', ''symbol32'']"

definition wadb_type_name :: "wadb_type \<Rightarrow> string" where
  "wadb_type_name t =
     (if type_code t < length type_names then type_names ! type_code t else ''invalid'')"

definition wadb_type_parse :: "bytes option \<Rightarrow> wadb_type" where
  "wadb_type_parse name =
     (case name of
        None \<Rightarrow> WADB_TYPE_OTHER 0
      | Some s \<Rightarrow>
          (case find (\<lambda>i. strcmp_eq s (ascii (wadb_type_name (type_of_code i)))) [1..<17] of
             None \<Rightarrow> WADB_TYPE_OTHER 0
           | Some i \<Rightarrow> type_of_code i))"

fun type_width :: "wadb_type \<Rightarrow> nat \<Rightarrow> nat" where
  "type_width t n =
     (case t of
        WADB_I8 \<Rightarrow> 1 | WADB_U8 \<Rightarrow> 1 | WADB_BOOL \<Rightarrow> 1
      | WADB_I16 \<Rightarrow> 2 | WADB_U16 \<Rightarrow> 2
      | WADB_I32 \<Rightarrow> 4 | WADB_U32 \<Rightarrow> 4 | WADB_F32 \<Rightarrow> 4 | WADB_SYMBOL32 \<Rightarrow> 4
      | WADB_I64 \<Rightarrow> 8 | WADB_U64 \<Rightarrow> 8 | WADB_F64 \<Rightarrow> 8 | WADB_TIMESTAMP_US \<Rightarrow> 8
      | WADB_UUID \<Rightarrow> 16
      | WADB_BYTES \<Rightarrow> n
      | WADB_TEXT \<Rightarrow> add32 n 4
      | WADB_TYPE_OTHER _ \<Rightarrow> 0)"

section \<open>Schemas\<close>

definition WADB_MAX_FIELDS :: nat where "WADB_MAX_FIELDS = 256"
definition WADB_MAX_ROW_BYTES :: nat where "WADB_MAX_ROW_BYTES = 16384"
definition WADB_MAX_STRING_BYTES :: nat where "WADB_MAX_STRING_BYTES = 65536"

record wadb_field_def =
  d_name :: "bytes option"
  d_type :: wadb_type
  d_size :: nat
  d_nullable :: bool

record wadb_field =
  f_name :: bytes
  f_type :: wadb_type
  f_size :: nat
  f_nullable :: bool
  f_offset :: nat
  f_width :: nat
  f_null_bit :: nat

record wadb_schema =
  field_count :: nat
  row_width :: nat
  null_bytes :: nat
  fingerprint :: u64
  schema_fields :: "wadb_field list"

text \<open>The first loop of \<^verbatim>\<open>wadb_schema_build\<close>; \<open>seen\<close> are the definitions before the current one.\<close>

fun check_defs :: "wadb_field_def list \<Rightarrow> wadb_field_def list \<Rightarrow> nat \<Rightarrow> nat res" where
  "check_defs seen [] nullable = Inr nullable"
| "check_defs seen (d # ds) nullable =
     (if \<not> wadb_identifier (d_name d) \<or> strcmp_eq (the (d_name d)) (ascii ''_time'')
      then Inl WADB_INVALID
      else if list_ex (\<lambda>s. strcmp_eq (the (d_name d)) (the (d_name s))) seen
      then Inl WADB_INVALID
      else
        (let sized = (d_type d = WADB_BYTES \<or> d_type d = WADB_TEXT) in
         if (sized \<and> (d_size d = 0 \<or> d_size d > WADB_MAX_ROW_BYTES)) \<or> (\<not> sized \<and> d_size d \<noteq> 0)
         then Inl WADB_INVALID
         else if type_width (d_type d) (d_size d) = 0 then Inl WADB_INVALID
         else check_defs (seen @ [d]) ds (nullable + (if d_nullable d then 1 else 0))))"

text \<open>The second loop: offsets and null bits. The result carries the end offset.\<close>

fun place_fields :: "wadb_field_def list \<Rightarrow> nat \<Rightarrow> nat \<Rightarrow> (wadb_field list \<times> nat) res" where
  "place_fields [] offset null_bit = Inr ([], offset)"
| "place_fields (d # ds) offset null_bit =
     (let f = \<lparr>f_name = cstr (the (d_name d)), f_type = d_type d, f_size = d_size d,
               f_nullable = d_nullable d, f_offset = offset,
               f_width = type_width (d_type d) (d_size d),
               f_null_bit = (if d_nullable d then null_bit else UINT32_MAX)\<rparr>
      in if f_width f > sub32 WADB_MAX_ROW_BYTES offset then Inl WADB_LIMIT
         else bind_res
           (place_fields ds (add32 offset (f_width f))
             (if d_nullable d then null_bit + 1 else null_bit))
           (\<lambda>(fs, end). Inr (f # fs, end)))"

definition time_field :: wadb_field where
  "time_field =
     \<lparr>f_name = ascii ''_time'', f_type = WADB_TIMESTAMP_US, f_size = 0, f_nullable = False,
      f_offset = 0, f_width = 8, f_null_bit = UINT32_MAX\<rparr>"

definition align8 :: "nat \<Rightarrow> nat" where
  "align8 offset = unat ((of_nat (add32 offset 7) :: u32) AND NOT 7)"

definition hash_field :: "u64 \<Rightarrow> wadb_field \<Rightarrow> u64" where
  "hash_field hash f =
     (let spec = wadb_put_u32 (of_nat (type_code (f_type f))) @ wadb_put_u32 (of_nat (f_size f)) @
                 wadb_put_u32 (if f_nullable f then 1 else 0)
      in wadb_hash spec (wadb_hash (cstr (f_name f) @ [0]) hash))"

definition wadb_schema_build :: "wadb_field_def carr \<Rightarrow> wadb_schema res" where
  "wadb_schema_build defs =
     (if (carr_length defs \<noteq> 0 \<and> carr_null defs) \<or> carr_length defs \<ge> WADB_MAX_FIELDS
      then Inl WADB_INVALID
      else bind_res (check_defs [] (carr_items defs) 0) (\<lambda>nullable.
        let nbytes = (nullable + 7) div 8 in
        bind_res (place_fields (carr_items defs) (8 + nbytes) 0) (\<lambda>(fs, end).
          let all = time_field # fs in
          Inr \<lparr>field_count = carr_length defs + 1, row_width = align8 end, null_bytes = nbytes,
               fingerprint = foldl hash_field 14695981039346656037 all, schema_fields = all\<rparr>)))"

definition wadb_schema_find :: "wadb_schema option \<Rightarrow> bytes option \<Rightarrow> int" where
  "wadb_schema_find s name =
     (case (s, name) of
        (Some sc, Some n) \<Rightarrow>
          (case find (\<lambda>i. strcmp_eq (f_name (schema_fields sc ! i)) n) [0..<field_count sc] of
             None \<Rightarrow> -1
           | Some i \<Rightarrow> int i)
      | _ \<Rightarrow> -1)"

section \<open>Values and the row codec\<close>

record wadb_value =
  is_null :: bool
  as_word :: u64
  as_bytes :: cbuf

definition as_i64 :: "wadb_value \<Rightarrow> int" where
  "as_i64 v = sint (as_word v)"

definition as_u64 :: "wadb_value \<Rightarrow> nat" where
  "as_u64 v = unat (as_word v)"

definition word_value :: "u64 \<Rightarrow> wadb_value" where
  "word_value w = \<lparr>is_null = False, as_word = w, as_bytes = CNull 0\<rparr>"

definition bytes_value :: "cbuf \<Rightarrow> wadb_value" where
  "bytes_value b = \<lparr>is_null = False, as_word = 0, as_bytes = b\<rparr>"

definition null_value :: wadb_value where
  "null_value = \<lparr>is_null = True, as_word = 0, as_bytes = CNull 0\<rparr>"

type_synonym 'c symbol_encode = "'c \<Rightarrow> nat \<Rightarrow> cbuf \<Rightarrow> 'c \<times> nat res"
type_synonym symbol_decode = "nat \<Rightarrow> nat \<Rightarrow> cbuf res"

definition put_width :: "nat \<Rightarrow> u64 \<Rightarrow> bytes" where
  "put_width n u = map (\<lambda>j. ucast (drop_bit (j * 8) u)) [0..<n]"

definition get_width :: "nat \<Rightarrow> bytes \<Rightarrow> u64" where
  "get_width n p = foldl (\<lambda>u i. u OR push_bit (i * 8) (ucast (p ! i))) 0 [0..<n]"

definition encode_signed :: "wadb_field \<Rightarrow> wadb_value \<Rightarrow> bytes res" where
  "encode_signed f v =
     (let bits = f_width f * 8 in
      if bits < 64 \<and> (as_i64 v < - (2 ^ (bits - 1)) \<or> as_i64 v \<ge> 2 ^ (bits - 1))
      then Inl WADB_INVALID
      else Inr (put_width (f_width f) (as_word v)))"

definition encode_unsigned :: "wadb_field \<Rightarrow> wadb_value \<Rightarrow> bytes res" where
  "encode_unsigned f v =
     (if (f_width f < 8 \<and> as_u64 v \<ge> 2 ^ (f_width f * 8)) \<or> (f_type f = WADB_BOOL \<and> as_u64 v > 1)
      then Inl WADB_INVALID
      else Inr (put_width (f_width f) (as_word v)))"

definition encode_fixed :: "wadb_field \<Rightarrow> wadb_value \<Rightarrow> bytes res" where
  "encode_fixed f v =
     (if carr_length (as_bytes v) \<noteq> f_width f \<or> carr_null (as_bytes v) then Inl WADB_INVALID
      else Inr (carr_items (as_bytes v)))"

text \<open>
  \<^verbatim>\<open>wadb_encode_field\<close> writes at the field's position; the result is what it writes there.
\<close>

definition wadb_encode_field ::
  "wadb_field \<Rightarrow> wadb_value \<Rightarrow> nat \<Rightarrow> 'c symbol_encode option \<Rightarrow> 'c \<Rightarrow> 'c \<times> bytes res" where
  "wadb_encode_field f v field resolve ctx =
     (case f_type f of
        WADB_I8 \<Rightarrow> (ctx, encode_signed f v)
      | WADB_I16 \<Rightarrow> (ctx, encode_signed f v)
      | WADB_I32 \<Rightarrow> (ctx, encode_signed f v)
      | WADB_I64 \<Rightarrow> (ctx, encode_signed f v)
      | WADB_TIMESTAMP_US \<Rightarrow> (ctx, encode_signed f v)
      | WADB_U8 \<Rightarrow> (ctx, encode_unsigned f v)
      | WADB_U16 \<Rightarrow> (ctx, encode_unsigned f v)
      | WADB_U32 \<Rightarrow> (ctx, encode_unsigned f v)
      | WADB_U64 \<Rightarrow> (ctx, encode_unsigned f v)
      | WADB_BOOL \<Rightarrow> (ctx, encode_unsigned f v)
      | WADB_F32 \<Rightarrow>
          (ctx, if \<not> f64_isfinite (as_word v) \<or> f64_exceeds_flt_max (as_word v)
                then Inl WADB_INVALID
                else Inr (put_width (f_width f) (ucast (f64_to_f32 (as_word v)))))
      | WADB_F64 \<Rightarrow>
          (ctx, if \<not> f64_isfinite (as_word v) then Inl WADB_INVALID
                else Inr (put_width (f_width f) (as_word v)))
      | WADB_UUID \<Rightarrow> (ctx, encode_fixed f v)
      | WADB_BYTES \<Rightarrow> (ctx, encode_fixed f v)
      | WADB_TEXT \<Rightarrow>
          (ctx, if carr_length (as_bytes v) > f_size f \<or> \<not> wadb_utf8 (as_bytes v)
                then Inl WADB_INVALID
                else Inr (wadb_put_u32 (of_nat (carr_length (as_bytes v))) @ carr_items (as_bytes v)))
      | WADB_SYMBOL32 \<Rightarrow>
          if carr_length (as_bytes v) > WADB_MAX_STRING_BYTES \<or> \<not> wadb_utf8 (as_bytes v)
          then (ctx, Inl WADB_INVALID)
          else (case resolve of
              None \<Rightarrow> (ctx, Inl WADB_INVALID)
            | Some r \<Rightarrow>
                (case r ctx field (as_bytes v) of
                   (ctx', Inl e) \<Rightarrow> (ctx', Inl e)
                 | (ctx', Inr n) \<Rightarrow>
                     (ctx', if n = 0 then Inl WADB_INVALID else Inr (wadb_put_u32 (of_nat n)))))
      | WADB_TYPE_OTHER _ \<Rightarrow> (ctx, Inl WADB_INVALID))"

definition set_null_bit :: "wadb_field \<Rightarrow> bytes \<Rightarrow> bytes" where
  "set_null_bit f p =
     (let k = 8 + f_null_bit f div 8 in p[k := p ! k OR push_bit (f_null_bit f mod 8) 1])"

definition null_bit_set :: "wadb_field \<Rightarrow> bytes \<Rightarrow> bool" where
  "null_bit_set f p \<longleftrightarrow>
     p ! (8 + f_null_bit f div 8) AND push_bit (f_null_bit f mod 8) 1 \<noteq> 0"

fun encode_fields ::
  "wadb_field list \<Rightarrow> wadb_value list \<Rightarrow> nat \<Rightarrow> 'c symbol_encode option \<Rightarrow> 'c \<Rightarrow> bytes \<Rightarrow>
   'c \<times> bytes res" where
  "encode_fields [] values i resolve ctx p = (ctx, Inr p)"
| "encode_fields (f # fs) values i resolve ctx p =
     (let v = values ! (i - 1) in
      if is_null v then
        (if \<not> f_nullable f then (ctx, Inl WADB_INVALID)
         else encode_fields fs values (i + 1) resolve ctx (set_null_bit f p))
      else (case wadb_encode_field f v i resolve ctx of
          (ctx', Inl e) \<Rightarrow> (ctx', Inl e)
        | (ctx', Inr bs) \<Rightarrow>
            encode_fields fs values (i + 1) resolve ctx' (blit p (f_offset f) bs)))"

text \<open>\<open>cap\<close> is the capacity of the output buffer; the row occupies its first \<^verbatim>\<open>row_width\<close> bytes.\<close>

definition wadb_encode_row ::
  "wadb_schema \<Rightarrow> wadb_value carr \<Rightarrow> int \<Rightarrow> 'c symbol_encode option \<Rightarrow> 'c \<Rightarrow> nat \<Rightarrow> 'c \<times> bytes res"
  where
  "wadb_encode_row s values time resolve ctx cap =
     (if cap < row_width s \<or> (field_count s > 1 \<and> carr_null values) then (ctx, Inl WADB_INVALID)
      else encode_fields (drop 1 (take (field_count s) (schema_fields s))) (carr_items values) 1 resolve ctx
        (blit (zeroes_bytes (row_width s)) 0 (wadb_put_u64 (word_of_int time))))"

definition decode_signed :: "nat \<Rightarrow> u64 \<Rightarrow> int" where
  "decode_signed bits u =
     (if u AND push_bit (bits - 1) 1 \<noteq> 0
      then -1 - int (unat ((push_bit bits 1 - 1) - u))
      else int (unat u))"

definition wadb_decode_value ::
  "wadb_schema \<Rightarrow> nat \<Rightarrow> bytes \<Rightarrow> symbol_decode option \<Rightarrow> wadb_value res" where
  "wadb_decode_value s index row resolve =
     (if index \<ge> field_count s then Inl WADB_INVALID
      else
        (let f = schema_fields s ! index; p = drop (f_offset f) row in
         if f_nullable f \<and> null_bit_set f row then Inr null_value
         else
           (let u = (if f_width f \<le> 8 then get_width (f_width f) p else 0);
                signed = word_value (word_of_int (decode_signed (f_width f * 8) u))
            in case f_type f of
                 WADB_I8 \<Rightarrow> Inr signed
               | WADB_I16 \<Rightarrow> Inr signed
               | WADB_I32 \<Rightarrow> Inr signed
               | WADB_I64 \<Rightarrow> Inr (word_value (word_of_int (wadb_get_i64 p)))
               | WADB_TIMESTAMP_US \<Rightarrow> Inr (word_value (word_of_int (wadb_get_i64 p)))
               | WADB_U8 \<Rightarrow> Inr (word_value u)
               | WADB_U16 \<Rightarrow> Inr (word_value u)
               | WADB_U32 \<Rightarrow> Inr (word_value u)
               | WADB_U64 \<Rightarrow> Inr (word_value u)
               | WADB_BOOL \<Rightarrow> if u > 1 then Inl WADB_CORRUPT else Inr (word_value u)
               | WADB_F32 \<Rightarrow>
                   if \<not> f32_isfinite (ucast u) then Inl WADB_CORRUPT
                   else Inr (word_value (f32_to_f64 (ucast u)))
               | WADB_F64 \<Rightarrow>
                   if \<not> f64_isfinite u then Inl WADB_CORRUPT else Inr (word_value u)
               | WADB_UUID \<Rightarrow> Inr (bytes_value (CMem (take (f_width f) p)))
               | WADB_BYTES \<Rightarrow> Inr (bytes_value (CMem (take (f_width f) p)))
               | WADB_TEXT \<Rightarrow>
                   (let n = unat (wadb_get_u32 p); d = CMem (take n (drop 4 p)) in
                    if n > f_size f \<or> \<not> wadb_utf8 d then Inl WADB_CORRUPT else Inr (bytes_value d))
               | WADB_SYMBOL32 \<Rightarrow>
                   (case resolve of
                      None \<Rightarrow> Inl WADB_CORRUPT
                    | Some r \<Rightarrow>
                        if u = 0 then Inl WADB_CORRUPT
                        else bind_res (r index (unat (ucast u :: u32))) (\<lambda>d. Inr (bytes_value d)))
               | WADB_TYPE_OTHER _ \<Rightarrow> Inl WADB_CORRUPT)))"

fun validate_fields ::
  "wadb_schema \<Rightarrow> bytes \<Rightarrow> symbol_decode option \<Rightarrow> wadb_field list \<Rightarrow> nat \<Rightarrow> nat \<Rightarrow> nat res" where
  "validate_fields s p resolve [] i nullable = Inr nullable"
| "validate_fields s p resolve (f # fs) i nullable =
     bind_res (wadb_decode_value s i p resolve) (\<lambda>v.
       let start = (if is_null v then 0
                    else if f_type f = WADB_TEXT then 4 + carr_length (as_bytes v)
                    else f_width f)
       in if list_ex (\<lambda>j. p ! (f_offset f + j) \<noteq> 0) [start..<f_width f] then Inl WADB_CORRUPT
          else validate_fields s p resolve fs (i + 1) (nullable + (if f_nullable f then 1 else 0)))"

definition wadb_validate_row :: "wadb_schema \<Rightarrow> bytes \<Rightarrow> symbol_decode option \<Rightarrow> unit res" where
  "wadb_validate_row s p resolve =
     bind_res (validate_fields s p resolve (take (field_count s) (schema_fields s)) 0 0) (\<lambda>nullable.
       if nullable mod 8 \<noteq> 0 \<and>
          p ! (8 + null_bytes s - 1) AND push_bit (nullable mod 8) 0xff \<noteq> 0
       then Inl WADB_CORRUPT
       else
         (let last = schema_fields s ! (field_count s - 1); end = f_offset last + f_width last in
          if list_ex (\<lambda>i. p ! i \<noteq> 0) [end..<row_width s] then Inl WADB_CORRUPT else Inr ()))"

declare type_width.simps [simp del]

section \<open>Layout of a built schema\<close>

lemma align8_eq: "n \<le> 4294967288 \<Longrightarrow> align8 n = (n + 7) div 8 * 8"
proof -
  assume n: "n \<le> 4294967288"
  have "x AND NOT 7 = push_bit 3 (drop_bit 3 x)" for x :: u32
  proof (rule bit_word_eqI)
    fix k assume "k < LENGTH(32)"
    have "bit (7 :: u32) k \<longleftrightarrow> k < 3"
      using bit_mask_iff [of 3 k, where 'a = u32] \<open>k < LENGTH(32)\<close> by (simp add: mask_eq_exp_minus_1)
    then show "bit (x AND NOT 7) k = bit (push_bit 3 (drop_bit 3 x)) k"
      using \<open>k < LENGTH(32)\<close> by (auto simp: bit_simps not_less)
  qed
  moreover have "unat (push_bit 3 (drop_bit 3 (x :: u32))) = unat x div 8 * 8" for x
  proof -
    have "unat (drop_bit 3 x) = unat x div 8" by (simp add: drop_bit_eq_div unat_div)
    moreover have "unat x < 2 ^ LENGTH(32)" by (rule unsigned_less)
    then have "unat x div 8 * 8 < 2 ^ 32" by simp
    moreover have "push_bit 3 (drop_bit 3 x) = of_nat (unat (drop_bit 3 x) * 8)"
      by (simp add: push_bit_eq_mult)
    ultimately show ?thesis by (simp only: unat_of_nat) (simp add: mod_less)
  qed
  moreover have "unat (of_nat (add32 n 7) :: u32) = n + 7"
    using n by (simp only: add32_exact unat_of_nat) simp
  ultimately show ?thesis by (simp only: align8_def)
qed

lemma time_field_simps [simp]:
  "f_name time_field = ascii ''_time''" "f_type time_field = WADB_TIMESTAMP_US" "f_size time_field = 0"
  "\<not> f_nullable time_field" "f_offset time_field = 0" "f_width time_field = 8"
  by (simp_all add: time_field_def)

text \<open>The checks of the first loop, as a predicate on one definition.\<close>

definition def_ok :: "wadb_field_def \<Rightarrow> bool" where
  "def_ok d \<longleftrightarrow>
     wadb_identifier (d_name d) \<and> cstr (the (d_name d)) \<noteq> ascii ''_time'' \<and>
     (if d_type d = WADB_BYTES \<or> d_type d = WADB_TEXT
      then 0 < d_size d \<and> d_size d \<le> WADB_MAX_ROW_BYTES else d_size d = 0) \<and>
     d_type d \<in> set type_list"

definition def_name :: "wadb_field_def \<Rightarrow> bytes" where
  "def_name d = cstr (the (d_name d))"

definition count_nullable :: "wadb_field list \<Rightarrow> nat" where
  "count_nullable fs = length (filter f_nullable fs)"

lemma type_width_pos:
  "d_size d \<le> WADB_MAX_ROW_BYTES \<Longrightarrow> type_width (d_type d) (d_size d) = 0 \<longleftrightarrow>
     d_type d \<notin> set type_list \<or> (d_type d = WADB_BYTES \<and> d_size d = 0)"
  by (cases "d_type d") (auto simp: type_width.simps type_list_def add32_exact WADB_MAX_ROW_BYTES_def)

lemma cstr_time [simp]: "cstr (ascii ''_time'') = ascii ''_time''"
  by (simp add: cstr_def ascii_def)

lemma check_defs_iff:
  "check_defs seen ds n = Inr m \<longleftrightarrow>
     (\<forall>d \<in> set ds. def_ok d) \<and> distinct (map def_name ds) \<and>
     def_name ` set ds \<inter> def_name ` set seen = {} \<and> m = n + length (filter d_nullable ds)"
proof (induction ds arbitrary: seen n)
  case (Cons d ds)
  have ok: "def_ok d \<longleftrightarrow> wadb_identifier (d_name d) \<and> \<not> strcmp_eq (the (d_name d)) (ascii ''_time'') \<and>
     \<not> (((d_type d = WADB_BYTES \<or> d_type d = WADB_TEXT) \<and> (d_size d = 0 \<or> d_size d > WADB_MAX_ROW_BYTES)) \<or>
        (\<not> (d_type d = WADB_BYTES \<or> d_type d = WADB_TEXT) \<and> d_size d \<noteq> 0)) \<and>
     type_width (d_type d) (d_size d) \<noteq> 0"
    using type_width_pos [of d] by (auto simp: def_ok_def strcmp_eq_def)
  have ex: "list_ex (\<lambda>s. strcmp_eq (the (d_name d)) (the (d_name s))) seen \<longleftrightarrow> def_name d \<in> def_name ` set seen"
    by (auto simp: list_ex_iff strcmp_eq_def def_name_def)
  show ?case
    using Cons.IH [of "seen @ [d]"] ok ex by (auto simp: Let_def)
qed auto

lemma check_defs_error: "check_defs seen ds n = Inl e \<Longrightarrow> e = WADB_INVALID"
  by (induction seen ds n rule: check_defs.induct) (auto simp: Let_def split: if_splits)

definition defs_width :: "wadb_field_def list \<Rightarrow> nat" where
  "defs_width ds = sum_list (map (\<lambda>d. type_width (d_type d) (d_size d)) ds)"

fun fields_placed :: "wadb_field list \<Rightarrow> nat \<Rightarrow> nat \<Rightarrow> bool" where
  "fields_placed [] off nb = True"
| "fields_placed (f # fs) off nb \<longleftrightarrow>
     f_offset f = off \<and> f_width f = type_width (f_type f) (f_size f) \<and>
     f_null_bit f = (if f_nullable f then nb else UINT32_MAX) \<and>
     fields_placed fs (off + f_width f) (if f_nullable f then nb + 1 else nb)"

definition field_of_def :: "wadb_field_def \<Rightarrow> wadb_field \<Rightarrow> bool" where
  "field_of_def d f \<longleftrightarrow>
     f_name f = def_name d \<and> f_type f = d_type d \<and> f_size f = d_size d \<and> f_nullable f = d_nullable d"

definition fields_width :: "wadb_field list \<Rightarrow> nat" where
  "fields_width fs = sum_list (map f_width fs)"

lemma place_fields_ok:
  "off \<le> WADB_MAX_ROW_BYTES \<Longrightarrow> place_fields ds off nb = Inr (fs, e) \<Longrightarrow>
     fields_placed fs off nb \<and> list_all2 field_of_def ds fs \<and> e = off + fields_width fs \<and>
     e \<le> WADB_MAX_ROW_BYTES"
proof (induction ds arbitrary: off nb fs e)
  case (Cons d ds)
  let ?w = "type_width (d_type d) (d_size d)"
  have sub: "sub32 WADB_MAX_ROW_BYTES off = WADB_MAX_ROW_BYTES - off"
    using Cons.prems(1) by (simp add: sub32_exact WADB_MAX_ROW_BYTES_def)
  then have w: "?w \<le> WADB_MAX_ROW_BYTES - off" using Cons.prems(2) by (auto simp: Let_def split: if_splits)
  then have add: "add32 off ?w = off + ?w"
    using Cons.prems(1) by (intro add32_exact) (simp add: WADB_MAX_ROW_BYTES_def)
  from Cons.prems w sub add obtain fs' where
    "place_fields ds (off + ?w) (if d_nullable d then nb + 1 else nb) = Inr (fs', e)"
    "tl fs = fs'" "fs = hd fs # fs'" "f_offset (hd fs) = off" "f_width (hd fs) = ?w" "field_of_def d (hd fs)"
    "f_null_bit (hd fs) = (if d_nullable d then nb else UINT32_MAX)"
    by (auto simp: Let_def res_simps field_of_def_def def_name_def)
  moreover from this(1) have "fields_placed fs' (off + ?w) (if d_nullable d then nb + 1 else nb) \<and>
      list_all2 field_of_def ds fs' \<and> e = off + ?w + fields_width fs' \<and> e \<le> WADB_MAX_ROW_BYTES"
    using w Cons.prems(1) by (intro Cons.IH) simp_all
  ultimately show ?case
    by (cases fs) (auto simp: fields_width_def field_of_def_def [of d])
qed (simp add: fields_width_def)

lemma place_fields_iff:
  "off \<le> WADB_MAX_ROW_BYTES \<Longrightarrow>
     (\<exists>r. place_fields ds off nb = Inr r) \<longleftrightarrow> off + defs_width ds \<le> WADB_MAX_ROW_BYTES"
proof (induction ds arbitrary: off nb)
  case (Cons d ds)
  let ?w = "type_width (d_type d) (d_size d)"
  have sub: "sub32 WADB_MAX_ROW_BYTES off = WADB_MAX_ROW_BYTES - off"
    using Cons.prems(1) by (simp add: sub32_exact WADB_MAX_ROW_BYTES_def)
  show ?case
  proof (cases "?w \<le> WADB_MAX_ROW_BYTES - off")
    case True
    then have "add32 off ?w = off + ?w"
      using Cons.prems(1) by (intro add32_exact) (simp add: WADB_MAX_ROW_BYTES_def)
    moreover have "(\<exists>r. place_fields ds (off + ?w) (if d_nullable d then nb + 1 else nb) = Inr r) \<longleftrightarrow>
        off + ?w + defs_width ds \<le> WADB_MAX_ROW_BYTES"
      using Cons.IH Cons.prems True by simp
    ultimately show ?thesis
      using True sub
      by (cases "place_fields ds (off + ?w) (if d_nullable d then nb + 1 else nb)")
        (auto simp: Let_def defs_width_def)
  next
    case False
    then show ?thesis using sub Cons.prems by (simp add: Let_def defs_width_def)
  qed
qed (simp add: defs_width_def)

lemma place_fields_error: "place_fields ds off nb = Inl e \<Longrightarrow> e = WADB_LIMIT"
  by (induction ds off nb rule: place_fields.induct)
    (auto simp: Let_def res_simps split: if_splits)

text \<open>
  The invariant of a schema: the time field at offset zero, the null bitmap after it, the
  fields packed one after another and numbered into the bitmap, the row padded to a multiple
  of eight bytes.
\<close>

definition schema_ok :: "wadb_schema \<Rightarrow> bool" where
  "schema_ok s \<longleftrightarrow>
     field_count s = length (schema_fields s) \<and> field_count s \<le> WADB_MAX_FIELDS \<and>
     schema_fields s \<noteq> [] \<and> hd (schema_fields s) = time_field \<and>
     distinct (map f_name (schema_fields s)) \<and>
     list_all (\<lambda>f. f_type f \<in> set type_list \<and> f_size f \<le> WADB_MAX_ROW_BYTES) (schema_fields s) \<and>
     null_bytes s = (count_nullable (tl (schema_fields s)) + 7) div 8 \<and>
     fields_placed (tl (schema_fields s)) (8 + null_bytes s) 0 \<and>
     (let end = 8 + null_bytes s + fields_width (tl (schema_fields s)) in
      end \<le> WADB_MAX_ROW_BYTES \<and> row_width s = (end + 7) div 8 * 8) \<and>
     fingerprint s = foldl hash_field 14695981039346656037 (schema_fields s)"

lemma schema_okD:
  assumes "schema_ok s"
  shows "field_count s = length (schema_fields s)" "schema_fields s \<noteq> []"
    "schema_fields s = time_field # tl (schema_fields s)"
    "row_width s mod 8 = 0" "row_width s \<le> WADB_MAX_ROW_BYTES" "8 \<le> row_width s"
    "8 + null_bytes s + fields_width (tl (schema_fields s)) \<le> row_width s"
proof -
  show "field_count s = length (schema_fields s)" "schema_fields s \<noteq> []"
    "schema_fields s = time_field # tl (schema_fields s)"
    using assms by (auto simp: schema_ok_def) (metis list.collapse)
  obtain e where e: "e = 8 + null_bytes s + fields_width (tl (schema_fields s))"
      "e \<le> WADB_MAX_ROW_BYTES" "row_width s = (e + 7) div 8 * 8"
    using assms by (auto simp: schema_ok_def Let_def)
  then show "row_width s mod 8 = 0" "row_width s \<le> WADB_MAX_ROW_BYTES"
    by (simp_all add: WADB_MAX_ROW_BYTES_def)
  have "e \<le> row_width s" using e(3) by linarith
  then show "8 \<le> row_width s" "8 + null_bytes s + fields_width (tl (schema_fields s)) \<le> row_width s"
    using e(1) by simp_all
qed

lemma list_all2_field_names:
  "list_all2 field_of_def ds fs \<Longrightarrow>
     map f_name fs = map def_name ds \<and> count_nullable fs = length (filter d_nullable ds) \<and> length fs = length ds"
  by (induction rule: list_all2_induct) (auto simp: field_of_def_def count_nullable_def)

lemma list_all2_field_types:
  "list_all2 field_of_def ds fs \<Longrightarrow> \<forall>d \<in> set ds. def_ok d \<Longrightarrow>
     list_all (\<lambda>f. f_type f \<in> set type_list \<and> f_size f \<le> WADB_MAX_ROW_BYTES) fs \<and> ascii ''_time'' \<notin> f_name ` set fs"
  by (induction rule: list_all2_induct)
    (auto simp: field_of_def_def def_ok_def def_name_def split: if_splits)

lemma schema_build_ok:
  assumes "wadb_schema_build defs = Inr s"
  shows "schema_ok s" "list_all2 field_of_def (carr_items defs) (tl (schema_fields s))"
proof -
  let ?ds = "carr_items defs"
  have len: "carr_length defs = length ?ds" "length ?ds < WADB_MAX_FIELDS"
    using assms by (cases defs; auto simp: wadb_schema_build_def split: if_splits)+
  obtain fs e where
    check: "check_defs [] ?ds 0 = Inr (length (filter d_nullable ?ds))" and
    place: "place_fields ?ds (8 + (length (filter d_nullable ?ds) + 7) div 8) 0 = Inr (fs, e)" and
    s: "s = \<lparr>field_count = length ?ds + 1, row_width = align8 e,
             null_bytes = (length (filter d_nullable ?ds) + 7) div 8,
             fingerprint = foldl hash_field 14695981039346656037 (time_field # fs),
             schema_fields = time_field # fs\<rparr>"
    using assms len by (auto simp: wadb_schema_build_def res_simps check_defs_iff Let_def split: if_splits)
  have "length (filter d_nullable ?ds) < WADB_MAX_FIELDS"
    using len(2) length_filter_le [of d_nullable ?ds] by linarith
  then have "8 + (length (filter d_nullable ?ds) + 7) div 8 \<le> WADB_MAX_ROW_BYTES"
    by (simp add: WADB_MAX_FIELDS_def WADB_MAX_ROW_BYTES_def)
  note p = place_fields_ok [OF this place]
  then have names: "map f_name fs = map def_name ?ds" "count_nullable fs = length (filter d_nullable ?ds)"
    "length fs = length ?ds" using list_all2_field_names by blast+
  have "\<forall>d \<in> set ?ds. def_ok d" "distinct (map def_name ?ds)"
    using check by (auto simp: check_defs_iff)
  moreover from this(1) have "list_all (\<lambda>f. f_type f \<in> set type_list \<and> f_size f \<le> WADB_MAX_ROW_BYTES) fs"
      "ascii ''_time'' \<notin> set (map f_name fs)"
    using p list_all2_field_types by (auto simp only: set_map)
  moreover have "align8 e = (e + 7) div 8 * 8"
    using p by (intro align8_eq) (simp add: WADB_MAX_ROW_BYTES_def)
  moreover have "WADB_TIMESTAMP_US \<in> set type_list" by (simp add: type_list_def)
  moreover have "length ?ds + 1 \<le> WADB_MAX_FIELDS" using len by simp
  ultimately show "schema_ok s"
    using p names by (simp add: s schema_ok_def Let_def)
  show "list_all2 field_of_def ?ds (tl (schema_fields s))" using p s by simp
qed

definition defs_rejected :: "wadb_field_def carr \<Rightarrow> bool" where
  "defs_rejected defs \<longleftrightarrow>
     (case defs of CNull n \<Rightarrow> n \<noteq> 0 | CMem ds \<Rightarrow> length ds \<ge> WADB_MAX_FIELDS) \<or>
     \<not> list_all def_ok (carr_items defs) \<or> \<not> distinct (map def_name (carr_items defs))"

definition defs_end :: "wadb_field_def list \<Rightarrow> nat" where
  "defs_end ds = 8 + (length (filter d_nullable ds) + 7) div 8 + defs_width ds"

lemma schema_build_outcome:
  "wadb_schema_build defs = Inl e \<longleftrightarrow>
     (if defs_rejected defs then e = WADB_INVALID
      else WADB_MAX_ROW_BYTES < defs_end (carr_items defs) \<and> e = WADB_LIMIT)"
proof -
  let ?ds = "carr_items defs" and ?n = "length (filter d_nullable (carr_items defs))"
  let ?ok = "(\<forall>d \<in> set ?ds. def_ok d) \<and> distinct (map def_name ?ds)"
  let ?g = "case defs of CNull n \<Rightarrow> n \<noteq> 0 | CMem ds \<Rightarrow> length ds \<ge> WADB_MAX_FIELDS"
  have g: "(carr_length defs \<noteq> 0 \<and> carr_null defs) \<or> carr_length defs \<ge> WADB_MAX_FIELDS \<longleftrightarrow> ?g"
    by (cases defs) (auto simp: WADB_MAX_FIELDS_def)
  have chk: "check_defs [] ?ds 0 = (if ?ok then Inr ?n else Inl WADB_INVALID)"
    using check_defs_iff [of "[]" ?ds 0] check_defs_error [of "[]" ?ds 0]
    by (cases "check_defs [] ?ds 0") auto
  show ?thesis
  proof (cases "?g \<or> \<not> ?ok")
    case True
    then have "wadb_schema_build defs = Inl WADB_INVALID" using g chk by (auto simp: wadb_schema_build_def)
    moreover have "defs_rejected defs" using True by (auto simp: defs_rejected_def list_all_iff)
    ultimately show ?thesis by auto
  next
    case False
    then have "length ?ds < WADB_MAX_FIELDS" by (cases defs) (auto simp: WADB_MAX_FIELDS_def)
    then have "?n < WADB_MAX_FIELDS" using length_filter_le [of d_nullable ?ds] by linarith
    then have off: "8 + (?n + 7) div 8 \<le> WADB_MAX_ROW_BYTES"
      by (simp add: WADB_MAX_FIELDS_def WADB_MAX_ROW_BYTES_def)
    have "\<not> defs_rejected defs" using False by (auto simp: defs_rejected_def list_all_iff)
    moreover have "wadb_schema_build defs = Inl e \<longleftrightarrow> place_fields ?ds (8 + (?n + 7) div 8) 0 = Inl e"
      using False g chk by (auto simp: wadb_schema_build_def res_simps Let_def)
    ultimately show ?thesis
      using place_fields_iff [OF off, of ?ds 0] place_fields_error [of ?ds "8 + (?n + 7) div 8" 0]
      by (cases "place_fields ?ds (8 + (?n + 7) div 8) 0") (auto simp: defs_end_def not_le)
  qed
qed

section \<open>The row codec\<close>

subsection \<open>Integers of a field's width\<close>

lemma length_put_width [simp]: "length (put_width n u) = n"
  by (simp add: put_width_def)

lemma put_width_nth: "j < n \<Longrightarrow> put_width n u ! j = ucast (drop_bit (j * 8) u)"
  by (simp add: put_width_def)

lemma bit_get_width:
  "n \<le> 8 \<Longrightarrow> k < 64 \<Longrightarrow> bit (get_width n p) k \<longleftrightarrow> k < n * 8 \<and> bit (p ! (k div 8)) (k mod 8)"
proof (induction n)
  case (Suc n)
  have "get_width (Suc n) p = get_width n p OR push_bit (n * 8) (ucast (p ! n))"
    by (simp add: get_width_def)
  then have "bit (get_width (Suc n) p) k \<longleftrightarrow>
      bit (get_width n p) k \<or> (n * 8 \<le> k \<and> bit (p ! n) (k - n * 8))"
    using Suc.prems by (auto simp: bit_simps dest: bit_imp_le_length)
  moreover have "n * 8 \<le> k \<and> bit (p ! n) (k - n * 8) \<longleftrightarrow> k div 8 = n \<and> bit (p ! (k div 8)) (k mod 8)"
  proof
    assume a: "n * 8 \<le> k \<and> bit (p ! n) (k - n * 8)"
    then have "k - n * 8 < 8" using bit_imp_le_length [of "p ! n"] by fastforce
    then have "k div 8 = n" "k mod 8 = k - n * 8" using a by (simp_all add: div_nat_eqI mod_nat_eqI)
    then show "k div 8 = n \<and> bit (p ! (k div 8)) (k mod 8)" using a by simp
  next
    assume "k div 8 = n \<and> bit (p ! (k div 8)) (k mod 8)"
    moreover from this have "k = n * 8 + k mod 8" by (metis div_mult_mod_eq)
    ultimately show "n * 8 \<le> k \<and> bit (p ! n) (k - n * 8)" by (metis add_diff_cancel_left' le_add1)
  qed
  ultimately show ?case using Suc by auto
qed (simp add: get_width_def)

lemma get_width_cong:
  assumes "n \<le> 8" and "\<And>j. j < n \<Longrightarrow> p ! j = q ! j"
  shows "get_width n p = get_width n q"
proof (rule bit_word_eqI)
  fix k assume "k < LENGTH(64)"
  then show "bit (get_width n p) k = bit (get_width n q) k"
    using assms by (auto simp: bit_get_width less_mult_imp_div_less)
qed

lemma get_put_width: "n \<le> 8 \<Longrightarrow> get_width n (put_width n u) = take_bit (n * 8) u"
proof (rule bit_word_eqI)
  fix k assume n: "n \<le> 8" and k: "k < LENGTH(64)"
  have "bit (put_width n u ! (k div 8)) (k mod 8) \<longleftrightarrow> bit u k" if "k < n * 8"
  proof -
    have "k div 8 * 8 + k mod 8 = k" by simp
    then show ?thesis using that less_mult_imp_div_less [OF that]
      by (simp add: put_width_nth bit_simps)
  qed
  then show "bit (get_width n (put_width n u)) k = bit (take_bit (n * 8) u) k"
    using n k by (auto simp: bit_get_width bit_take_bit_iff)
qed

lemma decode_signed_word:
  fixes w :: u64
  assumes b: "b = 8 \<or> b = 16 \<or> b = 32" and r: "- (2 ^ (b - 1)) \<le> sint w" "sint w < 2 ^ (b - 1)"
  shows "word_of_int (decode_signed b (take_bit b w)) = w"
proof -
  let ?u = "take_bit b w"
  have b64: "b - 1 < b" "b < 64" using b by auto
  have uint: "uint ?u = sint w mod 2 ^ b"
  proof -
    have "uint w = take_bit 64 (sint w)" using uint_sint [of w] by simp
    then have "uint ?u = take_bit b (take_bit 64 (sint w))" by (simp add: unsigned_take_bit_eq)
    then show ?thesis using b64 by (simp add: min_def) (simp add: take_bit_eq_mod)
  qed
  have self: "signed_take_bit (b - 1) (sint w) = sint w"
    using r by (simp add: signed_take_bit_int_eq_self_iff)
  have "bit ?u (b - 1) \<longleftrightarrow> bit (sint w) (b - 1)"
    using b64 by (simp add: bit_take_bit_iff bit_sint_iff)
  also have "\<dots> \<longleftrightarrow> sint w < 0"
    using signed_take_bit_negative_iff [of "b - 1" "sint w"] self by metis
  finally have neg: "?u AND push_bit (b - 1) 1 \<noteq> 0 \<longleftrightarrow> sint w < 0"
    by (simp only: bit_iff_and_push_bit_not_eq_0)
  have two: "2 * 2 ^ (b - 1) = (2 :: int) ^ b" using b by auto
  have "decode_signed b ?u = sint w"
  proof (cases "sint w < 0")
    case True
    have mask: "push_bit b 1 - 1 = (mask b :: u64)" by (simp add: mask_eq_exp_minus_1 push_bit_eq_mult)
    have ub: "unat (mask b :: u64) = 2 ^ b - 1" using b by (auto simp: mask_eq_exp_minus_1)
    moreover have lt: "unat ?u < 2 ^ b" by (rule take_bit_nat_bound)
    ultimately have "?u \<le> mask b" by (simp add: word_le_nat_alt)
    then have "unat (mask b - ?u) = unat (mask b :: u64) - unat ?u" by (rule unat_sub)
    moreover note ub
    ultimately have "int (unat (mask b - ?u)) = 2 ^ b - 1 - int (unat ?u)"
      using lt by (simp add: of_nat_diff Suc_le_eq)
    then have "int (unat (mask b - ?u)) = 2 ^ b - 1 - sint w mod 2 ^ b"
      using uint by simp
    moreover have "sint w mod 2 ^ b = sint w + 2 ^ b"
      using True r two mod_pos_pos_trivial [of "sint w + 2 ^ b" "2 ^ b"] by simp
    ultimately show ?thesis using neg True mask by (simp add: decode_signed_def)
  next
    case False
    moreover have "sint w mod 2 ^ b = sint w" using False r two by (intro mod_pos_pos_trivial) auto
    ultimately show ?thesis using neg uint by (simp add: decode_signed_def)
  qed
  then show ?thesis by simp
qed

subsection \<open>One field\<close>

text \<open>The value a field holds once \<open>v\<close> has been stored in it: a float is rounded.\<close>

definition stored_value :: "wadb_field \<Rightarrow> wadb_value \<Rightarrow> wadb_value" where
  "stored_value f v =
     (if is_null v then null_value
      else if f_type f = WADB_F32 then word_value (f32_to_f64 (f64_to_f32 (as_word v)))
      else if f_type f \<in> {WADB_UUID, WADB_BYTES, WADB_TEXT, WADB_SYMBOL32}
      then bytes_value (CMem (carr_items (as_bytes v)))
      else word_value (as_word v))"

definition field_typed :: "wadb_field \<Rightarrow> bool" where
  "field_typed f \<longleftrightarrow>
     f_type f \<in> set type_list \<and> f_size f \<le> WADB_MAX_ROW_BYTES \<and>
     f_width f = type_width (f_type f) (f_size f)"

text \<open>The region of a field: its bytes, then zeroes up to the width.\<close>

definition region_is :: "wadb_field \<Rightarrow> bytes \<Rightarrow> bytes \<Rightarrow> bool" where
  "region_is f row bs \<longleftrightarrow>
     f_offset f + f_width f \<le> length row \<and> length bs \<le> f_width f \<and>
     chunk row (f_offset f) (f_width f) = bs @ zeroes_bytes (f_width f - length bs)"

locale symbol_table =
  fixes inv :: "'c \<Rightarrow> bool"
    and intern :: "'c symbol_encode"
    and resolve :: "'c \<Rightarrow> symbol_decode"
  assumes intern_inv: "inv c \<Longrightarrow> intern c i d = (c', r) \<Longrightarrow> inv c'"
    and intern_keeps:
      "inv c \<Longrightarrow> intern c i d = (c', r) \<Longrightarrow> resolve c j n = Inr x \<Longrightarrow> resolve c' j n = Inr x"
    and intern_resolve:
      "inv c \<Longrightarrow> intern c i d = (c', Inr n) \<Longrightarrow>
         n \<le> UINT32_MAX \<and> resolve c' i n = Inr (CMem (carr_items d))"
begin

definition extends :: "'c \<Rightarrow> 'c \<Rightarrow> bool" where
  "extends c c' \<longleftrightarrow> (\<forall>j n x. resolve c j n = Inr x \<longrightarrow> resolve c' j n = Inr x)"

lemma extends_refl [simp]: "extends c c"
  by (simp add: extends_def)

lemma extends_trans: "extends a b \<Longrightarrow> extends b c \<Longrightarrow> extends a c"
  by (simp add: extends_def)

lemma encode_field_context:
  assumes "inv c" and "wadb_encode_field f v i (Some intern) c = (c', r)"
  shows "inv c'" "extends c c'"
  using assms intern_inv [of c i "as_bytes v"] intern_keeps [of c i "as_bytes v"]
  by (cases "f_type f"; cases "intern c i (as_bytes v)";
      auto simp: wadb_encode_field_def extends_def split: if_splits sum.splits)+

lemma encode_field_symbol:
  assumes "inv c" and "f_type f = WADB_SYMBOL32"
    and "wadb_encode_field f v i (Some intern) c = (c', Inr bs)" and "extends c' d"
  obtains n where "bs = wadb_put_u32 (of_nat n)" "0 < n" "n \<le> UINT32_MAX"
    "resolve d i n = Inr (CMem (carr_items (as_bytes v)))"
  using assms intern_resolve [of c i "as_bytes v"]
  by (auto simp: wadb_encode_field_def extends_def split: if_splits sum.splits prod.splits)

end

lemma encode_field_length:
  assumes "field_typed f" and "wadb_encode_field f v i r c = (c', Inr bs)"
  shows "length bs \<le> f_width f" "f_type f \<noteq> WADB_TEXT \<Longrightarrow> length bs = f_width f"
proof -
  have "carr_length (as_bytes v) = length (carr_items (as_bytes v))" if "wadb_utf8 (as_bytes v)"
    using that by (cases "as_bytes v") (auto simp: wadb_utf8_def split: if_splits)
  moreover have "carr_length (as_bytes v) = length (carr_items (as_bytes v))" if "\<not> carr_null (as_bytes v)"
    using that by (cases "as_bytes v") auto
  ultimately show "length bs \<le> f_width f" "f_type f \<noteq> WADB_TEXT \<Longrightarrow> length bs = f_width f"
    using assms
    by (cases "f_type f"; auto simp: wadb_encode_field_def field_typed_def type_width.simps encode_signed_def
        encode_unsigned_def encode_fixed_def Let_def add32_exact WADB_MAX_ROW_BYTES_def
        split: if_splits option.splits prod.splits sum.splits)+
qed

lemma region_take:
  "region_is f row bs \<Longrightarrow> n \<le> length bs \<Longrightarrow> take n (drop (f_offset f) row) = take n bs"
proof -
  assume r: "region_is f row bs" "n \<le> length bs"
  then have "n \<le> f_width f" by (simp add: region_is_def)
  then have "take n (drop (f_offset f) row) = take n (chunk row (f_offset f) (f_width f))"
    by (simp add: chunk_def)
  also have "\<dots> = take n bs" using r unfolding region_is_def by simp
  finally show ?thesis .
qed

lemma region_nth:
  assumes "region_is f row bs" and "j < length bs"
  shows "drop (f_offset f) row ! j = bs ! j"
  using region_take [OF assms(1), of "Suc j"] assms by (metis Suc_leI lessI nth_take)

lemma region_get_width:
  "region_is f row bs \<Longrightarrow> length bs = n \<Longrightarrow> n \<le> 8 \<Longrightarrow>
     get_width n (drop (f_offset f) row) = get_width n bs"
  by (rule get_width_cong) (simp_all add: region_nth)

lemma region_get_u32:
  "region_is f row bs \<Longrightarrow> 4 \<le> length bs \<Longrightarrow> wadb_get_u32 (drop (f_offset f) row) = wadb_get_u32 bs"
  using region_take [of f row bs 4] get_u32_chunk [of "f_offset f" row] get_u32_chunk [of 0 bs]
  by (simp add: region_is_def chunk_def)

lemma region_get_u64:
  "region_is f row bs \<Longrightarrow> 8 \<le> length bs \<Longrightarrow> wadb_get_u64 (drop (f_offset f) row) = wadb_get_u64 bs"
  using region_take [of f row bs 8] get_u64_chunk [of "f_offset f" row] get_u64_chunk [of 0 bs]
  by (simp add: region_is_def chunk_def)

lemma word_of_get_i64: "word_of_int (wadb_get_i64 p) = wadb_get_u64 p"
proof -
  have "word_of_int (uint u - 18446744073709551616) = (u :: u64)" for u
    by simp
  then show ?thesis by (simp add: wadb_get_i64_def Let_def)
qed

lemma put_width_8: "put_width 8 u = wadb_put_u64 u"
  by (simp add: put_width_def wadb_put_u64_def)

lemma take_bit_64: "take_bit 64 (w :: u64) = w"
  by (rule bit_word_eqI) (simp add: bit_take_bit_iff)

lemma ucast_up_down [simp]: "ucast (ucast (x :: u32) :: u64) = x"
  by (rule bit_word_eqI) (auto simp: bit_simps)

lemma get_width_put_u32: "get_width 4 (wadb_put_u32 n) = ucast n"
proof -
  have "wadb_put_u32 n = put_width 4 (ucast n)"
    by (auto simp: put_width_def wadb_put_u32_def intro!: bit_word_eqI simp: bit_simps)
  moreover have "take_bit 32 (ucast n :: u64) = ucast n"
    by (rule bit_word_eqI) (auto simp: bit_simps dest: bit_imp_le_length)
  ultimately show ?thesis using get_put_width [of 4 "ucast n"] by simp
qed

lemma decode_encode_word:
  assumes ok: "index < field_count s" "schema_fields s ! index = f" "field_typed f"
    and nn: "\<not> (f_nullable f \<and> null_bit_set f row)" "\<not> is_null v"
    and enc: "wadb_encode_field f v i r c = (c', Inr bs)" and reg: "region_is f row bs"
    and ty: "f_type f \<notin> {WADB_UUID, WADB_BYTES, WADB_TEXT, WADB_SYMBOL32}"
  shows "wadb_decode_value s index row d = Inr (stored_value f v)"
proof -
  let ?w = "f_width f"
  have w: "?w \<le> 8" "?w \<noteq> 0" using ok(3) ty by (cases "f_type f"; auto simp: field_typed_def type_width.simps type_list_def)+
  have len: "length bs = ?w" using encode_field_length(2) [OF ok(3) enc] ty by auto
  have get: "get_width ?w (drop (f_offset f) row) = get_width ?w bs"
    using region_get_width [OF reg len w(1)] .
  have put: "get_width ?w (put_width ?w u) = take_bit (?w * 8) u" for u using get_put_width [OF w(1)] .
  have nn': "(f_nullable f \<and> null_bit_set f row) = False" using nn(1) by blast
  note dec = wadb_decode_value_def Let_def nn' ok(2)
  consider (signed) "f_type f \<in> {WADB_I8, WADB_I16, WADB_I32}" | (wide) "f_type f \<in> {WADB_I64, WADB_TIMESTAMP_US}"
    | (unsigned) "f_type f \<in> {WADB_U8, WADB_U16, WADB_U32, WADB_U64, WADB_BOOL}"
    | (f32) "f_type f = WADB_F32" | (f64) "f_type f = WADB_F64"
    using ok(3) ty by (cases "f_type f") (auto simp: field_typed_def type_list_def)
  then show ?thesis
  proof cases
    case signed
    then have b: "?w * 8 = 8 \<or> ?w * 8 = 16 \<or> ?w * 8 = 32" using ok(3) by (auto simp: field_typed_def type_width.simps)
    have "encode_signed f v = Inr bs" using signed enc by (auto simp: wadb_encode_field_def)
    then have bs: "bs = put_width ?w (as_word v)"
      and r: "- (2 ^ (?w * 8 - 1)) \<le> sint (as_word v)" "sint (as_word v) < 2 ^ (?w * 8 - 1)"
      using b by (auto simp: encode_signed_def Let_def as_i64_def split: if_splits)
    have "word_of_int (decode_signed (?w * 8) (get_width ?w (drop (f_offset f) row))) = as_word v"
      using decode_signed_word [OF b r] get put bs by simp
    then show ?thesis using signed ok(1) nn(2) w by (elim insertE emptyE) (simp_all add: dec stored_value_def)
  next
    case wide
    then have w8: "?w = 8" using ok(3) by (auto simp: field_typed_def type_width.simps)
    have "encode_signed f v = Inr bs" using wide enc by (auto simp: wadb_encode_field_def)
    then have "bs = wadb_put_u64 (as_word v)"
      using w8 by (auto simp: encode_signed_def Let_def put_width_8)
    then have "wadb_get_u64 (drop (f_offset f) row) = as_word v"
      using region_get_u64 [OF reg] len w8 by simp
    then show ?thesis using wide ok(1) nn(2)
      by (elim insertE emptyE) (simp_all add: dec stored_value_def word_of_get_i64)
  next
    case unsigned
    have "encode_unsigned f v = Inr bs" using unsigned enc by (auto simp: wadb_encode_field_def)
    then have bs: "bs = put_width ?w (as_word v)"
      and r: "?w < 8 \<Longrightarrow> unat (as_word v) < 2 ^ (?w * 8)" "f_type f = WADB_BOOL \<Longrightarrow> unat (as_word v) \<le> 1"
      by (auto simp: encode_unsigned_def as_u64_def split: if_splits)
    have "take_bit (?w * 8) (as_word v) = as_word v"
    proof (cases "?w = 8")
      case False
      then show ?thesis using r(1) w(1)
        by (simp add: word_unat_eq_iff unsigned_take_bit_eq take_bit_nat_eq_self)
    qed (simp add: take_bit_64)
    then have "get_width ?w (drop (f_offset f) row) = as_word v" using get put bs by simp
    moreover have "\<not> as_word v > 1" if "f_type f = WADB_BOOL" using r(2) [OF that] by (simp add: word_less_nat_alt)
    ultimately show ?thesis using unsigned ok(1) nn(2) w
      by (elim insertE emptyE) (simp_all add: dec stored_value_def)
  next
    case f32
    then have w4: "?w = 4" using ok(3) by (simp add: field_typed_def type_width.simps)
    have bs: "bs = put_width 4 (ucast (f64_to_f32 (as_word v)))" and fin: "\<not> f64_exceeds_flt_max (as_word v)"
      using f32 enc w4 by (auto simp: wadb_encode_field_def split: if_splits)
    have "ucast (take_bit 32 (ucast x :: u64)) = x" for x :: u32
      by (rule bit_word_eqI) (auto simp: bit_simps)
    then have "ucast (get_width 4 (drop (f_offset f) row)) = f64_to_f32 (as_word v)"
      using get put bs w4 by simp
    then show ?thesis using ok(1) nn(2) f32 w4 f64_to_f32_finite [OF fin] by (simp add: dec stored_value_def)
  next
    case f64
    then have w8: "?w = 8" using ok(3) by (simp add: field_typed_def type_width.simps)
    have bs: "bs = put_width 8 (as_word v)" and fin: "f64_isfinite (as_word v)"
      using f64 enc w8 by (auto simp: wadb_encode_field_def split: if_splits)
    have "take_bit 64 (as_word v) = as_word v" by (rule take_bit_64)
    then have "get_width 8 (drop (f_offset f) row) = as_word v" using get put [of "as_word v"] bs w8 by simp
    then show ?thesis using ok(1) nn(2) f64 w8 fin by (simp add: dec stored_value_def)
  qed
qed

lemma decode_encode_bytes:
  assumes ok: "index < field_count s" "schema_fields s ! index = f" "field_typed f"
    and nn: "\<not> (f_nullable f \<and> null_bit_set f row)" "\<not> is_null v"
    and enc: "wadb_encode_field f v i r c = (c', Inr bs)" and reg: "region_is f row bs"
    and ty: "f_type f \<in> {WADB_UUID, WADB_BYTES, WADB_TEXT}"
  shows "wadb_decode_value s index row d = Inr (stored_value f v)"
proof -
  let ?p = "drop (f_offset f) row" and ?b = "as_bytes v"
  have nn': "(f_nullable f \<and> null_bit_set f row) = False" using nn(1) by blast
  note len = encode_field_length [OF ok(3) enc]
  show ?thesis
  proof (cases "f_type f = WADB_TEXT")
    case True
    then have bs: "bs = wadb_put_u32 (of_nat (carr_length ?b)) @ carr_items ?b"
      and n: "carr_length ?b \<le> f_size f" and u: "wadb_utf8 ?b"
      using enc by (auto simp: wadb_encode_field_def split: if_splits)
    have l: "carr_length ?b = length (carr_items ?b)" and cu: "wadb_utf8 (CMem (carr_items ?b))"
      using u by (cases ?b; auto simp: wadb_utf8_def split: if_splits)+
    have "wadb_get_u32 bs = of_nat (carr_length ?b)"
      using bs get_u32_chunk [of 0 bs] by (simp add: chunk_def)
    then have "unat (wadb_get_u32 ?p) = carr_length ?b"
      using region_get_u32 [OF reg] bs n ok(3)
      by (simp add: field_typed_def WADB_MAX_ROW_BYTES_def unat_of_nat)
    moreover have "take (carr_length ?b) (drop 4 ?p) = carr_items ?b"
    proof -
      have "take (carr_length ?b) (drop 4 ?p) = drop 4 (take (carr_length ?b + 4) ?p)"
        by (simp only: take_drop)
      also have "\<dots> = carr_items ?b" using region_take [OF reg, of "carr_length ?b + 4"] bs l by simp
      finally show ?thesis .
    qed
    ultimately show ?thesis using ok nn(2) True n cu by (simp add: wadb_decode_value_def Let_def stored_value_def nn')
  next
    case False
    then have "encode_fixed f v = Inr bs" using ty enc by (auto simp: wadb_encode_field_def)
    then have "bs = carr_items ?b" by (simp add: encode_fixed_def split: if_splits)
    moreover have "take (f_width f) ?p = bs" using region_take [OF reg, of "f_width f"] len False by simp
    ultimately show ?thesis using ok nn(2) False ty by (auto simp: wadb_decode_value_def Let_def stored_value_def nn')
  qed
qed

context symbol_table
begin

lemma decode_encode_field:
  assumes ok: "index < field_count s" "schema_fields s ! index = f" "field_typed f"
    and nn: "\<not> (f_nullable f \<and> null_bit_set f row)" "\<not> is_null v"
    and enc: "wadb_encode_field f v index (Some intern) c = (c', Inr bs)" and reg: "region_is f row bs"
    and ctx: "inv c" "extends c' d"
  shows "wadb_decode_value s index row (Some (resolve d)) = Inr (stored_value f v)"
proof (cases "f_type f = WADB_SYMBOL32")
  case True
  obtain n where n: "bs = wadb_put_u32 (of_nat n)" "0 < n" "n \<le> UINT32_MAX"
    "resolve d index n = Inr (CMem (carr_items (as_bytes v)))"
    using encode_field_symbol [OF ctx(1) True enc ctx(2)] .
  have "f_width f = 4" using ok(3) True by (simp add: field_typed_def type_width.simps)
  moreover have "get_width 4 (drop (f_offset f) row) = ucast (of_nat n :: u32)"
    using region_get_width [OF reg, of 4] n(1) by (simp add: get_width_put_u32)
  moreover have "unat (of_nat n :: u32) = n" using n(3) by (simp add: unat_of_nat)
  moreover have "ucast (of_nat n :: u32) \<noteq> (0 :: u64)"
  proof
    assume "ucast (of_nat n :: u32) = (0 :: u64)"
    then have "ucast (ucast (of_nat n :: u32) :: u64) = (0 :: u32)" by simp
    then have "(of_nat n :: u32) = 0" by (simp only: ucast_up_down)
    then show False using \<open>unat (of_nat n :: u32) = n\<close> n(2) by simp
  qed
  moreover have "ucast (ucast (of_nat n :: u32) :: u64) = (of_nat n :: u32)" by (rule ucast_up_down)
  moreover have "(f_nullable f \<and> null_bit_set f row) = False" using nn(1) by blast
  ultimately show ?thesis using ok nn(2) True n(4) by (simp add: wadb_decode_value_def Let_def stored_value_def del: de_Morgan_conj)
next
  case False
  then show ?thesis
    using decode_encode_word [OF ok nn enc reg] decode_encode_bytes [OF ok nn enc reg] by blast
qed

end

subsection \<open>Whole rows\<close>

definition null_flag :: "nat \<Rightarrow> bytes \<Rightarrow> bool" where
  "null_flag k p \<longleftrightarrow> bit (p ! (8 + k div 8)) (k mod 8)"

lemma null_bit_set_iff: "null_bit_set f p \<longleftrightarrow> null_flag (f_null_bit f) p"
  by (simp add: null_bit_set_def null_flag_def bit_iff_and_push_bit_not_eq_0)

lemma set_null_bit_nth:
  "j \<noteq> 8 + f_null_bit f div 8 \<Longrightarrow> set_null_bit f p ! j = p ! j"
  by (simp add: set_null_bit_def Let_def)

lemma length_set_null_bit [simp]: "length (set_null_bit f p) = length p"
  by (simp add: set_null_bit_def Let_def)

lemma null_flag_set:
  assumes "8 + f_null_bit f div 8 < length p"
  shows "null_flag k (set_null_bit f p) \<longleftrightarrow> k = f_null_bit f \<or> null_flag k p"
proof (cases "k div 8 = f_null_bit f div 8")
  case True
  have "bit (push_bit (f_null_bit f mod 8) (1 :: byte)) (k mod 8) \<longleftrightarrow> k mod 8 = f_null_bit f mod 8"
    by (auto simp: bit_simps)
  moreover have "k mod 8 = f_null_bit f mod 8 \<longleftrightarrow> k = f_null_bit f"
    using True by (metis div_mult_mod_eq)
  ultimately show ?thesis
    using True assms by (simp add: null_flag_def set_null_bit_def Let_def bit_or_iff) blast
next
  case False
  then show ?thesis by (auto simp: null_flag_def set_null_bit_nth)
qed

text \<open>
  The bytes of a row under construction: everything at or after \<open>off\<close> and every null bit
  from \<open>nb\<close> on is still zero; \<open>NB\<close> is the size of the bitmap.
\<close>

definition row_blank :: "nat \<Rightarrow> nat \<Rightarrow> nat \<Rightarrow> bytes \<Rightarrow> bool" where
  "row_blank NB off nb p \<longleftrightarrow>
     (\<forall>j. off \<le> j \<and> j < length p \<longrightarrow> p ! j = 0) \<and> (\<forall>k. nb \<le> k \<and> k < 8 * NB \<longrightarrow> \<not> null_flag k p)"

text \<open>What is already in the row: bytes below \<open>off\<close> outside the bitmap, null bits below \<open>nb\<close>.\<close>

definition row_agrees :: "nat \<Rightarrow> nat \<Rightarrow> nat \<Rightarrow> bytes \<Rightarrow> bytes \<Rightarrow> bool" where
  "row_agrees NB off nb p q \<longleftrightarrow>
     length q = length p \<and> (\<forall>j < off. j < 8 \<or> 8 + NB \<le> j \<longrightarrow> q ! j = p ! j) \<and>
     (\<forall>k < nb. null_flag k q = null_flag k p)"

lemma row_agrees_refl [simp]: "row_agrees NB off nb p p"
  by (simp add: row_agrees_def)

lemma row_agrees_trans:
  "row_agrees NB off nb p q \<Longrightarrow> row_agrees NB off' nb' q r \<Longrightarrow> off \<le> off' \<Longrightarrow> nb \<le> nb' \<Longrightarrow>
   row_agrees NB off nb p r"
  by (auto simp: row_agrees_def)

lemma set_null_bit_step:
  assumes "row_blank NB off nb p" "f_null_bit f = nb" "nb < 8 * NB" "8 + NB \<le> off" "off \<le> length p"
  shows "row_blank NB off (nb + 1) (set_null_bit f p)" "row_agrees NB off nb p (set_null_bit f p)"
    "null_flag nb (set_null_bit f p)"
proof -
  have k: "8 + f_null_bit f div 8 < 8 + NB" using assms(2,3) by (simp add: less_mult_imp_div_less mult.commute)
  then have "8 + f_null_bit f div 8 < length p" using assms(4,5) by linarith
  note nf = null_flag_set [OF this]
  show "null_flag nb (set_null_bit f p)" using nf assms(2) by simp
  show "row_blank NB off (nb + 1) (set_null_bit f p)"
    using assms nf k by (auto simp: row_blank_def set_null_bit_nth)
  show "row_agrees NB off nb p (set_null_bit f p)"
    using assms nf k by (auto simp: row_agrees_def set_null_bit_nth)
qed

lemma blit_step:
  assumes "row_blank NB off nb p" "length bs \<le> w" "off + w \<le> length p" "8 + NB \<le> off" "nb \<le> 8 * NB"
  shows "row_blank NB (off + w) nb (blit p off bs)" "row_agrees NB off nb p (blit p off bs)"
    "chunk (blit p off bs) off w = bs @ zeroes_bytes (w - length bs)"
proof -
  have nf: "null_flag k (blit p off bs) = null_flag k p" if "k < 8 * NB" for k
  proof -
    have "8 + k div 8 < off" using that assms(4) by (simp add: less_mult_imp_div_less mult.commute)
    then show ?thesis using assms(3) by (simp add: null_flag_def nth_blit)
  qed
  show "row_blank NB (off + w) nb (blit p off bs)"
    using assms nf by (auto simp: row_blank_def nth_blit)
  show "chunk (blit p off bs) off w = bs @ zeroes_bytes (w - length bs)"
    using assms by (intro nth_equalityI) (auto simp: nth_blit nth_append row_blank_def zeroes_bytes_def)
  show "row_agrees NB off nb p (blit p off bs)"
    using assms nf by (auto simp: row_agrees_def nth_blit)
qed

lemma region_agrees:
  assumes "row_agrees NB off nb q r" "region_is f q bs" "8 + NB \<le> f_offset f" "f_offset f + f_width f \<le> off"
  shows "region_is f r bs"
proof -
  have "chunk r (f_offset f) (f_width f) = chunk q (f_offset f) (f_width f)"
  proof (rule nth_equalityI)
    have l: "f_offset f + f_width f \<le> length q" "f_offset f + f_width f \<le> length r"
      using assms(1,2) by (simp_all add: region_is_def row_agrees_def)
    then show "length (chunk r (f_offset f) (f_width f)) = length (chunk q (f_offset f) (f_width f))" by simp
    fix i assume "i < length (chunk r (f_offset f) (f_width f))"
    then show "chunk r (f_offset f) (f_width f) ! i = chunk q (f_offset f) (f_width f) ! i"
      using l assms(1,3,4) by (simp add: row_agrees_def)
  qed
  then show ?thesis using assms by (simp add: region_is_def row_agrees_def)
qed

context symbol_table
begin

definition field_holds :: "wadb_field \<Rightarrow> wadb_value \<Rightarrow> nat \<Rightarrow> 'c \<Rightarrow> bytes \<Rightarrow> bool" where
  "field_holds f v i c q \<longleftrightarrow>
     (if is_null v then f_nullable f \<and> null_flag (f_null_bit f) q \<and> region_is f q []
      else (f_nullable f \<longrightarrow> \<not> null_flag (f_null_bit f) q) \<and>
        (\<exists>c0 c1 bs. inv c0 \<and> wadb_encode_field f v i (Some intern) c0 = (c1, Inr bs) \<and> extends c1 c \<and>
           region_is f q bs))"

lemma field_holds_mono:
  assumes "field_holds f v i c q" "row_agrees NB off nb q r" "extends c c'"
    "8 + NB \<le> f_offset f" "f_offset f + f_width f \<le> off" "f_nullable f \<Longrightarrow> f_null_bit f < nb"
  shows "field_holds f v i c' r"
proof -
  have "f_nullable f \<Longrightarrow> null_flag (f_null_bit f) r = null_flag (f_null_bit f) q"
    using assms by (simp add: row_agrees_def)
  then show ?thesis
    using assms region_agrees [OF assms(2) _ assms(4,5)]
    by (auto simp: field_holds_def split: if_splits) (blast intro: extends_trans)+
qed

lemma encode_fields_holds:
  assumes "encode_fields fs vs i (Some intern) c p = (c', Inr q)" "inv c" "1 \<le> i"
    "fields_placed fs off nb" "list_all field_typed fs" "row_blank NB off nb p"
    "off + fields_width fs \<le> length p" "8 + NB \<le> off" "nb + count_nullable fs \<le> 8 * NB"
  shows "inv c' \<and> extends c c' \<and> row_agrees NB off nb p q \<and>
     row_blank NB (off + fields_width fs) (nb + count_nullable fs) q \<and>
     (\<forall>m < length fs. field_holds (fs ! m) (vs ! (i + m - 1)) (i + m) c' q)"
  using assms
proof (induction fs arbitrary: i c p off nb)
  case Nil
  then show ?case by (simp add: fields_width_def count_nullable_def)
next
  case (Cons f fs)
  let ?v = "vs ! (i - 1)" and ?nb = "if f_nullable f then nb + 1 else nb"
  have f: "f_offset f = off" "field_typed f" "f_null_bit f = (if f_nullable f then nb else UINT32_MAX)"
    and placed: "fields_placed fs (off + f_width f) ?nb" and typed: "list_all field_typed fs"
    using Cons.prems(4,5) by auto
  have cnt: "nb + count_nullable (f # fs) = ?nb + count_nullable fs"
    and wid: "off + fields_width (f # fs) = (off + f_width f) + fields_width fs"
    by (simp_all add: count_nullable_def fields_width_def)
  have nb: "?nb \<le> 8 * NB" using Cons.prems(9) cnt by linarith
  obtain c1 p1 where step: "encode_fields fs vs (i + 1) (Some intern) c1 p1 = (c', Inr q)"
    "inv c1" "extends c c1" "row_blank NB (off + f_width f) ?nb p1" "row_agrees NB off nb p p1"
    "field_holds f ?v i c1 p1"
  proof (cases "is_null ?v")
    case True
    then have n: "f_nullable f" and e: "encode_fields fs vs (i + 1) (Some intern) c (set_null_bit f p) = (c', Inr q)"
      using Cons.prems(1) by (auto simp: Let_def split: if_splits)
    have pre: "row_blank NB off nb p" "f_null_bit f = nb" "nb < 8 * NB" "8 + NB \<le> off" "off \<le> length p"
      using Cons.prems n f(3) nb by auto
    note s = set_null_bit_step [OF pre]
    have "row_blank NB (off + f_width f) ?nb (set_null_bit f p)"
      using s(1) n by (auto simp: row_blank_def)
    moreover have "region_is f (set_null_bit f p) []"
    proof -
      have "chunk (set_null_bit f p) off (f_width f) = zeroes_bytes (f_width f)"
        using s(1) Cons.prems(7) wid by (intro nth_equalityI) (auto simp: row_blank_def zeroes_bytes_def)
      then show ?thesis using f(1) Cons.prems(7) wid by (simp add: region_is_def)
    qed
    ultimately show ?thesis
      using that [of c "set_null_bit f p"] e s n True Cons.prems(2) pre(2) by (simp add: field_holds_def)
  next
    case False
    then obtain c1 bs where enc: "wadb_encode_field f ?v i (Some intern) c = (c1, Inr bs)"
      and e: "encode_fields fs vs (i + 1) (Some intern) c1 (blit p off bs) = (c', Inr q)"
      using Cons.prems(1) f(1) by (auto simp: Let_def split: prod.splits sum.splits)
    have pre: "row_blank NB off nb p" "length bs \<le> f_width f" "off + f_width f \<le> length p" "8 + NB \<le> off" "nb \<le> 8 * NB"
      using Cons.prems encode_field_length(1) [OF f(2) enc] wid nb by (auto split: if_splits)
    note s = blit_step [OF pre] and ctx = encode_field_context [OF Cons.prems(2) enc]
    have "region_is f (blit p off bs) bs" using s(3) pre f(1) by (simp add: region_is_def)
    moreover have "row_blank NB (off + f_width f) ?nb (blit p off bs)"
      using s(1) by (auto simp: row_blank_def)
    moreover have "\<not> null_flag (f_null_bit f) (blit p off bs)" if "f_nullable f"
      using s(1) f(3) that nb by (auto simp: row_blank_def)
    ultimately show ?thesis
      using that [of c1 "blit p off bs"] e s(2) ctx enc False Cons.prems(2)
      by (simp add: field_holds_def) (metis extends_refl)
  qed
  have len: "length p1 = length p" using step(5) by (simp add: row_agrees_def)
  note IH = Cons.IH [OF step(1,2) _ placed typed step(4)]
  have rest: "inv c' \<and> extends c1 c' \<and> row_agrees NB (off + f_width f) ?nb p1 q \<and>
     row_blank NB (off + f_width f + fields_width fs) (?nb + count_nullable fs) q \<and>
     (\<forall>m < length fs. field_holds (fs ! m) (vs ! (i + 1 + m - 1)) (i + 1 + m) c' q)"
    using Cons.prems(7-9) cnt wid len by (intro IH) simp_all
  have first: "field_holds f ?v i c' q"
    using rest step(6) f Cons.prems(8) by (intro field_holds_mono [where r = q]) auto
  have "field_holds ((f # fs) ! m) (vs ! (i + m - 1)) (i + m) c' q" if "m < length (f # fs)" for m
    using that rest first by (cases m) auto
  moreover have "row_agrees NB off nb p q"
    using row_agrees_trans [OF step(5), of "off + f_width f" ?nb q] rest by auto
  moreover have "extends c c'" using step(3) rest extends_trans by blast
  moreover have "row_blank NB (off + fields_width (f # fs)) (nb + count_nullable (f # fs)) q"
    using rest unfolding cnt wid by blast
  ultimately show ?case using rest by blast
qed

end

lemma fields_placed_end:
  "fields_placed fs off nb \<Longrightarrow> fs \<noteq> [] \<Longrightarrow> f_offset (last fs) + f_width (last fs) = off + fields_width fs"
  by (induction fs off nb rule: fields_placed.induct) (auto simp: fields_width_def)

lemma fields_placed_typed:
  "fields_placed fs off nb \<Longrightarrow> list_all (\<lambda>f. f_type f \<in> set type_list \<and> f_size f \<le> WADB_MAX_ROW_BYTES) fs \<Longrightarrow>
   list_all field_typed fs"
  by (induction fs off nb rule: fields_placed.induct) (auto simp: field_typed_def)

definition padding_zero :: "wadb_field \<Rightarrow> wadb_value \<Rightarrow> bytes \<Rightarrow> bool" where
  "padding_zero f v p \<longleftrightarrow>
     (\<forall>j. (if is_null v then 0 else if f_type f = WADB_TEXT then 4 + carr_length (as_bytes v) else f_width f) \<le> j \<and>
        j < f_width f \<longrightarrow> p ! (f_offset f + j) = 0)"

lemma validate_fields_ok:
  "(\<And>m. m < length fs \<Longrightarrow> \<exists>v. wadb_decode_value s (i + m) p r = Inr v \<and> padding_zero (fs ! m) v p) \<Longrightarrow>
   validate_fields s p r fs i n = Inr (n + count_nullable fs)"
proof (induction fs arbitrary: i n)
  case (Cons f fs)
  obtain v where v: "wadb_decode_value s i p r = Inr v" "padding_zero f v p"
    using Cons.prems [of 0] by auto
  have "validate_fields s p r fs (i + 1) m = Inr (m + count_nullable fs)" for m
    using Cons.prems [of "Suc _"] by (intro Cons.IH) auto
  then show ?case using v by (auto simp: padding_zero_def list_ex_iff count_nullable_def Let_def)
qed (simp add: count_nullable_def)

lemma region_padding:
  assumes "region_is f p bs" "length bs \<le> j" "j < f_width f"
  shows "p ! (f_offset f + j) = 0"
proof -
  have "f_offset f + f_width f \<le> length p" using assms(1) by (simp add: region_is_def)
  then have "p ! (f_offset f + j) = chunk p (f_offset f) (f_width f) ! j"
    using assms(3) by simp
  also have "\<dots> = 0" using assms unfolding region_is_def by (simp add: nth_append zeroes_bytes_def)
  finally show ?thesis .
qed

lemma unused_null_bits:
  assumes "row_blank NB off n p" "NB = (n + 7) div 8" "n mod 8 \<noteq> 0"
  shows "p ! (8 + NB - 1) AND push_bit (n mod 8) 0xff = 0"
proof (rule bit_word_eqI)
  fix k assume k: "k < LENGTH(8)"
  obtain q r where qr: "n = 8 * q + r" "r < 8" "q = n div 8" "r = n mod 8" by force
  have "(r + 7) div 8 = 1" using qr(2,4) assms(3) by (simp add: div_nat_eqI)
  moreover have "((r + 7) + 8 * q) div 8 = q + (r + 7) div 8" by (rule div_mult_self2) simp
  moreover have "n + 7 = (r + 7) + 8 * q" using qr(1) by simp
  ultimately have NB: "NB = n div 8 + 1" using assms(2) qr(3) by simp
  have n: "n = 8 * (n div 8) + n mod 8" by simp
  have "\<not> bit (p ! (8 + n div 8)) k" if "n mod 8 \<le> k"
  proof -
    have "n \<le> 8 * (n div 8) + k" using that n by linarith
    moreover have "8 * (n div 8) + k < 8 * NB" using k NB by simp
    ultimately have "\<not> null_flag (8 * (n div 8) + k) p" using assms(1) by (simp add: row_blank_def)
    then show ?thesis using k by (simp add: null_flag_def)
  qed
  then show "bit (p ! (8 + NB - 1) AND push_bit (n mod 8) 0xff) k = bit (0 :: byte) k"
    using NB by (auto simp: bit_simps)
qed

context symbol_table
begin

lemma field_holds_decode:
  assumes "field_holds f v i c q" "i < field_count s" "schema_fields s ! i = f" "field_typed f"
  shows "wadb_decode_value s i q (Some (resolve c)) = Inr (stored_value f v)"
    and "padding_zero f (stored_value f v) q"
proof -
  show "wadb_decode_value s i q (Some (resolve c)) = Inr (stored_value f v)"
  proof (cases "is_null v")
    case True
    then show ?thesis using assms(1-3)
      by (simp add: field_holds_def wadb_decode_value_def Let_def null_bit_set_iff stored_value_def)
  next
    case False
    then obtain c0 c1 bs where "inv c0" "wadb_encode_field f v i (Some intern) c0 = (c1, Inr bs)" "extends c1 c"
      "region_is f q bs" "\<not> (f_nullable f \<and> null_bit_set f q)"
      using assms(1) by (auto simp: field_holds_def null_bit_set_iff)
    then show ?thesis using decode_encode_field [OF assms(2-4) _ False] by blast
  qed
  show "padding_zero f (stored_value f v) q"
  proof (cases "is_null v")
    case True
    then show ?thesis using assms(1) region_padding [of f q "[]"]
      by (simp add: field_holds_def padding_zero_def stored_value_def null_value_def)
  next
    case False
    then obtain c0 c1 bs where e: "wadb_encode_field f v i (Some intern) c0 = (c1, Inr bs)" "region_is f q bs"
      using assms(1) by (auto simp: field_holds_def)
    have "length bs = 4 + length (carr_items (as_bytes v))" if "f_type f = WADB_TEXT"
      using e(1) that by (auto simp: wadb_encode_field_def split: if_splits)
    then show ?thesis using False region_padding [OF e(2)]
      by (auto simp: padding_zero_def stored_value_def word_value_def bytes_value_def)
  qed
qed

lemma encode_row_roundtrip:
  assumes s: "schema_ok s" and inv: "inv c"
    and enc: "wadb_encode_row s values time (Some intern) c cap = (c', Inr row)"
  shows "length row = row_width s" "inv c'" "extends c c'"
    "wadb_decode_value s 0 row (Some (resolve c')) = Inr (word_value (word_of_int time))"
    "\<And>m. m + 1 < field_count s \<Longrightarrow> wadb_decode_value s (m + 1) row (Some (resolve c')) =
       Inr (stored_value (schema_fields s ! (m + 1)) (carr_items values ! m))"
    "wadb_validate_row s row (Some (resolve c')) = Inr ()"
proof -
  let ?fs = "tl (schema_fields s)" and ?NB = "null_bytes s"
  let ?p = "blit (zeroes_bytes (row_width s)) 0 (wadb_put_u64 (word_of_int time))"
  note ok = schema_okD [OF s]
  have placed: "fields_placed ?fs (8 + ?NB) 0" and NB: "?NB = (count_nullable ?fs + 7) div 8"
    using s unfolding schema_ok_def by blast+
  have typed: "list_all field_typed ?fs"
    using s ok(3) fields_placed_typed [OF placed] by (metis list.pred_inject(2) schema_ok_def)
  have nth0: "schema_fields s ! 0 = time_field" and nthS: "schema_fields s ! (m + 1) = ?fs ! m" for m
    by (subst ok(3), simp)+
  have fc: "field_count s = length ?fs + 1" using ok(1,2) by simp
  have "drop 1 (take (field_count s) (schema_fields s)) = ?fs" using ok(1) by (simp add: drop_Suc)
  then have run: "encode_fields ?fs (carr_items values) 1 (Some intern) c ?p = (c', Inr row)"
    using enc by (simp add: wadb_encode_row_def split: if_splits)
  have blank: "row_blank ?NB (8 + ?NB) 0 ?p"
  proof -
    have z: "?p ! j = 0" if "8 \<le> j" "j < row_width s" for j
      using that by (simp add: nth_blit zeroes_bytes_def)
    have "\<not> null_flag k ?p" if "k < 8 * ?NB" for k
    proof -
      have "8 + k div 8 < row_width s" using that ok(7) by linarith
      then show ?thesis using z [of "8 + k div 8"] by (simp add: null_flag_def)
    qed
    then show ?thesis using z by (simp add: row_blank_def)
  qed
  have holds: "inv c' \<and> extends c c' \<and> row_agrees ?NB (8 + ?NB) 0 ?p row \<and>
     row_blank ?NB (8 + ?NB + fields_width ?fs) (0 + count_nullable ?fs) row \<and>
     (\<forall>m < length ?fs. field_holds (?fs ! m) (carr_items values ! (1 + m - 1)) (1 + m) c' row)"
    using ok(7) NB by (intro encode_fields_holds [OF run inv _ placed typed blank]) auto
  then show "length row = row_width s" "inv c'" "extends c c'" by (simp_all add: row_agrees_def)
  then have len: "length row = row_width s" by simp
  have dec: "wadb_decode_value s (m + 1) row (Some (resolve c')) =
       Inr (stored_value (schema_fields s ! (m + 1)) (carr_items values ! m)) \<and>
       padding_zero (?fs ! m) (stored_value (schema_fields s ! (m + 1)) (carr_items values ! m)) row"
    if "m < length ?fs" for m
  proof -
    have "field_holds (?fs ! m) (carr_items values ! m) (m + 1) c' row" using holds that by simp
    moreover have "field_typed (?fs ! m)" using typed that by (simp add: list_all_length)
    ultimately show ?thesis using field_holds_decode [of "?fs ! m"] nthS that fc by (metis add_less_cancel_right)
  qed
  then show "wadb_decode_value s (m + 1) row (Some (resolve c')) =
       Inr (stored_value (schema_fields s ! (m + 1)) (carr_items values ! m))" if "m + 1 < field_count s" for m
    using that fc by simp
  have "chunk row 0 8 = chunk ?p 0 8"
    using holds ok(6) len by (intro nth_equalityI) (auto simp: row_agrees_def)
  then have "wadb_get_u64 row = word_of_int time"
    using get_u64_chunk [of 0 row] len ok(6) by (simp add: codec_simps)
  then show t: "wadb_decode_value s 0 row (Some (resolve c')) = Inr (word_value (word_of_int time))"
    using fc by (simp add: wadb_decode_value_def nth0 Let_def word_of_get_i64)
  have "\<exists>v. wadb_decode_value s (0 + m) row (Some (resolve c')) = Inr v \<and> padding_zero (schema_fields s ! m) v row"
    if "m < length (schema_fields s)" for m
  proof (cases m)
    case 0
    then show ?thesis using t nth0 by (auto simp: padding_zero_def word_value_def)
  next
    case (Suc k)
    then show ?thesis using dec [of k] nthS [of k] that fc ok(1) by (metis Suc_eq_plus1 add_0 add_less_cancel_right)
  qed
  then have val: "validate_fields s row (Some (resolve c')) (schema_fields s) 0 0 = Inr (count_nullable ?fs)"
    using validate_fields_ok [of "schema_fields s" s 0 row "Some (resolve c')" 0] ok(3)
    by (metis add_0 count_nullable_def filter.simps(2) time_field_simps(4))
  have "f_offset (last (schema_fields s)) + f_width (last (schema_fields s)) = 8 + ?NB + fields_width ?fs"
  proof (cases "?fs = []")
    case True
    then show ?thesis using ok(3) NB by (subst (1 2) ok(3)) (simp add: fields_width_def count_nullable_def)
  next
    case False
    then show ?thesis using fields_placed_end [OF placed False] ok(3) by (metis last_ConsR)
  qed
  then have pad: "\<not> list_ex (\<lambda>i. row ! i \<noteq> 0)
      [f_offset (last (schema_fields s)) + f_width (last (schema_fields s))..<row_width s]"
    using holds len by (auto simp: list_ex_iff row_blank_def)
  have "last (schema_fields s) = schema_fields s ! (field_count s - 1)" using ok(1,2) by (simp add: last_conv_nth)
  moreover have "count_nullable ?fs mod 8 \<noteq> 0 \<longrightarrow>
      row ! (8 + ?NB - 1) AND push_bit (count_nullable ?fs mod 8) 0xff = 0"
    using unused_null_bits [OF _ NB] holds by auto
  ultimately show "wadb_validate_row s row (Some (resolve c')) = Inr ()"
    using val pad ok(1) by (auto simp: wadb_validate_row_def Let_def)
qed

end

section \<open>Properties\<close>

lemma fields_placed_sorted:
  "fields_placed fs off nb \<Longrightarrow>
     sorted_wrt (\<lambda>f g. f_offset f + f_width f \<le> f_offset g) fs \<and>
     list_all (\<lambda>f. off \<le> f_offset f \<and> f_offset f + f_width f \<le> off + fields_width fs) fs \<and>
     map f_null_bit (filter f_nullable fs) = [nb..<nb + count_nullable fs]"
proof (induction fs off nb rule: fields_placed.induct)
  case (2 f fs off nb)
  then have IH: "sorted_wrt (\<lambda>f g. f_offset f + f_width f \<le> f_offset g) fs"
    "\<And>g. g \<in> set fs \<Longrightarrow> off + f_width f \<le> f_offset g \<and> f_offset g + f_width g \<le> off + f_width f + fields_width fs"
    "map f_null_bit (filter f_nullable fs) =
       [(if f_nullable f then nb + 1 else nb)..<(if f_nullable f then nb + 1 else nb) + count_nullable fs]"
    by (auto simp: list_all_iff)
  have w: "fields_width (f # fs) = f_width f + fields_width fs" by (simp add: fields_width_def)
  have "sorted_wrt (\<lambda>f g. f_offset f + f_width f \<le> f_offset g) (f # fs)" using IH(1,2) 2(2) by auto
  moreover have "list_all (\<lambda>g. off \<le> f_offset g \<and> f_offset g + f_width g \<le> off + fields_width (f # fs)) (f # fs)"
    using IH(2) 2(2) w by (fastforce simp: list_all_iff)
  moreover have "map f_null_bit (filter f_nullable (f # fs)) = [nb..<nb + count_nullable (f # fs)]"
    using IH(3) 2(2) by (cases "f_nullable f") (simp_all add: count_nullable_def upt_conv_Cons del: upt_Suc)
  ultimately show ?case by blast
qed (simp add: count_nullable_def)

text \<open>The bytes of a slot by type, as the storage format lists them.\<close>

definition slot_bytes :: "wadb_field_def \<Rightarrow> nat" where
  "slot_bytes d =
     (if d_type d = WADB_BYTES then d_size d
      else if d_type d = WADB_TEXT then 4 + d_size d
      else if d_type d \<in> {WADB_I8, WADB_U8, WADB_BOOL} then 1
      else if d_type d \<in> {WADB_I16, WADB_U16} then 2
      else if d_type d \<in> {WADB_I32, WADB_U32, WADB_F32, WADB_SYMBOL32} then 4
      else if d_type d = WADB_UUID then 16
      else 8)"

text \<open>The \<open>i\<close>-th field: slots follow time and bitmap without padding, null bits count the nullable fields before.\<close>

definition documented_field :: "wadb_field_def list \<Rightarrow> nat \<Rightarrow> wadb_field" where
  "documented_field ds i =
     \<lparr>f_name = cstr (the (d_name (ds ! i))), f_type = d_type (ds ! i), f_size = d_size (ds ! i), f_nullable = d_nullable (ds ! i),
      f_offset = 8 + (length (filter d_nullable ds) + 7) div 8 + sum_list (map slot_bytes (take i ds)), f_width = slot_bytes (ds ! i),
      f_null_bit = (if d_nullable (ds ! i) then length (filter d_nullable (take i ds)) else UINT32_MAX)\<rparr>"

lemma slot_bytes_width: "d_type d \<in> set type_list \<Longrightarrow> d_size d \<le> WADB_MAX_ROW_BYTES \<Longrightarrow> slot_bytes d = type_width (d_type d) (d_size d)"
  by (cases "d_type d") (simp_all add: slot_bytes_def type_width.simps type_list_def add32_exact WADB_MAX_ROW_BYTES_def)

lemma placed_documented:
  assumes "list_all2 field_of_def ds fs" "fields_placed fs off nb" "\<forall>d\<in>set ds. slot_bytes d = type_width (d_type d) (d_size d)" "i < length ds"
  shows "fs ! i = \<lparr>f_name = cstr (the (d_name (ds ! i))), f_type = d_type (ds ! i), f_size = d_size (ds ! i), f_nullable = d_nullable (ds ! i),
      f_offset = off + sum_list (map slot_bytes (take i ds)), f_width = slot_bytes (ds ! i),
      f_null_bit = (if d_nullable (ds ! i) then nb + length (filter d_nullable (take i ds)) else UINT32_MAX)\<rparr>"
  using assms
proof (induction ds fs arbitrary: off nb i rule: list_all2_induct)
  case (Cons d ds f fs)
  show ?case
  proof (cases i)
    case 0
    then show ?thesis using Cons by (simp add: field_of_def_def def_name_def)
  next
    case (Suc j)
    have f: "f_nullable f = d_nullable d" "f_width f = slot_bytes d" "fields_placed fs (off + f_width f) (if f_nullable f then nb + 1 else nb)"
      using Cons.prems Cons.hyps(1) by (auto simp: field_of_def_def)
    have "\<forall>d\<in>set ds. slot_bytes d = type_width (d_type d) (d_size d)" "j < length ds" using Cons.prems Suc by simp_all
    from Cons.IH [OF f(3) [unfolded f(1,2)] this] show ?thesis using Suc by (cases "d_nullable d") (simp_all add: add.assoc)
  qed
qed simp

lemma build_documented:
  assumes "wadb_schema_build defs = Inr s"
  shows "schema_fields s = time_field # map (documented_field (carr_items defs)) [0..<length (carr_items defs)]"
    "null_bytes s = (length (filter d_nullable (carr_items defs)) + 7) div 8"
    "fields_width (tl (schema_fields s)) = sum_list (map slot_bytes (carr_items defs))"
proof -
  let ?ds = "carr_items defs"
  note b = schema_build_ok [OF assms]
  note ok = schema_okD [OF b(1)]
  have l: "length (tl (schema_fields s)) = length ?ds" using b(2) by (simp add: list_all2_lengthD)
  have n: "count_nullable (tl (schema_fields s)) = length (filter d_nullable ?ds)"
    using b(2) by (induction rule: list_all2_induct) (auto simp: field_of_def_def count_nullable_def)
  show nb: "null_bytes s = (length (filter d_nullable ?ds) + 7) div 8" using b(1) n by (simp add: schema_ok_def)
  have t: "\<forall>d\<in>set ?ds. slot_bytes d = type_width (d_type d) (d_size d)"
  proof
    fix d assume "d \<in> set ?ds"
    then obtain i where i: "i < length ?ds" "d = ?ds ! i" by (auto simp: in_set_conv_nth)
    then have "field_of_def d (tl (schema_fields s) ! i)" using b(2) by (simp add: list_all2_conv_all_nth)
    moreover have "tl (schema_fields s) ! i \<in> set (schema_fields s)" using i l ok(2) by (metis list.set_sel(2) nth_mem)
    ultimately show "slot_bytes d = type_width (d_type d) (d_size d)"
      using b(1) slot_bytes_width [of d] by (auto simp: schema_ok_def list_all_iff field_of_def_def)
  qed
  have p: "fields_placed (tl (schema_fields s)) (8 + null_bytes s) 0" using b(1) unfolding schema_ok_def by blast
  have d: "tl (schema_fields s) = map (documented_field ?ds) [0..<length ?ds]"
    using l placed_documented [OF b(2) p t] nb by (intro nth_equalityI) (simp_all add: documented_field_def)
  then show "schema_fields s = time_field # map (documented_field ?ds) [0..<length ?ds]" using ok(3) by metis
  have "map f_width (tl (schema_fields s)) = map slot_bytes ?ds"
    unfolding d by (intro nth_equalityI) (simp_all add: documented_field_def)
  then show "fields_width (tl (schema_fields s)) = sum_list (map slot_bytes ?ds)" by (simp add: fields_width_def)
qed

text \<open>
  C16: the layout of a schema that is built is the one the storage format describes: \<^verbatim>\<open>_time\<close> in
  the first eight bytes, a bitmap with one bit per nullable field, then the fields in the order of
  their definitions, each directly after the one before and as wide as its type, with null bits
  numbered from zero, and the row rounded up to the next multiple of eight bytes within
  \<^verbatim>\<open>WADB_MAX_ROW_BYTES\<close>. So the fields do not overlap, lie inside the row, and have distinct names.
\<close>

theorem schema_build_layout:
  assumes "wadb_schema_build defs = Inr s"
  shows "let ds = carr_items defs; used = 8 + null_bytes s + sum_list (map slot_bytes ds) in
    schema_fields s = time_field # map (documented_field ds) [0..<length ds] \<and> field_count s = length ds + 1 \<and>
    null_bytes s = (length (filter d_nullable ds) + 7) div 8 \<and>
    row_width s mod 8 = 0 \<and> used \<le> row_width s \<and> row_width s < used + 8 \<and> row_width s \<le> WADB_MAX_ROW_BYTES \<and>
    distinct (map f_name (schema_fields s)) \<and>
    sorted_wrt (\<lambda>f g. f_offset f + f_width f \<le> f_offset g) (schema_fields s) \<and>
    list_all (\<lambda>f. 8 + null_bytes s \<le> f_offset f \<and> f_offset f + f_width f \<le> row_width s) (tl (schema_fields s)) \<and>
    map f_null_bit (filter f_nullable (schema_fields s)) = [0..<count_nullable (schema_fields s)] \<and>
    count_nullable (schema_fields s) \<le> 8 * null_bytes s"
proof -
  have s: "schema_ok s" using schema_build_ok(1) [OF assms] .
  note ok = schema_okD [OF s] and d = build_documented [OF assms]
  have placed: "fields_placed (tl (schema_fields s)) (8 + null_bytes s) 0"
    and NB: "null_bytes s = (count_nullable (tl (schema_fields s)) + 7) div 8"
    and dis: "distinct (map f_name (schema_fields s))"
    and rw: "row_width s = (8 + null_bytes s + fields_width (tl (schema_fields s)) + 7) div 8 * 8"
    using s unfolding schema_ok_def Let_def by blast+
  note srt = fields_placed_sorted [OF placed]
  obtain fs where fs: "schema_fields s = time_field # fs" using ok(3) by metis
  have "count_nullable fs \<le> 8 * null_bytes s" using NB fs by simp
  moreover have "sorted_wrt (\<lambda>f g. f_offset f + f_width f \<le> f_offset g) (schema_fields s)"
    using srt fs by (auto simp: list_all_iff)
  moreover have "list_all (\<lambda>f. 8 + null_bytes s \<le> f_offset f \<and> f_offset f + f_width f \<le> row_width s) fs"
    using srt ok(7) fs by (fastforce simp: list_all_iff)
  moreover have "row_width s < 8 + null_bytes s + fields_width (tl (schema_fields s)) + 8" using rw by simp
  moreover have "field_count s = length (carr_items defs) + 1" using ok(1) d(1) by simp
  ultimately have "field_count s = length (carr_items defs) + 1 \<and> row_width s mod 8 = 0 \<and>
      8 + null_bytes s + sum_list (map slot_bytes (carr_items defs)) \<le> row_width s \<and>
      row_width s < 8 + null_bytes s + sum_list (map slot_bytes (carr_items defs)) + 8 \<and> row_width s \<le> WADB_MAX_ROW_BYTES \<and>
      sorted_wrt (\<lambda>f g. f_offset f + f_width f \<le> f_offset g) (schema_fields s) \<and>
      list_all (\<lambda>f. 8 + null_bytes s \<le> f_offset f \<and> f_offset f + f_width f \<le> row_width s) (tl (schema_fields s)) \<and>
      map f_null_bit (filter f_nullable (schema_fields s)) = [0..<count_nullable (schema_fields s)] \<and>
      count_nullable (schema_fields s) \<le> 8 * null_bytes s"
    using ok fs srt d(3) by (simp add: count_nullable_def)
  then show ?thesis using d(1,2) dis unfolding Let_def by blast
qed

definition example_defs :: "wadb_field_def carr" where
  "example_defs = CMem
     [\<lparr>d_name = Some (ascii ''path''), d_type = WADB_SYMBOL32, d_size = 0, d_nullable = False\<rparr>,
      \<lparr>d_name = Some (ascii ''ms''), d_type = WADB_U16, d_size = 0, d_nullable = True\<rparr>]"

lemma example_builds: "\<exists>s. wadb_schema_build example_defs = Inr s"
proof -
  have "\<not> defs_rejected example_defs"
    by (simp add: defs_rejected_def example_defs_def def_ok_def def_name_def WADB_MAX_FIELDS_def type_list_def
        wadb_identifier_def identifier_loop.simps identifier_char_def cchar_def ascii_def cstr_def WADB_NAME_CAP_def)
  moreover have "defs_end (carr_items example_defs) \<le> WADB_MAX_ROW_BYTES"
    by (simp add: example_defs_def defs_end_def defs_width_def type_width.simps WADB_MAX_ROW_BYTES_def)
  ultimately show ?thesis
    using schema_build_outcome [of example_defs] by (cases "wadb_schema_build example_defs") auto
qed

theorem schema_build_layout_witness:
  "\<exists>s. wadb_schema_build example_defs = Inr s \<and> map f_offset (schema_fields s) = [0, 9, 13] \<and> row_width s = 16"
proof -
  obtain s where s: "wadb_schema_build example_defs = Inr s" using example_builds by blast
  let ?ds = "carr_items example_defs"
  have l: "schema_fields s = time_field # map (documented_field ?ds) [0..<length ?ds]"
    "null_bytes s = (length (filter d_nullable ?ds) + 7) div 8" "row_width s mod 8 = 0"
    "8 + null_bytes s + sum_list (map slot_bytes ?ds) \<le> row_width s" "row_width s < 8 + null_bytes s + sum_list (map slot_bytes ?ds) + 8"
    using schema_build_layout [OF s] unfolding Let_def by blast+
  have n: "null_bytes s = 1" using l(2) by (simp add: example_defs_def)
  have "sum_list (map slot_bytes ?ds) = 6" by (simp add: example_defs_def slot_bytes_def)
  then have "15 \<le> row_width s" "row_width s < 23" using l(4,5) n by simp_all
  then have "row_width s = 16" using l(3) by presburger
  moreover have "map f_offset (schema_fields s) = [0, 9, 13]"
    unfolding l(1) by (simp add: example_defs_def documented_field_def slot_bytes_def time_field_def upt_rec)
  ultimately show ?thesis using s by (intro exI [of _ s] conjI)
qed

text \<open>
  C25: building a schema fails with \<^verbatim>\<open>WADB_INVALID\<close> exactly when the definitions are missing,
  too many, repeat a name, or contain an ill-formed one, and otherwise with \<^verbatim>\<open>WADB_LIMIT\<close>
  exactly when time, bitmap and fields exceed \<^verbatim>\<open>WADB_MAX_ROW_BYTES\<close>; in every other case it
  succeeds.
\<close>

theorem schema_build_errors:
  "wadb_schema_build defs = Inl e \<longleftrightarrow>
     (if defs_rejected defs then e = WADB_INVALID
      else WADB_MAX_ROW_BYTES < defs_end (carr_items defs) \<and> e = WADB_LIMIT)"
  by (rule schema_build_outcome)

end
