(* ===== verification/Wadb_Format.thy ===== *)
theory Wadb_Format
  imports Wadb_Schema
begin

unbundle bit_operations_syntax

text \<open>
  The model of \<^verbatim>\<open>src/storage/format.c\<close>: the segment header and the frame codec. The two
  locales are the contracts that the other on-disk records share: \<open>record_codec\<close> (encoding
  and decoding are inverse) and \<open>checksummed\<close> (a record ends with the CRC-32C of what
  precedes it).
\<close>

section \<open>Segment headers\<close>

definition WADB_SEGMENT_HEADER_BYTES :: nat where "WADB_SEGMENT_HEADER_BYTES = 128"
definition WADB_FRAME_HEADER_BYTES :: nat where "WADB_FRAME_HEADER_BYTES = 80"
definition WADB_FRAME_TRAILER_BYTES :: nat where "WADB_FRAME_TRAILER_BYTES = 16"
definition WADB_MAX_FRAME_BYTES :: nat where "WADB_MAX_FRAME_BYTES = 1048576"
definition WADB_FORMAT_VERSION :: nat where "WADB_FORMAT_VERSION = 1"
definition WADB_DAY_US :: int where "WADB_DAY_US = 86400000000"

record wadb_segment_header =
  sh_table_id :: nat
  sh_segment_id :: nat
  sh_schema_hash :: u64
  sh_row_width :: nat
  sh_day_start :: int
  sh_first_sequence :: nat

text \<open>The ranges of the C types of the members.\<close>

definition header_range :: "wadb_segment_header \<Rightarrow> bool" where
  "header_range h \<longleftrightarrow>
     sh_table_id h \<le> UINT64_MAX \<and> sh_segment_id h \<le> UINT64_MAX \<and> sh_row_width h \<le> UINT32_MAX \<and>
     i64_range (sh_day_start h) \<and> sh_first_sequence h \<le> UINT64_MAX"

definition zeroes :: "bytes \<Rightarrow> nat \<Rightarrow> bool" where
  "zeroes p n \<longleftrightarrow> list_all (\<lambda>i. p ! i = 0) [0..<n]"

definition segment_body :: "wadb_segment_header \<Rightarrow> bytes" where
  "segment_body h =
     (let p = zeroes_bytes WADB_SEGMENT_HEADER_BYTES;
          p = blit p 0 (ascii ''WADBSEG1'');
          p = blit p 8 (wadb_put_u32 (of_nat WADB_FORMAT_VERSION));
          p = blit p 12 (wadb_put_u32 (of_nat WADB_SEGMENT_HEADER_BYTES));
          p = blit p 16 (wadb_put_u64 (of_nat (sh_table_id h)));
          p = blit p 24 (wadb_put_u64 (of_nat (sh_segment_id h)));
          p = blit p 32 (wadb_put_u64 (sh_schema_hash h));
          p = blit p 40 (wadb_put_u32 (of_nat (sh_row_width h)));
          p = blit p 48 (wadb_put_u64 (word_of_int (sh_day_start h)));
          p = blit p 56 (wadb_put_u64 (of_nat (sh_first_sequence h)))
      in p)"

definition wadb_segment_encode :: "wadb_segment_header \<Rightarrow> bytes res" where
  "wadb_segment_encode h =
     (if sh_table_id h = 0 \<or> sh_segment_id h = 0 \<or> sh_first_sequence h = 0 \<or>
         sh_row_width h = 0 \<or> sh_row_width h > WADB_MAX_ROW_BYTES \<or> sh_row_width h mod 8 \<noteq> 0 \<or>
         sh_day_start h < 0 \<or> sh_day_start h mod WADB_DAY_US \<noteq> 0
      then Inl WADB_INVALID
      else
        (let p = segment_body h in
         Inr (blit p 124 (wadb_put_u32 (wadb_crc32c (take 124 p))))))"

definition wadb_segment_decode :: "bytes \<Rightarrow> wadb_segment_header res" where
  "wadb_segment_decode p =
     (if length p \<noteq> WADB_SEGMENT_HEADER_BYTES \<or> take 8 p \<noteq> ascii ''WADBSEG1'' then Inl WADB_CORRUPT
      else if wadb_crc32c (take 124 p) \<noteq> wadb_get_u32 (drop 124 p) then Inl WADB_CORRUPT
      else if wadb_get_u32 (drop 8 p) \<noteq> of_nat WADB_FORMAT_VERSION then Inl WADB_VERSION
      else if wadb_get_u32 (drop 12 p) \<noteq> of_nat WADB_SEGMENT_HEADER_BYTES \<or>
              \<not> zeroes (drop 44 p) 4 \<or> \<not> zeroes (drop 64 p) 60 then Inl WADB_CORRUPT
      else
        (let h = \<lparr>sh_table_id = unat (wadb_get_u64 (drop 16 p)),
                  sh_segment_id = unat (wadb_get_u64 (drop 24 p)),
                  sh_schema_hash = wadb_get_u64 (drop 32 p),
                  sh_row_width = unat (wadb_get_u32 (drop 40 p)),
                  sh_day_start = wadb_get_i64 (drop 48 p),
                  sh_first_sequence = unat (wadb_get_u64 (drop 56 p))\<rparr>
         in case wadb_segment_encode h of
              Inl _ \<Rightarrow> Inl WADB_CORRUPT
            | Inr _ \<Rightarrow> Inr h))"

section \<open>Frames\<close>

record wadb_frame =
  fr_schema_hash :: u64
  fr_first_sequence :: nat
  fr_min_time :: int
  fr_max_time :: int
  fr_row_count :: nat
  fr_row_width :: nat
  fr_dictionary_count :: nat
  fr_dictionary_bytes :: nat
  fr_dictionary :: "bytes option"
  fr_rows :: "bytes option"
  fr_frame_bytes :: nat
  fr_rows_offset :: nat

definition frame_range :: "wadb_frame \<Rightarrow> bool" where
  "frame_range f \<longleftrightarrow>
     fr_first_sequence f \<le> UINT64_MAX \<and> i64_range (fr_min_time f) \<and> i64_range (fr_max_time f) \<and>
     fr_row_count f \<le> UINT32_MAX \<and> fr_row_width f \<le> UINT32_MAX \<and>
     fr_dictionary_count f \<le> UINT32_MAX \<and> fr_dictionary_bytes f \<le> UINT32_MAX"

text \<open>\<open>Some (rows, tot)\<close> is \<^verbatim>\<open>true\<close> with the two outputs.\<close>

definition frame_sizes :: "wadb_frame \<Rightarrow> (nat \<times> nat) option" where
  "frame_sizes f =
     (if fr_row_count f = 0 \<or> fr_row_width f = 0 \<or> fr_row_width f > WADB_MAX_ROW_BYTES \<or>
         fr_row_width f mod 8 \<noteq> 0 \<or> fr_first_sequence f = 0 \<or>
         fr_row_count f - 1 > sub64 UINT64_MAX (fr_first_sequence f) \<or>
         fr_min_time f < 0 \<or> fr_max_time f < fr_min_time f \<or>
         fr_min_time f div WADB_DAY_US \<noteq> fr_max_time f div WADB_DAY_US \<or>
         fr_dictionary_bytes f mod 8 \<noteq> 0 \<or> fr_dictionary_bytes f > WADB_MAX_FRAME_BYTES \<or>
         fr_dictionary_count f > fr_dictionary_bytes f div 12 \<or>
         (fr_dictionary_count f = 0 \<and> fr_dictionary_bytes f \<noteq> 0)
      then None
      else
        (case wadb_mul_size (fr_row_count f) (fr_row_width f) of
           None \<Rightarrow> None
         | Some rows \<Rightarrow>
             (case wadb_add_size rows (fr_dictionary_bytes f) of
                None \<Rightarrow> None
              | Some tot \<Rightarrow>
                  (case wadb_add_size tot (WADB_FRAME_HEADER_BYTES + WADB_FRAME_TRAILER_BYTES) of
                     None \<Rightarrow> None
                   | Some tot' \<Rightarrow>
                       if tot' \<le> WADB_MAX_FRAME_BYTES then Some (rows, tot') else None))))"

text \<open>The loop of \<^verbatim>\<open>dictionary_valid\<close> over \<open>count\<close> definitions; the result is the final offset.\<close>

fun dictionary_loop :: "bytes \<Rightarrow> nat \<Rightarrow> nat \<Rightarrow> nat \<Rightarrow> nat option" where
  "dictionary_loop dict nbytes 0 offset = Some offset"
| "dictionary_loop dict nbytes (Suc count) offset =
     (if sub64 nbytes offset < 12 then None
      else
        (let p = drop offset dict; len = unat (wadb_get_u32 (drop 8 p)) in
         if wadb_get_u16 p = 0 \<or> unat (wadb_get_u16 p) \<ge> WADB_MAX_FIELDS \<or>
            wadb_get_u16 (drop 2 p) \<noteq> 0 \<or> wadb_get_u32 (drop 4 p) = 0 \<or>
            len > WADB_MAX_STRING_BYTES \<or> len > sub64 (sub64 nbytes offset) 12 \<or>
            \<not> wadb_utf8 (CMem (take len (drop 12 p)))
         then None
         else dictionary_loop dict nbytes count (offset + (12 + len))))"

definition dictionary_valid :: "wadb_frame \<Rightarrow> bool" where
  "dictionary_valid f =
     (case dictionary_loop (the (fr_dictionary f)) (fr_dictionary_bytes f) (fr_dictionary_count f) 0 of
        None \<Rightarrow> False
      | Some offset \<Rightarrow>
          sub64 (fr_dictionary_bytes f) offset < 8 \<and>
          (fr_dictionary_bytes f = 0 \<or>
           zeroes (drop offset (the (fr_dictionary f))) (sub64 (fr_dictionary_bytes f) offset)))"

fun times_loop :: "wadb_frame \<Rightarrow> nat \<Rightarrow> nat \<Rightarrow> int \<Rightarrow> int option" where
  "times_loop f 0 i previous = Some previous"
| "times_loop f (Suc n) i previous =
     (let time = wadb_get_i64 (drop (i * fr_row_width f) (the (fr_rows f))) in
      if time < previous \<or> time > fr_max_time f \<or> (i = 0 \<and> time \<noteq> fr_min_time f) then None
      else times_loop f n (i + 1) time)"

definition times_valid :: "wadb_frame \<Rightarrow> bool" where
  "times_valid f =
     (case times_loop f (fr_row_count f) 0 (fr_min_time f) of
        None \<Rightarrow> False
      | Some previous \<Rightarrow> previous = fr_max_time f)"

definition frame_header :: "wadb_frame \<Rightarrow> nat \<Rightarrow> bytes" where
  "frame_header f tot =
     (let p = zeroes_bytes tot;
          p = blit p 0 (ascii ''WADBBAT1'');
          p = blit p 8 (wadb_put_u32 (of_nat tot));
          p = blit p 12 (wadb_put_u32 (of_nat WADB_FRAME_HEADER_BYTES));
          p = blit p 16 (wadb_put_u32 (of_nat (fr_row_count f)));
          p = blit p 20 (wadb_put_u32 (of_nat (fr_row_width f)));
          p = blit p 24 (wadb_put_u64 (of_nat (fr_first_sequence f)));
          p = blit p 32 (wadb_put_u64 (word_of_int (fr_min_time f)));
          p = blit p 40 (wadb_put_u64 (word_of_int (fr_max_time f)));
          p = blit p 48 (wadb_put_u32 (of_nat (fr_dictionary_bytes f)));
          p = blit p 52 (wadb_put_u32 (of_nat (fr_dictionary_count f)));
          p = blit p 56 (wadb_put_u32 (of_nat (WADB_FRAME_HEADER_BYTES + fr_dictionary_bytes f)));
          p = blit p 64 (wadb_put_u64 (fr_schema_hash f))
      in blit p 72 (wadb_put_u32 (wadb_crc32c (take 72 p))))"

definition frame_body :: "wadb_frame \<Rightarrow> nat \<Rightarrow> nat \<Rightarrow> bytes" where
  "frame_body f rows tot =
     (let p = frame_header f tot;
          p = (if fr_dictionary_bytes f \<noteq> 0
               then blit p WADB_FRAME_HEADER_BYTES (take (fr_dictionary_bytes f) (the (fr_dictionary f)))
               else p);
          p = blit p (WADB_FRAME_HEADER_BYTES + fr_dictionary_bytes f) (take rows (the (fr_rows f)));
          p = blit p (tot - WADB_FRAME_TRAILER_BYTES) (ascii ''WADBEND1'')
      in blit p (tot - 8) (wadb_put_u32 (of_nat tot)))"

text \<open>\<open>alloc\<close> tells whether \<^verbatim>\<open>calloc\<close> succeeds.\<close>

definition wadb_frame_encode :: "bool \<Rightarrow> wadb_frame \<Rightarrow> bytes res" where
  "wadb_frame_encode alloc f =
     (case frame_sizes f of
        None \<Rightarrow> Inl WADB_INVALID
      | Some (rows, tot) \<Rightarrow>
          if fr_rows f = None \<or> (fr_dictionary_bytes f \<noteq> 0 \<and> fr_dictionary f = None) \<or>
             \<not> dictionary_valid f \<or> \<not> times_valid f
          then Inl WADB_INVALID
          else if \<not> alloc then Inl WADB_NOMEM
          else
            (let p = frame_body f rows tot in
             Inr (blit p (tot - 4) (wadb_put_u32 (wadb_crc32c (take (tot - 4) p))))))"

definition wadb_frame_inspect :: "bytes \<Rightarrow> wadb_frame res" where
  "wadb_frame_inspect p =
     (if length p < WADB_FRAME_HEADER_BYTES \<or> take 8 p \<noteq> ascii ''WADBBAT1'' \<or>
         wadb_get_u32 (drop 12 p) \<noteq> of_nat WADB_FRAME_HEADER_BYTES \<or>
         wadb_crc32c (take 72 p) \<noteq> wadb_get_u32 (drop 72 p) \<or>
         \<not> zeroes (drop 60 p) 4 \<or> \<not> zeroes (drop 76 p) 4
      then Inl WADB_CORRUPT
      else
        (let f = \<lparr>fr_schema_hash = wadb_get_u64 (drop 64 p),
                  fr_first_sequence = unat (wadb_get_u64 (drop 24 p)),
                  fr_min_time = wadb_get_i64 (drop 32 p), fr_max_time = wadb_get_i64 (drop 40 p),
                  fr_row_count = unat (wadb_get_u32 (drop 16 p)),
                  fr_row_width = unat (wadb_get_u32 (drop 20 p)),
                  fr_dictionary_count = unat (wadb_get_u32 (drop 52 p)),
                  fr_dictionary_bytes = unat (wadb_get_u32 (drop 48 p)),
                  fr_dictionary = None, fr_rows = None,
                  fr_frame_bytes = unat (wadb_get_u32 (drop 8 p)),
                  fr_rows_offset = unat (wadb_get_u32 (drop 56 p))\<rparr>
         in case frame_sizes f of
              None \<Rightarrow> Inl WADB_CORRUPT
            | Some (rows, tot) \<Rightarrow>
                if tot \<noteq> fr_frame_bytes f \<or>
                   fr_rows_offset f \<noteq> WADB_FRAME_HEADER_BYTES + fr_dictionary_bytes f
                then Inl WADB_CORRUPT else Inr f))"

definition wadb_frame_decode :: "bytes \<Rightarrow> wadb_frame res" where
  "wadb_frame_decode p =
     bind_res (wadb_frame_inspect p) (\<lambda>f0.
       let n = length p in
       if n \<noteq> fr_frame_bytes f0 \<or>
          take 8 (drop (n - WADB_FRAME_TRAILER_BYTES) p) \<noteq> ascii ''WADBEND1'' \<or>
          unat (wadb_get_u32 (drop (n - 8) p)) \<noteq> n \<or>
          wadb_crc32c (take (n - 4) p) \<noteq> wadb_get_u32 (drop (n - 4) p)
       then Inl WADB_CORRUPT
       else
         (let f = f0\<lparr>fr_dictionary := Some (drop WADB_FRAME_HEADER_BYTES p),
                     fr_rows := Some (drop (fr_rows_offset f0) p)\<rparr>
          in if \<not> dictionary_valid f \<or> \<not> times_valid f then Inl WADB_CORRUPT else Inr f))"

section \<open>Reading back what was written\<close>

lemma length_four: "length bs = 4 \<Longrightarrow> bs = [bs ! 0, bs ! 1, bs ! 2, bs ! 3]"
  by (rule nth_equalityI) (auto simp: numeral_eq_Suc less_Suc_eq)

lemma get_u32_le_word: "length bs = 4 \<Longrightarrow> wadb_get_u32 bs = le_word bs"
proof -
  assume "length bs = 4"
  then obtain a b c d where bs: "bs = [a, b, c, d]" using length_four by blast
  have "ucast a OR push_bit 8 (ucast b) OR push_bit 16 (ucast c) OR push_bit 24 (ucast d)
      = ucast a XOR push_bit 8 (ucast b XOR push_bit 8 (ucast c XOR push_bit 8 (ucast d :: u32)))"
    by (rule bit_word_eqI) (auto simp: bit_simps dest: bit_imp_le_length)
  then show ?thesis by (simp add: bs wadb_get_u32_def)
qed

lemma put_get_u32: "length bs = 4 \<Longrightarrow> wadb_put_u32 (wadb_get_u32 bs) = bs"
  using le_word_inj [of "wadb_put_u32 (wadb_get_u32 bs)" bs] get_u32_le_word [of bs]
    get_u32_le_word [of "wadb_put_u32 (wadb_get_u32 bs)"] by simp

lemma put_u64_halves: "wadb_put_u64 n = wadb_put_u32 (ucast n) @ wadb_put_u32 (ucast (drop_bit 32 n))"
proof -
  have lo: "ucast (drop_bit k (ucast n :: u32)) = (ucast (drop_bit k n) :: byte)" if "k \<le> 24" for k
    using that by (intro bit_word_eqI) (auto simp: bit_simps)
  have hi: "ucast (drop_bit k (ucast (drop_bit 32 n) :: u32)) = (ucast (drop_bit (32 + k) n) :: byte)" if "k \<le> 24" for k
    using that by (intro bit_word_eqI) (auto simp: bit_simps ac_simps)
  show ?thesis using lo [of 0] hi [of 0]
    by (simp add: wadb_put_u64_def wadb_put_u32_def upt_4 upt_8 lo hi)
qed

lemma put_get_u64: "length bs = 8 \<Longrightarrow> wadb_put_u64 (wadb_get_u64 bs) = bs"
proof -
  assume len: "length bs = 8"
  let ?a = "wadb_get_u32 bs" and ?b = "wadb_get_u32 (drop 4 bs)"
  have u: "wadb_get_u64 bs = ucast ?a OR push_bit 32 (ucast ?b)" by (simp add: wadb_get_u64_def)
  have "ucast (ucast ?a OR push_bit 32 (ucast ?b) :: u64) = ?a"
    by (rule bit_word_eqI) (auto simp: bit_simps)
  moreover have "ucast (drop_bit 32 (ucast ?a OR push_bit 32 (ucast ?b) :: u64)) = ?b"
    by (rule bit_word_eqI) (auto simp: bit_simps dest: bit_imp_le_length)
  moreover have "wadb_get_u32 (take 4 bs) = ?a" using get_u32_chunk [of 0 bs] len by (simp add: chunk_def)
  ultimately show ?thesis
    using put_get_u32 [of "take 4 bs"] put_get_u32 [of "drop 4 bs"] len u by (simp add: put_u64_halves)
qed

lemma i64_range_get: "i64_range (wadb_get_i64 p)"
proof -
  have "INT64_MIN \<le> uint (wadb_get_u64 p)" by (rule order_trans [of _ 0]) simp_all
  moreover have "uint (wadb_get_u64 p) < 18446744073709551616"
    using unsigned_less [of "wadb_get_u64 p"] by simp
  ultimately show ?thesis by (auto simp: i64_range_def wadb_get_i64_def Let_def)
qed

lemma zeroes_iff: "off + n \<le> length p \<Longrightarrow> zeroes (drop off p) n \<longleftrightarrow> chunk p off n = zeroes_bytes n"
  by (auto simp: zeroes_def list_all_iff list_eq_iff_nth_eq zeroes_bytes_def)

text \<open>Two buffers agree when they agree on consecutive chunks of the given lengths.\<close>

fun same_chunks :: "nat \<Rightarrow> nat list \<Rightarrow> bytes \<Rightarrow> bytes \<Rightarrow> bool" where
  "same_chunks off [] p q = True"
| "same_chunks off (n # ns) p q \<longleftrightarrow> chunk p off n = chunk q off n \<and> same_chunks (off + n) ns p q"

lemma same_chunks_take:
  "same_chunks off ns p q \<Longrightarrow> take off p = take off q \<Longrightarrow> take (off + sum_list ns) p = take (off + sum_list ns) q"
proof (induction off ns p q rule: same_chunks.induct)
  case (2 off n ns p q)
  then have "take (off + n) p = take (off + n) q" by (simp add: take_add chunk_def)
  then show ?case using 2 by (simp add: add.assoc)
qed simp

lemma unat_u64_le [simp]: "unat (w :: u64) \<le> UINT64_MAX"
proof -
  have "unat w < 2 ^ LENGTH(64)" by (rule unsigned_less)
  then show ?thesis by simp
qed

lemma unat_u32_le [simp]: "unat (w :: u32) \<le> UINT32_MAX"
proof -
  have "unat w < 2 ^ LENGTH(32)" by (rule unsigned_less)
  then show ?thesis by simp
qed

section \<open>Checksummed records\<close>

definition crc_sealed :: "bytes \<Rightarrow> bool" where
  "crc_sealed p \<longleftrightarrow>
     4 \<le> length p \<and> wadb_crc32c (take (length p - 4) p) = wadb_get_u32 (drop (length p - 4) p)"

text \<open>A sealed record leaves the same remainder whatever it holds.\<close>

lemma crc_sealed_residue:
  assumes "4 \<le> length p"
  shows "crc_sealed p \<longleftrightarrow> foldl crc_step 0xffffffff p = (crc_bit ^^ 32) 0xffffffff"
proof -
  let ?d = "take (length p - 4) p" and ?s = "drop (length p - 4) p"
  let ?c = "foldl crc_step 0xffffffff ?d"
  have s: "length ?s = 4" using assms by simp
  have "foldl crc_step 0xffffffff p = foldl crc_step ?c ?s"
    by (metis append_take_drop_id foldl_append)
  also have "\<dots> = (crc_bit ^^ 32) (?c XOR le_word ?s)" using crc_run_window [of ?s ?c] s by simp
  finally have run: "foldl crc_step 0xffffffff p = (crc_bit ^^ 32) (?c XOR wadb_get_u32 ?s)"
    using get_u32_le_word [OF s] by simp
  have "?c XOR x = 0xffffffff \<longleftrightarrow> NOT ?c = x" for x :: u32
  proof -
    have m: "?c XOR NOT ?c = 0xffffffff" by (simp add: bit.xor_compl_right)
    have "?c XOR x = ?c XOR NOT ?c \<longleftrightarrow> x = NOT ?c" by (rule xor_cancel_left)
    then show ?thesis by (auto simp only: m)
  qed
  then have "(crc_bit ^^ 32) (?c XOR wadb_get_u32 ?s) = (crc_bit ^^ 32) 0xffffffff \<longleftrightarrow> NOT ?c = wadb_get_u32 ?s"
    by (simp only: crc_bit_pow_inj)
  then show ?thesis using assms run by (simp only: crc_sealed_def wadb_crc32c_def) simp
qed

lemma crc_sealed_burst:
  assumes "crc_sealed (as @ xs @ bs)" and "length xs = length ys" "length xs \<le> 4" "xs \<noteq> ys"
  shows "\<not> crc_sealed (as @ ys @ bs)"
proof
  assume "crc_sealed (as @ ys @ bs)"
  moreover have "4 \<le> length (as @ xs @ bs)" using assms(1) by (simp only: crc_sealed_def)
  ultimately have "foldl crc_step 0xffffffff (as @ xs @ bs) = foldl crc_step 0xffffffff (as @ ys @ bs)"
    using assms(1,2) crc_sealed_residue [of "as @ xs @ bs"] crc_sealed_residue [of "as @ ys @ bs"] by simp
  then have "wadb_crc32c (as @ xs @ bs) = wadb_crc32c (as @ ys @ bs)" by (simp only: wadb_crc32c_def)
  then show False using crc32c_burst [OF assms(2-4)] by blast
qed

locale checksummed =
  fixes decode :: "bytes \<Rightarrow> 'a res"
  assumes decode_sealed: "decode p = Inr x \<Longrightarrow> crc_sealed p"
begin

lemma burst_rejected:
  assumes "decode (as @ xs @ bs) = Inr x" "length xs = length ys" "length xs \<le> 4" "xs \<noteq> ys"
  shows "\<exists>e. decode (as @ ys @ bs) = Inl e"
  using crc_sealed_burst [OF decode_sealed [OF assms(1)] assms(2-4)] decode_sealed
  by (cases "decode (as @ ys @ bs)") blast+

end

locale record_codec =
  fixes wf :: "'a \<Rightarrow> bool"
    and encode :: "'a \<Rightarrow> bytes res"
    and decode :: "bytes \<Rightarrow> 'a res"
  assumes encode_decode: "wf x \<Longrightarrow> encode x = Inr p \<Longrightarrow> decode p = Inr x"
    and decode_encode: "decode p = Inr x \<Longrightarrow> wf x \<and> encode x = Inr p"
begin

lemma decode_iff: "decode p = Inr x \<longleftrightarrow> wf x \<and> encode x = Inr p"
  using encode_decode decode_encode by blast

lemma encode_injective: "wf x \<Longrightarrow> wf y \<Longrightarrow> encode x = Inr p \<Longrightarrow> encode y = Inr p \<Longrightarrow> x = y"
  using encode_decode by (metis Inr_inject)

lemma decode_injective: "decode p = Inr x \<Longrightarrow> decode q = Inr x \<Longrightarrow> p = q"
  using decode_encode by (metis Inr_inject)

end

section \<open>Segment headers round trip\<close>

lemma length_segment_body [simp]: "length (segment_body h) = 128"
  by (simp add: segment_body_def WADB_SEGMENT_HEADER_BYTES_def Let_def)

lemma unat_of_nat_64: "n \<le> UINT64_MAX \<Longrightarrow> unat (of_nat n :: u64) = n"
  by (simp only: unat_of_nat) simp

lemma unat_of_nat_32: "n \<le> UINT32_MAX \<Longrightarrow> unat (of_nat n :: u32) = n"
  by (simp only: unat_of_nat) simp

lemma segment_body_chunks:
  assumes "q = blit (segment_body h) 124 c" "length c = 4"
  shows "chunk q 0 8 = ascii ''WADBSEG1''" "chunk q 8 4 = wadb_put_u32 1" "chunk q 12 4 = wadb_put_u32 128"
    "chunk q 16 8 = wadb_put_u64 (of_nat (sh_table_id h))"
    "chunk q 24 8 = wadb_put_u64 (of_nat (sh_segment_id h))"
    "chunk q 32 8 = wadb_put_u64 (sh_schema_hash h)"
    "chunk q 40 4 = wadb_put_u32 (of_nat (sh_row_width h))" "chunk q 44 4 = zeroes_bytes 4"
    "chunk q 48 8 = wadb_put_u64 (word_of_int (sh_day_start h))"
    "chunk q 56 8 = wadb_put_u64 (of_nat (sh_first_sequence h))" "chunk q 64 60 = zeroes_bytes 60"
    "chunk q 124 4 = c" "length q = 128"
  using assms
  by (simp_all add: codec_simps segment_body_def WADB_SEGMENT_HEADER_BYTES_def WADB_FORMAT_VERSION_def Let_def)

lemma segment_encode_decode:
  assumes "header_range h" and enc: "wadb_segment_encode h = Inr p"
  shows "wadb_segment_decode p = Inr h"
proof -
  let ?b = "segment_body h"
  have p: "p = blit ?b 124 (wadb_put_u32 (wadb_crc32c (take 124 ?b)))"
    using enc by (simp add: wadb_segment_encode_def Let_def split: if_splits)
  note c = segment_body_chunks [OF p length_put_u32]
  have "take 124 p = take 124 ?b" using p by (simp add: take_blit)
  moreover have "wadb_get_u32 (drop 124 p) = wadb_crc32c (take 124 ?b)"
    using c by (simp add: get_at_chunk)
  moreover have "take 8 p = ascii ''WADBSEG1''" using c(1) by (simp add: take_eq_chunk)
  moreover have "i64_range (sh_day_start h)" using assms(1) by (simp add: header_range_def)
  ultimately show ?thesis
    using assms c
    by (cases h) (simp add: wadb_segment_decode_def get_at_chunk zeroes_iff get_i64_put unat_of_nat_64 unat_of_nat_32
        header_range_def WADB_SEGMENT_HEADER_BYTES_def WADB_FORMAT_VERSION_def Let_def)
qed

lemma segment_decode_encode:
  assumes dec: "wadb_segment_decode p = Inr h"
  shows "header_range h \<and> wadb_segment_encode h = Inr p"
proof
  have len: "length p = 128" and magic: "chunk p 0 8 = ascii ''WADBSEG1''"
    and crc: "wadb_crc32c (take 124 p) = wadb_get_u32 (drop 124 p)"
    and ver: "wadb_get_u32 (drop 8 p) = 1" and sz: "wadb_get_u32 (drop 12 p) = 128"
    and z: "chunk p 44 4 = zeroes_bytes 4" "chunk p 64 60 = zeroes_bytes 60"
    and h: "h = \<lparr>sh_table_id = unat (wadb_get_u64 (drop 16 p)), sh_segment_id = unat (wadb_get_u64 (drop 24 p)),
       sh_schema_hash = wadb_get_u64 (drop 32 p), sh_row_width = unat (wadb_get_u32 (drop 40 p)),
       sh_day_start = wadb_get_i64 (drop 48 p), sh_first_sequence = unat (wadb_get_u64 (drop 56 p))\<rparr>"
    and enc: "\<exists>q. wadb_segment_encode h = Inr q"
    using dec by (auto simp: wadb_segment_decode_def WADB_SEGMENT_HEADER_BYTES_def WADB_FORMAT_VERSION_def
        take_eq_chunk zeroes_iff Let_def split: if_splits sum.splits)
  show "header_range h"
    using h i64_range_get by (simp add: header_range_def)
  obtain q where q: "wadb_segment_encode h = Inr q" using enc by blast
  then have q': "q = blit (segment_body h) 124 (wadb_put_u32 (wadb_crc32c (take 124 (segment_body h))))"
    by (simp add: wadb_segment_encode_def Let_def split: if_splits)
  note c = segment_body_chunks [OF q' length_put_u32]
  have n: "chunk p 8 4 = wadb_put_u32 1" "chunk p 12 4 = wadb_put_u32 128"
    using len ver sz put_get_u32 [of "chunk p 8 4"] put_get_u32 [of "chunk p 12 4"] by (simp_all add: get_at_chunk)
  have f: "chunk p 16 8 = wadb_put_u64 (of_nat (sh_table_id h))" "chunk p 24 8 = wadb_put_u64 (of_nat (sh_segment_id h))"
    "chunk p 32 8 = wadb_put_u64 (sh_schema_hash h)" "chunk p 40 4 = wadb_put_u32 (of_nat (sh_row_width h))"
    "chunk p 48 8 = wadb_put_u64 (word_of_int (sh_day_start h))" "chunk p 56 8 = wadb_put_u64 (of_nat (sh_first_sequence h))"
    using len by (simp_all add: h get_at_chunk word_of_get_i64 put_get_u64 put_get_u32)
  have "same_chunks 0 [8, 4, 4, 8, 8, 8, 4, 4, 8, 8, 60] q p" using c magic n f z by simp
  then have body: "take 124 q = take 124 p" using same_chunks_take [of 0 _ q p] by fastforce
  moreover have "take 124 q = take 124 (segment_body h)" using q' by (simp add: take_blit)
  ultimately have "wadb_crc32c (take 124 (segment_body h)) = wadb_get_u32 (chunk p 124 4)"
    using crc len by (simp add: get_at_chunk)
  then have "chunk q 124 4 = chunk p 124 4" using c(12) len put_get_u32 [of "chunk p 124 4"] by simp
  then have "same_chunks 124 [4] q p" by simp
  then have "take 128 q = take 128 p" using same_chunks_take [of 124 "[4]" q p] body by simp
  then show "wadb_segment_encode h = Inr p" using q len c(13) by simp
qed

interpretation segment_codec: record_codec header_range wadb_segment_encode wadb_segment_decode
  by unfold_locales (fact segment_encode_decode, fact segment_decode_encode)

interpretation segment_seal: checksummed wadb_segment_decode
  by unfold_locales
    (auto simp: crc_sealed_def wadb_segment_decode_def WADB_SEGMENT_HEADER_BYTES_def split: if_splits)

section \<open>Frames round trip\<close>

definition frame_plain :: "wadb_frame \<Rightarrow> bool" where
  "frame_plain f \<longleftrightarrow>
     0 < fr_row_count f \<and> 0 < fr_row_width f \<and> fr_row_width f \<le> WADB_MAX_ROW_BYTES \<and>
     fr_row_width f mod 8 = 0 \<and> 0 < fr_first_sequence f \<and>
     fr_first_sequence f + (fr_row_count f - 1) \<le> UINT64_MAX \<and>
     0 \<le> fr_min_time f \<and> fr_min_time f \<le> fr_max_time f \<and>
     fr_min_time f div WADB_DAY_US = fr_max_time f div WADB_DAY_US \<and>
     fr_dictionary_bytes f mod 8 = 0 \<and> fr_dictionary_bytes f \<le> WADB_MAX_FRAME_BYTES \<and>
     fr_dictionary_count f \<le> fr_dictionary_bytes f div 12 \<and>
     (fr_dictionary_count f = 0 \<longrightarrow> fr_dictionary_bytes f = 0)"

lemma frame_sizes_eq:
  assumes "frame_range f"
  shows "frame_sizes f =
    (let rows = fr_row_count f * fr_row_width f; tot = 80 + fr_dictionary_bytes f + rows + 16 in
     if frame_plain f \<and> tot \<le> WADB_MAX_FRAME_BYTES then Some (rows, tot) else None)"
proof -
  let ?rows = "fr_row_count f * fr_row_width f"
  have seq: "fr_row_count f - 1 > sub64 UINT64_MAX (fr_first_sequence f) \<longleftrightarrow>
      \<not> fr_first_sequence f + (fr_row_count f - 1) \<le> UINT64_MAX"
    using assms by (auto simp: frame_range_def sub64_exact)
  have guard: "frame_sizes f = None" if "\<not> frame_plain f"
    using that seq by (auto simp: frame_sizes_def frame_plain_def)
  have "frame_sizes f = (if 80 + fr_dictionary_bytes f + ?rows + 16 \<le> WADB_MAX_FRAME_BYTES
      then Some (?rows, 80 + fr_dictionary_bytes f + ?rows + 16) else None)" if p: "frame_plain f"
  proof -
    have "?rows \<le> UINT32_MAX * 16384"
      using assms p by (intro mult_le_mono) (auto simp: frame_range_def frame_plain_def WADB_MAX_ROW_BYTES_def)
    then have r: "?rows \<le> 70368744161280" by simp
    have d: "fr_dictionary_bytes f \<le> 1048576" using p by (simp add: frame_plain_def WADB_MAX_FRAME_BYTES_def)
    have "wadb_mul_size (fr_row_count f) (fr_row_width f) = Some ?rows"
      using assms r by (subst wadb_mul_size_eq) (auto simp: frame_range_def)
    moreover have "wadb_add_size ?rows (fr_dictionary_bytes f) = Some (?rows + fr_dictionary_bytes f)"
      using r d by (subst wadb_add_size_eq) auto
    moreover have "wadb_add_size (?rows + fr_dictionary_bytes f) (WADB_FRAME_HEADER_BYTES + WADB_FRAME_TRAILER_BYTES)
        = Some (80 + fr_dictionary_bytes f + ?rows + 16)"
      using r d by (subst wadb_add_size_eq) (auto simp: WADB_FRAME_HEADER_BYTES_def WADB_FRAME_TRAILER_BYTES_def)
    moreover have "\<not> sub64 UINT64_MAX (fr_first_sequence f) < fr_row_count f - 1"
      using p seq unfolding frame_plain_def by blast
    ultimately show ?thesis using p by (auto simp: frame_sizes_def frame_plain_def)
  qed
  then show ?thesis using guard by (cases "frame_plain f") (simp_all add: Let_def)
qed

lemma frame_sizes_Some:
  assumes "frame_sizes f = Some (rows, tot)" "frame_range f"
  shows "rows = fr_row_count f * fr_row_width f" "tot = 80 + fr_dictionary_bytes f + rows + 16"
    "tot \<le> WADB_MAX_FRAME_BYTES" "0 < fr_row_count f" "8 \<le> fr_row_width f" "frame_plain f"
proof -
  show "rows = fr_row_count f * fr_row_width f" "tot = 80 + fr_dictionary_bytes f + rows + 16"
    "tot \<le> WADB_MAX_FRAME_BYTES" and p: "frame_plain f"
    using assms by (auto simp: frame_sizes_eq Let_def split: if_splits)
  then show "0 < fr_row_count f" "8 \<le> fr_row_width f"
    by (auto simp: frame_plain_def dest!: mod_0_imp_dvd dest: dvd_imp_le)
qed

lemma length_frame_header [simp]: "length (frame_header f tot) = tot"
  by (simp add: frame_header_def Let_def)

lemma length_frame_body [simp]: "length (frame_body f rows tot) = tot"
  by (simp add: frame_body_def Let_def)

lemma frame_header_chunks:
  assumes "96 \<le> tot" "q = frame_header f tot"
  shows "chunk q 0 8 = ascii ''WADBBAT1''" "chunk q 8 4 = wadb_put_u32 (of_nat tot)" "chunk q 12 4 = wadb_put_u32 80"
    "chunk q 16 4 = wadb_put_u32 (of_nat (fr_row_count f))" "chunk q 20 4 = wadb_put_u32 (of_nat (fr_row_width f))"
    "chunk q 24 8 = wadb_put_u64 (of_nat (fr_first_sequence f))"
    "chunk q 32 8 = wadb_put_u64 (word_of_int (fr_min_time f))" "chunk q 40 8 = wadb_put_u64 (word_of_int (fr_max_time f))"
    "chunk q 48 4 = wadb_put_u32 (of_nat (fr_dictionary_bytes f))" "chunk q 52 4 = wadb_put_u32 (of_nat (fr_dictionary_count f))"
    "chunk q 56 4 = wadb_put_u32 (of_nat (80 + fr_dictionary_bytes f))" "chunk q 60 4 = zeroes_bytes 4"
    "chunk q 64 8 = wadb_put_u64 (fr_schema_hash f)" "chunk q 72 4 = wadb_put_u32 (wadb_crc32c (take 72 q))"
    "chunk q 76 4 = zeroes_bytes 4" "length q = tot"
  using assms
  by (simp_all add: codec_simps frame_header_def WADB_FRAME_HEADER_BYTES_def Let_def)

text \<open>The buffers a frame points to are as long as its members say.\<close>

definition frame_buffers :: "wadb_frame \<Rightarrow> bool" where
  "frame_buffers f \<longleftrightarrow>
     (case fr_dictionary f of None \<Rightarrow> True | Some d \<Rightarrow> fr_dictionary_bytes f \<le> length d) \<and>
     (case fr_rows f of None \<Rightarrow> True | Some r \<Rightarrow> fr_row_count f * fr_row_width f \<le> length r)"

lemma frame_body_chunks:
  assumes tot: "tot = 80 + fr_dictionary_bytes f + rows + 16"
    and d: "fr_dictionary_bytes f \<noteq> 0 \<Longrightarrow> fr_dictionary_bytes f \<le> length (the (fr_dictionary f))"
    and r: "rows \<le> length (the (fr_rows f))"
    and q: "q = blit (frame_body f rows tot) (tot - 4) c" "length c = 4"
  shows "take 80 q = take 80 (frame_header f tot)"
    "chunk q 80 (fr_dictionary_bytes f) = take (fr_dictionary_bytes f) (the (fr_dictionary f))"
    "chunk q (80 + fr_dictionary_bytes f) rows = take rows (the (fr_rows f))"
    "chunk q (tot - 16) 8 = ascii ''WADBEND1''" "chunk q (tot - 8) 4 = wadb_put_u32 (of_nat tot)"
    "chunk q (tot - 4) 4 = c" "take (tot - 4) q = take (tot - 4) (frame_body f rows tot)" "length q = tot"
proof -
  show "take 80 q = take 80 (frame_header f tot)"
    using tot q by (simp add: take_blit frame_body_def WADB_FRAME_HEADER_BYTES_def WADB_FRAME_TRAILER_BYTES_def Let_def)
  show "chunk q 80 (fr_dictionary_bytes f) = take (fr_dictionary_bytes f) (the (fr_dictionary f))"
  proof (cases "fr_dictionary_bytes f = 0")
    case True
    then show ?thesis by (simp add: chunk_def)
  next
    case False
    then show ?thesis using d tot q
      by (simp add: codec_simps frame_body_def WADB_FRAME_HEADER_BYTES_def WADB_FRAME_TRAILER_BYTES_def Let_def)
  qed
  show "chunk q (80 + fr_dictionary_bytes f) rows = take rows (the (fr_rows f))"
    "chunk q (tot - 16) 8 = ascii ''WADBEND1''" "chunk q (tot - 8) 4 = wadb_put_u32 (of_nat tot)"
    "chunk q (tot - 4) 4 = c" "take (tot - 4) q = take (tot - 4) (frame_body f rows tot)" "length q = tot"
    using r tot q
    by (simp_all add: codec_simps frame_body_def WADB_FRAME_HEADER_BYTES_def WADB_FRAME_TRAILER_BYTES_def Let_def)
qed

lemma chunk_same: "take nb d = take nb e \<Longrightarrow> off + n \<le> nb \<Longrightarrow> chunk d off n = chunk e off n"
  unfolding chunk_def by (metis drop_take min.absorb1 nat_add_left_cancel_le take_take add_le_imp_le_diff add.commute)

lemma dictionary_loop_cong:
  assumes "take nb d = take nb e" "nb \<le> length d" "nb \<le> length e" "nb \<le> UINT64_MAX" "off \<le> nb"
  shows "dictionary_loop d nb n off = dictionary_loop e nb n off"
  using assms(5)
proof (induction n arbitrary: off)
  case (Suc n)
  have sub: "sub64 nb off = nb - off" using assms(4) Suc.prems by (simp add: sub64_exact)
  show ?case
  proof (cases "nb - off < 12")
    case False
    then have sub': "sub64 (nb - off) 12 = nb - off - 12" using assms(4) by (simp add: sub64_exact)
    have c: "chunk d k m = chunk e k m" if "k + m \<le> nb" for k m using chunk_same [OF assms(1) that] .
    have get: "wadb_get_u16 (drop off d) = wadb_get_u16 (drop off e)"
      "wadb_get_u16 (drop (2 + off) d) = wadb_get_u16 (drop (2 + off) e)"
      "wadb_get_u32 (drop (4 + off) d) = wadb_get_u32 (drop (4 + off) e)"
      "wadb_get_u32 (drop (8 + off) d) = wadb_get_u32 (drop (8 + off) e)"
      using assms(2,3) False c by (simp_all add: get_at_chunk)
    define len where "len = unat (wadb_get_u32 (drop (8 + off) e))"
    show ?thesis
    proof (cases "len \<le> nb - off - 12")
      case True
      then have "take len (drop (12 + off) d) = take len (drop (12 + off) e)"
        using c [of "12 + off" len] False by (simp add: chunk_def)
      moreover have "dictionary_loop d nb n (off + (12 + len)) = dictionary_loop e nb n (off + (12 + len))"
        using True False by (intro Suc.IH) simp
      ultimately show ?thesis using sub sub' get True by (simp add: Let_def len_def [symmetric])
    next
      case False
      then show ?thesis using sub sub' get by (simp add: Let_def len_def [symmetric])
    qed
  qed (simp add: sub)
qed simp

lemma dictionary_loop_bound:
  assumes "dictionary_loop d nb n off = Some k" "nb \<le> UINT64_MAX" "off \<le> nb"
  shows "k \<le> nb"
  using assms(1,3)
proof (induction n arbitrary: off)
  case (Suc n)
  then show ?case using assms(2)
    by (auto simp: Let_def sub64_exact split: if_splits intro!: Suc.IH)
qed simp

lemma dictionary_valid_cong:
  assumes "fr_dictionary_bytes f = fr_dictionary_bytes g" "fr_dictionary_count f = fr_dictionary_count g"
    and "take (fr_dictionary_bytes f) (the (fr_dictionary f)) = take (fr_dictionary_bytes f) (the (fr_dictionary g))"
    and "fr_dictionary_bytes f \<noteq> 0 \<Longrightarrow> fr_dictionary_bytes f \<le> length (the (fr_dictionary f)) \<and>
           fr_dictionary_bytes f \<le> length (the (fr_dictionary g))"
    and "fr_dictionary_bytes f \<le> UINT64_MAX"
  shows "dictionary_valid f = dictionary_valid g"
proof -
  let ?n = "fr_dictionary_bytes f" and ?d = "the (fr_dictionary f)" and ?e = "the (fr_dictionary g)"
  show ?thesis
  proof (cases "?n = 0")
    case True
    have "dictionary_loop ?d 0 c 0 = dictionary_loop ?e 0 c 0" for c by (cases c) (simp_all add: sub64_exact)
    then show ?thesis using assms(1,2) True by (auto simp: dictionary_valid_def split: option.splits)
  next
    case False
    then have loop: "dictionary_loop ?d ?n c 0 = dictionary_loop ?e ?n c 0" for c
      using assms by (intro dictionary_loop_cong) auto
    have "zeroes (drop k ?d) (sub64 ?n k) = zeroes (drop k ?e) (sub64 ?n k)" if "k \<le> ?n" for k
      using that assms False chunk_same [OF assms(3), of k "?n - k"] by (simp add: sub64_exact zeroes_iff)
    then show ?thesis
      using assms(1,2) loop dictionary_loop_bound [of ?e ?n "fr_dictionary_count f" 0] assms(5)
      by (auto simp: dictionary_valid_def split: option.splits)
  qed
qed

lemma times_loop_cong:
  assumes "fr_row_width f = fr_row_width g" "fr_min_time f = fr_min_time g" "fr_max_time f = fr_max_time g"
    "8 \<le> fr_row_width f" "take nb (the (fr_rows f)) = take nb (the (fr_rows g))"
    "nb \<le> length (the (fr_rows f))" "nb \<le> length (the (fr_rows g))" "(i + n) * fr_row_width f \<le> nb"
  shows "times_loop f n i t = times_loop g n i t"
  using assms(8)
proof (induction n arbitrary: i t)
  case (Suc n)
  have "i * fr_row_width f + fr_row_width f \<le> (i + Suc n) * fr_row_width f" by (simp add: add_mult_distrib)
  then have le: "i * fr_row_width f + 8 \<le> nb" using Suc.prems assms(4) by linarith
  then have "wadb_get_i64 (drop (i * fr_row_width f) (the (fr_rows f))) = wadb_get_i64 (drop (i * fr_row_width f) (the (fr_rows g)))"
    using assms chunk_same [OF assms(5) le] by (simp add: get_at_chunk)
  moreover have "times_loop f n (i + 1) u = times_loop g n (i + 1) u" for u
    using Suc.prems by (intro Suc.IH) simp
  ultimately show ?case by (simp only: times_loop.simps assms(1-3) Let_def)
qed simp

lemma times_valid_cong:
  assumes "fr_row_width f = fr_row_width g" "fr_min_time f = fr_min_time g" "fr_max_time f = fr_max_time g"
    "fr_row_count f = fr_row_count g" "8 \<le> fr_row_width f"
    "take (fr_row_count f * fr_row_width f) (the (fr_rows f)) = take (fr_row_count f * fr_row_width f) (the (fr_rows g))"
    "fr_row_count f * fr_row_width f \<le> length (the (fr_rows f))" "fr_row_count f * fr_row_width f \<le> length (the (fr_rows g))"
  shows "times_valid f = times_valid g"
  using times_loop_cong [OF assms(1-3,5,6-8), of 0 "fr_row_count f"] assms(2-4)
  by (simp add: times_valid_def cong: option.case_cong)

text \<open>What a decoded frame looks like: the members of the encoded one, pointing into the buffer.\<close>

definition decoded_frame :: "wadb_frame \<Rightarrow> bytes \<Rightarrow> wadb_frame" where
  "decoded_frame f p =
     f\<lparr>fr_dictionary := Some (drop 80 p), fr_rows := Some (drop (80 + fr_dictionary_bytes f) p),
       fr_frame_bytes := length p, fr_rows_offset := 80 + fr_dictionary_bytes f\<rparr>"

lemma frame_sizes_scalar:
  "frame_sizes (f\<lparr>fr_dictionary := d, fr_rows := r, fr_frame_bytes := b, fr_rows_offset := off\<rparr>) = frame_sizes f"
  by (simp add: frame_sizes_def cong: option.case_cong)

lemma frame_encode_Inr:
  assumes "wadb_frame_encode alloc f = Inr p" "frame_range f" "frame_buffers f"
  obtains rows tot where "frame_sizes f = Some (rows, tot)" "fr_rows f \<noteq> None" "dictionary_valid f" "times_valid f"
    "fr_dictionary_bytes f \<noteq> 0 \<Longrightarrow> fr_dictionary_bytes f \<le> length (the (fr_dictionary f))"
    "rows \<le> length (the (fr_rows f))"
    "p = blit (frame_body f rows tot) (tot - 4) (wadb_put_u32 (wadb_crc32c (take (tot - 4) (frame_body f rows tot))))"
proof -
  obtain rows tot where e: "frame_sizes f = Some (rows, tot)" "fr_rows f \<noteq> None" "dictionary_valid f" "times_valid f"
    "fr_dictionary_bytes f = 0 \<or> fr_dictionary f \<noteq> None"
    "p = blit (frame_body f rows tot) (tot - 4) (wadb_put_u32 (wadb_crc32c (take (tot - 4) (frame_body f rows tot))))"
    using assms(1) by (auto simp: wadb_frame_encode_def Let_def split: option.splits if_splits)
  then show ?thesis
    using that [of rows tot] assms(3) frame_sizes_Some(1) [OF e(1) assms(2)]
    by (auto simp: frame_buffers_def split: option.splits)
qed

lemma frame_encode_decode:
  assumes rng: "frame_range f" and buf: "frame_buffers f" and enc: "wadb_frame_encode alloc f = Inr p"
  shows "wadb_frame_decode p = Inr (decoded_frame f p)"
    "take (fr_dictionary_bytes f) (drop 80 p) = take (fr_dictionary_bytes f) (the (fr_dictionary f))"
    "take (fr_row_count f * fr_row_width f) (drop (80 + fr_dictionary_bytes f) p)
       = take (fr_row_count f * fr_row_width f) (the (fr_rows f))"
    "length p = 96 + fr_dictionary_bytes f + fr_row_count f * fr_row_width f"
proof -
  obtain rows tot where e: "frame_sizes f = Some (rows, tot)" "fr_rows f \<noteq> None" "dictionary_valid f" "times_valid f"
    "fr_dictionary_bytes f \<noteq> 0 \<Longrightarrow> fr_dictionary_bytes f \<le> length (the (fr_dictionary f))"
    "rows \<le> length (the (fr_rows f))"
    "p = blit (frame_body f rows tot) (tot - 4) (wadb_put_u32 (wadb_crc32c (take (tot - 4) (frame_body f rows tot))))"
    using frame_encode_Inr [OF enc rng buf] by blast
  note sz = frame_sizes_Some [OF e(1) rng]
  note c = frame_body_chunks [OF sz(2) e(5,6,7) length_put_u32]
  have tot: "96 \<le> tot" using sz by simp
  note h = frame_header_chunks [OF tot refl, of f]
  have hc: "chunk p off n = chunk (frame_header f tot) off n" if "off + n \<le> 80" for off n
    using chunk_same [OF c(1) that] .
  have t72: "take 72 p = take 72 (frame_header f tot)" 
    using chunk_same [OF c(1), of 0 72] by (simp add: chunk_def)
  show dict: "take (fr_dictionary_bytes f) (drop 80 p) = take (fr_dictionary_bytes f) (the (fr_dictionary f))"
    using c(2) by (simp add: chunk_def)
  show rowsq: "take (fr_row_count f * fr_row_width f) (drop (80 + fr_dictionary_bytes f) p)
       = take (fr_row_count f * fr_row_width f) (the (fr_rows f))"
    using c(3) sz(1) by (simp add: chunk_def)
  show len: "length p = 96 + fr_dictionary_bytes f + fr_row_count f * fr_row_width f"
    using c(8) sz by simp
  have insp: "wadb_frame_inspect p = Inr (f\<lparr>fr_dictionary := None, fr_rows := None, fr_frame_bytes := tot,
      fr_rows_offset := 80 + fr_dictionary_bytes f\<rparr>)" (is "_ = Inr ?f0")
  proof -
    have t8: "take 8 p = ascii ''WADBBAT1''" using hc [of 0 8] h(1) by (simp add: take_eq_chunk)
    have small: "tot \<le> UINT32_MAX" "80 + fr_dictionary_bytes f \<le> UINT32_MAX"
      using sz(2,3) by (simp_all add: WADB_MAX_FRAME_BYTES_def)
    have fs: "frame_sizes ?f0 = Some (rows, tot)" using e(1) by (simp only: frame_sizes_scalar)
    have r: "unat (of_nat (fr_first_sequence f) :: u64) = fr_first_sequence f"
      "unat (of_nat (fr_row_count f) :: u32) = fr_row_count f" "unat (of_nat (fr_row_width f) :: u32) = fr_row_width f"
      "unat (of_nat (fr_dictionary_count f) :: u32) = fr_dictionary_count f"
      "unat (of_nat (fr_dictionary_bytes f) :: u32) = fr_dictionary_bytes f"
      "unat (of_nat tot :: u32) = tot" "unat (of_nat (80 + fr_dictionary_bytes f) :: u32) = 80 + fr_dictionary_bytes f"
      using rng small by (simp_all only: frame_range_def unat_of_nat_64 unat_of_nat_32)
    have l: "80 \<le> length p" using c(8) tot by simp
    have g: "wadb_get_u32 (drop 8 p) = of_nat tot" "wadb_get_u32 (drop 12 p) = 80"
      "wadb_get_u32 (drop 16 p) = of_nat (fr_row_count f)" "wadb_get_u32 (drop 20 p) = of_nat (fr_row_width f)"
      "wadb_get_u64 (drop 24 p) = of_nat (fr_first_sequence f)"
      "wadb_get_i64 (drop 32 p) = fr_min_time f" "wadb_get_i64 (drop 40 p) = fr_max_time f"
      "wadb_get_u32 (drop 48 p) = of_nat (fr_dictionary_bytes f)" "wadb_get_u32 (drop 52 p) = of_nat (fr_dictionary_count f)"
      "wadb_get_u32 (drop 56 p) = of_nat (80 + fr_dictionary_bytes f)" "wadb_get_u64 (drop 64 p) = fr_schema_hash f"
      "wadb_get_u32 (drop 72 p) = wadb_crc32c (take 72 p)" "zeroes (drop 60 p) 4" "zeroes (drop 76 p) 4"
      using l rng t72 by (simp_all add: get_at_chunk hc h zeroes_iff get_i64_put frame_range_def del: of_nat_add)
    have f0: "\<lparr>fr_schema_hash = fr_schema_hash f, fr_first_sequence = fr_first_sequence f, fr_min_time = fr_min_time f,
        fr_max_time = fr_max_time f, fr_row_count = fr_row_count f, fr_row_width = fr_row_width f,
        fr_dictionary_count = fr_dictionary_count f, fr_dictionary_bytes = fr_dictionary_bytes f,
        fr_dictionary = None, fr_rows = None, fr_frame_bytes = tot,
        fr_rows_offset = 80 + fr_dictionary_bytes f\<rparr> = ?f0"
      by (cases f) simp
    have "wadb_frame_inspect p = (case frame_sizes ?f0 of None \<Rightarrow> Inl WADB_CORRUPT
        | Some (rows, tot) \<Rightarrow> if tot \<noteq> fr_frame_bytes ?f0 \<or> fr_rows_offset ?f0 \<noteq> 80 + fr_dictionary_bytes ?f0
            then Inl WADB_CORRUPT else Inr ?f0)"
      unfolding wadb_frame_inspect_def Let_def g r f0 WADB_FRAME_HEADER_BYTES_def
      using l t8 g(13,14) by simp
    then show ?thesis using fs by simp
  qed
  have dv: "dictionary_valid (decoded_frame f p)"
    using e(3,5) dict c(8) sz rng dictionary_valid_cong [of "decoded_frame f p" f]
    by (simp add: decoded_frame_def frame_range_def)
  have tv: "times_valid (decoded_frame f p)"
    using e(4,6) rowsq c(8) sz times_valid_cong [of "decoded_frame f p" f]
    by (simp add: decoded_frame_def)
  have "unat (of_nat tot :: u32) = tot" using sz(3) by (intro unat_of_nat_32) (simp add: WADB_MAX_FRAME_BYTES_def)
  moreover have "f\<lparr>fr_dictionary := None, fr_rows := None, fr_frame_bytes := tot,
      fr_rows_offset := 80 + fr_dictionary_bytes f, fr_dictionary := Some (drop 80 p),
      fr_rows := Some (drop (80 + fr_dictionary_bytes f) p)\<rparr> = decoded_frame f p"
    using c(8) by (cases f) (simp add: decoded_frame_def)
  ultimately show "wadb_frame_decode p = Inr (decoded_frame f p)"
    using insp c tot dv tv
    by (simp add: wadb_frame_decode_def Let_def WADB_FRAME_HEADER_BYTES_def WADB_FRAME_TRAILER_BYTES_def
        get_at_chunk chunk_def [symmetric])
qed

lemma frame_decode_error: "wadb_frame_decode p = Inl e \<Longrightarrow> e = WADB_CORRUPT"
  by (auto simp: wadb_frame_decode_def wadb_frame_inspect_def res_simps Let_def split: if_splits option.splits)

lemma frame_inspect_ok:
  assumes "wadb_frame_inspect p = Inr f"
  shows "frame_range f" "frame_plain f" "fr_frame_bytes f = 80 + fr_dictionary_bytes f + fr_row_count f * fr_row_width f + 16"
    "fr_rows_offset f = 80 + fr_dictionary_bytes f" "fr_frame_bytes f \<le> WADB_MAX_FRAME_BYTES" "80 \<le> length p"
proof -
  show rng: "frame_range f"
    using assms i64_range_get
    by (auto simp: wadb_frame_inspect_def frame_range_def Let_def split: if_splits option.splits)
  obtain rows where "frame_sizes f = Some (rows, fr_frame_bytes f)" "fr_rows_offset f = 80 + fr_dictionary_bytes f" "80 \<le> length p"
    using assms
    by (auto simp: wadb_frame_inspect_def WADB_FRAME_HEADER_BYTES_def Let_def split: if_splits option.splits)
  then show "frame_plain f" "fr_frame_bytes f = 80 + fr_dictionary_bytes f + fr_row_count f * fr_row_width f + 16"
    "fr_rows_offset f = 80 + fr_dictionary_bytes f" "fr_frame_bytes f \<le> WADB_MAX_FRAME_BYTES" "80 \<le> length p"
    using frame_sizes_Some [OF _ rng] by blast+
qed

lemma frame_decode_ok:
  assumes "wadb_frame_decode p = Inr f"
  shows "frame_range f" "frame_plain f" "length p = 80 + fr_dictionary_bytes f + fr_row_count f * fr_row_width f + 16"
    "length p \<le> WADB_MAX_FRAME_BYTES" "fr_dictionary f = Some (drop 80 p)"
    "fr_rows f = Some (drop (80 + fr_dictionary_bytes f) p)" "fr_frame_bytes f = length p"
    "fr_rows_offset f = 80 + fr_dictionary_bytes f" "dictionary_valid f" "times_valid f" "crc_sealed p"
proof -
  obtain f0 where f0: "wadb_frame_inspect p = Inr f0" "length p = fr_frame_bytes f0"
    "wadb_crc32c (take (length p - 4) p) = wadb_get_u32 (drop (length p - 4) p)"
    and f: "f = f0\<lparr>fr_dictionary := Some (drop 80 p), fr_rows := Some (drop (fr_rows_offset f0) p)\<rparr>"
    and v: "dictionary_valid f" "times_valid f"
    using assms by (auto simp: wadb_frame_decode_def WADB_FRAME_HEADER_BYTES_def res_simps Let_def split: if_splits)
  note i = frame_inspect_ok [OF f0(1)]
  have "frame_range f = frame_range f0" "frame_plain f = frame_plain f0"
    by (simp_all add: f frame_range_def frame_plain_def)
  then show "frame_range f" "frame_plain f" using i(1,2) by blast+
  show "length p = 80 + fr_dictionary_bytes f + fr_row_count f * fr_row_width f + 16"
    "length p \<le> WADB_MAX_FRAME_BYTES" "fr_dictionary f = Some (drop 80 p)"
    "fr_rows f = Some (drop (80 + fr_dictionary_bytes f) p)" "fr_frame_bytes f = length p"
    "fr_rows_offset f = 80 + fr_dictionary_bytes f"
    using i f f0 by simp_all
  show "dictionary_valid f" "times_valid f" by (fact v)+
  show "crc_sealed p" using f0 i(6) by (simp add: crc_sealed_def)
qed

interpretation frame_seal: checksummed wadb_frame_decode
  by unfold_locales (rule frame_decode_ok(11))

text \<open>The row times of a frame, and what \<^verbatim>\<open>times_valid\<close> says of them.\<close>

definition frame_times :: "wadb_frame \<Rightarrow> int list" where
  "frame_times f = map (\<lambda>i. wadb_get_i64 (drop (i * fr_row_width f) (the (fr_rows f)))) [0..<fr_row_count f]"

lemma times_loop_eq:
  fixes f :: wadb_frame
  defines "g \<equiv> \<lambda>j. wadb_get_i64 (drop (j * fr_row_width f) (the (fr_rows f)))"
  shows "times_loop f n i t =
     (let ts = map g [i..<i + n] in
      if sorted (t # ts) \<and> list_all (\<lambda>u. u \<le> fr_max_time f) ts \<and> (i = 0 \<and> ts \<noteq> [] \<longrightarrow> hd ts = fr_min_time f)
      then Some (last (t # ts)) else None)"
proof (induction n arbitrary: i t)
  case (Suc n)
  have step: "times_loop f (Suc n) i t =
      (if g i < t \<or> g i > fr_max_time f \<or> (i = 0 \<and> g i \<noteq> fr_min_time f) then None else times_loop f n (i + 1) (g i))"
    by (simp only: times_loop.simps g_def Let_def)
  have "[i..<i + Suc n] = i # [i + 1..<i + 1 + n]" by (simp add: upt_conv_Cons del: upt_Suc)
  then have ts: "map g [i..<i + Suc n] = g i # map g [i + 1..<i + 1 + n]" by simp
  have srt: "sorted (t # g i # us) \<longleftrightarrow> t \<le> g i \<and> sorted (g i # us)" for us by auto
  define us where "us = map g [i + 1..<i + 1 + n]"
  have IH: "times_loop f n (i + 1) (g i) =
      (if sorted (g i # us) \<and> list_all (\<lambda>u. u \<le> fr_max_time f) us then Some (last (g i # us)) else None)"
    by (simp only: Suc.IH us_def Let_def) simp
  have last: "last (t # g i # us) = last (g i # us)" by simp
  show ?case
    unfolding ts step Let_def us_def [symmetric] srt IH last list.pred_inject
    by (cases "sorted (g i # us)"; cases "list_all (\<lambda>u. u \<le> fr_max_time f) us") (auto simp: not_less not_le)
qed (simp add: Let_def)

lemma sorted_le_last: "sorted xs \<Longrightarrow> u \<in> set xs \<Longrightarrow> u \<le> last xs"
  by (induction xs) auto

lemma times_valid_iff:
  assumes "0 < fr_row_count f"
  shows "times_valid f \<longleftrightarrow>
    sorted (frame_times f) \<and> hd (frame_times f) = fr_min_time f \<and> last (frame_times f) = fr_max_time f"
proof -
  have ne: "frame_times f \<noteq> []" using assms by (simp add: frame_times_def)
  then have hdin: "hd (frame_times f) \<in> set (frame_times f)" and lastin: "last (frame_times f) \<in> set (frame_times f)" by simp_all
  have "times_valid f \<longleftrightarrow> sorted (fr_min_time f # frame_times f) \<and>
      list_all (\<lambda>u. u \<le> fr_max_time f) (frame_times f) \<and> hd (frame_times f) = fr_min_time f \<and>
      last (frame_times f) = fr_max_time f"
    using ne by (auto simp: times_valid_def times_loop_eq frame_times_def Let_def split: if_splits)
  also have "\<dots> \<longleftrightarrow> sorted (frame_times f) \<and> hd (frame_times f) = fr_min_time f \<and> last (frame_times f) = fr_max_time f"
    (is "?L \<longleftrightarrow> ?R")
  proof
    assume R: ?R
    obtain y ys where y: "frame_times f = y # ys" using ne by (cases "frame_times f") auto
    then have "\<forall>u \<in> set (frame_times f). fr_min_time f \<le> u" using R by auto
    moreover have "\<forall>u \<in> set (frame_times f). u \<le> last (frame_times f)"
      using R sorted_le_last by blast
    ultimately show ?L using R by (simp add: list_all_iff)
  qed simp
  finally show ?thesis .
qed

lemma frame_decode_prefix:
  assumes "wadb_frame_decode p = Inr f" "k < length p"
  shows "wadb_frame_decode (take k p) = Inl WADB_CORRUPT"
proof (cases "wadb_frame_decode (take k p)")
  case (Inr g)
  have bytes: "fr_frame_bytes h = unat (wadb_get_u32 (drop 8 q)) \<and> 80 \<le> length q"
    if dec: "wadb_frame_decode q = Inr h" for q h
  proof -
    obtain f0 where f0: "wadb_frame_inspect q = Inr f0" "fr_frame_bytes h = fr_frame_bytes f0"
      using dec by (auto simp: wadb_frame_decode_def res_simps Let_def split: if_splits)
    have "fr_frame_bytes f0 = unat (wadb_get_u32 (drop 8 q))"
      using f0(1) by (auto simp: wadb_frame_inspect_def Let_def split: if_splits option.splits)
    then show ?thesis using f0(2) frame_inspect_ok(6) [OF f0(1)] by simp
  qed
  have len: "length (take k p) = fr_frame_bytes g" "length p = fr_frame_bytes f"
    using frame_decode_ok(7) [OF Inr] frame_decode_ok(7) [OF assms(1)] by simp_all
  have "80 \<le> length (take k p)" using bytes [OF Inr] by blast
  then have "chunk (take k p) 8 4 = chunk p 8 4" "8 + 4 \<le> length (take k p)" "8 + 4 \<le> length p"
    using chunk_same [of k "take k p" p 8 4] by simp_all
  then have "wadb_get_u32 (drop 8 (take k p)) = wadb_get_u32 (drop 8 p)"
    by (simp only: get_u32_chunk)
  then show ?thesis using bytes [OF Inr] bytes [OF assms(1)] len assms(2) by simp
next
  case (Inl e)
  then show ?thesis using frame_decode_error by simp
qed

section \<open>Properties\<close>

text \<open>
  C26: decoding a segment header accepts exactly the images of encodable headers and returns
  the header they encode: the two functions are inverse, and no header has two encodings.
\<close>

theorem segment_header_codec:
  "wadb_segment_decode p = Inr h \<longleftrightarrow> header_range h \<and> wadb_segment_encode h = Inr p"
  by (rule segment_codec.decode_iff)

text \<open>
  C12: a frame that can be encoded decodes, with the same members, the same dictionary section
  and the same rows.
\<close>

theorem frame_roundtrip:
  assumes "frame_range f" and "frame_buffers f" and "wadb_frame_encode alloc f = Inr p"
  shows "wadb_frame_decode p = Inr (decoded_frame f p) \<and>
    take (fr_dictionary_bytes f) (drop 80 p) = take (fr_dictionary_bytes f) (the (fr_dictionary f)) \<and>
    take (fr_row_count f * fr_row_width f) (drop (80 + fr_dictionary_bytes f) p)
      = take (fr_row_count f * fr_row_width f) (the (fr_rows f))"
  using frame_encode_decode [OF assms] by blast

definition example_frame :: wadb_frame where
  "example_frame =
     \<lparr>fr_schema_hash = 7, fr_first_sequence = 1, fr_min_time = 5, fr_max_time = 5, fr_row_count = 1,
      fr_row_width = 8, fr_dictionary_count = 0, fr_dictionary_bytes = 0, fr_dictionary = None,
      fr_rows = Some (wadb_put_u64 5), fr_frame_bytes = 0, fr_rows_offset = 0\<rparr>"

lemma example_frame_ok:
  "frame_range example_frame" "frame_buffers example_frame" "\<exists>p. wadb_frame_encode True example_frame = Inr p"
proof -
  show rng: "frame_range example_frame" "frame_buffers example_frame"
    by (simp_all add: example_frame_def frame_range_def frame_buffers_def i64_range_def)
  have "frame_sizes example_frame = Some (8, 104)"
    using rng by (simp add: frame_sizes_eq frame_plain_def example_frame_def WADB_DAY_US_def WADB_MAX_ROW_BYTES_def
        WADB_MAX_FRAME_BYTES_def)
  moreover have "dictionary_valid example_frame"
    by (simp add: dictionary_valid_def example_frame_def sub64_exact)
  moreover have "times_valid example_frame"
    using get_i64_put [of 5] by (simp add: times_valid_def example_frame_def i64_range_def)
  ultimately show "\<exists>p. wadb_frame_encode True example_frame = Inr p"
    by (simp add: wadb_frame_encode_def example_frame_def Let_def)
qed

theorem frame_roundtrip_witness:
  "\<exists>p. frame_range example_frame \<and> frame_buffers example_frame \<and> wadb_frame_encode True example_frame = Inr p \<and>
     wadb_frame_decode p = Inr (decoded_frame example_frame p)"
  using example_frame_ok frame_roundtrip [of example_frame True] by blast

text \<open>
  C17: what the frame decoder accepts is well formed: header, dictionary section, rows and
  trailer fill the buffer exactly and stay under the frame limit, sequence numbers do not
  overflow, and the row times are sorted, belong to one day, and run from \<^verbatim>\<open>min_time\<close> to
  \<^verbatim>\<open>max_time\<close>.
\<close>

theorem frame_decode_sound:
  assumes "wadb_frame_decode p = Inr f"
  shows "length p = 80 + fr_dictionary_bytes f + fr_row_count f * fr_row_width f + 16 \<and>
    length p \<le> WADB_MAX_FRAME_BYTES \<and> fr_rows f = Some (drop (80 + fr_dictionary_bytes f) p) \<and>
    fr_first_sequence f + (fr_row_count f - 1) \<le> UINT64_MAX \<and>
    sorted (frame_times f) \<and> hd (frame_times f) = fr_min_time f \<and> last (frame_times f) = fr_max_time f \<and>
    fr_min_time f div WADB_DAY_US = fr_max_time f div WADB_DAY_US"
proof -
  note ok = frame_decode_ok [OF assms]
  have "0 < fr_row_count f" using ok(2) by (simp add: frame_plain_def)
  then show ?thesis
    using ok(1-10) times_valid_iff [of f] unfolding frame_plain_def by blast
qed

theorem frame_decode_sound_witness:
  "\<exists>p f. wadb_frame_decode p = Inr f \<and> sorted (frame_times f)"
proof -
  obtain p where "wadb_frame_encode True example_frame = Inr p" using example_frame_ok(3) by blast
  then have "wadb_frame_decode p = Inr (decoded_frame example_frame p)"
    using frame_encode_decode(1) example_frame_ok(1,2) by blast
  then show ?thesis using frame_decode_sound by blast
qed

text \<open>
  C20: damage confined to a window of four bytes, anywhere in a valid frame and its trailer
  included, is reported as corruption.
\<close>

theorem frame_burst_rejected:
  assumes "wadb_frame_decode (as @ xs @ bs) = Inr f" and "length xs = length ys" "length xs \<le> 4" "xs \<noteq> ys"
  shows "wadb_frame_decode (as @ ys @ bs) = Inl WADB_CORRUPT"
  using frame_seal.burst_rejected [OF assms] frame_decode_error by blast

theorem frame_burst_rejected_witness:
  "\<exists>p x y r. p = x # r \<and> x \<noteq> y \<and> is_ok (wadb_frame_decode p) \<and> wadb_frame_decode (y # r) = Inl WADB_CORRUPT"
proof -
  obtain p where "wadb_frame_encode True example_frame = Inr p" using example_frame_ok(3) by blast
  then have dec: "wadb_frame_decode p = Inr (decoded_frame example_frame p)"
    using frame_encode_decode(1) example_frame_ok(1,2) by blast
  then have "p \<noteq> []" using frame_decode_ok(3) by force
  then obtain x r where p: "p = x # r" by (cases p) auto
  have "x \<noteq> x + 1" by simp
  moreover from this have "wadb_frame_decode ((x + 1) # r) = Inl WADB_CORRUPT"
    using frame_burst_rejected [of "[]" "[x]" r "decoded_frame example_frame p" "[x + 1]"] dec p by simp
  ultimately show ?thesis
    using dec p by (intro exI [of _ p] exI [of _ x] exI [of _ "x + 1"] exI [of _ r]) simp
qed

text \<open>
  C19: a torn write is detected: no proper prefix of a valid frame is a frame.
\<close>

theorem frame_torn_write:
  assumes "wadb_frame_decode p = Inr f" and "k < length p"
  shows "wadb_frame_decode (take k p) = Inl WADB_CORRUPT"
  using assms by (rule frame_decode_prefix)

theorem frame_torn_write_witness:
  "\<exists>p. is_ok (wadb_frame_decode p) \<and> 0 < length p \<and> wadb_frame_decode (take 0 p) = Inl WADB_CORRUPT"
proof -
  obtain p where "wadb_frame_encode True example_frame = Inr p" using example_frame_ok(3) by blast
  then have dec: "wadb_frame_decode p = Inr (decoded_frame example_frame p)"
    using frame_encode_decode(1) example_frame_ok(1,2) by blast
  then have "0 < length p" using frame_decode_ok(3) by force
  then show ?thesis using frame_torn_write [OF dec] dec by force
qed

end
