(* ===== verification/Wadb_Hash.thy ===== *)
theory Wadb_Hash
  imports Wadb_Format "HOL-Library.While_Combinator"
begin

unbundle bit_operations_syntax

text \<open>
  The open-addressing loops that the dictionary and the query engine share: a table of slots
  whose length is a power of two, zero for a free slot and entry number plus one otherwise,
  probed linearly from the slot of a hash.

  The loop \<^verbatim>\<open>while (slots[slot] && ...) slot = (slot + 1) & (slot_count - 1)\<close> is the
  combinator \<open>while\<close>; it terminates exactly when \<open>while_option\<close> has a value, which the
  lemmas show for tables that satisfy \<open>table_ok\<close>.
\<close>

section \<open>Definitions\<close>

definition next_slot :: "nat \<Rightarrow> nat \<Rightarrow> nat" where
  "next_slot n s = (s + 1) AND (n - 1)"

definition hash_slot :: "nat \<Rightarrow> u64 \<Rightarrow> nat" where
  "hash_slot n hash = unat hash AND (n - 1)"

definition find_slot :: "(nat \<Rightarrow> bool) \<Rightarrow> nat list \<Rightarrow> nat \<Rightarrow> nat" where
  "find_slot hit slots slot =
     while (\<lambda>s. slots ! s \<noteq> 0 \<and> \<not> hit (slots ! s - 1)) (next_slot (length slots)) slot"

definition free_slot :: "nat list \<Rightarrow> nat \<Rightarrow> nat" where
  "free_slot slots slot = while (\<lambda>s. slots ! s \<noteq> 0) (next_slot (length slots)) slot"

section \<open>Linear probing\<close>

lemma and_mask_mod: "x AND (2 ^ k - 1) = x mod 2 ^ k" for x :: nat
  using take_bit_eq_mask [of k x] by (simp add: mask_eq_exp_minus_1 take_bit_eq_mod)

lemma next_slot_mod: "n = 2 ^ k \<Longrightarrow> next_slot n s = (s + 1) mod n"
  by (simp only: next_slot_def and_mask_mod)

lemma hash_slot_less: "n = 2 ^ k \<Longrightarrow> hash_slot n h < n"
  by (simp only: hash_slot_def and_mask_mod) simp

text \<open>A probe from \<open>s\<close> stops at the first stopping slot, if there is one at distance \<open>d\<close>.\<close>

lemma probe_stops:
  assumes n: "n = 2 ^ k" and stop: "stop ((s + d) mod n)" and before: "\<And>d'. d' < d \<Longrightarrow> \<not> stop ((s + d') mod n)" and "s < n"
  shows "while_option (\<lambda>s. \<not> stop s) (next_slot n) s = Some ((s + d) mod n)"
  using stop before \<open>s < n\<close>
proof (induction d arbitrary: s)
  case 0
  then show ?case by (simp add: while_option_unfold)
next
  case (Suc d)
  have "\<not> stop s" using Suc.prems(2) [of 0] Suc.prems(3) by simp
  moreover have nx: "next_slot n s = (s + 1) mod n" using next_slot_mod [OF n] .
  have sh: "((s + 1) mod n + j) mod n = (s + Suc j) mod n" for j by (simp add: mod_add_left_eq)
  have "while_option (\<lambda>s. \<not> stop s) (next_slot n) ((s + 1) mod n) = Some (((s + 1) mod n + d) mod n)"
  proof (rule Suc.IH)
    show "stop (((s + 1) mod n + d) mod n)" using Suc.prems(1) sh by simp
    show "\<not> stop (((s + 1) mod n + d') mod n)" if "d' < d" for d' using Suc.prems(2) [of "Suc d'"] that sh by simp
    show "(s + 1) mod n < n" using n by simp
  qed
  ultimately show ?case using sh nx by (simp add: while_option_unfold [of _ _ s])
qed

lemma probe_least:
  assumes n: "n = 2 ^ k" and "s < n" and stop: "stop ((s + e) mod n)"
  obtains d where "while_option (\<lambda>s. \<not> stop s) (next_slot n) s = Some ((s + d) mod n)" "stop ((s + d) mod n)"
    "\<And>d'. d' < d \<Longrightarrow> \<not> stop ((s + d') mod n)" "d \<le> e"
proof -
  define d where "d = (LEAST d. stop ((s + d) mod n))"
  have "stop ((s + d) mod n)" using stop unfolding d_def by (rule LeastI)
  moreover have "\<not> stop ((s + d') mod n)" if "d' < d" for d' using that not_less_Least unfolding d_def by blast
  moreover have "d \<le> e" using stop unfolding d_def by (rule Least_le)
  ultimately show ?thesis using that probe_stops [OF n _ _ assms(2)] by blast
qed

lemma reach_slot: "t < n \<Longrightarrow> s < n \<Longrightarrow> \<exists>e < n. (s + e) mod n = (t :: nat)"
proof -
  assume a: "t < n" "s < n"
  show ?thesis
  proof (cases "s \<le> t")
    case True
    then show ?thesis using a by (intro exI [of _ "t - s"]) auto
  next
    case False
    then have "(s + (n - s + t)) mod n = t" using a by simp
    then show ?thesis using a False by (intro exI [of _ "n - s + t"]) auto
  qed
qed

section \<open>Tables\<close>

text \<open>
  \<open>table_ok slots hs\<close>: the table holds the entries numbered by the list \<open>hs\<close> of their hashes.
  Every entry sits on its probe path with no free slot before it, and the number of occupied
  slots is the number of entries.
\<close>

definition occupied :: "nat list \<Rightarrow> nat" where
  "occupied slots = length (filter (\<lambda>x. x \<noteq> 0) slots)"

definition placed :: "nat list \<Rightarrow> u64 \<Rightarrow> nat \<Rightarrow> bool" where
  "placed slots h i \<longleftrightarrow>
     (\<exists>d. slots ! ((hash_slot (length slots) h + d) mod length slots) = i + 1 \<and>
        (\<forall>d' < d. slots ! ((hash_slot (length slots) h + d') mod length slots) \<noteq> 0))"

definition table_ok :: "nat list \<Rightarrow> u64 list \<Rightarrow> bool" where
  "table_ok slots hs \<longleftrightarrow>
     (\<exists>k. length slots = 2 ^ k) \<and> (\<forall>x \<in> set slots. x \<le> length hs) \<and> occupied slots = length hs \<and>
     (\<forall>i < length hs. placed slots (hs ! i) i)"

lemma table_free:
  assumes "occupied slots < length slots"
  shows "\<exists>s < length slots. slots ! s = 0"
proof (rule ccontr)
  assume "\<not> ?thesis"
  then have "filter (\<lambda>x. x \<noteq> 0) slots = slots" by (auto simp: filter_id_conv in_set_conv_nth)
  then show False using assms by (simp add: occupied_def)
qed

lemma free_slot_ok:
  assumes "length slots = 2 ^ k" "occupied slots < length slots" "s < length slots"
  shows "\<exists>t. while_option (\<lambda>s. slots ! s \<noteq> 0) (next_slot (length slots)) s = Some t"
    "free_slot slots s < length slots" "slots ! free_slot slots s = 0"
    "\<exists>d. free_slot slots s = (s + d) mod length slots \<and> (\<forall>d' < d. slots ! ((s + d') mod length slots) \<noteq> 0)"
proof -
  obtain t where "t < length slots" "slots ! t = 0" using table_free [OF assms(2)] by blast
  then obtain e where "slots ! ((s + e) mod length slots) = 0" using reach_slot [OF _ assms(3)] by blast
  then obtain d where d: "while_option (\<lambda>s. \<not> slots ! s = 0) (next_slot (length slots)) s = Some ((s + d) mod length slots)"
    "slots ! ((s + d) mod length slots) = 0" "\<And>d'. d' < d \<Longrightarrow> \<not> slots ! ((s + d') mod length slots) = 0"
    using probe_least [OF assms(1,3), of "\<lambda>s. slots ! s = 0"] by blast
  then show "\<exists>t. while_option (\<lambda>s. slots ! s \<noteq> 0) (next_slot (length slots)) s = Some t" by blast
  have fs: "free_slot slots s = (s + d) mod length slots" using d(1) by (simp add: free_slot_def while_def)
  then show "slots ! free_slot slots s = 0" "free_slot slots s < length slots"
    using d(2) assms(1) by simp_all
  show "\<exists>d. free_slot slots s = (s + d) mod length slots \<and> (\<forall>d' < d. slots ! ((s + d') mod length slots) \<noteq> 0)"
    using fs d(3) by blast
qed

lemma occupied_update: "s < length slots \<Longrightarrow> slots ! s = 0 \<Longrightarrow> v \<noteq> 0 \<Longrightarrow> occupied (slots[s := v]) = Suc (occupied slots)"
proof (induction slots arbitrary: s)
  case (Cons x xs)
  then show ?case by (cases s) (auto simp: occupied_def)
qed simp

lemma placed_update:
  assumes "placed slots h i" "slots ! s = 0" "v \<noteq> 0" "0 < length slots"
  shows "placed (slots[s := v]) h i"
proof -
  let ?p = "\<lambda>d. (hash_slot (length slots) h + d) mod length slots"
  obtain d where d: "slots ! ?p d = i + 1" "\<forall>d' < d. slots ! ?p d' \<noteq> 0" using assms(1) by (auto simp: placed_def)
  have keep: "slots[s := v] ! t = slots ! t" if "slots ! t \<noteq> 0" for t using that assms(2) by (cases "s = t") auto
  then show ?thesis unfolding placed_def using d by (intro exI [of _ d]) (simp add: keep)
qed

lemma table_insert:
  assumes ok: "table_ok slots hs" and room: "length hs < length slots"
  shows "table_ok (slots[free_slot slots (hash_slot (length slots) h) := length hs + 1]) (hs @ [h])"
proof -
  let ?n = "length slots"
  let ?f = "free_slot slots (hash_slot ?n h)"
  obtain k where k: "?n = 2 ^ k" using ok by (auto simp: table_ok_def)
  have occ: "occupied slots = length hs" using ok by (simp add: table_ok_def)
  note f = free_slot_ok [OF k _ hash_slot_less [OF k], of h]
  obtain d where d: "?f = (hash_slot ?n h + d) mod ?n" "\<forall>d' < d. slots ! ((hash_slot ?n h + d') mod ?n) \<noteq> 0"
    using f(4) occ room by auto
  have f0: "slots ! ?f = 0" "?f < ?n" using f(2,3) occ room by auto
  have "placed (slots[?f := length hs + 1]) h (length hs)"
  proof -
    have "slots[?f := length hs + 1] ! ((hash_slot ?n h + d') mod ?n) \<noteq> 0" if "d' < d" for d'
      using d(2) that by (cases "(hash_slot ?n h + d') mod ?n = ?f") (auto simp: f0)
    then show ?thesis unfolding placed_def using d(1) f0(2) by (intro exI [of _ d]) simp
  qed
  moreover have "placed (slots[?f := length hs + 1]) (hs ! i) i" if "i < length hs" for i
    using ok that f0 k by (intro placed_update) (auto simp: table_ok_def)
  moreover have "occupied (slots[?f := length hs + 1]) = Suc (length hs)"
    using occupied_update f0 occ by simp
  moreover have "\<forall>x \<in> set (slots[?f := length hs + 1]). x \<le> Suc (length hs)"
    using ok set_update_subset_insert [of slots ?f "length hs + 1"] by (fastforce simp: table_ok_def)
  ultimately show ?thesis using k by (auto simp: table_ok_def nth_append less_Suc_eq)
qed

lemma table_empty: "table_ok (replicate (2 ^ k) 0) []"
  by (auto simp: table_ok_def occupied_def)

text \<open>
  A search for the entries satisfying \<open>hit\<close> from the slot of \<open>h\<close> finds entry \<open>i\<close> when it is
  the only one and has hash \<open>h\<close>, and stops at a free slot when there is none.
\<close>

lemma table_search:
  assumes ok: "table_ok slots hs" and room: "length hs < length slots"
  shows "\<exists>t. while_option (\<lambda>s. slots ! s \<noteq> 0 \<and> \<not> hit (slots ! s - 1)) (next_slot (length slots)) (hash_slot (length slots) h) = Some t"
    and "find_slot hit slots (hash_slot (length slots) h) < length slots"
    and "i < length hs \<Longrightarrow> hs ! i = h \<Longrightarrow> hit i \<Longrightarrow> (\<And>j. j < length hs \<Longrightarrow> hit j \<Longrightarrow> j = i) \<Longrightarrow>
      slots ! find_slot hit slots (hash_slot (length slots) h) = i + 1"
    and "(\<And>j. j < length hs \<Longrightarrow> \<not> hit j) \<Longrightarrow> slots ! find_slot hit slots (hash_slot (length slots) h) = 0"
proof -
  let ?n = "length slots" and ?s = "hash_slot (length slots) h"
  let ?stop = "\<lambda>s. slots ! s = 0 \<or> hit (slots ! s - 1)"
  obtain k where k: "?n = 2 ^ k" using ok by (auto simp: table_ok_def)
  have s: "?s < ?n" using hash_slot_less [OF k] .
  have occ: "occupied slots < ?n" and le: "\<And>t. t < ?n \<Longrightarrow> slots ! t \<le> length hs"
    using ok room by (auto simp: table_ok_def)
  have cond: "(\<lambda>s. slots ! s \<noteq> 0 \<and> \<not> hit (slots ! s - 1)) = (\<lambda>s. \<not> ?stop s)" by auto
  obtain t where "t < ?n" "slots ! t = 0" using table_free [OF occ] by blast
  then obtain e where "?stop ((?s + e) mod ?n)" using reach_slot [OF _ s] by blast
  then obtain d where d: "while_option (\<lambda>s. \<not> ?stop s) (next_slot ?n) ?s = Some ((?s + d) mod ?n)"
    "?stop ((?s + d) mod ?n)" "\<And>d'. d' < d \<Longrightarrow> \<not> ?stop ((?s + d') mod ?n)"
    using probe_least [OF k s, of ?stop] by blast
  then show "\<exists>t. while_option (\<lambda>s. slots ! s \<noteq> 0 \<and> \<not> hit (slots ! s - 1)) (next_slot ?n) ?s = Some t"
    unfolding cond by blast
  have fs: "find_slot hit slots ?s = (?s + d) mod ?n" using d(1) by (simp add: find_slot_def while_def cond)
  have lt: "(?s + d) mod ?n < ?n" using k by simp
  then show "find_slot hit slots ?s < ?n" using fs by simp
  show "slots ! find_slot hit slots ?s = 0" if "\<And>j. j < length hs \<Longrightarrow> \<not> hit j"
  proof (rule ccontr)
    assume "slots ! find_slot hit slots ?s \<noteq> 0"
    then have "hit (slots ! ((?s + d) mod ?n) - 1)" "slots ! ((?s + d) mod ?n) \<noteq> 0" using d(2) fs by auto
    moreover from this(2) have "slots ! ((?s + d) mod ?n) - 1 < length hs" using le [OF lt] by linarith
    ultimately show False using that by blast
  qed
  show "slots ! find_slot hit slots ?s = i + 1"
    if i: "i < length hs" "hs ! i = h" "hit i" and uniq: "\<And>j. j < length hs \<Longrightarrow> hit j \<Longrightarrow> j = i"
  proof -
    obtain c where c: "slots ! ((?s + c) mod ?n) = i + 1" "\<forall>d' < c. slots ! ((?s + d') mod ?n) \<noteq> 0"
      using ok i by (auto simp: table_ok_def placed_def)
    then have "\<not> c < d" using d(3) [of c] i(3) by auto
    then have "d \<le> c" by simp
    have "slots ! ((?s + d) mod ?n) \<noteq> 0" using c \<open>d \<le> c\<close> by (cases "d = c") auto
    then have "hit (slots ! ((?s + d) mod ?n) - 1)" using d(2) by simp
    moreover have "slots ! ((?s + d) mod ?n) - 1 < length hs"
      using le [OF lt] \<open>slots ! ((?s + d) mod ?n) \<noteq> 0\<close> by linarith
    ultimately have "slots ! ((?s + d) mod ?n) - 1 = i" using uniq by blast
    then show ?thesis using fs \<open>slots ! ((?s + d) mod ?n) \<noteq> 0\<close> by simp
  qed
qed

end
