(* ===== verification/Wadb_Dictionary.thy ===== *)
theory Wadb_Dictionary
  imports Wadb_Format Wadb_Hash
begin

unbundle bit_operations_syntax

text \<open>
  The model of \<^verbatim>\<open>src/storage/dictionary.c\<close>: the segment dictionary that interns the
  strings of symbol columns.

  A growable C array is the list of its elements in use together with its capacity, so the
  members \<^verbatim>\<open>count\<close> are list lengths; the member \<^verbatim>\<open>length\<close> of a symbol is the length of its
  data. Structure sizes are those of the LP64 data model. Every allocation is a numbered
  site, and the argument \<open>alloc\<close> tells which of them succeed.
\<close>

section \<open>Definitions\<close>

record wadb_symbol =
  sy_field :: nat
  sy_id :: nat
  sy_hash :: u64
  sy_data :: bytes

record wadb_symbol_column =
  co_indices :: "nat list"
  co_capacity :: nat

record wadb_dictionary =
  di_schema :: wadb_schema
  di_symbols :: "wadb_symbol list"
  di_capacity :: nat
  di_slots :: "nat list"
  di_columns :: "wadb_symbol_column list"
  di_allocated :: nat
  di_limit :: nat

definition SIZEOF_DICTIONARY :: nat where "SIZEOF_DICTIONARY = 72"
definition SIZEOF_COLUMN :: nat where "SIZEOF_COLUMN = 24"
definition SIZEOF_SYMBOL :: nat where "SIZEOF_SYMBOL = 32"
definition SIZEOF_U32 :: nat where "SIZEOF_U32 = 4"

definition insert_slot :: "nat list \<Rightarrow> u64 \<Rightarrow> nat \<Rightarrow> nat list" where
  "insert_slot slots hash v = slots[free_slot slots (hash_slot (length slots) hash) := v]"

fun rehash_loop :: "wadb_symbol list \<Rightarrow> nat \<Rightarrow> nat list \<Rightarrow> nat list" where
  "rehash_loop [] i slots = slots"
| "rehash_loop (s # ss) i slots = rehash_loop ss (i + 1) (insert_slot slots (sy_hash s) (i + 1))"

definition rehash :: "wadb_dictionary \<Rightarrow> wadb_dictionary" where
  "rehash d =
     (if length (di_slots d) = 0 then d
      else d\<lparr>di_slots := rehash_loop (di_symbols d) 0 (replicate (length (di_slots d)) 0)\<rparr>)"

definition wadb_dictionary_new :: "(nat \<Rightarrow> bool) \<Rightarrow> wadb_schema \<Rightarrow> nat \<Rightarrow> wadb_dictionary res" where
  "wadb_dictionary_new alloc s limit =
     (let base = SIZEOF_DICTIONARY + field_count s * SIZEOF_COLUMN in
      if base > limit then Inl WADB_LIMIT
      else if \<not> alloc 0 then Inl WADB_NOMEM
      else if \<not> alloc 1 then Inl WADB_NOMEM
      else Inr \<lparr>di_schema = s, di_symbols = [], di_capacity = 0, di_slots = [],
                di_columns = replicate (field_count s) \<lparr>co_indices = [], co_capacity = 0\<rparr>,
                di_allocated = base, di_limit = limit\<rparr>)"

text \<open>One turn of the loop of \<^verbatim>\<open>wadb_dictionary_rollback\<close>.\<close>

definition pop_symbol :: "wadb_dictionary \<Rightarrow> wadb_dictionary" where
  "pop_symbol d =
     (let s = last (di_symbols d); c = di_columns d ! sy_field s in
      d\<lparr>di_symbols := butlast (di_symbols d),
        di_columns := (di_columns d)[sy_field s := c\<lparr>co_indices := butlast (co_indices c)\<rparr>],
        di_allocated := sub64 (di_allocated d) (length (sy_data s) + 1)\<rparr>)"

definition wadb_dictionary_rollback :: "wadb_dictionary \<Rightarrow> nat \<Rightarrow> wadb_dictionary" where
  "wadb_dictionary_rollback d mark =
     (if mark \<ge> length (di_symbols d) then d
      else rehash ((pop_symbol ^^ (length (di_symbols d) - mark)) d))"

definition symbol_hash :: "nat \<Rightarrow> bytes \<Rightarrow> u64" where
  "symbol_hash field data =
     wadb_hash data (wadb_hash (wadb_put_u32 (of_nat field)) 14695981039346656037)"

definition symbol_matches :: "wadb_dictionary \<Rightarrow> nat \<Rightarrow> u64 \<Rightarrow> bytes \<Rightarrow> nat \<Rightarrow> bool" where
  "symbol_matches d field hash data i \<longleftrightarrow>
     (let s = di_symbols d ! i in
      sy_hash s = hash \<and> sy_field s = field \<and> length (sy_data s) = length data \<and> sy_data s = data)"

definition find_symbol :: "wadb_dictionary \<Rightarrow> nat \<Rightarrow> u64 \<Rightarrow> bytes \<Rightarrow> nat option" where
  "find_symbol d field hash data =
     (if length (di_slots d) = 0 then None
      else
        (let slot = find_slot (symbol_matches d field hash data) (di_slots d)
                      (hash_slot (length (di_slots d)) hash)
         in if di_slots d ! slot = 0 then None
            else Some (sy_id (di_symbols d ! (di_slots d ! slot - 1)))))"

definition grow_symbols :: "(nat \<Rightarrow> bool) \<Rightarrow> nat \<Rightarrow> wadb_dictionary \<Rightarrow> wadb_dictionary res" where
  "grow_symbols alloc capacity d =
     (if capacity = di_capacity d then Inr d
      else if \<not> alloc 0 then Inl WADB_NOMEM
      else Inr (d\<lparr>di_allocated := di_allocated d + (capacity - di_capacity d) * SIZEOF_SYMBOL,
                  di_capacity := capacity\<rparr>))"

definition grow_slots :: "(nat \<Rightarrow> bool) \<Rightarrow> nat \<Rightarrow> wadb_dictionary \<Rightarrow> wadb_dictionary res" where
  "grow_slots alloc slots d =
     (if slots = length (di_slots d) then Inr d
      else if \<not> alloc 1 then Inl WADB_NOMEM
      else Inr (rehash (d\<lparr>di_allocated := di_allocated d + (slots - length (di_slots d)) * SIZEOF_U32,
                          di_slots := replicate slots 0\<rparr>)))"

definition grow_column :: "(nat \<Rightarrow> bool) \<Rightarrow> nat \<Rightarrow> nat \<Rightarrow> wadb_dictionary \<Rightarrow> wadb_dictionary res" where
  "grow_column alloc field capacity d =
     (let column = di_columns d ! field in
      if capacity = co_capacity column then Inr d
      else if \<not> alloc 2 then Inl WADB_NOMEM
      else Inr (d\<lparr>di_allocated := di_allocated d + (capacity - co_capacity column) * SIZEOF_U32,
                  di_columns := (di_columns d)[field := column\<lparr>co_capacity := capacity\<rparr>]\<rparr>))"

text \<open>The final part of \<^verbatim>\<open>wadb_dictionary_intern\<close>, after all allocations.\<close>

definition push_symbol :: "wadb_dictionary \<Rightarrow> nat \<Rightarrow> u64 \<Rightarrow> bytes \<Rightarrow> wadb_dictionary" where
  "push_symbol d field hash data =
     (let column = di_columns d ! field; sid = length (co_indices column) + 1; count = length (di_symbols d) in
      d\<lparr>di_columns := (di_columns d)[field := column\<lparr>co_indices := co_indices column @ [count]\<rparr>],
        di_symbols := di_symbols d @ [\<lparr>sy_field = field, sy_id = sid, sy_hash = hash, sy_data = data\<rparr>],
        di_slots := insert_slot (di_slots d) hash (count + 1),
        di_allocated := di_allocated d + (length data + 1)\<rparr>)"

definition intern_new ::
  "(nat \<Rightarrow> bool) \<Rightarrow> wadb_dictionary \<Rightarrow> nat \<Rightarrow> u64 \<Rightarrow> bytes \<Rightarrow> wadb_dictionary \<times> nat res" where
  "intern_new alloc d field hash data =
     (let column = di_columns d ! field; count = length (di_symbols d); slot_count = length (di_slots d);
          ccount = length (co_indices column) in
      if count = UINT32_MAX \<or> ccount = UINT32_MAX then (d, Inl WADB_LIMIT)
      else
        (let capacity = (if count = di_capacity d
                         then (if di_capacity d \<noteq> 0 then di_capacity d * 2 else 16) else di_capacity d);
             slots = (if slot_count < (count + 1) * 2
                      then (if slot_count \<noteq> 0 then slot_count * 2 else 32) else slot_count);
             column_capacity = (if ccount = co_capacity column
                      then (if co_capacity column \<noteq> 0 then co_capacity column * 2 else 8)
                      else co_capacity column);
             extra = (capacity - di_capacity d) * SIZEOF_SYMBOL + (slots - slot_count) * SIZEOF_U32 +
                     (column_capacity - co_capacity column) * SIZEOF_U32 + length data + 1
         in if extra > sub64 (di_limit d) (di_allocated d) then (d, Inl WADB_LIMIT)
            else (case grow_symbols alloc capacity d of
                Inl e \<Rightarrow> (d, Inl e)
              | Inr d1 \<Rightarrow> (case grow_slots alloc slots d1 of
                  Inl e \<Rightarrow> (d1, Inl e)
                | Inr d2 \<Rightarrow> (case grow_column alloc field column_capacity d2 of
                    Inl e \<Rightarrow> (d2, Inl e)
                  | Inr d3 \<Rightarrow>
                      if \<not> alloc 3 then (d3, Inl WADB_NOMEM)
                      else (push_symbol d3 field hash data, Inr (ccount + 1)))))))"

definition wadb_dictionary_intern ::
  "(nat \<Rightarrow> bool) \<Rightarrow> wadb_dictionary \<Rightarrow> nat \<Rightarrow> cbuf \<Rightarrow> wadb_dictionary \<times> nat res" where
  "wadb_dictionary_intern alloc d field data =
     (if field = 0 \<or> field \<ge> field_count (di_schema d) \<or>
         f_type (schema_fields (di_schema d) ! field) \<noteq> WADB_SYMBOL32 \<or>
         carr_length data > WADB_MAX_STRING_BYTES \<or> \<not> wadb_utf8 data
      then (d, Inl WADB_INVALID)
      else
        (let hash = symbol_hash field (carr_items data) in
         case find_symbol d field hash (carr_items data) of
           Some sid \<Rightarrow> (d, Inr sid)
         | None \<Rightarrow> intern_new alloc d field hash (carr_items data)))"

definition wadb_dictionary_resolve :: "wadb_dictionary \<Rightarrow> nat \<Rightarrow> nat \<Rightarrow> cbuf res" where
  "wadb_dictionary_resolve d field sid =
     (if field = 0 \<or> field \<ge> field_count (di_schema d) \<or> sid = 0 \<or>
         f_type (schema_fields (di_schema d) ! field) \<noteq> WADB_SYMBOL32 \<or>
         sid > length (co_indices (di_columns d ! field))
      then Inl WADB_CORRUPT
      else Inr (CMem (sy_data (di_symbols d ! (co_indices (di_columns d ! field) ! (sid - 1))))))"

text \<open>Serialization: the first loop computes the size, the second writes the definitions.\<close>

fun export_size :: "wadb_symbol list \<Rightarrow> nat \<Rightarrow> nat \<Rightarrow> nat option" where
  "export_size [] n limit = Some n"
| "export_size (s # ss) n limit =
     (case wadb_add_size n (12 + length (sy_data s)) of
        None \<Rightarrow> None
      | Some n' \<Rightarrow> if n' > limit \<or> n' > UINT32_MAX - 7 then None else export_size ss n' limit)"

definition align8_size :: "nat \<Rightarrow> nat" where
  "align8_size n = unat ((of_nat (add64 n 7) :: u64) AND NOT 7)"

fun export_entries :: "wadb_symbol list \<Rightarrow> nat \<Rightarrow> bytes \<Rightarrow> bytes" where
  "export_entries [] offset p = p"
| "export_entries (s # ss) offset p =
     (let p = blit p offset (wadb_put_u16 (of_nat (sy_field s)));
          p = blit p (offset + 4) (wadb_put_u32 (of_nat (sy_id s)));
          p = blit p (offset + 8) (wadb_put_u32 (of_nat (length (sy_data s))));
          p = (if sy_data s \<noteq> [] then blit p (offset + 12) (sy_data s) else p)
      in export_entries ss (offset + (12 + length (sy_data s))) p)"

text \<open>The result is the section and its definition count; an empty section stands for \<^verbatim>\<open>NULL\<close>.\<close>

definition wadb_dictionary_export_limit ::
  "bool \<Rightarrow> wadb_dictionary \<Rightarrow> nat \<Rightarrow> nat \<Rightarrow> (bytes \<times> nat) res" where
  "wadb_dictionary_export_limit alloc d mark limit =
     (if mark > length (di_symbols d) then Inl WADB_INVALID
      else (case export_size (drop mark (di_symbols d)) 0 limit of
          None \<Rightarrow> Inl WADB_LIMIT
        | Some size0 \<Rightarrow>
            (let n = align8_size size0 in
             if n > limit then Inl WADB_LIMIT
             else if n = 0 then Inr ([], 0)
             else if \<not> alloc then Inl WADB_NOMEM
             else Inr (export_entries (drop mark (di_symbols d)) 0 (zeroes_bytes n),
                       length (di_symbols d) - mark))))"

definition wadb_dictionary_export :: "bool \<Rightarrow> wadb_dictionary \<Rightarrow> nat \<Rightarrow> (bytes \<times> nat) res" where
  "wadb_dictionary_export alloc d mark = wadb_dictionary_export_limit alloc d mark WADB_MAX_FRAME_BYTES"

text \<open>
  The loop of \<^verbatim>\<open>wadb_dictionary_apply\<close> over the remaining definitions; \<open>allocs i\<close> are the
  allocations of the \<open>i\<close>-th of them. The result is the dictionary reached and either the
  status to report or the final offset.
\<close>

fun apply_loop ::
  "(nat \<Rightarrow> nat \<Rightarrow> bool) \<Rightarrow> bytes \<Rightarrow> nat \<Rightarrow> nat \<Rightarrow> nat \<Rightarrow> wadb_dictionary \<Rightarrow> nat \<Rightarrow>
   wadb_dictionary \<times> nat res" where
  "apply_loop allocs dict nbytes 0 i d offset = (d, Inr offset)"
| "apply_loop allocs dict nbytes (Suc n) i d offset =
     (if offset > nbytes \<or> nbytes - offset < 12 then (d, Inl WADB_CORRUPT)
      else
        (let p = drop offset dict; field = unat (wadb_get_u16 p); sid = unat (wadb_get_u32 (drop 4 p));
             len = unat (wadb_get_u32 (drop 8 p)) in
         if field = 0 \<or> field \<ge> field_count (di_schema d) \<or>
            f_type (schema_fields (di_schema d) ! field) \<noteq> WADB_SYMBOL32 \<or>
            sid \<noteq> length (co_indices (di_columns d ! field)) + 1 \<or> wadb_get_u16 (drop 2 p) \<noteq> 0 \<or>
            len > nbytes - offset - 12
         then (d, Inl WADB_CORRUPT)
         else (case wadb_dictionary_intern (allocs i) d field (CMem (take len (drop 12 p))) of
             (d', Inl e) \<Rightarrow> (d', Inl (if e = WADB_INVALID then WADB_CORRUPT else e))
           | (d', Inr assigned) \<Rightarrow>
               if assigned \<noteq> sid \<or> length (di_symbols d') \<noteq> length (di_symbols d) + 1
               then (d', Inl WADB_CORRUPT)
               else apply_loop allocs dict nbytes n (i + 1) d' (offset + (12 + len)))))"

definition wadb_dictionary_apply ::
  "(nat \<Rightarrow> nat \<Rightarrow> bool) \<Rightarrow> wadb_dictionary \<Rightarrow> wadb_frame \<Rightarrow> wadb_dictionary \<times> unit res" where
  "wadb_dictionary_apply allocs d f =
     (let mark = length (di_symbols d); dict = the (fr_dictionary f); nbytes = fr_dictionary_bytes f in
      case apply_loop allocs dict nbytes (fr_dictionary_count f) 0 d 0 of
        (d', Inl e) \<Rightarrow> (wadb_dictionary_rollback d' mark, Inl e)
      | (d', Inr offset) \<Rightarrow>
          if nbytes mod 8 \<noteq> 0 \<or> offset > nbytes \<or> nbytes - offset \<ge> 8 \<or>
             list_ex (\<lambda>k. dict ! k \<noteq> 0) [offset..<nbytes]
          then (wadb_dictionary_rollback d' mark, Inl WADB_CORRUPT)
          else (d', Inr ()))"

section \<open>Invariant\<close>

text \<open>The strings of one column, in the order of their identifiers.\<close>

definition column_strings :: "wadb_symbol list \<Rightarrow> nat \<Rightarrow> bytes list" where
  "column_strings ss j = map sy_data (filter (\<lambda>s. sy_field s = j) ss)"

definition symbol_key :: "wadb_symbol \<Rightarrow> nat \<times> bytes" where
  "symbol_key s = (sy_field s, sy_data s)"

definition symbol_ok :: "wadb_schema \<Rightarrow> wadb_symbol \<Rightarrow> bool" where
  "symbol_ok sc s \<longleftrightarrow>
     0 < sy_field s \<and> sy_field s < field_count sc \<and> f_type (schema_fields sc ! sy_field s) = WADB_SYMBOL32 \<and>
     length (sy_data s) \<le> WADB_MAX_STRING_BYTES \<and> utf8_loop (sy_data s) \<and>
     sy_hash s = symbol_hash (sy_field s) (sy_data s)"

text \<open>Identifiers number the symbols of each column from one.\<close>

fun ids_ok :: "wadb_symbol list \<Rightarrow> wadb_symbol list \<Rightarrow> bool" where
  "ids_ok before [] = True"
| "ids_ok before (s # ss) \<longleftrightarrow>
     sy_id s = length (filter (\<lambda>t. sy_field t = sy_field s) before) + 1 \<and> ids_ok (before @ [s]) ss"

definition symbols_ok :: "wadb_schema \<Rightarrow> wadb_symbol list \<Rightarrow> bool" where
  "symbols_ok sc ss \<longleftrightarrow>
     list_all (symbol_ok sc) ss \<and> distinct (map symbol_key ss) \<and> ids_ok [] ss \<and> length ss \<le> UINT32_MAX"

definition columns_ok :: "wadb_schema \<Rightarrow> wadb_symbol list \<Rightarrow> wadb_symbol_column list \<Rightarrow> bool" where
  "columns_ok sc ss cs \<longleftrightarrow>
     length cs = field_count sc \<and>
     (\<forall>j < length cs. co_indices (cs ! j) = filter (\<lambda>i. sy_field (ss ! i) = j) [0..<length ss] \<and>
        length (co_indices (cs ! j)) \<le> co_capacity (cs ! j))"

definition slots_ok :: "wadb_symbol list \<Rightarrow> nat list \<Rightarrow> bool" where
  "slots_ok ss slots \<longleftrightarrow>
     (slots = [] \<and> ss = []) \<or> (32 \<le> length slots \<and> 2 * length ss \<le> length slots \<and> table_ok slots (map sy_hash ss))"

definition string_bytes :: "wadb_symbol list \<Rightarrow> nat" where
  "string_bytes ss = sum_list (map (\<lambda>s. length (sy_data s) + 1) ss)"

definition memory_used :: "wadb_dictionary \<Rightarrow> nat" where
  "memory_used d =
     SIZEOF_DICTIONARY + field_count (di_schema d) * SIZEOF_COLUMN + di_capacity d * SIZEOF_SYMBOL +
     length (di_slots d) * SIZEOF_U32 + sum_list (map co_capacity (di_columns d)) * SIZEOF_U32 +
     string_bytes (di_symbols d)"

definition memory_ok :: "wadb_dictionary \<Rightarrow> bool" where
  "memory_ok d \<longleftrightarrow>
     di_allocated d = memory_used d \<and> di_allocated d \<le> di_limit d \<and> di_limit d \<le> UINT64_MAX \<and>
     length (di_symbols d) \<le> di_capacity d"

definition dictionary_ok :: "wadb_dictionary \<Rightarrow> bool" where
  "dictionary_ok d \<longleftrightarrow>
     symbols_ok (di_schema d) (di_symbols d) \<and> columns_ok (di_schema d) (di_symbols d) (di_columns d) \<and>
     slots_ok (di_symbols d) (di_slots d) \<and> memory_ok d"

section \<open>Symbols and columns\<close>

lemma ids_ok_append: "ids_ok b (xs @ ys) \<longleftrightarrow> ids_ok b xs \<and> ids_ok (b @ xs) ys"
  by (induction xs arbitrary: b) simp_all

lemma filter_nth: "map (nth ss) (filter (\<lambda>i. P (ss ! i)) [0..<length ss]) = filter P ss"
proof -
  have "filter P ss = filter P (map (nth ss) [0..<length ss])" by (simp add: map_nth)
  also have "\<dots> = map (nth ss) (filter (\<lambda>i. P (ss ! i)) [0..<length ss])" by (simp add: filter_map comp_def)
  finally show ?thesis by simp
qed

lemma column_indices_snoc:
  "filter (\<lambda>i. sy_field ((ss @ [s]) ! i) = j) [0..<length (ss @ [s])] =
     filter (\<lambda>i. sy_field (ss ! i) = j) [0..<length ss] @ (if sy_field s = j then [length ss] else [])"
proof -
  have "filter (\<lambda>i. sy_field ((ss @ [s]) ! i) = j) [0..<length ss] = filter (\<lambda>i. sy_field (ss ! i) = j) [0..<length ss]"
    by (rule filter_cong) (auto simp: nth_append)
  then show ?thesis by (simp add: nth_append)
qed

lemma column_strings_indices:
  assumes "columns_ok sc ss cs" "j < length cs"
  shows "map (\<lambda>i. sy_data (ss ! i)) (co_indices (cs ! j)) = column_strings ss j"
proof -
  have "map (\<lambda>i. sy_data (ss ! i)) (co_indices (cs ! j)) = map sy_data (map (nth ss) (co_indices (cs ! j)))" by simp
  also have "map (nth ss) (co_indices (cs ! j)) = filter (\<lambda>s. sy_field s = j) ss"
    using assms filter_nth [of ss "\<lambda>s. sy_field s = j"] by (simp add: columns_ok_def)
  finally show ?thesis by (simp add: column_strings_def)
qed

lemma column_length:
  "columns_ok sc ss cs \<Longrightarrow> j < length cs \<Longrightarrow> length (co_indices (cs ! j)) = length (column_strings ss j)"
  using column_strings_indices by (metis length_map)

lemma column_strings_snoc:
  "column_strings (ss @ [s]) j = column_strings ss j @ (if sy_field s = j then [sy_data s] else [])"
  by (simp add: column_strings_def)

lemma ids_ok_nth:
  "ids_ok b ss \<Longrightarrow> i < length ss \<Longrightarrow>
     sy_id (ss ! i) = length (filter (\<lambda>t. sy_field t = sy_field (ss ! i)) (b @ take i ss)) + 1"
proof (induction ss arbitrary: b i)
  case (Cons s ss)
  then show ?case by (cases i) auto
qed simp

lemma column_strings_id:
  assumes "ids_ok [] ss" "i < length ss"
  shows "sy_id (ss ! i) \<le> length (column_strings ss (sy_field (ss ! i)))"
    "column_strings ss (sy_field (ss ! i)) ! (sy_id (ss ! i) - 1) = sy_data (ss ! i)"
proof -
  let ?j = "sy_field (ss ! i)"
  have split: "ss = take i ss @ ss ! i # drop (Suc i) ss" using assms(2) by (rule id_take_nth_drop)
  have "column_strings ss ?j = column_strings (take i ss) ?j @ sy_data (ss ! i) # column_strings (drop (Suc i) ss) ?j"
    by (subst split) (simp add: column_strings_def)
  moreover have "sy_id (ss ! i) = length (column_strings (take i ss) ?j) + 1"
    using ids_ok_nth [OF assms] by (simp add: column_strings_def)
  ultimately show "sy_id (ss ! i) \<le> length (column_strings ss ?j)"
    "column_strings ss ?j ! (sy_id (ss ! i) - 1) = sy_data (ss ! i)"
    by (simp_all add: nth_append)
qed

section \<open>The slot table\<close>

lemma length_insert_slot [simp]: "length (insert_slot slots h v) = length slots"
  by (simp add: insert_slot_def)

text \<open>Entering a list of entries into a fresh slot table, as growing code does.\<close>

locale slot_rehash =
  fixes hash_of :: "'e \<Rightarrow> u64"
    and refill :: "'e list \<Rightarrow> nat \<Rightarrow> nat list \<Rightarrow> nat list"
  assumes refill_Nil: "refill [] i slots = slots"
    and refill_Cons: "refill (x # xs) i slots = refill xs (i + 1) (insert_slot slots (hash_of x) (i + 1))"
begin

lemma length_refill: "length (refill xs i slots) = length slots"
  by (induction xs arbitrary: i slots) (simp_all add: refill_Nil refill_Cons insert_slot_def)

lemma refill_table:
  "table_ok slots hs \<Longrightarrow> i = length hs \<Longrightarrow> length hs + length xs \<le> length slots \<Longrightarrow>
     table_ok (refill xs i slots) (hs @ map hash_of xs)"
proof (induction xs arbitrary: i slots hs)
  case (Cons x xs)
  have "table_ok (insert_slot slots (hash_of x) (i + 1)) (hs @ [hash_of x])"
    using table_insert [OF Cons.prems(1), of "hash_of x"] Cons.prems by (simp add: insert_slot_def)
  from Cons.IH [OF this, of "i + 1"] show ?case using Cons.prems by (simp add: refill_Cons insert_slot_def)
qed (simp add: refill_Nil)

lemma refill_fresh:
  assumes "n = 2 ^ k" "2 * length xs \<le> n"
  shows "table_ok (refill xs 0 (replicate n 0)) (map hash_of xs)"
  using refill_table [of "replicate (2 ^ k) 0" "[]" 0 xs] table_empty [of k] assms by simp

end

interpretation symbol_rehash: slot_rehash sy_hash rehash_loop
  by unfold_locales simp_all

lemma length_rehash_loop [simp]: "length (rehash_loop ss i slots) = length slots"
  by (rule symbol_rehash.length_refill)

lemma rehash_ok:
  assumes "length slots = 2 ^ k" "2 * length ss \<le> length slots"
  shows "table_ok (rehash_loop ss 0 (replicate (length slots) 0)) (map sy_hash ss)"
  by (rule symbol_rehash.refill_fresh [OF assms])

lemma table_ok_power: "table_ok slots hs \<Longrightarrow> \<exists>k. length slots = 2 ^ k"
  by (simp add: table_ok_def)

section \<open>Lookup\<close>

lemma find_symbol_correct:
  assumes "dictionary_ok d"
  shows "find_symbol d field (symbol_hash field data) data =
    (case find (\<lambda>s. symbol_key s = (field, data)) (di_symbols d) of None \<Rightarrow> None | Some s \<Rightarrow> Some (sy_id s))"
proof -
  let ?ss = "di_symbols d" and ?slots = "di_slots d" and ?h = "symbol_hash field data"
  let ?hit = "symbol_matches d field ?h data"
  have sym: "list_all (symbol_ok (di_schema d)) ?ss" "distinct (map symbol_key ?ss)"
    using assms by (simp_all add: dictionary_ok_def symbols_ok_def)
  have hit: "?hit i \<longleftrightarrow> symbol_key (?ss ! i) = (field, data)" if "i < length ?ss" for i
    using sym(1) that by (auto simp: symbol_matches_def symbol_key_def Let_def list_all_length symbol_ok_def)
  show ?thesis
  proof (cases "?slots = []")
    case True
    then have "?ss = []" using assms by (auto simp: dictionary_ok_def slots_ok_def)
    then show ?thesis using True by (simp add: find_symbol_def)
  next
    case False
    then have t: "table_ok ?slots (map sy_hash ?ss)" "length (map sy_hash ?ss) < length ?slots"
      using assms by (auto simp: dictionary_ok_def slots_ok_def)
    note search = table_search [OF t, where hit = ?hit and h = ?h]
    let ?f = "find_slot ?hit ?slots (hash_slot (length ?slots) ?h)"
    show ?thesis
    proof (cases "find (\<lambda>s. symbol_key s = (field, data)) ?ss")
      case None
      then have "\<not> ?hit i" if "i < length ?ss" for i
        using hit [OF that] that by (auto simp: find_None_iff in_set_conv_nth)
      then have "?slots ! ?f = 0" using search(4) by simp
      then show ?thesis using None False by (simp add: find_symbol_def)
    next
      case (Some s)
      then obtain i where i: "i < length ?ss" "symbol_key (?ss ! i) = (field, data)" "s = ?ss ! i"
        by (auto simp: find_Some_iff)
      have uniq: "j = i" if "j < length ?ss" "?hit j" for j
        using that i hit [OF that(1)] nth_eq_iff_index_eq [OF sym(2), of j i] by simp
      have h: "sy_hash (?ss ! i) = ?h"
        using sym(1) i by (auto simp: list_all_length symbol_ok_def symbol_key_def)
      have "?slots ! ?f = i + 1"
      proof (rule search(3))
        show "i < length (map sy_hash ?ss)" "map sy_hash ?ss ! i = ?h" "?hit i" using i h hit by simp_all
        show "j = i" if "j < length (map sy_hash ?ss)" "?hit j" for j using uniq that by simp
      qed
      then show ?thesis using Some False i by (simp add: find_symbol_def Let_def)
    qed
  qed
qed

section \<open>Insertion\<close>

definition room :: "wadb_dictionary \<Rightarrow> nat \<Rightarrow> bool" where
  "room d r \<longleftrightarrow> di_allocated d + r \<le> di_limit d"

lemma grow_symbols_ok:
  assumes "dictionary_ok d" "di_capacity d \<le> capacity" "room d ((capacity - di_capacity d) * SIZEOF_SYMBOL + r)"
    and "grow_symbols alloc capacity d = Inr d'"
  shows "dictionary_ok d'" "room d' r" "di_capacity d' = capacity" "di_symbols d' = di_symbols d"
    "di_schema d' = di_schema d" "di_slots d' = di_slots d" "di_columns d' = di_columns d" "di_limit d' = di_limit d"
proof -
  have d': "d' = (if capacity = di_capacity d then d
      else d\<lparr>di_allocated := di_allocated d + (capacity - di_capacity d) * SIZEOF_SYMBOL, di_capacity := capacity\<rparr>)"
    using assms(4) by (auto simp: grow_symbols_def split: if_splits)
  obtain x where x: "capacity = di_capacity d + x" using assms(2) le_Suc_ex by blast
  show "dictionary_ok d'" "room d' r" "di_capacity d' = capacity" "di_symbols d' = di_symbols d"
    "di_schema d' = di_schema d" "di_slots d' = di_slots d" "di_columns d' = di_columns d" "di_limit d' = di_limit d"
    using assms(1,3) unfolding d' x
    by (auto simp: dictionary_ok_def memory_ok_def memory_used_def room_def algebra_simps)
qed

lemma grow_slots_ok:
  assumes ok: "dictionary_ok d" and n: "length (di_slots d) \<le> n" "n = 2 ^ k" "32 \<le> n" "2 * length (di_symbols d) \<le> n"
    and rm: "room d ((n - length (di_slots d)) * SIZEOF_U32 + r)" and g: "grow_slots alloc n d = Inr d'"
  shows "dictionary_ok d'" "room d' r" "length (di_slots d') = n" "di_symbols d' = di_symbols d"
    "di_schema d' = di_schema d" "di_capacity d' = di_capacity d" "di_columns d' = di_columns d" "di_limit d' = di_limit d"
proof -
  let ?new = "rehash_loop (di_symbols d) 0 (replicate n 0)"
  have d': "d' = (if n = length (di_slots d) then d
      else d\<lparr>di_allocated := di_allocated d + (n - length (di_slots d)) * SIZEOF_U32, di_slots := ?new\<rparr>)"
    using g n(3) by (auto simp: grow_slots_def rehash_def split: if_splits)
  have tab: "table_ok ?new (map sy_hash (di_symbols d))"
    using rehash_ok [of "replicate n (0 :: nat)" k] n(2,4) by simp
  obtain x where x: "n = length (di_slots d) + x" using n(1) le_Suc_ex by blast
  have mem: "memory_ok d" and rest: "symbols_ok (di_schema d) (di_symbols d)" "columns_ok (di_schema d) (di_symbols d) (di_columns d)"
    using ok by (simp_all add: dictionary_ok_def)
  have "memory_ok d'" using mem rm x by (simp add: d' memory_ok_def memory_used_def room_def algebra_simps)
  moreover have "slots_ok (di_symbols d') (di_slots d')"
    using ok tab n by (auto simp: d' dictionary_ok_def slots_ok_def)
  ultimately show "dictionary_ok d'" using rest by (simp add: dictionary_ok_def d')
  show "room d' r" "length (di_slots d') = n" "di_symbols d' = di_symbols d"
    "di_schema d' = di_schema d" "di_capacity d' = di_capacity d" "di_columns d' = di_columns d" "di_limit d' = di_limit d"
    using rm n by (simp_all add: d' room_def)
qed

lemma sum_list_update_add:
  "j < length xs \<Longrightarrow> sum_list (map f (xs[j := y])) + f (xs ! j) = sum_list (map f xs) + (f y :: nat)"
proof (induction xs arbitrary: j)
  case (Cons x xs)
  then show ?case by (cases j) auto
qed simp

lemma grow_column_ok:
  assumes ok: "dictionary_ok d" and f: "field < length (di_columns d)" "co_capacity (di_columns d ! field) \<le> n"
    and rm: "room d ((n - co_capacity (di_columns d ! field)) * SIZEOF_U32 + r)" and g: "grow_column alloc field n d = Inr d'"
  shows "dictionary_ok d'" "room d' r" "co_capacity (di_columns d' ! field) = n" "di_symbols d' = di_symbols d"
    "di_schema d' = di_schema d" "di_slots d' = di_slots d" "di_capacity d' = di_capacity d" "di_limit d' = di_limit d"
    "length (di_columns d') = length (di_columns d)"
proof -
  let ?c = "di_columns d ! field"
  have d': "d' = (if n = co_capacity ?c then d
      else d\<lparr>di_allocated := di_allocated d + (n - co_capacity ?c) * SIZEOF_U32,
             di_columns := (di_columns d)[field := ?c\<lparr>co_capacity := n\<rparr>]\<rparr>)"
    using g by (auto simp: grow_column_def Let_def split: if_splits)
  obtain x where x: "n = co_capacity ?c + x" using f(2) le_Suc_ex by blast
  have sum: "sum_list (map co_capacity ((di_columns d)[field := ?c\<lparr>co_capacity := n\<rparr>])) =
      sum_list (map co_capacity (di_columns d)) + x"
    using sum_list_update_add [OF f(1), of co_capacity "?c\<lparr>co_capacity := n\<rparr>"] x by simp
  have parts: "symbols_ok (di_schema d) (di_symbols d)" "columns_ok (di_schema d) (di_symbols d) (di_columns d)"
    "slots_ok (di_symbols d) (di_slots d)" "memory_ok d" using ok by (simp_all add: dictionary_ok_def)
  have "columns_ok (di_schema d) (di_symbols d) ((di_columns d)[field := ?c\<lparr>co_capacity := n\<rparr>])"
    using parts(2) f by (auto simp: columns_ok_def nth_list_update)
  moreover have "memory_ok d'" using parts(4) rm x sum by (simp add: d' memory_ok_def memory_used_def room_def algebra_simps)
  ultimately show "dictionary_ok d'" using parts by (auto simp: dictionary_ok_def d')
  show "room d' r" "co_capacity (di_columns d' ! field) = n" "di_symbols d' = di_symbols d"
    "di_schema d' = di_schema d" "di_slots d' = di_slots d" "di_capacity d' = di_capacity d" "di_limit d' = di_limit d"
    "length (di_columns d') = length (di_columns d)"
    using rm f by (simp_all add: d' room_def)
qed

lemma push_symbol_ok:
  assumes ok: "dictionary_ok d" and f: "symbol_ok (di_schema d) s" "symbol_key s \<notin> symbol_key ` set (di_symbols d)"
    and s: "sy_field s = field" "sy_hash s = hash" "sy_data s = data"
      "sy_id s = length (co_indices (di_columns d ! field)) + 1"
    and cnt: "length (di_symbols d) < UINT32_MAX" "length (di_symbols d) < di_capacity d"
      "length (co_indices (di_columns d ! field)) < co_capacity (di_columns d ! field)"
      "2 * (length (di_symbols d) + 1) \<le> length (di_slots d)" "32 \<le> length (di_slots d)"
    and rm: "room d (length data + 1)"
  shows "dictionary_ok (push_symbol d field hash data)"
    "di_symbols (push_symbol d field hash data) = di_symbols d @ [s]"
    "di_schema (push_symbol d field hash data) = di_schema d"
    "di_limit (push_symbol d field hash data) = di_limit d"
proof -
  let ?ss = "di_symbols d" and ?c = "di_columns d ! field" and ?d = "push_symbol d field hash data"
  have parts: "symbols_ok (di_schema d) ?ss" "columns_ok (di_schema d) ?ss (di_columns d)"
    "slots_ok ?ss (di_slots d)" "memory_ok d" using ok by (simp_all add: dictionary_ok_def)
  have fl: "field < length (di_columns d)" using parts(2) f(1) s(1) by (simp add: columns_ok_def symbol_ok_def)
  have sym: "\<lparr>sy_field = field, sy_id = length (co_indices ?c) + 1, sy_hash = hash, sy_data = data\<rparr> = s"
    using s by (cases s) simp
  show symbols: "di_symbols ?d = ?ss @ [s]" "di_schema ?d = di_schema d" "di_limit ?d = di_limit d"
    using sym by (simp_all add: push_symbol_def Let_def)
  have "symbols_ok (di_schema d) (?ss @ [s])"
  proof -
    have "length (co_indices ?c) = length (filter (\<lambda>t. sy_field t = field) ?ss)"
      using column_length [OF parts(2) fl] by (simp add: column_strings_def)
    then show ?thesis using parts(1) f s cnt(1) by (auto simp: symbols_ok_def ids_ok_append)
  qed
  moreover have "columns_ok (di_schema d) (?ss @ [s]) (di_columns ?d)"
  proof -
    have cols: "di_columns ?d = (di_columns d)[field := ?c\<lparr>co_indices := co_indices ?c @ [length ?ss]\<rparr>]"
      by (simp add: push_symbol_def Let_def)
    have "co_indices (di_columns ?d ! j) = filter (\<lambda>i. sy_field ((?ss @ [s]) ! i) = j) [0..<length (?ss @ [s])] \<and>
        length (co_indices (di_columns ?d ! j)) \<le> co_capacity (di_columns ?d ! j)" if "j < length (di_columns d)" for j
    proof -
      have "co_indices (di_columns d ! j) = filter (\<lambda>i. sy_field (?ss ! i) = j) [0..<length ?ss]"
        "length (co_indices (di_columns d ! j)) \<le> co_capacity (di_columns d ! j)"
        using parts(2) that unfolding columns_ok_def by blast+
      then show ?thesis unfolding column_indices_snoc cols using that fl cnt(3) s(1)
        by (cases "j = field") simp_all
    qed
    moreover have "length (di_columns ?d) = length (di_columns d)" by (simp add: cols)
    ultimately show ?thesis using parts(2) by (simp only: columns_ok_def) blast
  qed
  moreover have "slots_ok (?ss @ [s]) (di_slots ?d)"
  proof -
    have t: "table_ok (di_slots d) (map sy_hash ?ss)" using parts(3) cnt(5) by (auto simp: slots_ok_def)
    show ?thesis using table_insert [OF t, of hash] cnt(4,5) s(2)
      by (simp add: slots_ok_def push_symbol_def Let_def insert_slot_def)
  qed
  moreover have "memory_ok ?d"
  proof -
    have "sum_list (map co_capacity (di_columns ?d)) = sum_list (map co_capacity (di_columns d))"
      using sum_list_update_add [OF fl, of co_capacity "?c\<lparr>co_indices := co_indices ?c @ [length ?ss]\<rparr>"]
      by (simp add: push_symbol_def Let_def)
    moreover have "length (di_slots ?d) = length (di_slots d)" by (simp add: push_symbol_def Let_def)
    moreover have "di_capacity ?d = di_capacity d" "di_allocated ?d = di_allocated d + (length data + 1)"
      by (simp_all add: push_symbol_def Let_def)
    ultimately show ?thesis
      using parts(4) rm s(3) cnt(2) symbols by (simp add: memory_ok_def memory_used_def string_bytes_def room_def)
  qed
  ultimately show "dictionary_ok ?d" using symbols by (simp add: dictionary_ok_def)
qed

lemma intern_new_ok:
  assumes ok: "dictionary_ok d" and f: "0 < field" "field < field_count (di_schema d)"
      "f_type (schema_fields (di_schema d) ! field) = WADB_SYMBOL32" "length data \<le> WADB_MAX_STRING_BYTES" "utf8_loop data"
    and new: "(field, data) \<notin> symbol_key ` set (di_symbols d)"
    and run: "intern_new alloc d field (symbol_hash field data) data = (d', r)"
  shows "dictionary_ok d' \<and> di_schema d' = di_schema d \<and> di_limit d' = di_limit d \<and>
    (case r of Inl e \<Rightarrow> di_symbols d' = di_symbols d \<and> (e = WADB_LIMIT \<or> e = WADB_NOMEM)
     | Inr n \<Rightarrow> n = length (column_strings (di_symbols d) field) + 1 \<and>
         di_symbols d' = di_symbols d @ [\<lparr>sy_field = field, sy_id = n, sy_hash = symbol_hash field data, sy_data = data\<rparr>])"
proof -
  let ?c = "di_columns d ! field" and ?count = "length (di_symbols d)" and ?sc = "length (di_slots d)"
  let ?cc = "length (co_indices ?c)"
  define cap where "cap = (if ?count = di_capacity d then (if di_capacity d \<noteq> 0 then di_capacity d * 2 else 16) else di_capacity d)"
  define sl where "sl = (if ?sc < (?count + 1) * 2 then (if ?sc \<noteq> 0 then ?sc * 2 else 32) else ?sc)"
  define ccap where "ccap = (if ?cc = co_capacity ?c then (if co_capacity ?c \<noteq> 0 then co_capacity ?c * 2 else 8) else co_capacity ?c)"
  define ex where "ex = (cap - di_capacity d) * SIZEOF_SYMBOL + (sl - ?sc) * SIZEOF_U32 + (ccap - co_capacity ?c) * SIZEOF_U32 + length data + 1"
  have parts: "symbols_ok (di_schema d) (di_symbols d)" "columns_ok (di_schema d) (di_symbols d) (di_columns d)"
    "slots_ok (di_symbols d) (di_slots d)" "memory_ok d" using ok by (simp_all add: dictionary_ok_def)
  have fl: "field < length (di_columns d)" using parts(2) f by (simp add: columns_ok_def)
  have capb: "di_capacity d \<le> cap" "?count < cap" using parts(4) by (auto simp: cap_def memory_ok_def)
  have ccapb: "co_capacity ?c \<le> ccap" "?cc < ccap" using parts(2) fl by (auto simp: ccap_def columns_ok_def le_less)
  have slb: "?sc \<le> sl" "32 \<le> sl" "2 * (?count + 1) \<le> sl" "\<exists>k. sl = 2 ^ k"
  proof -
    have sc: "?sc = 0 \<and> ?count = 0 \<or> 32 \<le> ?sc \<and> 2 * ?count \<le> ?sc \<and> (\<exists>k. ?sc = 2 ^ k)"
      using parts(3) table_ok_power by (auto simp: slots_ok_def)
    have "\<exists>k. ?sc * 2 = 2 ^ k" if "\<exists>k. ?sc = 2 ^ k" using that by (metis power_Suc2)
    moreover have "\<exists>k. (32 :: nat) = 2 ^ k" by (rule exI [of _ 5]) simp
    ultimately show "?sc \<le> sl" "32 \<le> sl" "2 * (?count + 1) \<le> sl" "\<exists>k. sl = 2 ^ k"
      using sc unfolding sl_def by (auto split: if_splits)
  qed
  have run': "(d', r) = (if ?count = UINT32_MAX \<or> ?cc = UINT32_MAX then (d, Inl WADB_LIMIT)
      else if ex > sub64 (di_limit d) (di_allocated d) then (d, Inl WADB_LIMIT)
      else (case grow_symbols alloc cap d of Inl e \<Rightarrow> (d, Inl e)
        | Inr d1 \<Rightarrow> (case grow_slots alloc sl d1 of Inl e \<Rightarrow> (d1, Inl e)
          | Inr d2 \<Rightarrow> (case grow_column alloc field ccap d2 of Inl e \<Rightarrow> (d2, Inl e)
            | Inr d3 \<Rightarrow> if \<not> alloc 3 then (d3, Inl WADB_NOMEM)
                else (push_symbol d3 field (symbol_hash field data) data, Inr (?cc + 1))))))"
    unfolding run [symmetric] intern_new_def Let_def cap_def sl_def ccap_def ex_def by (rule refl)
  have nomem: "grow_symbols alloc a x = Inl e \<Longrightarrow> e = WADB_NOMEM" "grow_slots alloc a x = Inl e \<Longrightarrow> e = WADB_NOMEM"
    "grow_column alloc j a x = Inl e \<Longrightarrow> e = WADB_NOMEM" for a x e j
    by (auto simp: grow_symbols_def grow_slots_def grow_column_def Let_def split: if_splits)
  show ?thesis
  proof (cases "?count = UINT32_MAX \<or> ?cc = UINT32_MAX \<or> ex > sub64 (di_limit d) (di_allocated d)")
    case True
    then have "d' = d" "r = Inl WADB_LIMIT" using run' by (auto split: if_splits)
    then show ?thesis using ok by simp
  next
    case False
    then have cnt: "?count < UINT32_MAX" using parts(1) by (simp add: symbols_ok_def)
    have lim: "di_allocated d \<le> di_limit d" "di_limit d \<le> UINT64_MAX" using parts(4) by (simp_all add: memory_ok_def)
    then have "ex \<le> di_limit d - di_allocated d" using False by (simp add: sub64_exact)
    then have rm0: "room d ((cap - di_capacity d) * SIZEOF_SYMBOL + ((sl - ?sc) * SIZEOF_U32 +
        ((ccap - co_capacity ?c) * SIZEOF_U32 + (length data + 1))))"
      using lim(1) unfolding room_def ex_def by linarith
    show ?thesis
    proof (cases "grow_symbols alloc cap d")
      case (Inl e)
      then show ?thesis using run' False ok nomem(1) by simp
    next
      case d1: (Inr d1)
      note g1 = grow_symbols_ok [OF ok capb(1) rm0 d1]
      show ?thesis
      proof (cases "grow_slots alloc sl d1")
        case (Inl e)
        then show ?thesis using run' False d1 g1 nomem(2) by simp
      next
        case d2: (Inr d2)
        obtain k where k: "sl = 2 ^ k" using slb(4) by blast
        have "length (di_slots d1) \<le> sl" "2 * length (di_symbols d1) \<le> sl"
          "room d1 ((sl - length (di_slots d1)) * SIZEOF_U32 + ((ccap - co_capacity ?c) * SIZEOF_U32 + (length data + 1)))"
          using g1 slb by simp_all
        note g2 = grow_slots_ok [OF g1(1) this(1) k slb(2) this(2,3) d2]
        show ?thesis
        proof (cases "grow_column alloc field ccap d2")
          case (Inl e)
          then show ?thesis using run' False d1 d2 g1 g2 nomem(3) by simp
        next
          case d3: (Inr d3)
          have c2: "di_columns d2 = di_columns d" using g1 g2 by simp
          have "field < length (di_columns d2)" "co_capacity (di_columns d2 ! field) \<le> ccap"
            "room d2 ((ccap - co_capacity (di_columns d2 ! field)) * SIZEOF_U32 + (length data + 1))"
            using c2 fl ccapb g2 by simp_all
          note g3 = grow_column_ok [OF g2(1) this d3]
          let ?s = "\<lparr>sy_field = field, sy_id = ?cc + 1, sy_hash = symbol_hash field data, sy_data = data\<rparr>"
          have cc: "length (co_indices (di_columns d3 ! field)) = ?cc"
            using d3 c2 fl by (auto simp: grow_column_def Let_def split: if_splits)
          show ?thesis
          proof (cases "alloc 3")
            case True
            have "dictionary_ok (push_symbol d3 field (symbol_hash field data) data) \<and>
                di_symbols (push_symbol d3 field (symbol_hash field data) data) = di_symbols d3 @ [?s] \<and>
                di_schema (push_symbol d3 field (symbol_hash field data) data) = di_schema d3 \<and>
                di_limit (push_symbol d3 field (symbol_hash field data) data) = di_limit d3"
            proof (intro conjI; rule push_symbol_ok [where s = ?s])
            qed (use g1 g2 g3 f new cnt capb ccapb slb cc in \<open>simp_all add: symbol_ok_def symbol_key_def\<close>)
            then show ?thesis
              using run' False d1 d2 d3 True g1 g2 g3 column_length [OF parts(2) fl] by simp
          next
            case F3: False
            then show ?thesis using run' False d1 d2 d3 g1 g2 g3 by simp
          qed
        qed
      qed
    qed
  qed
qed

lemma utf8_items: "wadb_utf8 data \<Longrightarrow> utf8_loop (carr_items data) \<and> carr_length data = length (carr_items data)"
  by (cases data) (auto simp: wadb_utf8_def split: if_splits)

lemma intern_ok:
  assumes ok: "dictionary_ok d" and run: "wadb_dictionary_intern alloc d field data = (d', r)"
  shows "dictionary_ok d' \<and> di_schema d' = di_schema d \<and> di_limit d' = di_limit d \<and>
    (case r of Inl e \<Rightarrow> di_symbols d' = di_symbols d
     | Inr n \<Rightarrow> 0 < field \<and> field < field_count (di_schema d) \<and>
         f_type (schema_fields (di_schema d) ! field) = WADB_SYMBOL32 \<and>
         map symbol_key (di_symbols d') =
           (if (field, carr_items data) \<in> symbol_key ` set (di_symbols d) then map symbol_key (di_symbols d)
            else map symbol_key (di_symbols d) @ [(field, carr_items data)]) \<and>
         take (length (di_symbols d)) (di_symbols d') = di_symbols d \<and>
         0 < n \<and> n \<le> length (column_strings (di_symbols d') field) \<and>
         column_strings (di_symbols d') field ! (n - 1) = carr_items data)"
proof (cases "field = 0 \<or> field \<ge> field_count (di_schema d) \<or>
    f_type (schema_fields (di_schema d) ! field) \<noteq> WADB_SYMBOL32 \<or>
    carr_length data > WADB_MAX_STRING_BYTES \<or> \<not> wadb_utf8 data")
  case True
  then have "d' = d" "r = Inl WADB_INVALID" using run by (simp_all add: wadb_dictionary_intern_def)
  then show ?thesis using ok by auto
next
  case False
  then have f: "0 < field" "field < field_count (di_schema d)" "f_type (schema_fields (di_schema d) ! field) = WADB_SYMBOL32"
    "length (carr_items data) \<le> WADB_MAX_STRING_BYTES" "utf8_loop (carr_items data)"
    using utf8_items [of data] by auto
  let ?key = "\<lambda>s. symbol_key s = (field, carr_items data)"
  have ids: "ids_ok [] (di_symbols d)" using ok by (simp add: dictionary_ok_def symbols_ok_def)
  show ?thesis
  proof (cases "find ?key (di_symbols d)")
    case (Some s)
    then obtain i where i: "i < length (di_symbols d)" "?key s" "s = di_symbols d ! i"
      by (auto simp: find_Some_iff)
    have mem: "(field, carr_items data) \<in> symbol_key ` set (di_symbols d)"
      using i by (metis image_eqI nth_mem)
    have "d' = d" "r = Inr (sy_id s)"
      using run False Some by (simp_all add: wadb_dictionary_intern_def find_symbol_correct [OF ok] Let_def)
    moreover have "sy_field s = field" "sy_data s = carr_items data" using i(2) by (simp_all add: symbol_key_def)
    moreover have "0 < sy_id s" using ids_ok_nth [OF ids i(1)] i(3) by simp
    ultimately show ?thesis using ok f mem column_strings_id [OF ids i(1)] i(3) by simp
  next
    case None
    then have new: "(field, carr_items data) \<notin> symbol_key ` set (di_symbols d)"
      by (auto simp: find_None_iff)
    have "intern_new alloc d field (symbol_hash field (carr_items data)) (carr_items data) = (d', r)"
      using run False None by (simp add: wadb_dictionary_intern_def find_symbol_correct [OF ok] Let_def)
    from intern_new_ok [OF ok f new this] show ?thesis
      using f new by (cases r) (auto simp: column_strings_snoc symbol_key_def)
  qed
qed

lemma resolve_eq:
  assumes "dictionary_ok d"
  shows "wadb_dictionary_resolve d j n =
    (if 0 < j \<and> j < field_count (di_schema d) \<and> f_type (schema_fields (di_schema d) ! j) = WADB_SYMBOL32 \<and>
        0 < n \<and> n \<le> length (column_strings (di_symbols d) j)
     then Inr (CMem (column_strings (di_symbols d) j ! (n - 1))) else Inl WADB_CORRUPT)"
proof (cases "0 < j \<and> j < field_count (di_schema d)")
  case True
  have c: "columns_ok (di_schema d) (di_symbols d) (di_columns d)" using assms by (simp add: dictionary_ok_def)
  then have j: "j < length (di_columns d)" using True by (simp add: columns_ok_def)
  have len: "length (co_indices (di_columns d ! j)) = length (column_strings (di_symbols d) j)"
    using column_length [OF c j] .
  have "sy_data (di_symbols d ! (co_indices (di_columns d ! j) ! (n - 1))) = column_strings (di_symbols d) j ! (n - 1)"
    if "0 < n" "n \<le> length (column_strings (di_symbols d) j)"
  proof -
    have "column_strings (di_symbols d) j ! (n - 1) =
        map (\<lambda>i. sy_data (di_symbols d ! i)) (co_indices (di_columns d ! j)) ! (n - 1)"
      by (simp only: column_strings_indices [OF c j])
    moreover have "n - 1 < length (co_indices (di_columns d ! j))" using that len by linarith
    ultimately show ?thesis by (simp only: nth_map)
  qed
  then show ?thesis using True len by (auto simp: wadb_dictionary_resolve_def)
qed (auto simp: wadb_dictionary_resolve_def)

lemma column_strings_length_le: "length (column_strings ss j) \<le> length ss"
  by (simp add: column_strings_def)

lemma column_strings_prefix:
  "take (length ss) ts = ss \<Longrightarrow> n \<le> length (column_strings ss j) \<Longrightarrow> 0 < n \<Longrightarrow>
     n \<le> length (column_strings ts j) \<and> column_strings ts j ! (n - 1) = column_strings ss j ! (n - 1)"
proof -
  assume "take (length ss) ts = ss" and n: "n \<le> length (column_strings ss j)" "0 < n"
  then have "ts = ss @ drop (length ss) ts" by (metis append_take_drop_id)
  then have "column_strings ts j = column_strings ss j @ column_strings (drop (length ss) ts) j"
    by (metis column_strings_def filter_append map_append)
  moreover have "n - 1 < length (column_strings ss j)" using n by linarith
  ultimately show ?thesis using n(1) by (simp add: nth_append del: diff_Suc_1)
qed

interpretation dict: symbol_table dictionary_ok "wadb_dictionary_intern alloc" wadb_dictionary_resolve for alloc
proof
  fix c i d c' r assume a: "dictionary_ok c" "wadb_dictionary_intern alloc c i d = (c', r)"
  note i = intern_ok [OF a]
  then show ok': "dictionary_ok c'" by simp
  have pre: "take (length (di_symbols c)) (di_symbols c') = di_symbols c" using i by (cases r) auto
  show "wadb_dictionary_resolve c' j n = Inr x" if "wadb_dictionary_resolve c j n = Inr x" for j n x
    using that i column_strings_prefix [OF pre]
    by (auto simp: resolve_eq [OF a(1)] resolve_eq [OF ok'] split: if_splits)
next
  fix c i d c' n assume a: "dictionary_ok c" "wadb_dictionary_intern alloc c i d = (c', Inr n)"
  note i = intern_ok [OF a]
  then have ok': "dictionary_ok c'" by simp
  have "length (di_symbols c') \<le> UINT32_MAX" using ok' by (simp add: dictionary_ok_def symbols_ok_def)
  then have "n \<le> UINT32_MAX" using i column_strings_length_le [of "di_symbols c'" i] by simp
  then show "n \<le> UINT32_MAX \<and> wadb_dictionary_resolve c' i n = Inr (CMem (carr_items d))"
    using i by (simp add: resolve_eq [OF ok'])
qed

section \<open>Creation and rollback\<close>

lemma new_ok:
  assumes "limit \<le> UINT64_MAX" "wadb_dictionary_new alloc s limit = Inr d"
  shows "dictionary_ok d \<and> di_symbols d = [] \<and> di_schema d = s \<and> di_limit d = limit"
  using assms by (auto simp: wadb_dictionary_new_def Let_def dictionary_ok_def symbols_ok_def columns_ok_def
      slots_ok_def memory_ok_def memory_used_def string_bytes_def sum_list_replicate split: if_splits)

text \<open>While symbols are popped the slot table is stale; everything else is kept.\<close>

definition slots_fit :: "wadb_dictionary \<Rightarrow> bool" where
  "slots_fit d \<longleftrightarrow> (di_slots d = [] \<and> di_symbols d = []) \<or>
     (32 \<le> length (di_slots d) \<and> 2 * length (di_symbols d) \<le> length (di_slots d) \<and> (\<exists>k. length (di_slots d) = 2 ^ k))"

definition popping :: "wadb_dictionary \<Rightarrow> bool" where
  "popping d \<longleftrightarrow> symbols_ok (di_schema d) (di_symbols d) \<and>
     columns_ok (di_schema d) (di_symbols d) (di_columns d) \<and> slots_fit d \<and> memory_ok d"

lemma popping_rehash: "popping d \<Longrightarrow> dictionary_ok (rehash d)"
  using rehash_ok [of "di_slots d" _ "di_symbols d"]
  by (auto simp: popping_def dictionary_ok_def rehash_def slots_fit_def slots_ok_def memory_ok_def memory_used_def
      )

lemma popping_start: "dictionary_ok d \<Longrightarrow> popping d"
  by (auto simp: popping_def dictionary_ok_def slots_fit_def slots_ok_def table_ok_def)

lemma pop_symbol_ok:
  assumes "popping d" "di_symbols d = ss @ [s]"
  shows "popping (pop_symbol d) \<and> di_symbols (pop_symbol d) = ss \<and> di_schema (pop_symbol d) = di_schema d \<and>
    di_limit (pop_symbol d) = di_limit d"
proof -
  let ?j = "sy_field s" and ?d = "pop_symbol d"
  note p = assms(1) [unfolded popping_def assms(2)]
  have jb: "?j < length (di_columns d)" using p by (auto simp: symbols_ok_def symbol_ok_def columns_ok_def)
  have sym: "symbols_ok (di_schema d) ss" using p by (auto simp: symbols_ok_def ids_ok_append)
  have ind: "co_indices (di_columns d ! j) =
      filter (\<lambda>i. sy_field (ss ! i) = j) [0..<length ss] @ (if sy_field s = j then [length ss] else [])"
    if "j < length (di_columns d)" for j
    using p that column_indices_snoc [of ss s j] by (auto simp: columns_ok_def)
  have cols: "columns_ok (di_schema d) ss
     ((di_columns d)[?j := (di_columns d ! ?j)\<lparr>co_indices := butlast (co_indices (di_columns d ! ?j))\<rparr>])"
  proof -
    have "length (co_indices (di_columns d ! j)) \<le> co_capacity (di_columns d ! j)" if "j < length (di_columns d)" for j
      using p that by (auto simp: columns_ok_def)
    then show ?thesis using p ind jb unfolding columns_ok_def by (auto simp: nth_list_update butlast_append)
  qed
  have sl: "slots_fit ?d" using p assms(2) by (auto simp: slots_fit_def pop_symbol_def Let_def)
  have caps: "map co_capacity ((di_columns d)[?j := (di_columns d ! ?j)\<lparr>co_indices := v\<rparr>]) = map co_capacity (di_columns d)" for v
    using jb by (simp add: map_update list_update_same_conv)
  have mem: "memory_ok ?d"
    using p assms(2) caps
    by (auto simp: memory_ok_def memory_used_def pop_symbol_def Let_def string_bytes_def sub64_exact)
  show ?thesis using sym cols sl mem assms(2) by (simp add: popping_def pop_symbol_def Let_def)
qed

lemma pops_ok:
  "popping d \<Longrightarrow> n \<le> length (di_symbols d) \<Longrightarrow>
     popping ((pop_symbol ^^ n) d) \<and> di_symbols ((pop_symbol ^^ n) d) = take (length (di_symbols d) - n) (di_symbols d) \<and>
     di_schema ((pop_symbol ^^ n) d) = di_schema d \<and> di_limit ((pop_symbol ^^ n) d) = di_limit d"
proof (induction n)
  case (Suc n)
  let ?d = "(pop_symbol ^^ n) d"
  have l: "length (di_symbols d) - n = Suc (length (di_symbols d) - Suc n)" using Suc.prems by simp
  have "di_symbols ?d = take (length (di_symbols d) - Suc n) (di_symbols d) @ [di_symbols d ! (length (di_symbols d) - Suc n)]"
    using Suc l by (simp add: take_Suc_conv_app_nth)
  from pop_symbol_ok [OF _ this] show ?case using Suc by simp
qed simp

lemma rollback_ok:
  assumes "dictionary_ok d"
  shows "dictionary_ok (wadb_dictionary_rollback d mark) \<and>
    di_symbols (wadb_dictionary_rollback d mark) = take mark (di_symbols d) \<and>
    di_schema (wadb_dictionary_rollback d mark) = di_schema d \<and> di_limit (wadb_dictionary_rollback d mark) = di_limit d"
proof (cases "mark < length (di_symbols d)")
  case True
  then show ?thesis
    using pops_ok [OF popping_start [OF assms], of "length (di_symbols d) - mark"] popping_rehash
    by (auto simp: wadb_dictionary_rollback_def rehash_def)
qed (use assms in \<open>simp add: wadb_dictionary_rollback_def\<close>)

section \<open>Serialization\<close>

text \<open>The bytes of one definition.\<close>

definition entry_bytes :: "wadb_symbol \<Rightarrow> bytes" where
  "entry_bytes s = wadb_put_u16 (of_nat (sy_field s)) @ zeroes_bytes 2 @ wadb_put_u32 (of_nat (sy_id s)) @
     wadb_put_u32 (of_nat (length (sy_data s))) @ sy_data s"

definition section_bytes :: "wadb_symbol list \<Rightarrow> bytes" where
  "section_bytes ss = concat (map entry_bytes ss)"

lemma length_entry [simp]: "length (entry_bytes s) = 12 + length (sy_data s)"
  by (simp add: entry_bytes_def zeroes_bytes_def)

lemma section_Cons [simp]: "section_bytes (s # ss) = entry_bytes s @ section_bytes ss"
  and section_Nil [simp]: "section_bytes [] = []"
  by (simp_all add: section_bytes_def)

lemma export_size_eq:
  "n \<le> UINT32_MAX \<Longrightarrow> export_size ss n limit = Some m \<Longrightarrow> list_all (\<lambda>s. length (sy_data s) \<le> WADB_MAX_STRING_BYTES) ss \<Longrightarrow>
     m = n + length (section_bytes ss) \<and> (ss \<noteq> [] \<longrightarrow> m \<le> limit \<and> m + 7 \<le> UINT32_MAX)"
proof (induction ss arbitrary: n)
  case (Cons s ss)
  have "wadb_add_size n (12 + length (sy_data s)) = Some (n + (12 + length (sy_data s)))"
    using Cons.prems by (simp add: wadb_add_size_eq WADB_MAX_STRING_BYTES_def)
  with Cons.prems have a: "n + (12 + length (sy_data s)) \<le> limit" "n + (12 + length (sy_data s)) \<le> UINT32_MAX - 7"
    "export_size ss (n + (12 + length (sy_data s))) limit = Some m" by (auto split: if_splits)
  from Cons.IH [OF _ this(3)] Cons.prems(3) a show ?case by (cases ss) auto
qed simp

lemma blit_at: "length q = off \<Longrightarrow> n = length bs \<Longrightarrow> blit (q @ zeroes_bytes (n + m)) off bs = q @ bs @ zeroes_bytes m"
  by (simp add: blit_eq_append zeroes_bytes_def)

lemma export_entries_eq:
  "length q = off \<Longrightarrow> length (section_bytes ss) \<le> n \<Longrightarrow>
     export_entries ss off (q @ zeroes_bytes n) = q @ section_bytes ss @ zeroes_bytes (n - length (section_bytes ss))"
proof (induction ss arbitrary: q off n)
  case (Cons s ss)
  let ?l = "length (sy_data s)" and ?f = "wadb_put_u16 (of_nat (sy_field s))" and ?i = "wadb_put_u32 (of_nat (sy_id s))"
    and ?n = "wadb_put_u32 (of_nat (length (sy_data s)))"
  obtain m where n: "n = 12 + ?l + m" using Cons.prems(2) by (auto simp: le_iff_add)
  have z: "zeroes_bytes (a + b) = zeroes_bytes a @ zeroes_bytes b" for a b
    by (simp add: zeroes_bytes_def replicate_add)
  have l: "length (q @ ?f @ zeroes_bytes 2) = off + 4" "length (q @ ?f @ zeroes_bytes 2 @ ?i) = off + 8"
    "length (q @ ?f @ zeroes_bytes 2 @ ?i @ ?n) = off + 12" using Cons.prems(1) by (simp_all add: zeroes_bytes_def)
  have n': "n = 2 + (2 + (4 + (4 + (?l + m))))" using n by simp
  have 1: "blit (q @ zeroes_bytes n) off ?f = (q @ ?f @ zeroes_bytes 2) @ zeroes_bytes (4 + (4 + (?l + m)))"
    unfolding n' using blit_at [OF Cons.prems(1), of 2 ?f "2 + (4 + (4 + (?l + m)))"] z [of 2]
    by (simp only: length_put_u16 append_assoc)
  have 2: "blit ((q @ ?f @ zeroes_bytes 2) @ zeroes_bytes (4 + (4 + (?l + m)))) (off + 4) ?i =
      (q @ ?f @ zeroes_bytes 2 @ ?i) @ zeroes_bytes (4 + (?l + m))"
    using blit_at [OF l(1), of 4 ?i "4 + (?l + m)"] by (simp only: length_put_u32 append_assoc)
  have 3: "blit ((q @ ?f @ zeroes_bytes 2 @ ?i) @ zeroes_bytes (4 + (?l + m))) (off + 8) ?n =
      (q @ ?f @ zeroes_bytes 2 @ ?i @ ?n) @ zeroes_bytes (?l + m)"
    using blit_at [OF l(2), of 4 ?n "?l + m"] by (simp only: length_put_u32 append_assoc)
  have 4: "blit ((q @ ?f @ zeroes_bytes 2 @ ?i @ ?n) @ zeroes_bytes (?l + m)) (off + 12) (sy_data s) =
      (q @ entry_bytes s) @ zeroes_bytes m"
    using blit_at [OF l(3) refl, of "sy_data s" m] by (simp only: append_assoc entry_bytes_def)
  have 5: "(if sy_data s \<noteq> [] then blit p (off + 12) (sy_data s) else p) = blit p (off + 12) (sy_data s)" for p by simp
  have "export_entries (s # ss) off (q @ zeroes_bytes n) = export_entries ss (off + (12 + ?l)) ((q @ entry_bytes s) @ zeroes_bytes m)"
    unfolding export_entries.simps Let_def 1 2 3 5 4 ..
  also have "\<dots> = (q @ entry_bytes s) @ section_bytes ss @ zeroes_bytes (m - length (section_bytes ss))"
    by (rule Cons.IH) (use Cons.prems n in auto)
  finally show ?case using n by simp
qed simp

lemma put_get_u16: "length bs = 2 \<Longrightarrow> wadb_put_u16 (wadb_get_u16 bs) = bs"
proof -
  assume "length bs = 2"
  then obtain a b where "bs = [a, b]" by (auto simp: length_Suc_conv numeral_2_eq_2)
  moreover have "ucast (ucast a OR push_bit 8 (ucast b) :: u16) = a" "ucast (drop_bit 8 (ucast a OR push_bit 8 (ucast b) :: u16)) = b"
    by (rule bit_word_eqI; auto simp: bit_simps dest: bit_imp_le_length)+
  ultimately show ?thesis by (simp add: wadb_put_u16_def wadb_get_u16_def)
qed

lemma entry_reads:
  assumes "drop off p = entry_bytes s @ rest" "sy_field s \<le> 65535" "sy_id s \<le> UINT32_MAX" "length (sy_data s) \<le> UINT32_MAX"
  shows "unat (wadb_get_u16 (drop off p)) = sy_field s" "unat (wadb_get_u32 (drop 4 (drop off p))) = sy_id s"
    "unat (wadb_get_u32 (drop 8 (drop off p))) = length (sy_data s)" "wadb_get_u16 (drop 2 (drop off p)) = 0"
    "take (length (sy_data s)) (drop 12 (drop off p)) = sy_data s"
proof -
  have u16: "wadb_get_u16 (wadb_put_u16 x @ r) = x" for x r
    using get_u16_chunk [of 0 "wadb_put_u16 x @ r"] by (simp add: chunk_def)
  have u32: "wadb_get_u32 (wadb_put_u32 x @ r) = x" for x r
    using get_u32_chunk [of 0 "wadb_put_u32 x @ r"] by (simp add: chunk_def)
  have d: "drop off p = wadb_put_u16 (of_nat (sy_field s)) @ zeroes_bytes 2 @ wadb_put_u32 (of_nat (sy_id s)) @
     wadb_put_u32 (of_nat (length (sy_data s))) @ sy_data s @ rest" using assms(1) by (simp add: entry_bytes_def)
  show "unat (wadb_get_u16 (drop off p)) = sy_field s"
    unfolding d u16 using assms(2) by (simp add: unat_of_nat)
  show "unat (wadb_get_u32 (drop 4 (drop off p))) = sy_id s"
    unfolding d using assms(3) u32 by (simp add: zeroes_bytes_def unat_of_nat)
  show "unat (wadb_get_u32 (drop 8 (drop off p))) = length (sy_data s)"
    unfolding d using assms(4) u32 by (simp add: zeroes_bytes_def unat_of_nat)
  show "wadb_get_u16 (drop 2 (drop off p)) = 0"
    unfolding d by (simp add: zeroes_bytes_def wadb_get_u16_def numeral_2_eq_2)
  show "take (length (sy_data s)) (drop 12 (drop off p)) = sy_data s"
    unfolding d by (simp add: zeroes_bytes_def)
qed

lemma and_not_7: "unat ((x :: u64) AND NOT 7) = unat x div 8 * 8"
proof -
  have "x AND NOT 7 = push_bit 3 (drop_bit 3 x)"
  proof (rule bit_word_eqI)
    fix k assume "k < LENGTH(64)"
    have "bit (7 :: u64) k \<longleftrightarrow> k < 3"
      using bit_mask_iff [of 3 k, where 'a = u64] \<open>k < LENGTH(64)\<close> by (simp add: mask_eq_exp_minus_1)
    then show "bit (x AND NOT 7) k = bit (push_bit 3 (drop_bit 3 x)) k"
      using \<open>k < LENGTH(64)\<close> by (auto simp: bit_simps not_less)
  qed
  moreover have "unat (drop_bit 3 x) = unat x div 8" by (simp add: drop_bit_eq_div unat_div)
  moreover have "unat x < 2 ^ LENGTH(64)" by (rule unsigned_less)
  then have "unat x div 8 * 8 < 2 ^ 64" by simp
  moreover have "push_bit 3 (drop_bit 3 x) = of_nat (unat (drop_bit 3 x) * 8)" by (simp add: push_bit_eq_mult)
  ultimately have "unat (x AND NOT 7) = unat (of_nat (unat x div 8 * 8) :: u64)" by (simp only:)
  also have "\<dots> = unat x div 8 * 8" by (rule unat_of_nat_64) (use \<open>unat x div 8 * 8 < 2 ^ 64\<close> in simp)
  finally show ?thesis .
qed

lemma align8_size_eq: "n + 7 \<le> UINT64_MAX \<Longrightarrow> align8_size n = (n + 7) div 8 * 8"
  unfolding align8_size_def and_not_7 by (subst unat_of_nat_64) (simp_all add: add64_exact)

lemma export_eq:
  assumes ok: "dictionary_ok d" and run: "wadb_dictionary_export_limit alloc d mark limit = Inr (p, n)"
  shows "mark \<le> length (di_symbols d) \<and> n = length (di_symbols d) - mark \<and> length p mod 8 = 0 \<and> length p \<le> limit \<and>
    length p \<le> UINT32_MAX \<and>
    (\<exists>k < 8. p = section_bytes (drop mark (di_symbols d)) @ zeroes_bytes k)"
proof -
  let ?ss = "drop mark (di_symbols d)"
  have lens: "list_all (\<lambda>s. length (sy_data s) \<le> WADB_MAX_STRING_BYTES) ?ss"
    using ok by (auto simp: dictionary_ok_def symbols_ok_def symbol_ok_def list_all_iff dest: in_set_dropD)
  from run obtain m where m: "mark \<le> length (di_symbols d)" "export_size ?ss 0 limit = Some m" "align8_size m \<le> limit"
    by (auto simp: wadb_dictionary_export_limit_def Let_def split: if_splits option.splits)
  from export_size_eq [OF _ m(2) lens] have len: "m = length (section_bytes ?ss)" "?ss \<noteq> [] \<longrightarrow> m + 7 \<le> UINT32_MAX" by auto
  then have mb: "m + 7 \<le> UINT32_MAX" by (cases ?ss) auto
  then have al: "align8_size m = (m + 7) div 8 * 8" by (intro align8_size_eq) simp
  show ?thesis
  proof (cases "?ss = []")
    case True
    then show ?thesis using run m len al by (auto simp: wadb_dictionary_export_limit_def zeroes_bytes_def)
  next
    case False
    then have "0 < m" using len by (cases ?ss) auto
    then have "p = export_entries ?ss 0 ([] @ zeroes_bytes (align8_size m))" "n = length (di_symbols d) - mark"
      using run m al by (auto simp: wadb_dictionary_export_limit_def Let_def split: if_splits)
    moreover have "export_entries ?ss 0 ([] @ zeroes_bytes (align8_size m)) =
        [] @ section_bytes ?ss @ zeroes_bytes (align8_size m - length (section_bytes ?ss))"
      by (rule export_entries_eq) (use len al in auto)
    moreover have "align8_size m - m < 8" "m \<le> align8_size m" "align8_size m \<le> UINT32_MAX" using al mb by linarith+
    ultimately show ?thesis using m(1,3) len al by (auto simp: zeroes_bytes_def)
  qed
qed

section \<open>Applying a dictionary section\<close>

lemma intern_extends:
  assumes "dictionary_ok d" "wadb_dictionary_intern alloc d field data = (d', r)"
  shows "dictionary_ok d' \<and> di_schema d' = di_schema d \<and> di_limit d' = di_limit d \<and> (\<exists>t. di_symbols d' = di_symbols d @ t)"
proof -
  note i = intern_ok [OF assms]
  then have "take (length (di_symbols d)) (di_symbols d') = di_symbols d" by (cases r) auto
  then show ?thesis using i by (metis append_take_drop_id)
qed

lemma apply_loop_ok:
  "dictionary_ok d \<Longrightarrow> apply_loop allocs dict nb n i d off = (d', r) \<Longrightarrow>
     dictionary_ok d' \<and> di_schema d' = di_schema d \<and> di_limit d' = di_limit d \<and>
     (\<exists>t. di_symbols d' = di_symbols d @ t) \<and> (is_ok r \<longrightarrow> length (di_symbols d') = length (di_symbols d) + n)"
proof (induction n arbitrary: i d off)
  case (Suc n)
  let ?p = "drop off dict"
  let ?len = "unat (wadb_get_u32 (drop 8 ?p))"
  obtain d1 r1 where i: "wadb_dictionary_intern (allocs i) d (unat (wadb_get_u16 ?p)) (CMem (take ?len (drop 12 ?p))) = (d1, r1)"
    by fastforce
  note x = intern_extends [OF Suc.prems(1) i]
  consider "d' = d" "\<not> is_ok r" | "d' = d1" "\<not> is_ok r"
    | "length (di_symbols d1) = length (di_symbols d) + 1" "apply_loop allocs dict nb n (i + 1) d1 (off + (12 + ?len)) = (d', r)"
    using Suc.prems(2) i unfolding apply_loop.simps Let_def
    by (auto split: if_splits sum.splits)
  then show ?case
  proof cases
    case 3
    from Suc.IH [OF _ this(2)] x this(1) show ?thesis by (auto simp del: is_ok_def)
  qed (use Suc.prems(1) x in auto)
qed simp

lemma apply_ok:
  assumes "dictionary_ok d" "wadb_dictionary_apply allocs d f = (d', r)"
  shows "dictionary_ok d' \<and> di_schema d' = di_schema d \<and> di_limit d' = di_limit d \<and>
    (case r of Inl e \<Rightarrow> di_symbols d' = di_symbols d
     | Inr u \<Rightarrow> length (di_symbols d') = length (di_symbols d) + fr_dictionary_count f \<and>
         take (length (di_symbols d)) (di_symbols d') = di_symbols d)"
proof -
  obtain d1 r1 where l: "apply_loop allocs (the (fr_dictionary f)) (fr_dictionary_bytes f) (fr_dictionary_count f) 0 d 0 = (d1, r1)"
    by fastforce
  note a = apply_loop_ok [OF assms(1) l]
  then obtain t where t: "di_symbols d1 = di_symbols d @ t" by auto
  have "dictionary_ok d1" using a by simp
  note b = rollback_ok [OF this, of "length (di_symbols d)"]
  show ?thesis using assms(2) l a b t
    by (cases r1) (auto simp: wadb_dictionary_apply_def Let_def split: if_splits)
qed

lemma intern_fresh:
  assumes ok: "dictionary_ok d" and so: "symbols_ok (di_schema d) (di_symbols d @ s # rest)"
    and run: "wadb_dictionary_intern alloc d (sy_field s) (CMem (sy_data s)) = (d', r)"
  shows "dictionary_ok d' \<and> di_schema d' = di_schema d \<and> sy_id s = length (co_indices (di_columns d ! sy_field s)) + 1 \<and>
    (r = Inr (sy_id s) \<and> di_symbols d' = di_symbols d @ [s] \<or>
     (r = Inl WADB_LIMIT \<or> r = Inl WADB_NOMEM) \<and> di_symbols d' = di_symbols d)"
proof -
  let ?j = "sy_field s" and ?b = "sy_data s"
  have s: "0 < ?j" "?j < field_count (di_schema d)" "f_type (schema_fields (di_schema d) ! ?j) = WADB_SYMBOL32"
    "length ?b \<le> WADB_MAX_STRING_BYTES" "utf8_loop ?b" "sy_hash s = symbol_hash ?j ?b"
    using so by (auto simp: symbols_ok_def symbol_ok_def)
  have new: "(?j, ?b) \<notin> symbol_key ` set (di_symbols d)"
    using so by (auto simp: symbols_ok_def symbol_key_def)
  then have none: "find (\<lambda>t. symbol_key t = (?j, ?b)) (di_symbols d) = None"
    unfolding find_None_iff by (metis image_eqI)
  have cid: "sy_id s = length (column_strings (di_symbols d) ?j) + 1"
    using so by (auto simp: symbols_ok_def ids_ok_append column_strings_def)
  have c: "columns_ok (di_schema d) (di_symbols d) (di_columns d)" using ok by (simp add: dictionary_ok_def)
  then have "length (co_indices (di_columns d ! ?j)) = length (column_strings (di_symbols d) ?j)"
    using s(2) by (intro column_length [OF c]) (simp add: columns_ok_def)
  moreover have "intern_new alloc d ?j (symbol_hash ?j ?b) ?b = (d', r)"
    using run s none by (simp add: wadb_dictionary_intern_def wadb_utf8_def find_symbol_correct [OF ok] Let_def)
  note intern_new_ok [OF ok s(1-5) new this]
  moreover have "\<lparr>sy_field = ?j, sy_id = sy_id s, sy_hash = symbol_hash ?j ?b, sy_data = ?b\<rparr> = s"
    using s(6) by simp
  ultimately show ?thesis using cid by (cases r) auto
qed

lemma apply_loop_section:
  assumes "dictionary_ok d" "schema_ok (di_schema d)" "symbols_ok (di_schema d) (di_symbols d @ ss)"
    "off \<le> length p" "drop off p = section_bytes ss @ rest"
    "apply_loop allocs p (length p) (length ss) i d off = (d', r)"
  shows "r = Inr (off + length (section_bytes ss)) \<and> di_symbols d' = di_symbols d @ ss \<or> r = Inl WADB_LIMIT \<or> r = Inl WADB_NOMEM"
  using assms
proof (induction ss arbitrary: i d off)
  case (Cons s ss)
  let ?p = "drop off p"
  have d: "?p = entry_bytes s @ (section_bytes ss @ rest)" using Cons.prems(5) by simp
  have so: "symbols_ok (di_schema d) (di_symbols d @ s # ss)" using Cons.prems(3) .
  have sb: "0 < sy_field s" "sy_field s < field_count (di_schema d)" "f_type (schema_fields (di_schema d) ! sy_field s) = WADB_SYMBOL32"
    "length (sy_data s) \<le> WADB_MAX_STRING_BYTES" using so by (auto simp: symbols_ok_def symbol_ok_def)
  have f: "sy_field s \<le> 65535" using sb Cons.prems(2) by (simp add: schema_ok_def WADB_MAX_FIELDS_def)
  have idb: "sy_id s \<le> UINT32_MAX"
  proof -
    have "sy_id s = Suc (length (filter (\<lambda>t. sy_field t = sy_field s) (di_symbols d)))"
      "length (di_symbols d) + length ss < UINT32_MAX" using so by (auto simp: symbols_ok_def ids_ok_append)
    then show ?thesis using length_filter_le [of "\<lambda>t. sy_field t = sy_field s" "di_symbols d"] by linarith
  qed
  have lb: "length (sy_data s) \<le> UINT32_MAX" using sb(4) by (simp add: WADB_MAX_STRING_BYTES_def)
  note rd = entry_reads [OF d f idb lb]
  have len: "length p - off = 12 + length (sy_data s) + length (section_bytes ss @ rest)"
    using arg_cong [OF d, of length] by simp
  obtain d1 r1 where i: "wadb_dictionary_intern (allocs i) d (sy_field s) (CMem (sy_data s)) = (d1, r1)" by fastforce
  note x = intern_fresh [OF Cons.prems(1) so i]
  have step: "apply_loop allocs p (length p) (length (s # ss)) i d off =
      (case r1 of Inl e \<Rightarrow> (d1, Inl (if e = WADB_INVALID then WADB_CORRUPT else e))
       | Inr assigned \<Rightarrow>
           if assigned \<noteq> sy_id s \<or> length (di_symbols d1) \<noteq> length (di_symbols d) + 1 then (d1, Inl WADB_CORRUPT)
           else apply_loop allocs p (length p) (length ss) (i + 1) d1 (off + (12 + length (sy_data s))))"
  proof -
    have g1: "(off > length p \<or> length p - off < 12) = False" using Cons.prems(4) len by simp
    have g2: "(sy_field s = 0 \<or> sy_field s \<ge> field_count (di_schema d) \<or>
        f_type (schema_fields (di_schema d) ! sy_field s) \<noteq> WADB_SYMBOL32 \<or>
        sy_id s \<noteq> length (co_indices (di_columns d ! sy_field s)) + 1 \<or> (0 :: u16) \<noteq> 0 \<or>
        length (sy_data s) > length p - off - 12) = False" using sb x len by simp
    show ?thesis
      by (simp only: list.size add_Suc_right add_0_right apply_loop.simps Let_def rd i g1 g2 if_False prod.case)
  qed
  show ?case
  proof (cases r1)
    case (Inr n)
    then have x': "n = sy_id s" "di_symbols d1 = di_symbols d @ [s]" using x by auto
    have nx: "drop (off + (12 + length (sy_data s))) p = section_bytes ss @ rest"
    proof -
      have "drop (off + (12 + length (sy_data s))) p = drop (12 + length (sy_data s)) ?p" by (simp add: add.commute)
      then show ?thesis unfolding d by simp
    qed
    have "off + (12 + length (sy_data s)) \<le> length p" using len Cons.prems(4) by linarith
    from Cons.IH [OF _ _ _ this nx, of d1 "i + 1"] show ?thesis
      using Cons.prems x x' step Inr by (auto simp: add.assoc)
  qed (use x step Cons.prems(6) in auto)
qed simp

lemma intern_invalid:
  assumes "dictionary_ok d"
  shows "snd (wadb_dictionary_intern alloc d field data) = Inl e \<Longrightarrow>
     (if field = 0 \<or> field \<ge> field_count (di_schema d) \<or> f_type (schema_fields (di_schema d) ! field) \<noteq> WADB_SYMBOL32 \<or>
         carr_length data > WADB_MAX_STRING_BYTES \<or> \<not> wadb_utf8 data
      then e = WADB_INVALID else (e = WADB_LIMIT \<or> e = WADB_NOMEM) \<and> (field, carr_items data) \<notin> symbol_key ` set (di_symbols d))"
proof -
  assume run: "snd (wadb_dictionary_intern alloc d field data) = Inl e"
  let ?bad = "field = 0 \<or> field \<ge> field_count (di_schema d) \<or> f_type (schema_fields (di_schema d) ! field) \<noteq> WADB_SYMBOL32 \<or>
         carr_length data > WADB_MAX_STRING_BYTES \<or> \<not> wadb_utf8 data"
  show ?thesis
  proof (cases ?bad)
    case True
    then show ?thesis using run by (simp only: wadb_dictionary_intern_def if_True snd_conv sum.inject)
  next
    case False
    then have f: "0 < field" "field < field_count (di_schema d)" "f_type (schema_fields (di_schema d) ! field) = WADB_SYMBOL32"
      "length (carr_items data) \<le> WADB_MAX_STRING_BYTES" "utf8_loop (carr_items data)"
      using utf8_items [of data] by auto
    have "find_symbol d field (symbol_hash field (carr_items data)) (carr_items data) = None"
      and r: "snd (intern_new alloc d field (symbol_hash field (carr_items data)) (carr_items data)) = Inl e"
      using run False by (auto simp: wadb_dictionary_intern_def Let_def split: option.splits)
    then have new: "(field, carr_items data) \<notin> symbol_key ` set (di_symbols d)"
      by (auto simp: find_symbol_correct [OF assms] find_None_iff split: option.splits)
    from r have "intern_new alloc d field (symbol_hash field (carr_items data)) (carr_items data) =
        (fst (intern_new alloc d field (symbol_hash field (carr_items data)) (carr_items data)), Inl e)"
      by (simp add: prod_eq_iff)
    from intern_new_ok [OF assms f new this] show ?thesis using False new by simp
  qed
qed

section \<open>A concrete dictionary\<close>

definition example_fields :: "wadb_field list" where
  "example_fields =
     [\<lparr>f_name = ascii ''path'', f_type = WADB_SYMBOL32, f_size = 0, f_nullable = False, f_offset = 9, f_width = 4,
       f_null_bit = UINT32_MAX\<rparr>,
      \<lparr>f_name = ascii ''ms'', f_type = WADB_U16, f_size = 0, f_nullable = True, f_offset = 13, f_width = 2, f_null_bit = 0\<rparr>]"

definition example_schema :: wadb_schema where
  "example_schema =
     \<lparr>field_count = 3, row_width = 16, null_bytes = 1,
      fingerprint = foldl hash_field 14695981039346656037 (time_field # example_fields),
      schema_fields = time_field # example_fields\<rparr>"

lemma example_schema_builds: "wadb_schema_build example_defs = Inr example_schema"
proof -
  have "align8 15 = 16" by (simp add: align8_eq)
  moreover have "check_defs [] (carr_items example_defs) 0 = Inr 1"
    by (simp add: example_defs_def wadb_identifier_def identifier_loop.simps identifier_char_def cchar_def ascii_def
        cstr_def strcmp_eq_def WADB_NAME_CAP_def WADB_MAX_ROW_BYTES_def type_width.simps)
  moreover have "place_fields (carr_items example_defs) (8 + (1 + 7) div 8) 0 = Inr (example_fields, 15)"
    by (simp add: example_defs_def example_fields_def type_width.simps WADB_MAX_ROW_BYTES_def sub32_exact add32_exact
        cstr_def ascii_def bind_res_def)
  moreover have "carr_length example_defs = 2" "\<not> carr_null example_defs" by (simp_all add: example_defs_def)
  ultimately show ?thesis
    by (simp add: wadb_schema_build_def WADB_MAX_FIELDS_def example_schema_def Let_def)
qed

lemma example_schema_ok: "schema_ok example_schema"
  using schema_build_ok(1) [OF example_schema_builds] .

definition example_dictionary :: wadb_dictionary where
  "example_dictionary =
     \<lparr>di_schema = example_schema, di_symbols = [], di_capacity = 0, di_slots = [],
      di_columns = replicate 3 \<lparr>co_indices = [], co_capacity = 0\<rparr>, di_allocated = 144, di_limit = 4096\<rparr>"

lemma example_dictionary_new: "wadb_dictionary_new (\<lambda>_. True) example_schema 4096 = Inr example_dictionary"
  by (simp add: wadb_dictionary_new_def example_dictionary_def SIZEOF_DICTIONARY_def SIZEOF_COLUMN_def Let_def example_schema_def)

lemma example_intern: "\<exists>d. wadb_dictionary_intern (\<lambda>_. True) example_dictionary 1 (CMem [47]) = (d, Inr 1)"
  by (simp add: wadb_dictionary_intern_def example_dictionary_def example_schema_def example_fields_def
      WADB_MAX_STRING_BYTES_def wadb_utf8_def utf8_loop.simps utf8_lead_def find_symbol_def intern_new_def Let_def grow_symbols_def
      grow_slots_def grow_column_def rehash_def sub64_exact SIZEOF_SYMBOL_def SIZEOF_U32_def)

definition example_values :: "wadb_value carr" where
  "example_values = CMem [\<lparr>is_null = False, as_word = 0, as_bytes = CMem [47]\<rparr>, \<lparr>is_null = True, as_word = 0, as_bytes = CNull 0\<rparr>]"

lemma example_encodes:
  "\<exists>d row. wadb_encode_row example_schema example_values 0 (Some (wadb_dictionary_intern (\<lambda>_. True))) example_dictionary 16 = (d, Inr row)"
proof -
  obtain d where d: "wadb_dictionary_intern (\<lambda>_. True) example_dictionary 1 (CMem [47]) = (d, Inr 1)" using example_intern by blast
  note d' = d [unfolded One_nat_def]
  show ?thesis
    by (simp add: wadb_encode_row_def example_schema_def example_fields_def example_values_def Let_def wadb_encode_field_def d'
        WADB_MAX_STRING_BYTES_def wadb_utf8_def utf8_loop.simps utf8_lead_def)
qed

section \<open>Properties\<close>

definition symbol_keys :: "wadb_dictionary \<Rightarrow> (nat \<times> bytes) list" where
  "symbol_keys d = map symbol_key (di_symbols d)"

definition strings_of :: "(nat \<times> bytes) list \<Rightarrow> nat \<Rightarrow> bytes list" where
  "strings_of ks j = map snd (filter (\<lambda>k. fst k = j) ks)"

lemma strings_of_symbol_keys: "strings_of (symbol_keys d) j = column_strings (di_symbols d) j"
  by (simp add: strings_of_def symbol_keys_def column_strings_def filter_map comp_def symbol_key_def)

text \<open>
  The memory that a new string asks for: a table that is full doubles, the slot table before it is
  more than half full. The four requests are the symbols, the slots, the index of the column and the
  string, and \<open>alloc i\<close> is the outcome of the \<open>i\<close>-th.
\<close>

definition grown :: "nat \<Rightarrow> nat \<Rightarrow> nat \<Rightarrow> nat" where
  "grown capacity used initial = (if used < capacity then capacity else if capacity = 0 then initial else 2 * capacity)"

definition intern_requests :: "wadb_dictionary \<Rightarrow> nat \<Rightarrow> bytes \<Rightarrow> nat list" where
  "intern_requests d field data =
     (let n = length (di_symbols d); column = di_columns d ! field in
      [32 * (grown (di_capacity d) n 16 - di_capacity d), 4 * (grown (length (di_slots d)) (2 * n + 1) 32 - length (di_slots d)),
       4 * (grown (co_capacity column) (length (column_strings (di_symbols d) field)) 8 - co_capacity column), length data + 1])"

definition intern_fits :: "wadb_dictionary \<Rightarrow> nat \<Rightarrow> bytes \<Rightarrow> bool" where
  "intern_fits d field data \<longleftrightarrow>
     length (di_symbols d) < UINT32_MAX \<and> di_allocated d + sum_list (intern_requests d field data) \<le> di_limit d"

definition intern_served :: "(nat \<Rightarrow> bool) \<Rightarrow> wadb_dictionary \<Rightarrow> nat \<Rightarrow> bytes \<Rightarrow> bool" where
  "intern_served alloc d field data \<longleftrightarrow> (\<forall>i < 4. 0 < intern_requests d field data ! i \<longrightarrow> alloc i)"

lemma all_less_4: "(\<forall>i < 4 :: nat. P i) \<longleftrightarrow> P 0 \<and> P 1 \<and> P 2 \<and> P 3"
  by (auto simp: numeral_eq_Suc less_Suc_eq)

lemma intern_new_outcome:
  assumes ok: "dictionary_ok d" and f: "field < field_count (di_schema d)"
    and run: "intern_new alloc d field h data = (d', r)"
  shows "(r = Inl WADB_LIMIT \<longleftrightarrow> \<not> intern_fits d field data) \<and>
    (r = Inl WADB_NOMEM \<longleftrightarrow> intern_fits d field data \<and> \<not> intern_served alloc d field data)"
proof -
  let ?c = "di_columns d ! field" and ?count = "length (di_symbols d)" and ?sc = "length (di_slots d)"
  let ?cc = "length (co_indices ?c)"
  have parts: "symbols_ok (di_schema d) (di_symbols d)" "columns_ok (di_schema d) (di_symbols d) (di_columns d)"
    "memory_ok d" using ok by (simp_all add: dictionary_ok_def)
  have fl: "field < length (di_columns d)" using parts(2) f by (simp add: columns_ok_def)
  have cc: "?cc = length (column_strings (di_symbols d) field)" using column_length [OF parts(2) fl] .
  have le: "?count \<le> di_capacity d" "?cc \<le> co_capacity ?c" "?cc \<le> ?count" "?count \<le> UINT32_MAX"
    using parts fl cc by (auto simp: memory_ok_def columns_ok_def symbols_ok_def column_strings_def)
  have lim: "sub64 (di_limit d) (di_allocated d) = di_limit d - di_allocated d" "di_allocated d \<le> di_limit d"
    using parts(3) by (simp_all add: memory_ok_def sub64_exact)
  define cap where "cap = grown (di_capacity d) ?count 16"
  define sl where "sl = grown ?sc (2 * ?count + 1) 32"
  define ccap where "ccap = grown (co_capacity ?c) ?cc 8"
  have capd: "(if ?count = di_capacity d then (if di_capacity d \<noteq> 0 then di_capacity d * 2 else 16) else di_capacity d) = cap"
    "(if ?sc < (?count + 1) * 2 then (if ?sc \<noteq> 0 then ?sc * 2 else 32) else ?sc) = sl"
    "(if ?cc = co_capacity ?c then (if co_capacity ?c \<noteq> 0 then co_capacity ?c * 2 else 8) else co_capacity ?c) = ccap"
    using le by (auto simp: cap_def sl_def ccap_def grown_def)
  have mono: "di_capacity d \<le> cap" "?sc \<le> sl" "co_capacity ?c \<le> ccap" by (auto simp: cap_def sl_def ccap_def grown_def)
  have req: "intern_requests d field data =
      [32 * (cap - di_capacity d), 4 * (sl - ?sc), 4 * (ccap - co_capacity ?c), length data + 1]"
    by (simp add: intern_requests_def Let_def cap_def sl_def ccap_def cc)
  have served: "intern_served alloc d field data \<longleftrightarrow>
      (cap \<noteq> di_capacity d \<longrightarrow> alloc 0) \<and> (sl \<noteq> ?sc \<longrightarrow> alloc 1) \<and> (ccap \<noteq> co_capacity ?c \<longrightarrow> alloc 2) \<and> alloc 3"
    proof -
    have "(0 < 32 * (cap - di_capacity d)) = (cap \<noteq> di_capacity d)" "(0 < 4 * (sl - ?sc)) = (sl \<noteq> ?sc)"
      "(0 < 4 * (ccap - co_capacity ?c)) = (ccap \<noteq> co_capacity ?c)" using mono by auto
    then show ?thesis unfolding intern_served_def all_less_4 req by simp
  qed
  have fits: "intern_fits d field data \<longleftrightarrow> \<not> (?count = UINT32_MAX \<or> ?cc = UINT32_MAX) \<and>
      \<not> ((cap - di_capacity d) * SIZEOF_SYMBOL + (sl - ?sc) * SIZEOF_U32 + (ccap - co_capacity ?c) * SIZEOF_U32 + length data + 1 >
        sub64 (di_limit d) (di_allocated d))"
    using le lim unfolding intern_fits_def req by (auto simp: SIZEOF_SYMBOL_def SIZEOF_U32_def mult.commute)
  have cols: "di_columns (rehash x) = di_columns x" for x by (simp add: rehash_def)
  show ?thesis
    using run unfolding intern_new_def Let_def capd served fits
    by (auto simp: grow_symbols_def grow_slots_def grow_column_def Let_def cols split: if_splits)
qed

lemma intern_outcome:
  assumes "dictionary_ok d" "wadb_dictionary_intern alloc d field data = (d', r)"
    "\<not> (field = 0 \<or> field \<ge> field_count (di_schema d) \<or> f_type (schema_fields (di_schema d) ! field) \<noteq> WADB_SYMBOL32 \<or>
      carr_length data > WADB_MAX_STRING_BYTES \<or> \<not> wadb_utf8 data)"
    "(field, carr_items data) \<notin> symbol_key ` set (di_symbols d)"
  shows "(r = Inl WADB_LIMIT \<longleftrightarrow> \<not> intern_fits d field (carr_items data)) \<and>
    (r = Inl WADB_NOMEM \<longleftrightarrow> intern_fits d field (carr_items data) \<and> \<not> intern_served alloc d field (carr_items data))"
proof -
  have "find (\<lambda>s. symbol_key s = (field, carr_items data)) (di_symbols d) = None" using assms(4) by (simp add: find_None_iff) (metis image_eqI)
  then have "intern_new alloc d field (symbol_hash field (carr_items data)) (carr_items data) = (d', r)"
    using assms(2,3) by (simp add: wadb_dictionary_intern_def find_symbol_correct [OF assms(1)] Let_def)
  from intern_new_outcome [OF assms(1) _ this] assms(3) show ?thesis by simp
qed

text \<open>
  C14: interning refines an abstract table of distinct strings per column. The invariant and
  the memory budget are kept on every path; a known string leaves the table as it is and a
  new one is appended, and the identifier is the one-based position of the string in its
  column. A failing call changes no symbol, and its status is exact: \<^verbatim>\<open>WADB_INVALID\<close> for a column
  that is not a symbol column or a string that is too long or not UTF-8, and otherwise, for a new
  string, \<^verbatim>\<open>WADB_LIMIT\<close> when identifiers or the budget are exhausted and \<^verbatim>\<open>WADB_NOMEM\<close> when the string
  fits and an allocation it needs fails.
\<close>

theorem dictionary_intern_refines:
  assumes "dictionary_ok d" and "wadb_dictionary_intern alloc d field data = (d', r)"
  shows "dictionary_ok d' \<and> distinct (symbol_keys d') \<and> di_allocated d' \<le> di_limit d \<and>
    (case r of
       Inr n \<Rightarrow>
         (if (field, carr_items data) \<in> set (symbol_keys d) then symbol_keys d' = symbol_keys d
          else symbol_keys d' = symbol_keys d @ [(field, carr_items data)] \<and>
            intern_fits d field (carr_items data) \<and> intern_served alloc d field (carr_items data)) \<and>
         0 < n \<and> n \<le> length (strings_of (symbol_keys d') field) \<and> strings_of (symbol_keys d') field ! (n - 1) = carr_items data
     | Inl e \<Rightarrow> symbol_keys d' = symbol_keys d \<and>
         (if field = 0 \<or> field \<ge> field_count (di_schema d) \<or>
             f_type (schema_fields (di_schema d) ! field) \<noteq> WADB_SYMBOL32 \<or>
             carr_length data > WADB_MAX_STRING_BYTES \<or> \<not> wadb_utf8 data
          then e = WADB_INVALID
          else (field, carr_items data) \<notin> set (symbol_keys d) \<and>
            (if intern_fits d field (carr_items data) then e = WADB_NOMEM \<and> \<not> intern_served alloc d field (carr_items data)
             else e = WADB_LIMIT)))"
proof -
  note i = intern_ok [OF assms]
  then have m: "distinct (symbol_keys d')" "di_allocated d' \<le> di_limit d"
    by (auto simp: symbol_keys_def dictionary_ok_def symbols_ok_def memory_ok_def)
  have k: "symbol_key ` set (di_symbols d) = set (symbol_keys d)" by (simp add: symbol_keys_def)
  note i' = i [unfolded k, folded symbol_keys_def strings_of_symbol_keys] and e = intern_invalid [OF assms(1), of alloc field data, unfolded k]
    and o1 = intern_outcome [OF assms, unfolded k]
  show ?thesis
  proof (cases r)
    case (Inl x)
    then have "symbol_keys d' = symbol_keys d" using i by (simp add: symbol_keys_def)
    moreover have "snd (wadb_dictionary_intern alloc d field data) = Inl x" using Inl assms(2) by simp
    note e [OF this]
    ultimately show ?thesis using Inl i m o1 by (auto split: if_splits)
  next
    case (Inr n)
    have v: "\<not> (field = 0 \<or> field \<ge> field_count (di_schema d) \<or> f_type (schema_fields (di_schema d) ! field) \<noteq> WADB_SYMBOL32 \<or>
      carr_length data > WADB_MAX_STRING_BYTES \<or> \<not> wadb_utf8 data)"
      using assms(2) Inr unfolding wadb_dictionary_intern_def by (metis Pair_inject sum.distinct(1))
    show ?thesis using i' [unfolded Inr sum.case] m o1 [OF v] Inr by auto
  qed
qed

lemma example_dictionary_ok: "dictionary_ok example_dictionary"
  using new_ok [OF _ example_dictionary_new] by simp

theorem dictionary_intern_refines_witness:
  "\<exists>d'. dictionary_ok example_dictionary \<and>
     wadb_dictionary_intern (\<lambda>_. True) example_dictionary 1 (CMem [47]) = (d', Inr 1) \<and> symbol_keys d' = [(1, [47])]"
proof -
  obtain d' where d': "wadb_dictionary_intern (\<lambda>_. True) example_dictionary 1 (CMem [47]) = (d', Inr 1)"
    using example_intern by blast
  from dictionary_intern_refines [OF example_dictionary_ok d'] have "symbol_keys d' = [(1, [47])]"
    by (simp add: symbol_keys_def example_dictionary_def)
  then show ?thesis using d' example_dictionary_ok by blast
qed

text \<open>
  C18: a row encoded against a segment dictionary decodes field by field to the values that were
  stored, through the dictionary reached; the row passes \<^verbatim>\<open>wadb_validate_row\<close> and every
  symbol that could be resolved before still resolves to the same string.
\<close>

theorem dictionary_row_roundtrip:
  assumes "wadb_schema_build defs = Inr s" and "dictionary_ok d"
    and "wadb_encode_row s values time (Some (wadb_dictionary_intern alloc)) d cap = (d', Inr row)"
  shows "length row = row_width s \<and> dictionary_ok d' \<and>
    wadb_decode_value s 0 row (Some (wadb_dictionary_resolve d')) = Inr (word_value (word_of_int time)) \<and>
    (\<forall>m. m + 1 < field_count s \<longrightarrow>
       wadb_decode_value s (m + 1) row (Some (wadb_dictionary_resolve d')) =
         Inr (stored_value (schema_fields s ! (m + 1)) (carr_items values ! m))) \<and>
    wadb_validate_row s row (Some (wadb_dictionary_resolve d')) = Inr () \<and>
    (\<forall>j n x. wadb_dictionary_resolve d j n = Inr x \<longrightarrow> wadb_dictionary_resolve d' j n = Inr x)"
  using dict.encode_row_roundtrip [OF schema_build_ok(1) [OF assms(1)] assms(2,3)]
  by (auto simp: dict.extends_def)

theorem dictionary_row_roundtrip_witness:
  "\<exists>d' row. wadb_schema_build example_defs = Inr example_schema \<and> dictionary_ok example_dictionary \<and>
     wadb_encode_row example_schema example_values 0 (Some (wadb_dictionary_intern (\<lambda>_. True))) example_dictionary 16 = (d', Inr row) \<and>
     wadb_validate_row example_schema row (Some (wadb_dictionary_resolve d')) = Inr ()"
proof -
  obtain d' row where e: "wadb_encode_row example_schema example_values 0 (Some (wadb_dictionary_intern (\<lambda>_. True)))
      example_dictionary 16 = (d', Inr row)" using example_encodes by blast
  from dictionary_row_roundtrip [OF example_schema_builds example_dictionary_ok e]
  show ?thesis using e example_schema_builds example_dictionary_ok by blast
qed

fun intern_all :: "wadb_dictionary \<Rightarrow> ((nat \<Rightarrow> bool) \<times> nat \<times> cbuf) list \<Rightarrow> wadb_dictionary" where
  "intern_all d [] = d"
| "intern_all d ((alloc, field, data) # calls) = intern_all (fst (wadb_dictionary_intern alloc d field data)) calls"

lemma intern_all_ok:
  "dictionary_ok d \<Longrightarrow> dictionary_ok (intern_all d calls) \<and> di_schema (intern_all d calls) = di_schema d \<and>
     (\<exists>t. di_symbols (intern_all d calls) = di_symbols d @ t)"
proof (induction d calls rule: intern_all.induct)
  case (2 d alloc field data calls)
  obtain d1 r where "wadb_dictionary_intern alloc d field data = (d1, r)" by fastforce
  with intern_extends [OF 2(2) this] 2(1) show ?case by auto
qed simp

text \<open>
  C27: rolling back undoes any sequence of interning calls, failed ones included: the symbols
  are those at the mark, the invariant (slot table and memory accounting included) holds and
  every lookup answers as it did at the mark.
\<close>

theorem dictionary_rollback_undoes:
  assumes "dictionary_ok d" and d'_def: "d' = wadb_dictionary_rollback (intern_all d calls) (length (di_symbols d))"
  shows "dictionary_ok d' \<and> di_symbols d' = di_symbols d \<and>
    wadb_dictionary_resolve d' j n = wadb_dictionary_resolve d j n"
proof -
  obtain t where t: "dictionary_ok (intern_all d calls)" "di_schema (intern_all d calls) = di_schema d"
    "di_symbols (intern_all d calls) = di_symbols d @ t" using intern_all_ok [OF assms(1)] by blast
  have r: "dictionary_ok d'" "di_symbols d' = di_symbols d" "di_schema d' = di_schema d"
    using rollback_ok [OF t(1), of "length (di_symbols d)"] t(2,3) by (simp_all add: d'_def)
  then show ?thesis by (simp add: resolve_eq assms(1))
qed

theorem dictionary_rollback_undoes_witness:
  "dictionary_ok example_dictionary \<and>
   di_symbols (wadb_dictionary_rollback (intern_all example_dictionary [(\<lambda>_. True, 1, CMem [47])]) 0) = []"
  using dictionary_rollback_undoes [OF example_dictionary_ok refl, of "[(\<lambda>_. True, 1, CMem [47])]" 0 0] example_dictionary_ok
  by (simp add: example_dictionary_def)

lemma entry_read_back:
  assumes "12 + unat (wadb_get_u32 (drop 8 p)) \<le> length p" "wadb_get_u16 (drop 2 p) = 0"
    and "sy_field s = unat (wadb_get_u16 p)" "sy_id s = unat (wadb_get_u32 (drop 4 p))"
      "sy_data s = take (unat (wadb_get_u32 (drop 8 p))) (drop 12 p)"
  shows "entry_bytes s = take (12 + length (sy_data s)) p"
proof -
  let ?n = "unat (wadb_get_u32 (drop 8 p))"
  have n: "length (sy_data s) = ?n" using assms(1,5) by simp
  have "take (12 + ?n) p = take 2 p @ take 2 (drop 2 p) @ take 4 (drop 4 p) @ take 4 (drop 8 p) @ take ?n (drop 12 p)"
    using take_add [of 2 "2 + (4 + (4 + ?n))" p] take_add [of 2 "4 + (4 + ?n)" "drop 2 p"] take_add [of 4 "4 + ?n" "drop 4 p"]
      take_add [of 4 ?n "drop 8 p"] by (simp add: add.assoc [symmetric] add.commute)
  moreover have "wadb_put_u16 (wadb_get_u16 p) = take 2 p" "wadb_put_u16 (wadb_get_u16 (drop 2 p)) = take 2 (drop 2 p)"
    "wadb_put_u32 (wadb_get_u32 (drop 4 p)) = take 4 (drop 4 p)" "wadb_put_u32 (wadb_get_u32 (drop 8 p)) = take 4 (drop 8 p)"
    using put_get_u16 [of "take 2 p"] put_get_u16 [of "take 2 (drop 2 p)"] put_get_u32 [of "take 4 (drop 4 p)"] put_get_u32 [of "take 4 (drop 8 p)"]
      get_u16_chunk [of 0 p] get_u16_chunk [of 0 "drop 2 p"] get_u32_chunk [of 0 "drop 4 p"] get_u32_chunk [of 0 "drop 8 p"] assms(1)
    by (simp_all add: chunk_def)
  moreover have "wadb_put_u16 0 = zeroes_bytes 2" by (simp add: wadb_put_u16_def zeroes_bytes_def numeral_2_eq_2)
  ultimately show ?thesis using assms n by (simp add: entry_bytes_def)
qed

lemma intern_appends:
  assumes "dictionary_ok d" "wadb_dictionary_intern alloc d field data = (d', Inr n)" "length (di_symbols d') = length (di_symbols d) + 1"
  shows "\<exists>s. di_symbols d' = di_symbols d @ [s] \<and> sy_field s = field \<and> sy_data s = carr_items data \<and>
    sy_id s = length (co_indices (di_columns d ! field)) + 1"
proof -
  note i = intern_ok [OF assms(1,2), unfolded sum.case]
  have "di_symbols d' = di_symbols d @ drop (length (di_symbols d)) (di_symbols d')" using i by (metis append_take_drop_id)
  moreover have "length (drop (length (di_symbols d)) (di_symbols d')) = 1" using assms(3) by simp
  then obtain s where "drop (length (di_symbols d)) (di_symbols d') = [s]" by (metis One_nat_def length_0_conv length_Suc_conv)
  ultimately have s: "di_symbols d' = di_symbols d @ [s]" by simp
  have k: "symbol_key s = (field, carr_items data)" using i s by (auto split: if_splits)
  have "ids_ok [] (di_symbols d @ [s])" using i s by (simp add: dictionary_ok_def symbols_ok_def)
  then have "sy_id s = length (filter (\<lambda>t. sy_field t = sy_field s) (di_symbols d)) + 1" by (simp add: ids_ok_append)
  moreover have "length (co_indices (di_columns d ! field)) = length (column_strings (di_symbols d) field)"
    using column_length assms(1) i by (auto simp: dictionary_ok_def columns_ok_def)
  ultimately show ?thesis using s k by (auto simp: symbol_key_def column_strings_def)
qed

lemma apply_loop_sound:
  assumes "dictionary_ok d" "off \<le> length p" "apply_loop allocs p (length p) n i d off = (d', Inr m)"
  shows "\<exists>ss. di_symbols d' = di_symbols d @ ss \<and> length ss = n \<and> m = off + length (section_bytes ss) \<and> m \<le> length p \<and>
    take (length (section_bytes ss)) (drop off p) = section_bytes ss"
  using assms
proof (induction n arbitrary: i d off)
  case (Suc n)
  let ?p = "drop off p"
  let ?len = "unat (wadb_get_u32 (drop 8 ?p))" and ?f = "unat (wadb_get_u16 ?p)"
  obtain d1 r1 where i: "wadb_dictionary_intern (allocs i) d ?f (CMem (take ?len (drop 12 ?p))) = (d1, r1)"
    by fastforce
  have g: "12 + ?len \<le> length ?p" "unat (wadb_get_u32 (drop 4 ?p)) = length (co_indices (di_columns d ! ?f)) + 1" "wadb_get_u16 (drop 2 ?p) = 0"
    "\<exists>a. r1 = Inr a" "length (di_symbols d1) = length (di_symbols d) + 1"
    "apply_loop allocs p (length p) n (i + 1) d1 (off + (12 + ?len)) = (d', Inr m)"
    using Suc.prems(3) i unfolding apply_loop.simps Let_def by (auto split: if_splits sum.splits)
  then obtain a where a: "r1 = Inr a" by blast
  obtain s where s: "di_symbols d1 = di_symbols d @ [s]" "sy_field s = ?f" "sy_data s = take ?len (drop 12 ?p)"
    "sy_id s = length (co_indices (di_columns d ! ?f)) + 1"
    using intern_appends [OF Suc.prems(1) i [unfolded a] g(5)] by auto
  have e: "entry_bytes s = take (12 + length (sy_data s)) ?p" using entry_read_back [OF g(1,3)] s g(2) by simp
  have l: "length (sy_data s) = ?len" using s(3) g(1) by simp
  have "dictionary_ok d1" "off + (12 + ?len) \<le> length p" using intern_extends [OF Suc.prems(1) i] g(1) by auto
  from Suc.IH [OF this g(6)] obtain ss where ss: "di_symbols d' = di_symbols d1 @ ss" "length ss = n"
    "m = off + (12 + ?len) + length (section_bytes ss)" "m \<le> length p"
    "take (length (section_bytes ss)) (drop (off + (12 + ?len)) p) = section_bytes ss" by blast
  have "take (12 + ?len + length (section_bytes ss)) ?p = entry_bytes s @ section_bytes ss"
    using take_add [of "12 + ?len" "length (section_bytes ss)" ?p] e l ss(5) by (simp add: add.commute)
  then show ?case using ss s(1) l by (intro exI [of _ "s # ss"]) (simp add: add.assoc)
qed simp

lemma apply_loop_error:
  "dictionary_ok d \<Longrightarrow> apply_loop allocs p nb n i d off = (d', Inl e) \<Longrightarrow> e \<in> {WADB_CORRUPT, WADB_LIMIT, WADB_NOMEM}"
proof (induction n arbitrary: i d off)
  case (Suc n)
  let ?p = "drop off p"
  let ?len = "unat (wadb_get_u32 (drop 8 ?p))" and ?f = "unat (wadb_get_u16 ?p)"
  obtain d1 r1 where i: "wadb_dictionary_intern (allocs i) d ?f (CMem (take ?len (drop 12 ?p))) = (d1, r1)"
    by fastforce
  have x: "dictionary_ok d1" using intern_extends [OF Suc.prems(1) i] by simp
  have y: "r1 = Inl e' \<Longrightarrow> e' = WADB_INVALID \<or> e' = WADB_LIMIT \<or> e' = WADB_NOMEM" for e'
    using intern_invalid [OF Suc.prems(1), of "allocs i" ?f "CMem (take ?len (drop 12 ?p))" e'] i by (auto split: if_splits)
  show ?case using Suc.prems(2) i Suc.IH [OF x] y unfolding apply_loop.simps Let_def
    by (auto split: if_splits sum.splits)
qed simp

text \<open>
  The dictionary section of a frame, and that it consists of the definitions of \<open>ss\<close>, one after the
  other, with zero padding to a multiple of eight bytes.
\<close>

definition frame_section :: "wadb_frame \<Rightarrow> bytes" where
  "frame_section f = (case fr_dictionary f of None \<Rightarrow> [] | Some p \<Rightarrow> p)"

definition frame_defines :: "wadb_frame \<Rightarrow> wadb_symbol list \<Rightarrow> bool" where
  "frame_defines f ss \<longleftrightarrow> length ss = fr_dictionary_count f \<and> length (frame_section f) mod 8 = 0 \<and>
     (\<exists>k < 8. frame_section f = section_bytes ss @ zeroes_bytes k)"

lemma apply_section:
  assumes "fr_dictionary_bytes f = length (frame_section f)"
  shows "wadb_dictionary_apply allocs d f =
     (let mark = length (di_symbols d); p = frame_section f in
      case apply_loop allocs p (length p) (fr_dictionary_count f) 0 d 0 of
        (d', Inl e) \<Rightarrow> (wadb_dictionary_rollback d' mark, Inl e)
      | (d', Inr offset) \<Rightarrow>
          if length p mod 8 \<noteq> 0 \<or> offset > length p \<or> length p - offset \<ge> 8 \<or> list_ex (\<lambda>k. p ! k \<noteq> 0) [offset..<length p]
          then (wadb_dictionary_rollback d' mark, Inl WADB_CORRUPT)
          else (d', Inr ()))"
proof (cases "fr_dictionary f")
  case None
  have "apply_loop allocs p 0 n 0 d 0 = (if n = 0 then (d, Inr 0) else (d, Inl WADB_CORRUPT))" for p n by (cases n) simp_all
  then show ?thesis using None assms by (simp add: wadb_dictionary_apply_def frame_section_def Let_def)
next
  case (Some p)
  then show ?thesis using assms by (simp add: wadb_dictionary_apply_def frame_section_def Let_def)
qed

lemma zero_padding:
  assumes "m \<le> length p" "\<not> list_ex (\<lambda>k. p ! k \<noteq> 0) [m..<length p]"
  shows "drop m p = zeroes_bytes (length p - m)"
  using assms by (intro nth_equalityI) (auto simp: zeroes_bytes_def list_ex_iff)


definition section_frame :: wadb_frame where
  "section_frame = example_frame\<lparr>fr_dictionary_count := 1, fr_dictionary_bytes := 16,
     fr_dictionary := Some [1, 0, 0, 0, 1, 0, 0, 0, 1, 0, 0, 0, 47, 0, 0, 0]\<rparr>"


text \<open>
  C29: exporting the symbols after a mark and applying the section to a dictionary that has the
  symbols up to the mark reproduces the exporting dictionary's symbols, with their identifiers.
  The application can fail only for lack of memory, never as corrupt.
\<close>

theorem dictionary_export_apply:
  assumes "dictionary_ok d" and "schema_ok (di_schema d)"
    and "wadb_dictionary_export alloc d mark = Inr (p, n)"
    and "dictionary_ok d0" and "di_schema d0 = di_schema d" and "di_symbols d0 = take mark (di_symbols d)"
    and "fr_dictionary f = Some p" and "fr_dictionary_bytes f = length p" and "fr_dictionary_count f = n"
    and "wadb_dictionary_apply allocs d0 f = (d', r)"
  shows "r = Inr () \<and> di_symbols d' = di_symbols d \<or>
    (r = Inl WADB_LIMIT \<or> r = Inl WADB_NOMEM) \<and> di_symbols d' = take mark (di_symbols d)"
proof -
  let ?ss = "drop mark (di_symbols d)"
  obtain k where e: "mark \<le> length (di_symbols d)" "n = length ?ss" "length p mod 8 = 0" "k < 8"
    "p = section_bytes ?ss @ zeroes_bytes k"
    using export_eq [OF assms(1) assms(3) [unfolded wadb_dictionary_export_def]] by (metis length_drop)
  obtain d1 r1 where l: "apply_loop allocs p (length p) (length ?ss) 0 d0 0 = (d1, r1)" by fastforce
  have so: "symbols_ok (di_schema d0) (di_symbols d0 @ ?ss)" using assms(1,5,6) by (simp add: dictionary_ok_def)
  have loop: "r1 = Inr (length (section_bytes ?ss)) \<and> di_symbols d1 = di_symbols d \<or> r1 = Inl WADB_LIMIT \<or> r1 = Inl WADB_NOMEM"
    using apply_loop_section [OF assms(4) _ so _ _ l, of "zeroes_bytes k"] assms(2,5,6) e(5) by auto
  have pad: "\<not> list_ex (\<lambda>i. p ! i \<noteq> 0) [length (section_bytes ?ss)..<length p]"
    unfolding e(5) by (auto simp: list_ex_iff nth_append zeroes_bytes_def)
  have lp: "length p = length (section_bytes ?ss) + k" using e(5) by (simp add: zeroes_bytes_def)
  have "is_ok r \<or> di_symbols d' = di_symbols d0" using apply_ok [OF assms(4,10)] by (cases r) auto
  moreover have "wadb_dictionary_apply allocs d0 f =
      (case r1 of Inl e \<Rightarrow> (wadb_dictionary_rollback d1 (length (di_symbols d0)), Inl e) | Inr u \<Rightarrow> (d1, Inr ()))"
    using loop pad lp e(2-4) l assms(7-9) by (auto simp: wadb_dictionary_apply_def Let_def)
  ultimately show ?thesis using loop assms(6,10) by auto
qed

theorem dictionary_export_apply_witness:
  "\<exists>d1 p n d' r. wadb_dictionary_intern (\<lambda>_. True) example_dictionary 1 (CMem [47]) = (d1, Inr 1) \<and>
     wadb_dictionary_export True d1 0 = Inr (p, n) \<and>
     wadb_dictionary_apply (\<lambda>_ _. True) example_dictionary
       (example_frame\<lparr>fr_dictionary_count := n, fr_dictionary_bytes := length p, fr_dictionary := Some p\<rparr>) = (d', r) \<and>
     (r = Inr () \<and> di_symbols d' = di_symbols d1 \<or> di_symbols d' = [])"
proof -
  obtain d1 where d1: "wadb_dictionary_intern (\<lambda>_. True) example_dictionary 1 (CMem [47]) = (d1, Inr 1)"
    using example_intern by blast
  note i = intern_ok [OF example_dictionary_ok d1]
  have sc: "di_schema d1 = example_schema" using i by (simp add: example_dictionary_def)
  have "map symbol_key (di_symbols d1) = [(1, [47])]" using i by (simp add: example_dictionary_def)
  then obtain s where s: "di_symbols d1 = [s]" "length (sy_data s) = 1" by (auto simp: symbol_key_def)
  have "align8_size 13 = 16" by (simp add: align8_size_eq)
  then have "is_ok (wadb_dictionary_export True d1 0)"
    by (simp add: wadb_dictionary_export_def wadb_dictionary_export_limit_def s wadb_add_size_eq WADB_MAX_FRAME_BYTES_def)
  then obtain p n where e: "wadb_dictionary_export True d1 0 = Inr (p, n)"
    by (cases "wadb_dictionary_export True d1 0") auto
  let ?f = "example_frame\<lparr>fr_dictionary_count := n, fr_dictionary_bytes := length p, fr_dictionary := Some p\<rparr>"
  obtain d' r where a: "wadb_dictionary_apply (\<lambda>_ _. True) example_dictionary ?f = (d', r)" by fastforce
  have "dictionary_ok d1" "schema_ok (di_schema d1)" using i sc example_schema_ok by auto
  from dictionary_export_apply [OF this e example_dictionary_ok _ _ _ _ _ a] sc
  show ?thesis using d1 e a by (auto simp: example_dictionary_def)
qed

text \<open>
  C30: probing always ends. In every reachable slot table the search loop and the loop that looks
  for a free slot stop, whatever the hash, at a slot of the table.
\<close>

theorem dictionary_probe_terminates:
  assumes "dictionary_ok d" and "di_slots d \<noteq> []"
  shows "\<exists>s t. s < length (di_slots d) \<and> t < length (di_slots d) \<and> di_slots d ! t = 0 \<and>
    while_option (\<lambda>s. di_slots d ! s \<noteq> 0 \<and> \<not> symbol_matches d field hash data (di_slots d ! s - 1))
      (next_slot (length (di_slots d))) (hash_slot (length (di_slots d)) hash) = Some s \<and>
    while_option (\<lambda>s. di_slots d ! s \<noteq> 0) (next_slot (length (di_slots d)))
      (hash_slot (length (di_slots d)) hash) = Some t"
proof -
  let ?s = "di_slots d" and ?h = "hash_slot (length (di_slots d)) hash"
  have t: "table_ok ?s (map sy_hash (di_symbols d))" "2 * length (di_symbols d) \<le> length ?s" "32 \<le> length ?s"
    using assms by (auto simp: dictionary_ok_def slots_ok_def)
  obtain k where k: "length ?s = 2 ^ k" using table_ok_power [OF t(1)] by blast
  have hb: "?h < length ?s" using hash_slot_less [OF k] .
  have "occupied ?s < length ?s" using t by (auto simp: table_ok_def)
  then obtain z where z: "z < length ?s" "?s ! z = 0" using table_free by blast
  obtain e where e: "(?h + e) mod length ?s = z" using reach_slot [OF z(1) hb] by blast
  have zero: "?s ! ((?h + e) mod length ?s) = 0" using z(2) e by simp
  have pos: "0 < length ?s" using t(3) by linarith
  obtain x where x: "while_option (\<lambda>s. \<not> ?s ! s = 0) (next_slot (length ?s)) ?h = Some ((?h + x) mod length ?s)"
    "?s ! ((?h + x) mod length ?s) = 0" using probe_least [OF k hb, of "\<lambda>s. ?s ! s = 0" e] zero by blast
  obtain y where y: "while_option (\<lambda>s. \<not> (?s ! s = 0 \<or> symbol_matches d field hash data (?s ! s - 1))) (next_slot (length ?s)) ?h
      = Some ((?h + y) mod length ?s)"
    using probe_least [OF k hb, of "\<lambda>s. ?s ! s = 0 \<or> symbol_matches d field hash data (?s ! s - 1)" e] zero by blast
  show ?thesis
    using x y pos by (intro exI [of _ "(?h + y) mod length ?s"] exI [of _ "(?h + x) mod length ?s"]) (simp del: One_nat_def)
qed

theorem dictionary_probe_terminates_witness:
  "\<exists>d t. dictionary_ok d \<and> di_slots d \<noteq> [] \<and>
     while_option (\<lambda>s. di_slots d ! s \<noteq> 0) (next_slot (length (di_slots d))) (hash_slot (length (di_slots d)) 0) = Some t"
proof -
  obtain d where d: "wadb_dictionary_intern (\<lambda>_. True) example_dictionary 1 (CMem [47]) = (d, Inr 1)"
    using example_intern by blast
  note i = intern_ok [OF example_dictionary_ok d]
  then have ok: "dictionary_ok d" by simp
  have "map symbol_key (di_symbols d) = [(1, [47])]" using i by (simp add: example_dictionary_def)
  then have "di_slots d \<noteq> []" using ok by (auto simp: dictionary_ok_def slots_ok_def)
  with dictionary_probe_terminates [OF ok this, of 1 0 "[]"] ok show ?thesis by blast
qed

end
