(* ===== verification/Wadb_Plan.thy ===== *)
theory Wadb_Plan
  imports Wadb_Dictionary
begin

unbundle bit_operations_syntax

text \<open>
  The model of \<^verbatim>\<open>src/query/plan.c\<close>: comparison of values, time buckets and the compilation of
  query options into a plan, with the types of \<^verbatim>\<open>include/wadb.h\<close> and \<^verbatim>\<open>src/query/query.h\<close> it uses.

  Arrays given by pointer and count are \<open>carr\<close>, and \<^verbatim>\<open>const char *\<close> members that may be null are
  optional byte strings. The sizes of structures are those of the LP64 data model. The plan keeps
  the lists that the code stores in fixed arrays, so their counts are list lengths; of the arrays
  in its options only the counts are used after compilation, which clears the pointers.
\<close>

section \<open>Definitions\<close>

subsection \<open>Comparison of values\<close>

definition wadb_type_bytes :: "wadb_type \<Rightarrow> bool" where
  "wadb_type_bytes t \<longleftrightarrow> t = WADB_UUID \<or> t = WADB_BYTES \<or> t = WADB_TEXT \<or> t = WADB_SYMBOL32"

definition wadb_type_signed :: "wadb_type \<Rightarrow> bool" where
  "wadb_type_signed t \<longleftrightarrow> t = WADB_I8 \<or> t = WADB_I16 \<or> t = WADB_I32 \<or> t = WADB_I64 \<or> t = WADB_TIMESTAMP_US"

definition wadb_type_float :: "wadb_type \<Rightarrow> bool" where
  "wadb_type_float t \<longleftrightarrow> t = WADB_F32 \<or> t = WADB_F64"

text \<open>\<open>(a > b) - (a < b)\<close>\<close>

definition three_way :: "bool \<Rightarrow> bool \<Rightarrow> int" where
  "three_way gt lt = (if gt then 1 else 0) - (if lt then 1 else 0)"

fun memcmp :: "bytes \<Rightarrow> bytes \<Rightarrow> int" where
  "memcmp (a # as) (b # bs) = (if a = b then memcmp as bs else if a > b then 1 else -1)"
| "memcmp _ _ = 0"

text \<open>
  Comparison of doubles by bit pattern: a pattern that is not a NaN is ordered by sign and
  magnitude, and the two zeroes are equal; a NaN is neither less nor greater than anything.
\<close>

definition f64_is_nan :: "u64 \<Rightarrow> bool" where
  "f64_is_nan w \<longleftrightarrow> take_bit 63 w > 0x7FF0000000000000"

definition f64_key :: "u64 \<Rightarrow> int" where
  "f64_key w = (if bit w 63 then - int (unat (take_bit 63 w)) else int (unat (take_bit 63 w)))"

definition f64_less :: "u64 \<Rightarrow> u64 \<Rightarrow> bool" where
  "f64_less a b \<longleftrightarrow> \<not> f64_is_nan a \<and> \<not> f64_is_nan b \<and> f64_key a < f64_key b"

definition wadb_value_compare :: "wadb_type \<Rightarrow> wadb_value \<Rightarrow> wadb_value \<Rightarrow> int" where
  "wadb_value_compare t a b =
     (if is_null a \<or> is_null b then (if is_null a then 1 else 0) - (if is_null b then 1 else 0)
      else if wadb_type_bytes t then
        (let la = carr_length (as_bytes a); lb = carr_length (as_bytes b); n = (if la < lb then la else lb);
             cmp = (if n \<noteq> 0 then memcmp (take n (carr_items (as_bytes a))) (take n (carr_items (as_bytes b))) else 0)
         in if cmp \<noteq> 0 then (if cmp > 0 then 1 else -1) else three_way (la > lb) (la < lb))
      else if wadb_type_signed t then three_way (as_i64 a > as_i64 b) (as_i64 a < as_i64 b)
      else if wadb_type_float t then three_way (f64_less (as_word b) (as_word a)) (f64_less (as_word a) (as_word b))
      else three_way (as_word a > as_word b) (as_word a < as_word b))"

subsection \<open>Time buckets\<close>

text \<open>The C remainder, which has the sign of the dividend.\<close>

definition c_mod :: "int \<Rightarrow> int \<Rightarrow> int" where
  "c_mod a b = (if a < 0 then - ((- a) mod b) else a mod b)"

definition wadb_bucket_floor :: "int \<Rightarrow> int \<Rightarrow> int \<Rightarrow> int res" where
  "wadb_bucket_floor time width origin =
     (let a0 = c_mod time width; b0 = c_mod origin width;
          a = (if a0 < 0 then a0 + width else a0);
          b = (if b0 < 0 then b0 + width else b0);
          distance = (if a \<ge> b then a - b else width - (b - a))
      in if time < INT64_MIN + distance then Inl WADB_LIMIT else Inr (time - distance))"

subsection \<open>Options and plans\<close>

record wadb_scan_options =
  so_start_time :: int
  so_end_time :: int
  so_after_sequence :: nat
  so_max_scan_bytes :: nat
  so_limit :: nat
  so_timeout_ms :: nat

definition wadb_scan_options_default :: wadb_scan_options where
  "wadb_scan_options_default =
     \<lparr>so_start_time = 0, so_end_time = INT64_MAX, so_after_sequence = 0, so_max_scan_bytes = 64 * 1024 * 1024,
      so_limit = 10000, so_timeout_ms = 30000\<rparr>"

definition WADB_MAX_FILTERS :: nat where "WADB_MAX_FILTERS = 32"
definition WADB_MAX_GROUP_FIELDS :: nat where "WADB_MAX_GROUP_FIELDS = 8"
definition WADB_MAX_AGGREGATES :: nat where "WADB_MAX_AGGREGATES = 16"

text \<open>Enumerations; the last constructor stands for a number that names no enumerator.\<close>

datatype wadb_filter_op =
    WADB_EQ | WADB_NE | WADB_LT | WADB_LE | WADB_GT | WADB_GE | WADB_IS_NULL | WADB_IS_NOT_NULL | WADB_FILTER_OTHER

datatype wadb_aggregate_op =
    WADB_COUNT_ALL | WADB_COUNT | WADB_SUM | WADB_MIN | WADB_MAX | WADB_AVG | WADB_AGGREGATE_OTHER

record wadb_filter =
  fl_field :: "bytes option"
  fl_op :: wadb_filter_op
  fl_value :: wadb_value

record wadb_aggregate =
  ag_op :: wadb_aggregate_op
  ag_field :: "bytes option"
  ag_name :: "bytes option"

record wadb_query_options =
  qo_scan :: wadb_scan_options
  qo_projection :: "bytes option carr"
  qo_filters :: "wadb_filter carr"
  qo_group_by :: "bytes option carr"
  qo_aggregates :: "wadb_aggregate carr"
  qo_bucket_width_us :: int
  qo_bucket_origin_us :: int
  qo_max_groups :: nat
  qo_max_buckets :: nat
  qo_memory_limit_bytes :: nat
  qo_order_by :: "bytes option"
  qo_descending :: bool

definition wadb_query_options_default :: wadb_query_options where
  "wadb_query_options_default =
     \<lparr>qo_scan = wadb_scan_options_default, qo_projection = CNull 0, qo_filters = CNull 0, qo_group_by = CNull 0,
      qo_aggregates = CNull 0, qo_bucket_width_us = 0, qo_bucket_origin_us = 0, qo_max_groups = 10000,
      qo_max_buckets = 10000, qo_memory_limit_bytes = 64 * 1024 * 1024, qo_order_by = None, qo_descending = False\<rparr>"

record wadb_predicate =
  pr_field :: nat
  pr_op :: wadb_filter_op
  pr_value :: wadb_value

record wadb_reduction =
  rd_field :: nat
  rd_op :: wadb_aggregate_op

record wadb_result_column =
  rc_name :: bytes
  rc_type :: wadb_type

record wadb_query_plan =
  pl_schema :: wadb_schema
  pl_options :: wadb_query_options
  pl_projection :: "nat list"
  pl_groups :: "nat list"
  pl_filters :: "wadb_predicate list"
  pl_aggregates :: "wadb_reduction list"
  pl_columns :: "wadb_result_column list"
  pl_key_count :: nat
  pl_allocated_bytes :: nat
  pl_order :: int
  pl_first_bucket :: int
  pl_bucket_count :: nat

definition SIZEOF_QUERY_PLAN :: nat where "SIZEOF_QUERY_PLAN = 19824"

subsection \<open>Compilation\<close>

definition placeholder :: "unit symbol_encode" where
  "placeholder ctx field p = (ctx, Inr 1)"

definition add_column :: "wadb_result_column list \<Rightarrow> bytes option \<Rightarrow> wadb_type \<Rightarrow> wadb_result_column list res" where
  "add_column columns name type =
     (if \<not> wadb_identifier name \<or> length columns \<ge> WADB_MAX_FIELDS then Inl WADB_INVALID
      else if list_ex (\<lambda>c. strcmp_eq (rc_name c) (the name)) columns then Inl WADB_INVALID
      else Inr (columns @ [\<lparr>rc_name = cstr (the name), rc_type = type\<rparr>]))"

definition shape_invalid :: "wadb_query_options \<Rightarrow> bool" where
  "shape_invalid o1 \<longleftrightarrow>
     (let filters = carr_length (qo_filters o1); groups = carr_length (qo_group_by o1);
          aggregates = carr_length (qo_aggregates o1); projection = carr_length (qo_projection o1); scan = qo_scan o1 in
      filters > WADB_MAX_FILTERS \<or> groups > WADB_MAX_GROUP_FIELDS \<or> aggregates > WADB_MAX_AGGREGATES \<or>
      projection > WADB_MAX_FIELDS \<or>
      (filters \<noteq> 0 \<and> carr_null (qo_filters o1)) \<or> (groups \<noteq> 0 \<and> carr_null (qo_group_by o1)) \<or>
      (aggregates \<noteq> 0 \<and> carr_null (qo_aggregates o1)) \<or> (projection \<noteq> 0 \<and> carr_null (qo_projection o1)) \<or>
      so_end_time scan < so_start_time scan \<or> so_limit scan = 0 \<or> so_limit scan > 1000000 \<or>
      so_max_scan_bytes scan = 0 \<or> so_timeout_ms scan = 0 \<or> so_timeout_ms scan > 3600000 \<or>
      qo_bucket_width_us o1 < 0 \<or> qo_max_groups o1 = 0 \<or> qo_max_groups o1 > 1000000 \<or>
      qo_max_buckets o1 = 0 \<or> qo_max_buckets o1 > 1000000 \<or>
      qo_memory_limit_bytes o1 < SIZEOF_QUERY_PLAN \<or> qo_memory_limit_bytes o1 > 1024 * 1024 * 1024 \<or>
      (aggregates \<noteq> 0 \<and> projection \<noteq> 0) \<or>
      (aggregates = 0 \<and> (groups \<noteq> 0 \<or> qo_bucket_width_us o1 \<noteq> 0 \<or> qo_order_by o1 \<noteq> None)))"

definition compile_filter :: "wadb_schema \<Rightarrow> nat \<Rightarrow> bool \<Rightarrow> nat \<Rightarrow> wadb_filter \<Rightarrow> (wadb_predicate \<times> nat) res" where
  "compile_filter s limit alloc allocated f =
     (let found = wadb_schema_find (Some s) (fl_field f); field = nat found; v = fl_value f;
          nullary = (fl_op f = WADB_IS_NULL \<or> fl_op f = WADB_IS_NOT_NULL) in
      if found < 0 \<or> fl_op f = WADB_FILTER_OTHER \<or> (\<not> nullary \<and> is_null v) then Inl WADB_INVALID
      else if nullary then Inr (\<lparr>pr_field = field, pr_op = fl_op f, pr_value = word_value 0\<rparr>, allocated)
      else
        (let type = f_type (schema_fields s ! field) in
         case snd (wadb_encode_field (schema_fields s ! field) v field (Some placeholder) ()) of
           Inl e \<Rightarrow> Inl e
         | Inr scratch \<Rightarrow>
             (let v = (if type = WADB_F32 then v\<lparr>as_word := f32_to_f64 (f64_to_f32 (as_word v))\<rparr> else v);
                  n = carr_length (as_bytes v) in
              if wadb_type_bytes type then
                (if n + 1 > sub64 limit allocated then Inl WADB_LIMIT
                 else if \<not> alloc then Inl WADB_NOMEM
                 else Inr (\<lparr>pr_field = field, pr_op = fl_op f,
                            pr_value = v\<lparr>as_bytes := CMem (take n (carr_items (as_bytes v)))\<rparr>\<rparr>, allocated + (n + 1)))
              else Inr (\<lparr>pr_field = field, pr_op = fl_op f, pr_value = v\<rparr>, allocated))))"

fun compile_filters ::
  "wadb_schema \<Rightarrow> nat \<Rightarrow> (nat \<Rightarrow> bool) \<Rightarrow> nat \<Rightarrow> nat \<Rightarrow> wadb_filter list \<Rightarrow> (wadb_predicate list \<times> nat) res" where
  "compile_filters s limit alloc i allocated [] = Inr ([], allocated)"
| "compile_filters s limit alloc i allocated (f # fs) =
     bind_res (compile_filter s limit (alloc i) allocated f) (\<lambda>(p, allocated').
       bind_res (compile_filters s limit alloc (i + 1) allocated' fs) (\<lambda>(ps, total_bytes).
         Inr (p # ps, total_bytes)))"

text \<open>A loop that resolves names and adds their columns: projection and grouping fields.\<close>

fun compile_fields ::
  "wadb_schema \<Rightarrow> int list \<Rightarrow> wadb_result_column list \<Rightarrow> (nat list \<times> wadb_result_column list) res" where
  "compile_fields s [] columns = Inr ([], columns)"
| "compile_fields s (field # fs) columns =
     (if field < 0 then Inl WADB_INVALID
      else
        (let f = schema_fields s ! nat field in
         bind_res (add_column columns (Some (f_name f)) (f_type f)) (\<lambda>columns'.
           bind_res (compile_fields s fs columns') (\<lambda>(rest, columns'').
             Inr (nat field # rest, columns'')))))"

text \<open>The buckets that cover the scanned interval: the first one and their number.\<close>

definition compile_buckets :: "wadb_query_options \<Rightarrow> (int \<times> nat) res" where
  "compile_buckets o1 =
     (let scan = qo_scan o1; width = qo_bucket_width_us o1; origin = qo_bucket_origin_us o1 in
      if so_start_time scan = so_end_time scan then Inr (0, 0)
      else
        bind_res (wadb_bucket_floor (so_start_time scan) width origin) (\<lambda>first.
          bind_res (wadb_bucket_floor (so_end_time scan - 1) width origin) (\<lambda>last.
            let intervals = nat ((last - first) mod 18446744073709551616) div nat width in
            if intervals \<ge> qo_max_buckets o1 then Inl WADB_LIMIT else Inr (first, intervals + 1))))"

definition aggregate_type :: "wadb_aggregate_op \<Rightarrow> wadb_type \<Rightarrow> wadb_type" where
  "aggregate_type op type =
     (if op = WADB_COUNT_ALL \<or> op = WADB_COUNT then WADB_U64
      else if op = WADB_AVG \<or> (op = WADB_SUM \<and> wadb_type_float type) then WADB_F64
      else if op = WADB_SUM then (if wadb_type_signed type then WADB_I64 else WADB_U64)
      else type)"

fun compile_aggregates ::
  "wadb_schema \<Rightarrow> wadb_aggregate list \<Rightarrow> wadb_result_column list \<Rightarrow> (wadb_reduction list \<times> wadb_result_column list) res"
  where
  "compile_aggregates s [] columns = Inr ([], columns)"
| "compile_aggregates s (a # as) columns =
     (let field = (if ag_op a = WADB_COUNT_ALL then 0 else wadb_schema_find (Some s) (ag_field a)) in
      if ag_op a = WADB_AGGREGATE_OTHER \<or> field < 0 \<or> (ag_op a = WADB_COUNT_ALL \<and> ag_field a \<noteq> None)
      then Inl WADB_INVALID
      else
        (let type = f_type (schema_fields s ! nat field) in
         if ag_op a \<noteq> WADB_COUNT_ALL \<and> ag_op a \<noteq> WADB_COUNT \<and> wadb_type_bytes type then Inl WADB_INVALID
         else
           bind_res (add_column columns (ag_name a) (aggregate_type (ag_op a) type)) (\<lambda>columns'.
             bind_res (compile_aggregates s as columns') (\<lambda>(rest, columns'').
               Inr (\<lparr>rd_field = nat field, rd_op = ag_op a\<rparr> # rest, columns'')))))"

text \<open>The last column whose name is the requested one, or \<open>-1\<close>.\<close>

definition find_order :: "wadb_result_column list \<Rightarrow> bytes \<Rightarrow> int" where
  "find_order columns name =
     fold (\<lambda>i order. if strcmp_eq name (rc_name (columns ! i)) then int i else order) [0..<length columns] (-1)"

definition compile_order :: "wadb_query_options \<Rightarrow> wadb_result_column list \<Rightarrow> int res" where
  "compile_order o1 columns =
     (case qo_order_by o1 of
        None \<Rightarrow> Inr (-1)
      | Some name \<Rightarrow>
          let order = find_order columns name in if order < 0 then Inl WADB_INVALID else Inr order)"

definition compile_scan :: "wadb_query_plan \<Rightarrow> wadb_query_plan res" where
  "compile_scan p =
     (let s = pl_schema p; o1 = pl_options p; count = carr_length (qo_projection o1);
          wanted = (if count \<noteq> 0 then map (wadb_schema_find (Some s)) (carr_items (qo_projection o1))
                    else map int [0..<field_count s]) in
      bind_res (compile_fields s wanted []) (\<lambda>(projection, columns).
        Inr (p\<lparr>pl_projection := projection, pl_columns := columns\<rparr>)))"

definition compile_groups :: "wadb_query_plan \<Rightarrow> wadb_query_plan res" where
  "compile_groups p =
     (let s = pl_schema p; o1 = pl_options p in
      bind_res
        (if qo_bucket_width_us o1 \<noteq> 0
         then bind_res (add_column [] (Some (ascii ''_bucket'')) WADB_TIMESTAMP_US) (\<lambda>columns.
                bind_res (compile_buckets o1) (\<lambda>(first, count). Inr (columns, first, count)))
         else Inr ([], 0, 0)) (\<lambda>(columns, first, count).
        bind_res (compile_fields s (map (wadb_schema_find (Some s)) (carr_items (qo_group_by o1))) columns) (\<lambda>(groups, keys).
          bind_res (compile_aggregates s (carr_items (qo_aggregates o1)) keys) (\<lambda>(aggregates, columns).
            bind_res (compile_order o1 columns) (\<lambda>order.
              Inr (p\<lparr>pl_groups := groups, pl_aggregates := aggregates, pl_columns := columns,
                     pl_key_count := length keys, pl_order := order, pl_first_bucket := first,
                     pl_bucket_count := count\<rparr>))))))"

text \<open>\<open>alloc 0\<close> is the allocation of the plan and \<open>alloc (i + 1)\<close> that of the string of filter \<open>i\<close>.\<close>

definition wadb_query_compile ::
  "(nat \<Rightarrow> bool) \<Rightarrow> wadb_schema option \<Rightarrow> wadb_query_options option \<Rightarrow> wadb_query_plan res" where
  "wadb_query_compile alloc table options =
     (let o1 = (case options of None \<Rightarrow> wadb_query_options_default | Some x \<Rightarrow> x) in
      case table of
        None \<Rightarrow> Inl WADB_INVALID
      | Some s \<Rightarrow>
          if shape_invalid o1 then Inl WADB_INVALID
          else if \<not> alloc 0 then Inl WADB_NOMEM
          else
            bind_res (compile_filters s (qo_memory_limit_bytes o1) alloc 1 SIZEOF_QUERY_PLAN (carr_items (qo_filters o1)))
              (\<lambda>(filters, allocated).
                let p = \<lparr>pl_schema = s, pl_options = o1, pl_projection = [], pl_groups = [], pl_filters = filters,
                         pl_aggregates = [], pl_columns = [], pl_key_count = 0, pl_allocated_bytes = allocated,
                         pl_order = -1, pl_first_bucket = 0, pl_bucket_count = 0\<rparr>
                in if carr_length (qo_aggregates o1) = 0 then compile_scan p else compile_groups p))"

section \<open>The order of values\<close>

lemma memcmp_self [simp]: "memcmp a a = 0"
  by (induction a) simp_all

lemma memcmp_take: "n = min (length a) (length b) \<Longrightarrow> memcmp (take n a) (take n b) = memcmp a b"
  by (induction a b arbitrary: n rule: memcmp.induct) auto

text \<open>The result the code computes for two byte strings.\<close>

definition bytes_compare :: "bytes \<Rightarrow> bytes \<Rightarrow> int" where
  "bytes_compare a b = (if a = b then 0 else if ord_class.lexordp a b then -1 else 1)"

lemma memcmp_lexordp:
  "(if memcmp a b \<noteq> 0 then (if memcmp a b > 0 then 1 else -1) else three_way (length a > length b) (length a < length b))
     = bytes_compare a b"
proof (induction a b rule: memcmp.induct)
  case (1 a as b bs)
  then show ?case by (auto simp: bytes_compare_def split: if_splits)
qed (simp_all add: bytes_compare_def three_way_def)

lemma bytes_compare_order:
  "bytes_compare a b = - bytes_compare b a"
  "bytes_compare a b \<le> 0 \<Longrightarrow> bytes_compare b c \<le> 0 \<Longrightarrow> bytes_compare a c \<le> 0"
  "bytes_compare a b = 0 \<longleftrightarrow> a = b"
proof -
  show "bytes_compare a b = - bytes_compare b a"
    using lexordp_linear [of a b] lexordp_trans [of a b a] lexordp_irreflexive' [of a] by (auto simp: bytes_compare_def)
  show "bytes_compare a b \<le> 0 \<Longrightarrow> bytes_compare b c \<le> 0 \<Longrightarrow> bytes_compare a c \<le> 0"
    using lexordp_trans [of a b c] by (auto simp: bytes_compare_def split: if_splits)
  show "bytes_compare a b = 0 \<longleftrightarrow> a = b" by (simp add: bytes_compare_def)
qed

text \<open>Values that a row of a valid schema can hold: byte strings are buffers and doubles are numbers.\<close>

definition comparable :: "wadb_type \<Rightarrow> wadb_value \<Rightarrow> bool" where
  "comparable t v \<longleftrightarrow> is_null v \<or>
     (wadb_type_bytes t \<longrightarrow> carr_length (as_bytes v) = length (carr_items (as_bytes v))) \<and>
     (wadb_type_float t \<longrightarrow> \<not> f64_is_nan (as_word v))"

definition null_last :: "wadb_value \<Rightarrow> int" where
  "null_last v = (if is_null v then 1 else 0)"

definition sign_of :: "int \<Rightarrow> int \<Rightarrow> int" where
  "sign_of x y = (if x < y then -1 else if x = y then 0 else 1)"

text \<open>Non-byte types compare by an integer.\<close>

definition number_of :: "wadb_type \<Rightarrow> wadb_value \<Rightarrow> int" where
  "number_of t v =
     (if wadb_type_signed t then as_i64 v else if wadb_type_float t then f64_key (as_word v) else uint (as_word v))"

lemma value_compare_eq:
  assumes "comparable t a" "comparable t b"
  shows "wadb_value_compare t a b =
    (if is_null a \<or> is_null b then sign_of (null_last a) (null_last b)
     else if wadb_type_bytes t then bytes_compare (carr_items (as_bytes a)) (carr_items (as_bytes b))
     else sign_of (number_of t a) (number_of t b))"
proof -
  let ?a = "carr_items (as_bytes a)" and ?b = "carr_items (as_bytes b)"
  consider "is_null a \<or> is_null b" | "\<not> is_null a" "\<not> is_null b" "wadb_type_bytes t"
    | "\<not> is_null a" "\<not> is_null b" "\<not> wadb_type_bytes t" by blast
  then show ?thesis
  proof cases
    case 2
    then have len: "carr_length (as_bytes a) = length ?a" "carr_length (as_bytes b) = length ?b"
      using assms by (auto simp: comparable_def)
    define n where "n = (if length ?a < length ?b then length ?a else length ?b)"
    have n: "n = min (length ?a) (length ?b)" by (auto simp: n_def)
    have "(if n \<noteq> 0 then memcmp (take n ?a) (take n ?b) else 0) = memcmp ?a ?b"
    proof (cases "n = 0")
      case True
      then have "?a = [] \<or> ?b = []" using n by (auto simp: min_def split: if_splits)
      then show ?thesis using True by (auto elim: memcmp.elims)
    qed (simp add: memcmp_take [OF n])
    then show ?thesis using 2 memcmp_lexordp [of ?a ?b]
      unfolding wadb_value_compare_def len n_def [symmetric] Let_def by (simp split: if_splits)
  next
    case 3
    show ?thesis using 3 assms
      by (auto simp: wadb_value_compare_def number_of_def three_way_def sign_of_def comparable_def f64_less_def word_less_def)
  qed (auto simp: wadb_value_compare_def null_last_def sign_of_def)
qed

lemma value_compare_laws:
  assumes "comparable t a" "comparable t b" "comparable t c"
  shows "wadb_value_compare t a b = - wadb_value_compare t b a"
    "wadb_value_compare t a b \<le> 0 \<Longrightarrow> wadb_value_compare t b c \<le> 0 \<Longrightarrow> wadb_value_compare t a c \<le> 0"
proof -
  have s: "sign_of x y = - sign_of y x" "sign_of x y \<le> 0 \<longleftrightarrow> x \<le> y" for x y by (auto simp: sign_of_def)
  let ?a = "carr_items (as_bytes a)" and ?b = "carr_items (as_bytes b)" and ?c = "carr_items (as_bytes c)"
  note e = value_compare_eq [OF assms(1,2)] value_compare_eq [OF assms(2,1)] value_compare_eq [OF assms(2,3)]
    value_compare_eq [OF assms(1,3)]
  show "wadb_value_compare t a b = - wadb_value_compare t b a"
    using e(1,2) s(1) [of "null_last a"] s(1) [of "number_of t a"] bytes_compare_order(1) [of ?a ?b]
    by (cases "is_null a"; cases "is_null b"; cases "wadb_type_bytes t") simp_all
  show "wadb_value_compare t a b \<le> 0 \<Longrightarrow> wadb_value_compare t b c \<le> 0 \<Longrightarrow> wadb_value_compare t a c \<le> 0"
    unfolding e using bytes_compare_order(2) [of ?a ?b ?c] by (auto simp: s(2) null_last_def split: if_splits)
qed

section \<open>Buckets\<close>

lemma c_mod_mod:
  assumes "0 < (w :: int)"
  shows "(if c_mod t w < 0 then c_mod t w + w else c_mod t w) = t mod w"
proof (cases "t < 0")
  case True
  show ?thesis
  proof (cases "(- t) mod w = 0")
    case True
    then have "t mod w = 0" by (simp add: mod_eq_0_iff_dvd)
    then show ?thesis using True \<open>t < 0\<close> by (simp add: c_mod_def)
  next
    case False
    have b: "0 \<le> (- t) mod w" "(- t) mod w < w" using assms by simp_all
    have "t mod w = w - (- t) mod w"
      using False assms zmod_zminus1_eq_if [of "- t" w] by simp
    then show ?thesis using \<open>t < 0\<close> False b by (simp add: c_mod_def)
  qed
next
  case False
  then show ?thesis using pos_mod_sign [OF assms, of t] by (simp add: c_mod_def)
qed

lemma bucket_distance:
  assumes "0 < (w :: int)"
  shows "(if t mod w \<ge> o1 mod w then t mod w - o1 mod w else w - (o1 mod w - t mod w)) = (t - o1) mod w"
proof -
  have b: "0 \<le> t mod w" "t mod w < w" "0 \<le> o1 mod w" "o1 mod w < w" using assms by simp_all
  have e: "(t - o1) mod w = (t mod w - o1 mod w) mod w" by (simp add: mod_diff_eq)
  show ?thesis
  proof (cases "t mod w \<ge> o1 mod w")
    case True
    then show ?thesis using e b by (simp add: mod_pos_pos_trivial)
  next
    case False
    have "(t mod w - o1 mod w) mod w = (t mod w - o1 mod w + w) mod w" by simp
    also have "\<dots> = t mod w - o1 mod w + w" by (rule mod_pos_pos_trivial) (use False b in linarith)+
    finally show ?thesis using e False by simp
  qed
qed

lemma bucket_floor_eq:
  assumes "0 < width"
  shows "wadb_bucket_floor time width origin =
    (let b = time - (time - origin) mod width in if b < INT64_MIN then Inl WADB_LIMIT else Inr b)"
  unfolding wadb_bucket_floor_def Let_def c_mod_mod [OF assms] bucket_distance [OF assms] by auto

section \<open>Compiled plans\<close>

definition column_names :: "wadb_result_column list \<Rightarrow> bytes list" where
  "column_names cs = map rc_name cs"

definition columns_valid :: "wadb_result_column list \<Rightarrow> bool" where
  "columns_valid cs \<longleftrightarrow> distinct (column_names cs) \<and> length cs \<le> WADB_MAX_FIELDS \<and>
     list_all (\<lambda>n. cstr n = n \<and> wadb_identifier (Some n)) (column_names cs)"

lemma identifier_cstr: "wadb_identifier (Some (cstr s)) = wadb_identifier (Some s)"
  by (simp add: wadb_identifier_iff)

lemma add_column_ok:
  assumes "columns_valid cs" "add_column cs name type = Inr cs'"
  shows "columns_valid cs' \<and> (\<exists>n. name = Some n \<and> cs' = cs @ [\<lparr>rc_name = cstr n, rc_type = type\<rparr>])"
proof -
  obtain n where n: "name = Some n" "wadb_identifier (Some n)" "length cs < WADB_MAX_FIELDS"
    "\<not> list_ex (\<lambda>c. strcmp_eq (rc_name c) n) cs" "cs' = cs @ [\<lparr>rc_name = cstr n, rc_type = type\<rparr>]"
    using assms(2) by (cases name) (auto simp: add_column_def wadb_identifier_def split: if_splits)
  have "cstr n \<notin> set (column_names cs)"
    using n(4) assms(1) by (auto simp: list_ex_iff column_names_def columns_valid_def strcmp_eq_def list_all_iff)
  then show ?thesis using n assms(1) by (simp add: columns_valid_def column_names_def identifier_cstr)
qed

lemma compile_fields_ok:
  assumes "columns_valid cs" "compile_fields s wanted cs = Inr (gs, cs')"
    "\<forall>f \<in> set wanted. f < int (field_count s)"
  shows "columns_valid cs' \<and> length gs = length wanted \<and> length cs' = length cs + length gs \<and>
    list_all (\<lambda>g. g < field_count s) gs \<and> take (length cs) cs' = cs \<and>
    map rc_type (drop (length cs) cs') = map (\<lambda>g. f_type (schema_fields s ! g)) gs"
  using assms
proof (induction wanted arbitrary: cs gs)
  case (Cons f fs)
  then obtain c1 rest where c1: "0 \<le> f" "add_column cs (Some (f_name (schema_fields s ! nat f))) (f_type (schema_fields s ! nat f)) = Inr c1"
    "compile_fields s fs c1 = Inr (rest, cs')" "gs = nat f # rest"
    by (auto simp: res_simps Let_def split: if_splits)
  note a = add_column_ok [OF Cons.prems(1) c1(2)]
  then have v: "columns_valid c1" "c1 = cs @ [\<lparr>rc_name = cstr (f_name (schema_fields s ! nat f)), rc_type = f_type (schema_fields s ! nat f)\<rparr>]"
    by auto
  have ih: "columns_valid cs' \<and> length rest = length fs \<and> length cs' = length c1 + length rest \<and>
    list_all (\<lambda>g. g < field_count s) rest \<and> take (length c1) cs' = c1 \<and>
    map rc_type (drop (length c1) cs') = map (\<lambda>g. f_type (schema_fields s ! g)) rest"
    using Cons.IH [OF v(1) c1(3)] Cons.prems(3) by simp
  have "cs' = c1 @ drop (length c1) cs'" using ih by (metis append_take_drop_id)
  then obtain t where t: "cs' = c1 @ t" by blast
  have "nat f < field_count s" using Cons.prems(3) c1(1) by (simp add: nat_less_iff)
  then show ?case using ih c1(4) v(2) t by simp
qed simp

lemma compile_aggregates_ok:
  assumes "columns_valid cs" "compile_aggregates s as cs = Inr (rs, cs')"
    "\<And>n. wadb_schema_find (Some s) n < int (field_count s)" "0 < field_count s"
  shows "columns_valid cs' \<and> length rs = length as \<and> length cs' = length cs + length rs \<and>
    list_all (\<lambda>r. rd_field r < field_count s \<and> rd_op r \<noteq> WADB_AGGREGATE_OTHER) rs \<and> take (length cs) cs' = cs \<and>
    map rc_type (drop (length cs) cs') = map (\<lambda>r. aggregate_type (rd_op r) (f_type (schema_fields s ! rd_field r))) rs"
  using assms(1,2)
proof (induction as arbitrary: cs rs)
  case (Cons a as)
  let ?f = "if ag_op a = WADB_COUNT_ALL then 0 else wadb_schema_find (Some s) (ag_field a)"
  let ?t = "aggregate_type (ag_op a) (f_type (schema_fields s ! nat ?f))"
  obtain c1 rest where c1: "0 \<le> ?f" "ag_op a \<noteq> WADB_AGGREGATE_OTHER" "add_column cs (ag_name a) ?t = Inr c1"
    "compile_aggregates s as c1 = Inr (rest, cs')" "rs = \<lparr>rd_field = nat ?f, rd_op = ag_op a\<rparr> # rest"
    using Cons.prems(2) by (auto simp: res_simps Let_def split: if_splits)
  obtain n where v: "columns_valid c1" "c1 = cs @ [\<lparr>rc_name = cstr n, rc_type = ?t\<rparr>]"
    using add_column_ok [OF Cons.prems(1) c1(3)] by auto
  note ih = Cons.IH [OF v(1) c1(4)]
  have "cs' = c1 @ drop (length c1) cs'" using ih by (metis append_take_drop_id)
  then obtain t where t: "cs' = c1 @ t" by blast
  have "nat ?f < field_count s" using assms(3) [of "ag_field a"] assms(4) c1(1) by (simp add: nat_less_iff split: if_splits)
  then show ?case using ih c1(2,5) v(2) t by simp
qed simp

lemma schema_find_bound: "wadb_schema_find (Some s) n < int (field_count s)" if "0 < field_count s"
  using that by (auto simp: wadb_schema_find_def find_Some_iff split: option.splits)

lemma compile_filters_ok:
  assumes "compile_filters s limit alloc i allocated fs = Inr (ps, m)" "allocated \<le> limit" "limit \<le> UINT64_MAX" "0 < field_count s"
  shows "length ps = length fs \<and> m \<le> limit \<and>
    list_all (\<lambda>p. pr_field p < field_count s \<and> pr_op p \<noteq> WADB_FILTER_OTHER) ps"
  using assms(1,2)
proof (induction fs arbitrary: i allocated ps)
  case (Cons f fs)
  then obtain p m1 rest where p: "compile_filter s limit (alloc i) allocated f = Inr (p, m1)"
    "compile_filters s limit alloc (i + 1) m1 fs = Inr (rest, m)" "ps = p # rest"
    by (auto simp: res_simps)
  have "0 \<le> wadb_schema_find (Some s) (fl_field f)" "pr_field p = nat (wadb_schema_find (Some s) (fl_field f))"
      "pr_op p \<noteq> WADB_FILTER_OTHER" "m1 \<le> limit"
    using p(1) Cons.prems(2) assms(3)
    by (auto simp: compile_filter_def Let_def sub64_exact split: if_splits sum.splits)
  then show ?case using Cons.IH [OF p(2)] p(3) schema_find_bound [OF assms(4), of "fl_field f"] by simp
qed simp

definition plan_ok :: "wadb_query_plan \<Rightarrow> bool" where
  "plan_ok p \<longleftrightarrow>
     (let s = pl_schema p; o1 = pl_options p; n = field_count s in
      columns_valid (pl_columns p) \<and> pl_columns p \<noteq> [] \<and>
      list_all (\<lambda>f. pr_field f < n \<and> pr_op f \<noteq> WADB_FILTER_OTHER) (pl_filters p) \<and>
      length (pl_filters p) \<le> WADB_MAX_FILTERS \<and>
      pl_allocated_bytes p \<le> qo_memory_limit_bytes o1 \<and>
      -1 \<le> pl_order p \<and> pl_order p < int (length (pl_columns p)) \<and>
      pl_bucket_count p \<le> qo_max_buckets o1 \<and>
      (if carr_length (qo_aggregates o1) = 0
       then list_all (\<lambda>i. i < n) (pl_projection p) \<and> pl_key_count p = 0 \<and> pl_order p = -1 \<and>
         map rc_type (pl_columns p) = map (\<lambda>i. f_type (schema_fields s ! i)) (pl_projection p)
       else list_all (\<lambda>i. i < n) (pl_groups p) \<and>
         list_all (\<lambda>r. rd_field r < n \<and> rd_op r \<noteq> WADB_AGGREGATE_OTHER) (pl_aggregates p) \<and>
         length (pl_groups p) \<le> WADB_MAX_GROUP_FIELDS \<and> 0 < length (pl_aggregates p) \<and>
         length (pl_aggregates p) \<le> WADB_MAX_AGGREGATES \<and>
         pl_key_count p = (if qo_bucket_width_us o1 = 0 then 0 else 1) + length (pl_groups p) \<and>
         map rc_type (pl_columns p) =
           (if qo_bucket_width_us o1 = 0 then [] else [WADB_TIMESTAMP_US]) @
           map (\<lambda>i. f_type (schema_fields s ! i)) (pl_groups p) @
           map (\<lambda>r. aggregate_type (rd_op r) (f_type (schema_fields s ! rd_field r))) (pl_aggregates p)))"

lemma columns_valid_Nil [simp]: "columns_valid []"
  by (simp add: columns_valid_def column_names_def)

lemma find_order_bounds: "-1 \<le> find_order cs n \<and> find_order cs n < int (length cs)"
proof -
  have "-1 \<le> fold (\<lambda>i order. if P i then int i else order) xs k \<and> fold (\<lambda>i order. if P i then int i else order) xs k < m"
    if "-1 \<le> k" "k < m" "\<forall>i \<in> set xs. int i < m" for P xs k m
    using that by (induction xs arbitrary: k) auto
  from this [of "-1" "int (length cs)" "[0..<length cs]"] show ?thesis by (simp add: find_order_def)
qed

lemma compile_buckets_bound: "compile_buckets o1 = Inr (f, n) \<Longrightarrow> n \<le> qo_max_buckets o1"
  by (auto simp: compile_buckets_def Let_def res_simps split: if_splits)

lemma shape_valid:
  assumes "\<not> shape_invalid o1"
  shows "carr_length (qo_filters o1) \<le> WADB_MAX_FILTERS" "carr_length (qo_group_by o1) \<le> WADB_MAX_GROUP_FIELDS"
    "carr_length (qo_aggregates o1) \<le> WADB_MAX_AGGREGATES" "SIZEOF_QUERY_PLAN \<le> qo_memory_limit_bytes o1"
    "qo_memory_limit_bytes o1 \<le> UINT64_MAX"
    "length (carr_items (qo_filters o1)) = carr_length (qo_filters o1)"
    "length (carr_items (qo_group_by o1)) = carr_length (qo_group_by o1)"
    "length (carr_items (qo_aggregates o1)) = carr_length (qo_aggregates o1)"
    "length (carr_items (qo_projection o1)) = carr_length (qo_projection o1)"
proof -
  have items: "length (carr_items a) = carr_length a" if "carr_length a = 0 \<or> \<not> carr_null a" for a :: "'a carr"
    using that by (cases a) auto
  show "carr_length (qo_filters o1) \<le> WADB_MAX_FILTERS" "carr_length (qo_group_by o1) \<le> WADB_MAX_GROUP_FIELDS"
    "carr_length (qo_aggregates o1) \<le> WADB_MAX_AGGREGATES" "SIZEOF_QUERY_PLAN \<le> qo_memory_limit_bytes o1"
    "qo_memory_limit_bytes o1 \<le> UINT64_MAX"
    using assms unfolding shape_invalid_def Let_def by linarith+
  show "length (carr_items (qo_filters o1)) = carr_length (qo_filters o1)"
    using assms by (intro items) (auto simp: shape_invalid_def Let_def)
  show "length (carr_items (qo_group_by o1)) = carr_length (qo_group_by o1)"
    using assms by (intro items) (auto simp: shape_invalid_def Let_def)
  show "length (carr_items (qo_aggregates o1)) = carr_length (qo_aggregates o1)"
    using assms by (intro items) (auto simp: shape_invalid_def Let_def)
  show "length (carr_items (qo_projection o1)) = carr_length (qo_projection o1)"
    using assms by (intro items) (auto simp: shape_invalid_def Let_def)
qed

lemma compile_scan_ok:
  assumes "compile_scan p = Inr q" "0 < field_count (pl_schema p)" "carr_length (qo_aggregates (pl_options p)) = 0"
    "\<not> shape_invalid (pl_options p)" "pl_order p = -1" "pl_key_count p = 0" "pl_bucket_count p = 0"
    "list_all (\<lambda>f. pr_field f < field_count (pl_schema p) \<and> pr_op f \<noteq> WADB_FILTER_OTHER) (pl_filters p)"
    "length (pl_filters p) \<le> WADB_MAX_FILTERS" "pl_allocated_bytes p \<le> qo_memory_limit_bytes (pl_options p)"
  shows "plan_ok q \<and> pl_schema q = pl_schema p \<and> pl_options q = pl_options p"
proof -
  let ?s = "pl_schema p" and ?o = "pl_options p"
  define wanted where "wanted = (if carr_length (qo_projection ?o) \<noteq> 0
    then map (wadb_schema_find (Some ?s)) (carr_items (qo_projection ?o)) else map int [0..<field_count ?s])"
  obtain pr cs where c: "compile_fields ?s wanted [] = Inr (pr, cs)" "q = p\<lparr>pl_projection := pr, pl_columns := cs\<rparr>"
    using assms(1) by (auto simp: compile_scan_def Let_def res_simps wanted_def)
  have "\<forall>f \<in> set wanted. f < int (field_count ?s)"
    using schema_find_bound [OF assms(2)] by (auto simp: wanted_def)
  from compile_fields_ok [OF columns_valid_Nil c(1) this]
  have f: "columns_valid cs" "length cs = length wanted" "list_all (\<lambda>g. g < field_count ?s) pr"
    "map rc_type cs = map (\<lambda>g. f_type (schema_fields ?s ! g)) pr" by auto
  have "wanted \<noteq> []" using assms(2) shape_valid(9) [OF assms(4)] by (auto simp: wanted_def)
  then have "cs \<noteq> []" using f(2) by auto
  then show ?thesis using f assms c(2) by (simp add: plan_ok_def Let_def)
qed

lemma compile_groups_ok:
  assumes "compile_groups p = Inr q" "0 < field_count (pl_schema p)" "carr_length (qo_aggregates (pl_options p)) \<noteq> 0"
    "\<not> shape_invalid (pl_options p)"
    "list_all (\<lambda>f. pr_field f < field_count (pl_schema p) \<and> pr_op f \<noteq> WADB_FILTER_OTHER) (pl_filters p)"
    "length (pl_filters p) \<le> WADB_MAX_FILTERS" "pl_allocated_bytes p \<le> qo_memory_limit_bytes (pl_options p)"
  shows "plan_ok q \<and> pl_schema q = pl_schema p \<and> pl_options q = pl_options p"
proof -
  let ?s = "pl_schema p" and ?o = "pl_options p"
  let ?b = "if qo_bucket_width_us ?o = 0 then [] else [WADB_TIMESTAMP_US]"
  obtain c0 first count gs keys rs cs order where
    c0: "(if qo_bucket_width_us ?o \<noteq> 0
         then bind_res (add_column [] (Some (ascii ''_bucket'')) WADB_TIMESTAMP_US) (\<lambda>columns.
                bind_res (compile_buckets ?o) (\<lambda>(first, count). Inr (columns, first, count)))
         else Inr ([], 0, 0)) = Inr (c0, first, count)" and
    g: "compile_fields ?s (map (wadb_schema_find (Some ?s)) (carr_items (qo_group_by ?o))) c0 = Inr (gs, keys)" and
    a: "compile_aggregates ?s (carr_items (qo_aggregates ?o)) keys = Inr (rs, cs)" and
    ord: "compile_order ?o cs = Inr order" and
    q: "q = p\<lparr>pl_groups := gs, pl_aggregates := rs, pl_columns := cs, pl_key_count := length keys, pl_order := order,
        pl_first_bucket := first, pl_bucket_count := count\<rparr>"
    using assms(1) by (auto simp: compile_groups_def Let_def res_simps)
  have b: "columns_valid c0" "map rc_type c0 = ?b" "count \<le> qo_max_buckets ?o"
    using c0 compile_buckets_bound by (auto simp: res_simps dest!: add_column_ok [OF columns_valid_Nil] split: if_splits)
  have "\<forall>f \<in> set (map (wadb_schema_find (Some ?s)) (carr_items (qo_group_by ?o))). f < int (field_count ?s)"
    using schema_find_bound [OF assms(2)] by auto
  note fo = compile_fields_ok [OF b(1) g this]
  then have kv: "columns_valid keys" by simp
  note ao = compile_aggregates_ok [OF kv a schema_find_bound [OF assms(2)] assms(2)]
  have kt: "map rc_type keys = ?b @ map (\<lambda>i. f_type (schema_fields ?s ! i)) gs"
  proof -
    have "map rc_type keys = map rc_type (take (length c0) keys) @ map rc_type (drop (length c0) keys)"
      by (simp only: append_take_drop_id flip: map_append)
    then show ?thesis using fo b(2) by (simp only:)
  qed
  have ct: "map rc_type cs = map rc_type keys @ map (\<lambda>r. aggregate_type (rd_op r) (f_type (schema_fields ?s ! rd_field r))) rs"
  proof -
    have "map rc_type cs = map rc_type (take (length keys) cs) @ map rc_type (drop (length keys) cs)"
      by (simp only: append_take_drop_id flip: map_append)
    then show ?thesis using ao by (simp only:)
  qed
  have ob: "-1 \<le> order" "order < int (length cs)"
    using ord find_order_bounds [of cs] by (auto simp: compile_order_def Let_def split: option.splits if_splits)
  have kl: "length keys = (if qo_bucket_width_us ?o = 0 then 0 else 1) + length gs"
    using arg_cong [OF kt, of length] by (simp split: if_splits)
  have rl: "0 < length rs" "length rs \<le> WADB_MAX_AGGREGATES" "length gs \<le> WADB_MAX_GROUP_FIELDS"
    using ao fo shape_valid [OF assms(4)] assms(3) by auto
  have "cs \<noteq> []" using ao rl by auto
  then show ?thesis using ao fo b kt ct ob kl rl assms q by (simp add: plan_ok_def Let_def)
qed

section \<open>What a plan answers\<close>

text \<open>
  A query as its options state it, with fields by name and the result types written out, and the plan
  that answers it.
\<close>

definition names_field :: "wadb_schema \<Rightarrow> bytes option \<Rightarrow> nat \<Rightarrow> bool" where
  "names_field s name i \<longleftrightarrow> i < field_count s \<and> (\<exists>n. name = Some n \<and> cstr n = cstr (f_name (schema_fields s ! i)))"

definition field_column :: "wadb_schema \<Rightarrow> nat \<Rightarrow> wadb_result_column \<Rightarrow> bool" where
  "field_column s i c \<longleftrightarrow> c = \<lparr>rc_name = cstr (f_name (schema_fields s ! i)), rc_type = f_type (schema_fields s ! i)\<rparr>"

definition byte_types :: "wadb_type set" where
  "byte_types = {WADB_UUID, WADB_BYTES, WADB_TEXT, WADB_SYMBOL32}"

definition filter_value :: "wadb_type \<Rightarrow> wadb_value \<Rightarrow> wadb_value \<Rightarrow> bool" where
  "filter_value t v u \<longleftrightarrow> \<not> is_null v \<and> \<not> is_null u \<and>
     (if t \<in> byte_types then carr_items (as_bytes u) = take (carr_length (as_bytes v)) (carr_items (as_bytes v))
      else as_word u = (if t = WADB_F32 then f32_to_f64 (f64_to_f32 (as_word v)) else as_word v))"

definition predicate_for :: "wadb_schema \<Rightarrow> wadb_filter \<Rightarrow> wadb_predicate \<Rightarrow> bool" where
  "predicate_for s f q \<longleftrightarrow> names_field s (fl_field f) (pr_field q) \<and> pr_op q = fl_op f \<and> fl_op f \<noteq> WADB_FILTER_OTHER \<and>
     (fl_op f \<in> {WADB_IS_NULL, WADB_IS_NOT_NULL} \<or> filter_value (f_type (schema_fields s ! pr_field q)) (fl_value f) (pr_value q))"

definition result_type :: "wadb_aggregate_op \<Rightarrow> wadb_type \<Rightarrow> wadb_type" where
  "result_type op t =
     (case op of
        WADB_COUNT_ALL \<Rightarrow> WADB_U64 | WADB_COUNT \<Rightarrow> WADB_U64 | WADB_AVG \<Rightarrow> WADB_F64
      | WADB_SUM \<Rightarrow>
          if t \<in> {WADB_F32, WADB_F64} then WADB_F64
          else if t \<in> {WADB_I8, WADB_I16, WADB_I32, WADB_I64, WADB_TIMESTAMP_US} then WADB_I64 else WADB_U64
      | _ \<Rightarrow> t)"

definition reduction_for :: "wadb_schema \<Rightarrow> wadb_aggregate \<Rightarrow> wadb_reduction \<Rightarrow> wadb_result_column \<Rightarrow> bool" where
  "reduction_for s a r c \<longleftrightarrow>
     (let t = f_type (schema_fields s ! rd_field r) in
      rd_op r = ag_op a \<and> ag_op a \<noteq> WADB_AGGREGATE_OTHER \<and>
      (if ag_op a = WADB_COUNT_ALL then ag_field a = None else names_field s (ag_field a) (rd_field r)) \<and>
      (t \<in> byte_types \<longrightarrow> ag_op a \<in> {WADB_COUNT_ALL, WADB_COUNT}) \<and>
      (\<exists>n. ag_name a = Some n \<and> c = \<lparr>rc_name = cstr n, rc_type = result_type (ag_op a) t\<rparr>))"

definition plan_answers :: "wadb_query_options \<Rightarrow> wadb_query_plan \<Rightarrow> bool" where
  "plan_answers o1 p \<longleftrightarrow>
     (let s = pl_schema p; cs = pl_columns p; n = length (carr_items (qo_aggregates o1)) in
      pl_options p = o1 \<and> list_all2 (predicate_for s) (carr_items (qo_filters o1)) (pl_filters p) \<and>
      (if n = 0
       then (if carr_items (qo_projection o1) = [] then pl_projection p = [0..<field_count s]
             else list_all2 (names_field s) (carr_items (qo_projection o1)) (pl_projection p)) \<and>
         list_all2 (field_column s) (pl_projection p) cs \<and> pl_order p = -1
       else list_all2 (names_field s) (carr_items (qo_group_by o1)) (pl_groups p) \<and>
         length (pl_aggregates p) = n \<and>
         (\<exists>keys aggregates. cs = (if qo_bucket_width_us o1 = 0 then [] else [\<lparr>rc_name = ascii ''_bucket'', rc_type = WADB_TIMESTAMP_US\<rparr>]) @ keys @ aggregates \<and>
            list_all2 (field_column s) (pl_groups p) keys \<and> length aggregates = n \<and>
            (\<forall>i < n. reduction_for s (carr_items (qo_aggregates o1) ! i) (pl_aggregates p ! i) (aggregates ! i))) \<and>
         (case qo_order_by o1 of
            None \<Rightarrow> pl_order p = -1
          | Some name \<Rightarrow> 0 \<le> pl_order p \<and> nat (pl_order p) < length cs \<and> cstr (rc_name (cs ! nat (pl_order p))) = cstr name)))"

lemma schema_find_names: "0 \<le> wadb_schema_find (Some s) name \<Longrightarrow> names_field s name (nat (wadb_schema_find (Some s) name))"
proof -
  assume a: "0 \<le> wadb_schema_find (Some s) name"
  then obtain n i where i: "name = Some n" "find (\<lambda>i. strcmp_eq (f_name (schema_fields s ! i)) n) [0..<field_count s] = Some i"
    by (auto simp: wadb_schema_find_def split: option.splits)
  then have "wadb_schema_find (Some s) name = int i" by (simp add: wadb_schema_find_def)
  moreover have "i < field_count s" "strcmp_eq (f_name (schema_fields s ! i)) n" using i(2) by (auto simp: find_Some_iff)
  ultimately show ?thesis using i(1) by (simp add: names_field_def strcmp_eq_def)
qed

lemma add_column_eq: "add_column cs name type = Inr cs' \<Longrightarrow> \<exists>n. name = Some n \<and> cs' = cs @ [\<lparr>rc_name = cstr n, rc_type = type\<rparr>]"
  by (cases name) (auto simp: add_column_def wadb_identifier_def split: if_splits)

lemma compile_fields_columns:
  "compile_fields s wanted cs = Inr (gs, cs') \<Longrightarrow> map int gs = wanted \<and> (\<exists>ks. cs' = cs @ ks \<and> list_all2 (field_column s) gs ks)"
proof (induction wanted arbitrary: cs gs)
  case (Cons f fs)
  obtain c1 rest where c1: "0 \<le> f" "add_column cs (Some (f_name (schema_fields s ! nat f))) (f_type (schema_fields s ! nat f)) = Inr c1"
    "compile_fields s fs c1 = Inr (rest, cs')" "gs = nat f # rest"
    using Cons.prems by (auto simp: res_simps Let_def split: if_splits)
  obtain ks where ks: "map int rest = fs" "cs' = c1 @ ks" "list_all2 (field_column s) rest ks" using Cons.IH [OF c1(3)] by blast
  have "c1 = cs @ [\<lparr>rc_name = cstr (f_name (schema_fields s ! nat f)), rc_type = f_type (schema_fields s ! nat f)\<rparr>]"
    using add_column_eq [OF c1(2)] by auto
  moreover have "field_column s (nat f) \<lparr>rc_name = cstr (f_name (schema_fields s ! nat f)), rc_type = f_type (schema_fields s ! nat f)\<rparr>"
    by (simp add: field_column_def)
  ultimately show ?case using ks c1(1,4) by (auto intro!: exI [of _ "_ # ks"])
qed simp

lemma names_found: "map int gs = map (wadb_schema_find (Some s)) names \<Longrightarrow> list_all2 (names_field s) names gs"
proof (induction names arbitrary: gs)
  case (Cons name names)
  then obtain g rest where g: "gs = g # rest" "int g = wadb_schema_find (Some s) name" "map int rest = map (wadb_schema_find (Some s)) names" by auto
  have "names_field s name g" using schema_find_names [of s name] g(2) by (metis nat_int of_nat_0_le_iff)
  then show ?case using Cons.IH [OF g(3)] g(1) by simp
qed simp

lemma byte_types_iff: "t \<in> byte_types \<longleftrightarrow> wadb_type_bytes t"
  by (auto simp: byte_types_def wadb_type_bytes_def)

lemma result_type_eq: "op \<noteq> WADB_AGGREGATE_OTHER \<Longrightarrow> aggregate_type op t = result_type op t"
  by (cases op) (auto simp: aggregate_type_def result_type_def wadb_type_float_def wadb_type_signed_def)

lemma compile_aggregates_columns:
  "compile_aggregates s as cs = Inr (rs, cs') \<Longrightarrow> length rs = length as \<and>
     (\<exists>ks. cs' = cs @ ks \<and> length ks = length as \<and> (\<forall>i < length as. reduction_for s (as ! i) (rs ! i) (ks ! i)))"
proof (induction as arbitrary: cs rs)
  case (Cons a as)
  let ?f = "if ag_op a = WADB_COUNT_ALL then 0 else wadb_schema_find (Some s) (ag_field a)"
  let ?t = "f_type (schema_fields s ! nat ?f)"
  obtain c1 rest where c1: "0 \<le> ?f" "ag_op a \<noteq> WADB_AGGREGATE_OTHER" "add_column cs (ag_name a) (aggregate_type (ag_op a) ?t) = Inr c1"
    "compile_aggregates s as c1 = Inr (rest, cs')" "rs = \<lparr>rd_field = nat ?f, rd_op = ag_op a\<rparr> # rest"
    using Cons.prems by (auto simp: res_simps Let_def split: if_splits)
  have ct: "ag_op a = WADB_COUNT_ALL \<longrightarrow> ag_field a = None" "wadb_type_bytes ?t \<longrightarrow> ag_op a = WADB_COUNT_ALL \<or> ag_op a = WADB_COUNT"
    using Cons.prems by (rule_tac ccontr, simp add: Let_def split: if_splits)+
  obtain n where n: "ag_name a = Some n" "c1 = cs @ [\<lparr>rc_name = cstr n, rc_type = result_type (ag_op a) ?t\<rparr>]"
    using add_column_eq [OF c1(3)] result_type_eq [OF c1(2)] by auto
  obtain ks where ks: "length rest = length as" "cs' = c1 @ ks" "length ks = length as" "\<forall>i < length as. reduction_for s (as ! i) (rest ! i) (ks ! i)"
    using Cons.IH [OF c1(4)] by blast
  let ?c = "\<lparr>rc_name = cstr n, rc_type = result_type (ag_op a) ?t\<rparr>"
  have "reduction_for s a \<lparr>rd_field = nat ?f, rd_op = ag_op a\<rparr> ?c"
    using c1(1,2) ct n(1) schema_find_names [of s "ag_field a"] by (auto simp: reduction_for_def Let_def byte_types_iff)
  then have "\<forall>i < length (a # as). reduction_for s ((a # as) ! i) (rs ! i) ((?c # ks) ! i)"
    using ks(4) c1(5) by (auto simp: less_Suc_eq_0_disj)
  then show ?case using ks n(2) c1(5) by (intro conjI exI [of _ "?c # ks"]) auto
qed simp

lemma compile_filter_for:
  assumes "compile_filter s limit alloc allocated f = Inr (q, m)" shows "predicate_for s f q"
proof -
  have "0 \<le> wadb_schema_find (Some s) (fl_field f)" "pr_field q = nat (wadb_schema_find (Some s) (fl_field f))"
      "pr_op q = fl_op f" "fl_op f \<noteq> WADB_FILTER_OTHER"
      "fl_op f \<in> {WADB_IS_NULL, WADB_IS_NOT_NULL} \<or> filter_value (f_type (schema_fields s ! pr_field q)) (fl_value f) (pr_value q)"
    using assms by (auto simp: compile_filter_def Let_def filter_value_def byte_types_iff wadb_type_bytes_def split: if_splits sum.splits)
  then show ?thesis using schema_find_names by (simp add: predicate_for_def)
qed

lemma compile_filters_for:
  "compile_filters s limit alloc i allocated fs = Inr (ps, m) \<Longrightarrow> list_all2 (predicate_for s) fs ps"
  by (induction fs arbitrary: i allocated ps) (auto simp: res_simps dest: compile_filter_for)

lemma find_order_column:
  assumes "0 \<le> find_order cs name"
  shows "nat (find_order cs name) < length cs \<and> cstr (rc_name (cs ! nat (find_order cs name))) = cstr name"
proof -
  have "0 \<le> fold (\<lambda>i order. if P i then int i else order) xs k \<Longrightarrow> k = -1 \<or> 0 \<le> k \<and> P (nat k) \<and> nat k < n \<Longrightarrow> \<forall>i \<in> set xs. i < n \<Longrightarrow>
      P (nat (fold (\<lambda>i order. if P i then int i else order) xs k)) \<and> nat (fold (\<lambda>i order. if P i then int i else order) xs k) < n" for P xs k n
    by (induction xs arbitrary: k) (auto split: if_splits)
  from this [of "\<lambda>i. strcmp_eq name (rc_name (cs ! i))" "[0..<length cs]" "-1" "length cs"] assms
  show ?thesis by (simp add: find_order_def strcmp_eq_def)
qed

lemma carr_items_empty: "carr_length a = 0 \<Longrightarrow> carr_items a = []"
  by (cases a) auto

lemma compile_scan_answers:
  assumes "compile_scan p = Inr q" "carr_length (qo_aggregates (pl_options p)) = 0" "pl_order p = -1"
    "list_all2 (predicate_for (pl_schema p)) (carr_items (qo_filters (pl_options p))) (pl_filters p)" "\<not> shape_invalid (pl_options p)"
  shows "plan_answers (pl_options p) q"
proof -
  let ?s = "pl_schema p" and ?o = "pl_options p"
  define wanted where "wanted = (if carr_length (qo_projection ?o) \<noteq> 0
    then map (wadb_schema_find (Some ?s)) (carr_items (qo_projection ?o)) else map int [0..<field_count ?s])"
  obtain pr cs where c: "compile_fields ?s wanted [] = Inr (pr, cs)" "q = p\<lparr>pl_projection := pr, pl_columns := cs\<rparr>"
    using assms(1) by (auto simp: compile_scan_def Let_def res_simps wanted_def)
  have f: "map int pr = wanted" "list_all2 (field_column ?s) pr cs" using compile_fields_columns [OF c(1)] by auto
  have "if carr_items (qo_projection ?o) = [] then pr = [0..<field_count ?s] else list_all2 (names_field ?s) (carr_items (qo_projection ?o)) pr"
  proof (cases "carr_length (qo_projection ?o) = 0")
    case True
    then have "map int pr = map int [0..<field_count ?s]" using f(1) by (simp add: wanted_def)
    then have "pr = [0..<field_count ?s]" by (simp only: inj_map_eq_map [OF inj_of_nat])
    then show ?thesis using True by (simp add: carr_items_empty)
  next
    case False
    then have "map int pr = map (wadb_schema_find (Some ?s)) (carr_items (qo_projection ?o))" using f(1) by (simp add: wanted_def)
    moreover have "carr_items (qo_projection ?o) \<noteq> []" using False shape_valid(9) [OF assms(5)] by auto
    ultimately show ?thesis using names_found by simp
  qed
  moreover have "pl_schema q = ?s" "pl_options q = ?o" "pl_projection q = pr" "pl_columns q = cs" "pl_filters q = pl_filters p" "pl_order q = -1"
    using c(2) assms(3) by simp_all
  moreover have "length (carr_items (qo_aggregates ?o)) = 0" using assms(2) by (simp add: carr_items_empty)
  ultimately show ?thesis using assms(4) f(2) unfolding plan_answers_def Let_def by (simp only: if_True simp_thms)
qed

lemma compile_groups_answers:
  assumes "compile_groups p = Inr q" "carr_length (qo_aggregates (pl_options p)) \<noteq> 0"
    "list_all2 (predicate_for (pl_schema p)) (carr_items (qo_filters (pl_options p))) (pl_filters p)" "\<not> shape_invalid (pl_options p)"
  shows "plan_answers (pl_options p) q"
proof -
  let ?s = "pl_schema p" and ?o = "pl_options p"
  let ?b = "if qo_bucket_width_us ?o = 0 then [] else [\<lparr>rc_name = ascii ''_bucket'', rc_type = WADB_TIMESTAMP_US\<rparr>]"
  obtain c0 first count gs keys rs cs order where
    c0: "(if qo_bucket_width_us ?o \<noteq> 0
         then bind_res (add_column [] (Some (ascii ''_bucket'')) WADB_TIMESTAMP_US) (\<lambda>columns.
                bind_res (compile_buckets ?o) (\<lambda>(first, count). Inr (columns, first, count)))
         else Inr ([], 0, 0)) = Inr (c0, first, count)" and
    g: "compile_fields ?s (map (wadb_schema_find (Some ?s)) (carr_items (qo_group_by ?o))) c0 = Inr (gs, keys)" and
    a: "compile_aggregates ?s (carr_items (qo_aggregates ?o)) keys = Inr (rs, cs)" and
    ord: "compile_order ?o cs = Inr order" and
    q: "q = p\<lparr>pl_groups := gs, pl_aggregates := rs, pl_columns := cs, pl_key_count := length keys, pl_order := order,
        pl_first_bucket := first, pl_bucket_count := count\<rparr>"
    using assms(1) by (auto simp: compile_groups_def Let_def res_simps)
  have "cstr (ascii ''_bucket'') = ascii ''_bucket''" by (simp add: cstr_def ascii_def)
  then have b: "c0 = ?b" using c0 by (auto simp: res_simps dest!: add_column_eq split: if_splits)
  obtain ks where ks: "map int gs = map (wadb_schema_find (Some ?s)) (carr_items (qo_group_by ?o))" "keys = c0 @ ks" "list_all2 (field_column ?s) gs ks"
    using compile_fields_columns [OF g] by auto
  obtain as where as: "length rs = length (carr_items (qo_aggregates ?o))" "cs = keys @ as" "length as = length (carr_items (qo_aggregates ?o))"
    "\<forall>i < length (carr_items (qo_aggregates ?o)). reduction_for ?s (carr_items (qo_aggregates ?o) ! i) (rs ! i) (as ! i)"
    using compile_aggregates_columns [OF a] by blast
  have ob: "case qo_order_by ?o of None \<Rightarrow> order = -1
      | Some name \<Rightarrow> 0 \<le> order \<and> nat order < length cs \<and> cstr (rc_name (cs ! nat order)) = cstr name"
    using ord find_order_column [of cs] by (auto simp: compile_order_def Let_def split: option.splits if_splits)
  have n: "length (carr_items (qo_aggregates ?o)) \<noteq> 0" using assms(2) shape_valid(8) [OF assms(4)] by simp
  have cs: "cs = ?b @ ks @ as" using as(2) ks(2) b by simp
  have w: "\<exists>keys aggregates. cs = ?b @ keys @ aggregates \<and> list_all2 (field_column ?s) gs keys \<and>
      length aggregates = length (carr_items (qo_aggregates ?o)) \<and>
      (\<forall>i < length (carr_items (qo_aggregates ?o)). reduction_for ?s (carr_items (qo_aggregates ?o) ! i) (rs ! i) (aggregates ! i))"
    using cs ks(3) as(3,4) by blast
  have "pl_schema q = ?s" "pl_options q = ?o" "pl_groups q = gs" "pl_aggregates q = rs" "pl_columns q = cs" "pl_filters q = pl_filters p" "pl_order q = order"
    using q by simp_all
  then show ?thesis using w ob n names_found [OF ks(1)] as(1) assms(3) unfolding plan_answers_def Let_def by (simp only: if_False simp_thms)
qed

section \<open>Properties\<close>

text \<open>
  C32: bucket boundaries. For a positive width the computed bucket is the greatest boundary,
  counted in steps of the width from the origin, that is not after the time; the call fails with
  \<^verbatim>\<open>WADB_LIMIT\<close> exactly when that boundary is below the range of the type.
\<close>

theorem bucket_floor_greatest:
  assumes "0 < width"
  shows "case wadb_bucket_floor time width origin of
      Inr b \<Rightarrow> b \<le> time \<and> time < b + width \<and> (b - origin) mod width = 0 \<and> INT64_MIN \<le> b
    | Inl e \<Rightarrow> e = WADB_LIMIT \<and> (\<forall>b. b \<le> time \<longrightarrow> (b - origin) mod width = 0 \<longrightarrow> b < INT64_MIN)"
proof -
  define r where "r = (time - origin) mod width"
  have r: "0 \<le> r" "r < width" using assms by (simp_all add: r_def)
  have m: "(time - r - origin) mod width = 0"
  proof -
    have "time - r - origin = (time - origin) - (time - origin) mod width" by (simp add: r_def)
    then show ?thesis by (simp add: minus_mod_eq_mult_div)
  qed
  have below: "b \<le> time - r" if "b \<le> time" "(b - origin) mod width = 0" for b
  proof (rule ccontr)
    assume "\<not> ?thesis"
    then have "0 < b - (time - r)" "b - (time - r) < width" using that(1) r by linarith+
    moreover have "(b - (time - r)) mod width = 0"
    proof -
      have "width dvd (b - origin) - (time - r - origin)" using that(2) m by (simp only: dvd_diff mod_eq_0_iff_dvd)
      then show ?thesis by (simp add: mod_eq_0_iff_dvd algebra_simps)
    qed
    ultimately show False by (simp add: mod_pos_pos_trivial)
  qed
  show ?thesis
  proof (cases "time - r < INT64_MIN")
    case True
    then have "wadb_bucket_floor time width origin = Inl WADB_LIMIT"
      by (simp add: bucket_floor_eq [OF assms] Let_def flip: r_def)
    then show ?thesis using below True by force
  next
    case False
    then have "wadb_bucket_floor time width origin = Inr (time - r)"
      by (simp add: bucket_floor_eq [OF assms] Let_def flip: r_def)
    then show ?thesis using m r False by simp
  qed
qed

theorem bucket_floor_greatest_witness:
  "(0 :: int) < 60 \<and> wadb_bucket_floor (-30) 60 10 = Inr (-50) \<and> (-50 :: int) \<le> -30"
  using bucket_floor_greatest [of 60 "-30" 10] by (simp add: bucket_floor_eq)

text \<open>
  C33: the comparison of values is a total preorder for every type, with nulls last: exchanging
  the arguments negates the result and the relation \<open>\<le> 0\<close> is transitive. Byte strings compare
  equal only when they are the same string.
\<close>

theorem value_compare_total_order:
  assumes "comparable t a" and "comparable t b" and "comparable t c"
  shows "wadb_value_compare t a b = - wadb_value_compare t b a \<and>
    (wadb_value_compare t a b \<le> 0 \<longrightarrow> wadb_value_compare t b c \<le> 0 \<longrightarrow> wadb_value_compare t a c \<le> 0) \<and>
    (is_null a \<and> \<not> is_null b \<longrightarrow> wadb_value_compare t a b = 1) \<and>
    (wadb_type_bytes t \<and> \<not> is_null a \<and> \<not> is_null b \<longrightarrow>
       (wadb_value_compare t a b = 0 \<longleftrightarrow> carr_items (as_bytes a) = carr_items (as_bytes b)))"
  using value_compare_laws [OF assms] value_compare_eq [OF assms(1,2)]
    bytes_compare_order(3) [of "carr_items (as_bytes a)" "carr_items (as_bytes b)"]
  by (auto simp: sign_of_def null_last_def)

theorem value_compare_total_order_witness:
  "comparable WADB_I64 (word_value 3) \<and> comparable WADB_I64 (word_value (-1)) \<and> comparable WADB_I64 null_value \<and>
   wadb_value_compare WADB_I64 (word_value 3) (word_value (-1)) = - wadb_value_compare WADB_I64 (word_value (-1)) (word_value 3)"
proof -
  have c: "comparable WADB_I64 (word_value 3)" "comparable WADB_I64 (word_value (-1))" "comparable WADB_I64 null_value"
    by (simp_all add: comparable_def wadb_type_bytes_def wadb_type_float_def)
  with value_compare_total_order [OF c] show ?thesis by simp
qed

text \<open>
  C15: a compiled plan is well formed and answers the query that was asked. Every field index is in
  range, result columns have distinct valid names, there are as many columns as keys and aggregates,
  and memory and bucket budgets are kept. Filters, projection, grouping fields and aggregates refer
  to the fields that were named, with the operators and values that were given; sums, averages and
  extremes are only of numeric fields; each column has the name asked for and the type its operation
  produces; and the ordering column is the one named in the query, or none when none was named.
\<close>

theorem query_compile_well_formed:
  assumes "wadb_schema_build defs = Inr s" and "wadb_query_compile alloc (Some s) options = Inr p"
  shows "plan_ok p \<and> pl_schema p = s \<and> plan_answers (case options of None \<Rightarrow> wadb_query_options_default | Some x \<Rightarrow> x) p"
proof -
  have n: "0 < field_count s" using schema_okD [OF schema_build_ok(1) [OF assms(1)]] by simp
  define o1 where "o1 = (case options of None \<Rightarrow> wadb_query_options_default | Some x \<Rightarrow> x)"
  obtain fs m where f: "\<not> shape_invalid o1"
    "compile_filters s (qo_memory_limit_bytes o1) alloc 1 SIZEOF_QUERY_PLAN (carr_items (qo_filters o1)) = Inr (fs, m)"
    "(if carr_length (qo_aggregates o1) = 0 then compile_scan else compile_groups)
       \<lparr>pl_schema = s, pl_options = o1, pl_projection = [], pl_groups = [], pl_filters = fs, pl_aggregates = [],
        pl_columns = [], pl_key_count = 0, pl_allocated_bytes = m, pl_order = -1, pl_first_bucket = 0, pl_bucket_count = 0\<rparr> = Inr p"
    using assms(2) by (auto simp: wadb_query_compile_def Let_def res_simps o1_def split: if_splits)
  note v = shape_valid [OF f(1)]
  note g = compile_filters_ok [OF f(2) v(4,5) n]
  have ok: "plan_ok p \<and> pl_schema p = s"
    using f(3) compile_scan_ok compile_groups_ok g n v(1,6) f(1) by (fastforce split: if_splits)
  have "plan_answers o1 p"
    using f(3) compile_scan_answers compile_groups_answers compile_filters_for [OF f(2)] f(1) by (fastforce split: if_splits)
  then show ?thesis using ok by (simp add: o1_def)
qed

lemma example_query_compiles:
  "\<exists>p. wadb_query_compile (\<lambda>_. True) (Some example_schema) None = Inr p"
proof -
  have sh: "\<not> shape_invalid wadb_query_options_default"
    by (simp add: shape_invalid_def wadb_query_options_default_def wadb_scan_options_default_def SIZEOF_QUERY_PLAN_def
        WADB_MAX_FILTERS_def WADB_MAX_GROUP_FIELDS_def WADB_MAX_AGGREGATES_def WADB_MAX_FIELDS_def)
  have "wadb_identifier (Some (ascii ''_time''))" "wadb_identifier (Some (ascii ''path''))" "wadb_identifier (Some (ascii ''ms''))"
    by (simp_all add: wadb_identifier_def identifier_loop.simps identifier_char_def cchar_def ascii_def WADB_NAME_CAP_def)
  then have "is_ok (compile_fields example_schema [0, 1, 2] [])"
    by (simp add: add_column_def WADB_MAX_FIELDS_def example_schema_def example_fields_def strcmp_eq_def cstr_def ascii_def)
  then obtain x where x: "compile_fields example_schema [0, 1, 2] [] = Inr x"
    by (cases "compile_fields example_schema [0, 1, 2] []") auto
  have "compile_scan p = Inr (p\<lparr>pl_projection := fst x, pl_columns := snd x\<rparr>)"
    if "pl_schema p = example_schema" "pl_options p = wadb_query_options_default" for p
  proof -
    have "map int [0..<field_count example_schema] = [0, 1, 2]" by (simp add: example_schema_def upt_rec)
    then show ?thesis using that x by (simp add: compile_scan_def wadb_query_options_default_def split: prod.splits)
  qed
  then show ?thesis using sh
    by (simp add: wadb_query_compile_def wadb_query_options_default_def)
qed

theorem query_compile_well_formed_witness:
  "\<exists>p. wadb_schema_build example_defs = Inr example_schema \<and>
     wadb_query_compile (\<lambda>_. True) (Some example_schema) None = Inr p \<and> plan_ok p \<and> plan_answers wadb_query_options_default p"
proof -
  obtain p where p: "wadb_query_compile (\<lambda>_. True) (Some example_schema) None = Inr p" using example_query_compiles by blast
  then show ?thesis using example_schema_builds query_compile_well_formed [OF example_schema_builds p] by auto
qed

end
