(* ===== verification/Wadb_Files.thy ===== *)
theory Wadb_Files
  imports Wadb_Dictionary
begin

unbundle bit_operations_syntax

text \<open>
  The model of \<^verbatim>\<open>src/platform/files.c\<close> over an abstract file system.

  The state \<open>world\<close> has the file tree, a map from absolute paths to nodes, and a script: the
  outcomes of the system calls, in the order the program makes them. \<open>Fail\<close> is a failing call
  and \<open>Ret k\<close> a successful one whose return value, where it has one, is governed by \<open>k\<close> (a
  short write or read, the suffix of a temporary name, a clock reading). Theorems quantify over
  all scripts, so they hold for every pattern of failures. A call interrupted by a signal is
  repeated by the code and has no effect, so the script holds the first outcome that is not
  \<^verbatim>\<open>EINTR\<close>. An open descriptor stands for the path it was opened with.
\<close>

section \<open>Definitions\<close>

type_synonym path = bytes

datatype node = File bytes | Directory | Special

datatype outcome = Fail | Ret nat

record world =
  w_files :: "path \<Rightarrow> node option"
  w_script :: "nat \<Rightarrow> outcome"
  w_tick :: nat

text \<open>Computations that change a state and may fail, sequenced like \<^verbatim>\<open>if (!status) status = ...\<close>.\<close>

type_synonym ('s, 'a) io = "'s \<Rightarrow> 's \<times> 'a res"

definition bind_io :: "('s, 'a) io \<Rightarrow> ('a \<Rightarrow> ('s, 'b) io) \<Rightarrow> ('s, 'b) io" where
  "bind_io m k = (\<lambda>s. case m s of (s', Inl e) \<Rightarrow> (s', Inl e) | (s', Inr x) \<Rightarrow> k x s')"

definition return_io :: "'a \<Rightarrow> ('s, 'a) io" where
  "return_io x = (\<lambda>s. (s, Inr x))"

definition fail_io :: "wadb_status \<Rightarrow> ('s, 'a) io" where
  "fail_io e = (\<lambda>s. (s, Inl e))"

definition sys :: "world \<Rightarrow> world \<times> outcome" where
  "sys w = (w\<lparr>w_tick := w_tick w + 1\<rparr>, w_script w (w_tick w))"

text \<open>A call of which only success matters: allocation, \<^verbatim>\<open>close\<close>, \<^verbatim>\<open>fdatasync\<close>, ...\<close>

definition call :: "wadb_status \<Rightarrow> (world, nat) io" where
  "call e w = (case sys w of (w', Fail) \<Rightarrow> (w', Inl e) | (w', Ret k) \<Rightarrow> (w', Inr k))"

definition set_file :: "path \<Rightarrow> node option \<Rightarrow> world \<Rightarrow> world" where
  "set_file path n w = w\<lparr>w_files := (w_files w)(path := n)\<rparr>"

definition content :: "world \<Rightarrow> path \<Rightarrow> bytes" where
  "content w path = (case w_files w path of Some (File c) \<Rightarrow> c | _ \<Rightarrow> [])"

definition append_file :: "path \<Rightarrow> bytes \<Rightarrow> world \<Rightarrow> world" where
  "append_file path data w = set_file path (Some (File (content w path @ data))) w"

text \<open>Clocks: the argument is the value of \<^verbatim>\<open>clock_gettime\<close>, \<open>None\<close> when it fails.\<close>

definition wadb_realtime_us :: "(int \<times> int) option \<Rightarrow> int" where
  "wadb_realtime_us ts =
     (case ts of
        None \<Rightarrow> -1
      | Some (sec, nsec) \<Rightarrow>
          if sec < 0 \<or> sec > (INT64_MAX - 999999) div 1000000 then -1
          else sec * 1000000 + nsec div 1000)"

definition wadb_monotonic_ns :: "(nat \<times> nat) option \<Rightarrow> nat" where
  "wadb_monotonic_ns ts =
     (case ts of None \<Rightarrow> 0 | Some (sec, nsec) \<Rightarrow> add64 (mul64 sec 1000000000) nsec)"

definition clock_ns :: "world \<Rightarrow> world \<times> nat" where
  "clock_ns w =
     (case sys w of
        (w', Fail) \<Rightarrow> (w', wadb_monotonic_ns None)
      | (w', Ret k) \<Rightarrow> (w', wadb_monotonic_ns (Some (k div 1000000000, k mod 1000000000))))"

function write_loop :: "path \<Rightarrow> bytes \<Rightarrow> nat \<Rightarrow> (world, unit) io" where
  "write_loop path data done w =
     (if done < length data then
        (case sys w of
           (w', Fail) \<Rightarrow> (w', Inl WADB_IO)
         | (w', Ret k) \<Rightarrow>
             (let w'' = append_file path (take k (drop done data)) w' in
              if k = 0 \<or> k > length data - done then (w'', Inl WADB_IO)
              else write_loop path data (done + k) w''))
      else (w, Inr ()))"
  by pat_completeness auto
termination by (relation "measure (\<lambda>(path, data, done, w). length data - done)") auto

definition wadb_write_all :: "path \<Rightarrow> bytes \<Rightarrow> (world, unit) io" where
  "wadb_write_all path data w = write_loop path data 0 w"

text \<open>What \<^verbatim>\<open>pread\<close> returns: nothing at the end of the file, at least one byte before it.\<close>

definition pread :: "bytes \<Rightarrow> nat \<Rightarrow> nat \<Rightarrow> nat \<Rightarrow> bytes" where
  "pread c n offset k = take (max 1 (min k n)) (take n (drop offset c))"

function pread_loop :: "path \<Rightarrow> nat \<Rightarrow> nat \<Rightarrow> bytes \<Rightarrow> (world, bytes) io" where
  "pread_loop path n offset p w =
     (if length p < n then
        (case sys w of
           (w', Fail) \<Rightarrow> (w', Inl WADB_IO)
         | (w', Ret k) \<Rightarrow>
             (let got = pread (content w path) (n - length p) (offset + length p) k in
              if got = [] then (w', Inl WADB_CORRUPT) else pread_loop path n offset (p @ got) w'))
      else (w, Inr p))"
  by pat_completeness auto
termination
proof (relation "measure (\<lambda>(path, n, offset, p, w). n - length p)")
  fix path n offset w w' and p got :: bytes
  assume "length p < n" "got \<noteq> []"
  then show "((path, n, offset, p @ got, w'), path, n, offset, p, w) \<in> measure (\<lambda>(path, n, offset, p, w). n - length p)"
    by (cases got) simp_all
qed simp

definition wadb_pread_all :: "path \<Rightarrow> nat \<Rightarrow> nat \<Rightarrow> (world, bytes) io" where
  "wadb_pread_all path n offset w =
     (if int offset > INT64_MAX \<or> int n > INT64_MAX - int offset then (w, Inl WADB_LIMIT)
      else pread_loop path n offset [] w)"

definition wadb_sync_file :: "(world, unit) io" where
  "wadb_sync_file = bind_io (call WADB_IO) (\<lambda>_. return_io ())"

definition wadb_mkdir :: "path \<Rightarrow> (world, unit) io" where
  "wadb_mkdir path =
     bind_io (call WADB_IO) (\<lambda>_ w.
       case w_files w path of
         None \<Rightarrow> (set_file path (Some Directory) w, Inr ())
       | Some n \<Rightarrow>
           bind_io (call WADB_IO) (\<lambda>_. if n = Directory then return_io () else fail_io WADB_IO) w)"

definition wadb_sync_directory :: "path \<Rightarrow> (world, unit) io" where
  "wadb_sync_directory path =
     bind_io (call WADB_IO) (\<lambda>_ w.
       if w_files w path \<noteq> Some Directory then (w, Inl WADB_IO)
       else bind_io (call WADB_IO) (\<lambda>_. return_io ()) w)"

text \<open>The directory part of a path, as the code cuts it at the last slash.\<close>

definition parent_path :: "path \<Rightarrow> path" where
  "parent_path path =
     (if 47 \<notin> set path then ascii ''.''
      else (let parent = rev (tl (dropWhile (\<lambda>c. c \<noteq> 47) (rev path))) in
            if parent = [] then ascii ''/'' else parent))"

definition temp_path :: "path \<Rightarrow> nat \<Rightarrow> path" where
  "temp_path path k = path @ ascii ''.tmp.'' @ map (\<lambda>i. of_nat (97 + k div 26 ^ i mod 26)) [0..<6]"

text \<open>\<^verbatim>\<open>mkstemp\<close>: a new empty file; the script picks the suffix.\<close>

definition mkstemp :: "path \<Rightarrow> (world, path) io" where
  "mkstemp path =
     bind_io (call WADB_IO) (\<lambda>k w.
       if w_files w (temp_path path k) \<noteq> None then (w, Inl WADB_IO)
       else (set_file (temp_path path k) (Some (File [])) w, Inr (temp_path path k)))"

definition rename_file :: "path \<Rightarrow> path \<Rightarrow> (world, unit) io" where
  "rename_file old new =
     bind_io (call WADB_IO) (\<lambda>_ w.
       if w_files w new = Some Directory then (w, Inl WADB_IO)
       else (set_file old None (set_file new (w_files w old) w), Inr ()))"

text \<open>\<^verbatim>\<open>unlink\<close> with its result ignored.\<close>

definition unlink_quiet :: "path \<Rightarrow> world \<Rightarrow> world" where
  "unlink_quiet path w = (case sys w of (w', Fail) \<Rightarrow> w' | (w', Ret _) \<Rightarrow> set_file path None w')"

text \<open>Writing, synchronizing and closing the temporary file; \<^verbatim>\<open>close\<close> is always called.\<close>

definition fill_file :: "path \<Rightarrow> bytes \<Rightarrow> (world, unit) io" where
  "fill_file temp data w =
     (case bind_io (wadb_write_all temp data) (\<lambda>_. wadb_sync_file) w of
        (w1, status) \<Rightarrow>
          (case call WADB_IO w1 of (w2, closed) \<Rightarrow>
             (w2, case status of Inl e \<Rightarrow> Inl e | Inr _ \<Rightarrow> bind_res closed (\<lambda>_. Inr ()))))"

definition install_file :: "path \<Rightarrow> path \<Rightarrow> (world, unit) io" where
  "install_file temp path =
     bind_io (rename_file temp path) (\<lambda>_ w.
       case wadb_sync_directory (parent_path path) w of
         (w', Inl e) \<Rightarrow> (w', Inl WADB_INDETERMINATE)
       | (w', Inr u) \<Rightarrow> (w', Inr u))"

definition wadb_atomic_file :: "path \<Rightarrow> bytes \<Rightarrow> (world, unit) io" where
  "wadb_atomic_file path data =
     (if length path = 0 \<or> length path > 4096 then fail_io WADB_LIMIT
      else
        bind_io (call WADB_NOMEM) (\<lambda>_. bind_io (call WADB_NOMEM) (\<lambda>_.
          bind_io (mkstemp path) (\<lambda>temp w.
            case bind_io (fill_file temp data) (\<lambda>_. install_file temp path) w of
              (w', Inl e) \<Rightarrow> (unlink_quiet temp w', Inl e)
            | (w', Inr u) \<Rightarrow> (w', Inr u)))))"

definition wadb_read_file :: "path \<Rightarrow> nat \<Rightarrow> (world, bytes) io" where
  "wadb_read_file path limit w0 =
     (case w_files w0 path of
        None \<Rightarrow> bind_io (call WADB_IO) (\<lambda>_. fail_io WADB_NOT_FOUND) w0
      | Some n \<Rightarrow>
          bind_io (call WADB_IO) (\<lambda>_. bind_io (call WADB_IO) (\<lambda>_.
            case n of
              File c \<Rightarrow>
                if length c > limit then fail_io WADB_LIMIT
                else bind_io (call WADB_NOMEM) (\<lambda>_. wadb_pread_all path (length c) 0)
            | _ \<Rightarrow> fail_io WADB_LIMIT)) w0)"

declare write_loop.simps [simp del] pread_loop.simps [simp del]

section \<open>Frame lemmas\<close>

named_theorems io_simps \<open>unfolding of state-changing computations\<close>

lemmas io_basic [io_simps] = bind_io_def return_io_def fail_io_def call_def sys_def

lemma w_files_simps [simp]:
  "w_files (set_file p n w) = (w_files w)(p := n)"
  "w_script (set_file p n w) = w_script w"
  "w_script (append_file p d w) = w_script w"
  by (simp_all add: set_file_def append_file_def)

lemma content_File: "w_files w path = Some (File c) \<Longrightarrow> content w path = c"
  by (simp add: content_def)

lemma bind_io_Inr:
  "bind_io m k s = (s2, Inr y) \<longleftrightarrow> (\<exists>s1 x. m s = (s1, Inr x) \<and> k x s1 = (s2, Inr y))"
  by (auto simp: bind_io_def split: prod.splits sum.splits)

lemma bind_io_Inl:
  "bind_io m k s = (s2, Inl e) \<longleftrightarrow> m s = (s2, Inl e) \<or> (\<exists>s1 x. m s = (s1, Inr x) \<and> k x s1 = (s2, Inl e))"
  by (auto simp: bind_io_def split: prod.splits sum.splits)

lemma call_files: "call e w = (w', r) \<Longrightarrow> w_files w' = w_files w \<and> w_script w' = w_script w \<and> (\<forall>c. r = Inl c \<longrightarrow> c = e)"
  by (auto simp: call_def sys_def split: outcome.splits)

lemma sync_file_files:
  "wadb_sync_file w = (w', r) \<Longrightarrow> w_files w' = w_files w \<and> w_script w' = w_script w \<and> (\<forall>c. r = Inl c \<longrightarrow> c = WADB_IO)"
  by (auto simp: wadb_sync_file_def io_simps split: outcome.splits)

lemma sync_directory_files:
  "wadb_sync_directory p w = (w', r) \<Longrightarrow> w_files w' = w_files w \<and> w_script w' = w_script w \<and> (\<forall>c. r = Inl c \<longrightarrow> c = WADB_IO)"
  by (auto simp: wadb_sync_directory_def io_simps split: outcome.splits if_splits)

lemma write_loop_files:
  assumes "w_files w path = Some (File (c @ take done data))" "done \<le> length data" "write_loop path data done w = (w', r)"
  shows "w_script w' = w_script w \<and>
    (\<exists>k. w_files w' = (w_files w)(path \<mapsto> File (c @ take k data)) \<and> (\<forall>u. r = Inr u \<longrightarrow> take k data = data)) \<and>
    (\<forall>e. r = Inl e \<longrightarrow> e = WADB_IO)"
  using assms
proof (induction path data "done" w rule: write_loop.induct)
  case (1 path data "done" w)
  have same: "\<exists>k. w_files w = (w_files w)(path \<mapsto> File (c @ take k data))"
    using 1(2) by (intro exI [of _ "done"]) auto
  show ?case
  proof (cases "done < length data")
    case False
    then have "w' = w" "r = Inr ()" using 1(4) by (simp_all add: write_loop.simps)
    then show ?thesis using 1(2,3) False by (intro conjI exI [of _ "done"]) auto
  next
    case less: True
    obtain w1 o1 where s: "sys w = (w1, o1)" by fastforce
    then have w1: "w_files w1 = w_files w" "w_script w1 = w_script w" by (auto simp: sys_def)
    show ?thesis
    proof (cases o1)
      case Fail
      then have "w' = w1" "r = Inl WADB_IO" using 1(4) s less by (simp_all add: write_loop.simps)
      then show ?thesis using w1 same by (simp del: fun_upd_apply)
    next
      case (Ret k)
      let ?w2 = "append_file path (take k (drop done data)) w1"
      have w2: "w_files ?w2 = (w_files w)(path \<mapsto> File (c @ take (done + k) data))" "w_script ?w2 = w_script w"
        using 1(2) w1 by (simp_all add: append_file_def content_def take_add)
      show ?thesis
      proof (cases "k = 0 \<or> k > length data - done")
        case True
        then have "w' = ?w2" "r = Inl WADB_IO" using 1(4) s less Ret by (simp_all add: write_loop.simps Let_def)
        then show ?thesis using w2 by auto
      next
        case False
        then have rec: "write_loop path data (done + k) ?w2 = (w', r)"
          using 1(4) s less Ret by (simp add: write_loop.simps [of path data "done"] Let_def)
        have "w_files ?w2 path = Some (File (c @ take (done + k) data))" "done + k \<le> length data"
          using w2 False less by auto
        from 1(1) [OF less s [symmetric] Ret refl False this rec] w2 show ?thesis by (simp del: fun_upd_apply)
      qed
    qed
  qed
qed

lemma write_all_files:
  assumes "w_files w path = Some (File c)" "wadb_write_all path data w = (w', r)"
  shows "w_script w' = w_script w \<and>
    (\<exists>k. w_files w' = (w_files w)(path \<mapsto> File (c @ take k data)) \<and> (\<forall>u. r = Inr u \<longrightarrow> take k data = data)) \<and>
    (\<forall>e. r = Inl e \<longrightarrow> e = WADB_IO)"
  using write_loop_files [of w path c 0 data w' r] assms by (simp add: wadb_write_all_def)

text \<open>A successful read returns exactly the bytes asked for; without failing calls it succeeds.\<close>

lemma pread_loop_ok:
  assumes "pread_loop path n offset p w = (w', r)" "p = take (length p) (drop offset (content w path))" "length p \<le> n"
  shows "w_files w' = w_files w \<and> w_script w' = w_script w \<and>
    (case r of Inr q \<Rightarrow> q = chunk (content w path) offset n \<and> (n = 0 \<or> offset + n \<le> length (content w path))
     | Inl e \<Rightarrow> e = WADB_IO \<or> e = WADB_CORRUPT \<and> length (content w path) < offset + n)"
  using assms
proof (induction path n offset p w rule: pread_loop.induct)
  case (1 path n offset p w)
  let ?c = "content w path"
  show ?case
  proof (cases "length p < n")
    case False
    then have "length p = n" "w' = w" "r = Inr p" using 1 by (simp_all add: pread_loop.simps)
    moreover have "n = 0 \<or> offset + n \<le> length ?c"
      using \<open>length p = n\<close> 1(3) arg_cong [OF 1(3), of length] by auto
    ultimately show ?thesis using 1(3) by (simp add: chunk_def)
  next
    case less: True
    obtain w1 o1 where s: "sys w = (w1, o1)" by fastforce
    then have w1: "w_files w1 = w_files w" "w_script w1 = w_script w" by (auto simp: sys_def)
    then have c1: "content w1 path = ?c" by (simp add: content_def)
    show ?thesis
    proof (cases o1)
      case Fail
      then show ?thesis using 1(2) s less w1 by (auto simp: pread_loop.simps)
    next
      case (Ret k)
      let ?got = "pread ?c (n - length p) (offset + length p) k"
      show ?thesis
      proof (cases "?got = []")
        case True
        then have "length ?c \<le> offset + length p" using less by (auto simp: pread_def)
        then show ?thesis using True 1(2) s less w1 Ret by (auto simp: pread_loop.simps Let_def)
      next
        case False
        then have rec: "pread_loop path n offset (p @ ?got) w1 = (w', r)"
          using 1(2) s less Ret by (simp add: pread_loop.simps [of path n offset p w] Let_def)
        define m where "m = min (max 1 (min k (n - length p))) (n - length p)"
        have got: "?got = take m (drop (length p) (drop offset ?c))"
          by (simp add: pread_def m_def min.commute add.commute)
        have "p @ ?got = take (length p + m) (drop offset ?c)"
          using 1(3) got by (metis take_add)
        then have pre: "p @ ?got = take (length (p @ ?got)) (drop offset (content w1 path))"
          unfolding c1 by (metis append_eq_conv_conj length_take min.cobounded2 take_take min_def take_all_iff nat_le_linear)
        have "length (p @ ?got) \<le> n" using less by (simp add: got m_def)
        from 1(1) [OF less s [symmetric] Ret refl False rec pre this] w1 c1 show ?thesis by (auto split: sum.splits)
      qed
    qed
  qed
qed

lemma pread_all_ok:
  assumes "wadb_pread_all path n offset w = (w', r)"
  shows "w_files w' = w_files w \<and> w_script w' = w_script w \<and>
    (case r of Inr q \<Rightarrow> q = chunk (content w path) offset n \<and> (n = 0 \<or> offset + n \<le> length (content w path))
     | Inl e \<Rightarrow> e = WADB_IO \<or> e = WADB_CORRUPT \<and> length (content w path) < offset + n \<or>
         e = WADB_LIMIT \<and> int (offset + n) > INT64_MAX)"
  using assms pread_loop_ok [of path n offset "[]" w w' r]
  by (auto simp: wadb_pread_all_def split: if_splits sum.splits)

lemma temp_path_neq [simp]: "temp_path path k \<noteq> path" "path \<noteq> temp_path path k"
  by (auto simp: temp_path_def ascii_def dest: arg_cong [of _ _ length])

lemma mkstemp_ok:
  "mkstemp path w = (w', r) \<Longrightarrow> w_script w' = w_script w \<and>
     (case r of Inl e \<Rightarrow> e = WADB_IO \<and> w_files w' = w_files w
      | Inr t \<Rightarrow> (\<exists>k. t = temp_path path k) \<and> w_files w t = None \<and> w_files w' = (w_files w)(t \<mapsto> File []))"
  by (auto simp: mkstemp_def io_simps split: outcome.splits if_splits)

lemma fill_file_ok:
  assumes "w_files w t = Some (File [])" "fill_file t data w = (w', r)"
  shows "w_script w' = w_script w \<and>
    (\<exists>k. w_files w' = (w_files w)(t \<mapsto> File (take k data)) \<and> (\<forall>u. r = Inr u \<longrightarrow> take k data = data)) \<and>
    (\<forall>e. r = Inl e \<longrightarrow> e = WADB_IO)"
proof -
  obtain w1 s1 where w1: "wadb_write_all t data w = (w1, s1)" by fastforce
  note f1 = write_all_files [OF assms(1) w1, simplified]
  obtain w2 s2 where w2: "bind_io (wadb_write_all t data) (\<lambda>_. wadb_sync_file) w = (w2, s2)" by fastforce
  have f2: "w_files w2 = w_files w1 \<and> w_script w2 = w_script w1 \<and> (\<forall>u. s2 = Inr u \<longrightarrow> s1 = Inr u) \<and>
      (\<forall>e. s2 = Inl e \<longrightarrow> e = WADB_IO)"
    using w2 w1 f1 sync_file_files by (cases s1) (auto simp: bind_io_def)
  obtain w3 s3 where w3: "call WADB_IO w2 = (w3, s3)" by fastforce
  have "w' = w3" "r = (case s2 of Inl e \<Rightarrow> Inl e | Inr _ \<Rightarrow> bind_res s3 (\<lambda>_. Inr ()))"
    using assms(2) w2 w3 by (auto simp: fill_file_def)
  moreover obtain k where "w_files w3 = (w_files w)(t \<mapsto> File (take k data))" "\<forall>u. s1 = Inr u \<longrightarrow> take k data = data"
    using f1 f2 call_files [OF w3] that by (auto simp del: fun_upd_apply)
  moreover have "w_script w3 = w_script w" "\<forall>c. s3 = Inl c \<longrightarrow> c = WADB_IO" "\<forall>u. s2 = Inr u \<longrightarrow> s1 = Inr u"
    "\<forall>e. s2 = Inl e \<longrightarrow> e = WADB_IO" using f1 f2 call_files [OF w3] by auto
  ultimately show ?thesis by (cases s2; cases s3) (auto simp del: fun_upd_apply intro: exI [of _ k])
qed

lemma install_file_ok:
  assumes "install_file t path w = (w', r)"
  shows "w_script w' = w_script w \<and>
    (if r = Inr () \<or> r = Inl WADB_INDETERMINATE
     then w_files w' = (w_files w)(path := w_files w t, t := None)
     else r = Inl WADB_IO \<and> w_files w' = w_files w)"
proof -
  obtain w1 s1 where w1: "rename_file t path w = (w1, s1)" by fastforce
  then have f1: "w_script w1 = w_script w" "s1 = Inr () \<and> w_files w1 = (w_files w)(path := w_files w t, t := None) \<or>
      s1 = Inl WADB_IO \<and> w_files w1 = w_files w"
    by (auto simp: rename_file_def io_simps split: outcome.splits if_splits)
  show ?thesis
  proof (cases s1)
    case (Inl e)
    then show ?thesis using assms w1 f1 by (auto simp: install_file_def bind_io_def)
  next
    case (Inr u)
    obtain w2 s2 where w2: "wadb_sync_directory (parent_path path) w1 = (w2, s2)" by fastforce
    have "w' = w2" "r = (case s2 of Inl _ \<Rightarrow> Inl WADB_INDETERMINATE | Inr u \<Rightarrow> Inr u)"
      using assms w1 w2 Inr by (auto simp: install_file_def bind_io_def split: sum.splits)
    then show ?thesis using f1 Inr sync_directory_files [OF w2] by (auto split: sum.splits)
  qed
qed

lemma atomic_file_ok:
  assumes "wadb_atomic_file path data w = (w', r)"
  shows "w_script w' = w_script w \<and>
    (r = Inr () \<or> r = Inl WADB_INDETERMINATE \<longrightarrow> w_files w' path = Some (File data)) \<and>
    (\<forall>e. r = Inl e \<and> e \<noteq> WADB_INDETERMINATE \<longrightarrow> w_files w' path = w_files w path \<and>
       (e = WADB_IO \<or> e = WADB_NOMEM \<or> e = WADB_LIMIT)) \<and>
    (\<forall>q. q \<noteq> path \<and> w_files w' q \<noteq> w_files w q \<longrightarrow> r \<noteq> Inr () \<and> w_files w q = None \<and> (\<exists>k. q = temp_path path k))"
proof -
  consider (limit) "w' = w" "r = Inl WADB_LIMIT"
    | (nomem) "w_files w' = w_files w" "w_script w' = w_script w" "r = Inl WADB_NOMEM"
    | (go) w0 t w1 where "w_files w0 = w_files w" "w_script w0 = w_script w" "mkstemp path w0 = (w1, t)"
        "(case t of Inl e \<Rightarrow> (w1, Inl e) | Inr t \<Rightarrow>
          (case bind_io (fill_file t data) (\<lambda>_. install_file t path) w1 of
             (w2, Inl e) \<Rightarrow> (unlink_quiet t w2, Inl e) | (w2, Inr u) \<Rightarrow> (w2, Inr u))) = (w', r)"
  proof (cases "length path = 0 \<or> length path > 4096")
    case True
    then show ?thesis using that(1) assms by (auto simp: wadb_atomic_file_def fail_io_def)
  next
    case False
    obtain v1 s1 where c1: "call WADB_NOMEM w = (v1, s1)" by fastforce
    note g1 = call_files [OF c1]
    show ?thesis
    proof (cases s1)
      case (Inl e)
      then show ?thesis using that(2) assms False c1 g1 by (auto simp: wadb_atomic_file_def bind_io_def)
    next
      case (Inr x1)
      obtain v2 s2 where c2: "call WADB_NOMEM v1 = (v2, s2)" by fastforce
      note g2 = call_files [OF c2]
      obtain v3 t where c3: "mkstemp path v2 = (v3, t)" by fastforce
      show ?thesis
      proof (cases s2)
        case (Inl e)
        then show ?thesis using that(2) assms False c1 c2 g1 g2 \<open>s1 = Inr x1\<close> by (auto simp: wadb_atomic_file_def bind_io_def)
      next
        case (Inr x2)
        then show ?thesis using that(3) [of v2 v3 t] assms False c1 c2 c3 g1 g2 \<open>s1 = Inr x1\<close>
          by (auto simp: wadb_atomic_file_def bind_io_def split: sum.splits)
      qed
    qed
  qed
  then show ?thesis
  proof cases
    case go
    note m = mkstemp_ok [OF go(3)]
    show ?thesis
    proof (cases t)
      case (Inl e)
      then show ?thesis using go m by auto
    next
      case (Inr t)
      then obtain k where t: "t = temp_path path k" "w_files w0 t = None" "w_files w1 = (w_files w0)(t \<mapsto> File [])"
        using m by auto
      obtain w2 s2 where f: "fill_file t data w1 = (w2, s2)" by fastforce
      have "w_files w1 t = Some (File [])" using t(3) by simp
      note f2 = fill_file_ok [OF this f]
      have script: "w_script w1 = w_script w" using m go(2) by (auto split: sum.splits)
      have unlink: "w_files (unlink_quiet t v) = w_files v \<or> w_files (unlink_quiet t v) = (w_files v)(t := None)"
          "w_script (unlink_quiet t v) = w_script v" for v
        by (auto simp: unlink_quiet_def sys_def split: outcome.splits)
      show ?thesis
      proof (cases s2)
        case (Inl e)
        then have "w' = unlink_quiet t w2" "r = Inl e" using go(4) \<open>t = _\<close> Inr f Inl by (auto simp: bind_io_def)
        then show ?thesis using f2 Inl t go(1) script unlink [of w2] by (auto split: if_splits)
      next
        case ok: (Inr u)
        then have j: "w_files w2 = (w_files w1)(t \<mapsto> File data)" using f2 by auto
        obtain w3 s3 where i: "install_file t path w2 = (w3, s3)" by fastforce
        have r: "w' = (case s3 of Inl e \<Rightarrow> unlink_quiet t w3 | Inr _ \<Rightarrow> w3)" "r = s3"
          using go(4) Inr f ok i by (auto simp: bind_io_def split: sum.splits)
        note i3 = install_file_ok [OF i]
        have "w_script w2 = w_script w" using f2 script by simp
        then show ?thesis using r i3 j t go(1) unlink [of w3] by (auto split: sum.splits if_splits)
      qed
    qed
  qed auto
qed

lemma read_file_ok:
  assumes "wadb_read_file path limit w = (w', r)"
  shows "w_files w' = w_files w \<and> w_script w' = w_script w \<and>
    (case r of
       Inr p \<Rightarrow> w_files w path = Some (File p) \<and> length p \<le> limit
     | Inl e \<Rightarrow> e = WADB_IO \<or> e = WADB_NOMEM \<or> e = WADB_NOT_FOUND \<and> w_files w path = None \<or>
         e = WADB_LIMIT \<and> w_files w path \<noteq> None \<and>
           (\<forall>c. w_files w path = Some (File c) \<longrightarrow> limit < length c \<or> INT64_MAX < int (length c)))"
proof (cases "\<exists>c. w_files w path = Some (File c)")
  case True
  then obtain c where c: "w_files w path = Some (File c)" by blast
  obtain w1 s1 where c1: "call WADB_IO w = (w1, s1)" by fastforce
  obtain w2 s2 where c2: "call WADB_IO w1 = (w2, s2)" by fastforce
  obtain w3 s3 where c3: "call WADB_NOMEM w2 = (w3, s3)" by fastforce
  obtain w4 s4 where c4: "wadb_pread_all path (length c) 0 w3 = (w4, s4)" by fastforce
  note f = call_files [OF c1] call_files [OF c2] call_files [OF c3]
  have "content w3 path = c" using f c by (simp add: content_def)
  then have s4: "w_files w4 = w_files w \<and> w_script w4 = w_script w \<and>
      (case s4 of Inr p \<Rightarrow> p = c | Inl e \<Rightarrow> e = WADB_IO \<or> e = WADB_LIMIT \<and> INT64_MAX < int (length c))"
    using pread_all_ok [OF c4] f by (cases s4) auto
  have eq: "wadb_read_file path limit w =
      (case s1 of Inl e \<Rightarrow> (w1, Inl e) | Inr _ \<Rightarrow> (case s2 of Inl e \<Rightarrow> (w2, Inl e) | Inr _ \<Rightarrow>
         if length c > limit then (w2, Inl WADB_LIMIT)
         else (case s3 of Inl e \<Rightarrow> (w3, Inl e) | Inr _ \<Rightarrow> (w4, s4))))"
    using c1 c2 c3 c4 c by (simp add: wadb_read_file_def bind_io_def fail_io_def split: sum.splits)
  show ?thesis using assms eq c f s4 by (auto split: sum.splits if_splits)
next
  case False
  then show ?thesis using assms
    by (auto simp: wadb_read_file_def io_simps split: outcome.splits option.splits node.splits)
qed

section \<open>Properties\<close>

text \<open>
  C11: replacing a metadata file is atomic whatever the system calls return. After success or
  \<^verbatim>\<open>WADB_INDETERMINATE\<close> the path holds exactly the new bytes; after any other failure it is
  untouched. No other existing file changes; at most one new temporary file is left, and none
  after success.
\<close>

theorem atomic_file_replaces:
  assumes "wadb_atomic_file path data w = (w', r)"
  shows "(if r = Inr () \<or> r = Inl WADB_INDETERMINATE then w_files w' path = Some (File data)
          else w_files w' path = w_files w path \<and> r \<in> {Inl WADB_IO, Inl WADB_NOMEM, Inl WADB_LIMIT}) \<and>
    {q. q \<noteq> path \<and> w_files w' q \<noteq> w_files w q} \<subseteq>
      (if r = Inr () then {} else {q. w_files w q = None \<and> (\<exists>k. q = temp_path path k)})"
  using atomic_file_ok [OF assms] by (cases r) (auto split: if_splits)

definition quiet_world :: world where
  "quiet_world = \<lparr>w_files = [ascii ''d'' \<mapsto> Directory], w_script = (\<lambda>_. Ret 1), w_tick = 0\<rparr>"

theorem atomic_file_replaces_witness:
  "\<exists>w' r. wadb_atomic_file (ascii ''d/f'') [1, 2] quiet_world = (w', r) \<and> r = Inr () \<and>
     w_files w' (ascii ''d/f'') = Some (File [1, 2])"
proof -
  obtain w' r where a: "wadb_atomic_file (ascii ''d/f'') [1, 2] quiet_world = (w', r)" by fastforce
  moreover have "r = Inr ()"
    using a by (simp add: wadb_atomic_file_def quiet_world_def io_simps ascii_def mkstemp_def temp_path_def fill_file_def
        wadb_write_all_def write_loop.simps append_file_def set_file_def content_def wadb_sync_file_def install_file_def
        rename_file_def wadb_sync_directory_def parent_path_def Let_def upt_rec)
  ultimately show ?thesis using atomic_file_replaces [OF a] by auto
qed

text \<open>
  C31: what was installed is what a later read returns: after a successful replacement a read
  with a large enough limit yields the same bytes or reports a failing system call; it never
  reports a missing or corrupt file.
\<close>

theorem atomic_file_read_back:
  assumes "wadb_atomic_file path data w = (w1, Inr ())" and "wadb_read_file path limit w1 = (w2, r)"
    and "length data \<le> limit" and "int (length data) \<le> INT64_MAX"
  shows "r = Inr data \<or> r = Inl WADB_IO \<or> r = Inl WADB_NOMEM"
  using atomic_file_ok [OF assms(1)] read_file_ok [OF assms(2)] assms(3,4) by (cases r) auto

theorem atomic_file_read_back_witness:
  "\<exists>w1 w2 r. wadb_atomic_file (ascii ''d/f'') [1, 2] quiet_world = (w1, Inr ()) \<and>
     wadb_read_file (ascii ''d/f'') 10 w1 = (w2, r) \<and> (r = Inr [1, 2] \<or> r = Inl WADB_IO \<or> r = Inl WADB_NOMEM)"
proof -
  obtain w1 r where a: "wadb_atomic_file (ascii ''d/f'') [1, 2] quiet_world = (w1, r)" by fastforce
  moreover have "r = Inr ()"
    using a by (simp add: wadb_atomic_file_def quiet_world_def io_simps ascii_def mkstemp_def temp_path_def fill_file_def
        wadb_write_all_def write_loop.simps append_file_def set_file_def content_def wadb_sync_file_def install_file_def
        rename_file_def wadb_sync_directory_def parent_path_def Let_def upt_rec)
  moreover obtain w2 s where "wadb_read_file (ascii ''d/f'') 10 w1 = (w2, s)" by fastforce
  ultimately show ?thesis using atomic_file_read_back [of "ascii ''d/f''" "[1, 2]" quiet_world w1 10 w2 s] by auto
qed

end
