(* ===== verification/Wadb_Query.thy ===== *)
theory Wadb_Query
  imports Wadb_Plan Wadb_Files "HOL-Library.Multiset"
begin

unbundle bit_operations_syntax

text \<open>
  The model of \<^verbatim>\<open>src/query/query.c\<close> up to the execution of a whole query: filters, the group table,
  reduction of aggregates, result rows, and the ordering of groups.

  The state of a computation is a pair of the system (allocations and clock readings come from
  its script) and the structure \<^verbatim>\<open>execution\<close>. Arrays grown with \<^verbatim>\<open>realloc\<close> are lists with a
  capacity. The members of the result that a query owns while it runs are part of the record.
\<close>

section \<open>Arithmetic of doubles\<close>

text \<open>
  Sums, products and quotients of finite doubles and conversions from integers, rounded to
  nearest with ties to even. A magnitude counts units of the smallest positive double; results
  beyond the largest double are infinite.
\<close>

definition f64_pack :: "bool \<Rightarrow> nat \<Rightarrow> u64" where
  "f64_pack neg bits = (if neg then 0x8000000000000000 else 0) OR of_nat (min bits 0x7FF0000000000000)"

definition f64_units :: "u64 \<Rightarrow> int" where
  "f64_units w =
     (let m = int (fp_mag 53 (unat (take_bit 63 w))) in if bit w 63 then - m else m)"

definition f64_add :: "u64 \<Rightarrow> u64 \<Rightarrow> u64" where
  "f64_add a b =
     (let z = f64_units a + f64_units b in
      f64_pack (if z = 0 then bit a 63 \<and> bit b 63 else z < 0) (fp_round 53 0 (nat \<bar>z\<bar>)))"

definition f64_mul :: "u64 \<Rightarrow> u64 \<Rightarrow> u64" where
  "f64_mul a b =
     f64_pack (bit a 63 \<noteq> bit b 63) (fp_round 53 1074 (nat \<bar>f64_units a\<bar> * nat \<bar>f64_units b\<bar>))"

definition f64_div :: "u64 \<Rightarrow> u64 \<Rightarrow> u64" where
  "f64_div a b =
     (let n = nat \<bar>f64_units a\<bar> * 2 ^ 1076; d = nat \<bar>f64_units b\<bar>;
          q = 2 * (n div d) + (if n mod d = 0 then 0 else 1)
      in f64_pack (bit a 63 \<noteq> bit b 63) (fp_round 53 3 q))"

definition f64_of_int :: "int \<Rightarrow> u64" where
  "f64_of_int z = f64_pack (z < 0) (fp_round 53 0 (nat \<bar>z\<bar> * 2 ^ 1074))"

section \<open>Definitions\<close>

record query_group =
  gr_hash :: u64
  gr_keys :: "wadb_value list"
  gr_aggregates :: "wadb_value list"
  gr_nonnull :: "nat list"

record execution =
  ex_plan :: wadb_query_plan
  ex_groups :: "query_group list"
  ex_group_capacity :: nat
  ex_slots :: "nat list"
  ex_used :: nat
  ex_last_sequence :: nat
  ex_deadline :: nat
  ex_stopped :: bool
  ex_rows :: "wadb_value list list"
  ex_sequences :: "nat list"
  ex_capacity :: nat
  ex_matched_rows :: nat
  ex_total_groups :: nat

type_synonym 'a exec = "(world \<times> execution, 'a) io"

definition SIZEOF_VALUE :: nat where "SIZEOF_VALUE = 24"
definition SIZEOF_U64 :: nat where "SIZEOF_U64 = 8"
definition SIZEOF_QUERY_RESULT :: nat where "SIZEOF_QUERY_RESULT = 160"
definition SIZEOF_RESULT_COLUMN :: nat where "SIZEOF_RESULT_COLUMN = 68"
definition SIZEOF_QUERY_GROUP :: nat where "SIZEOF_QUERY_GROUP = 736"

definition system :: "(world, 'a) io \<Rightarrow> 'a exec" where
  "system m = (\<lambda>(w, x). case m w of (w', r) \<Rightarrow> ((w', x), r))"

definition update :: "(execution \<Rightarrow> execution) \<Rightarrow> unit exec" where
  "update f = (\<lambda>(w, x). ((w, f x), Inr ()))"

definition charge :: "nat \<Rightarrow> unit exec" where
  "charge n = (\<lambda>(w, x).
     if n > sub64 (qo_memory_limit_bytes (pl_options (ex_plan x))) (ex_used x) then ((w, x), Inl WADB_LIMIT)
     else ((w, x\<lparr>ex_used := ex_used x + n\<rparr>), Inr ()))"

definition copy_value :: "wadb_type \<Rightarrow> wadb_value \<Rightarrow> wadb_value exec" where
  "copy_value type src =
     (if \<not> is_null src \<and> wadb_type_bytes type then
        (let n = carr_length (as_bytes src) in
         bind_io (charge (n + 1)) (\<lambda>_. bind_io (system (call WADB_NOMEM)) (\<lambda>_.
           return_io (src\<lparr>as_bytes := CMem (take n (carr_items (as_bytes src)))\<rparr>))))
      else return_io src)"

text \<open>The copying loops; the result is the copied part and, after a failure, its status.\<close>

fun copy_values :: "(wadb_type \<times> wadb_value) list \<Rightarrow> world \<times> execution \<Rightarrow> (world \<times> execution) \<times> wadb_value list \<times> unit res" where
  "copy_values [] s = (s, [], Inr ())"
| "copy_values ((type, v) # vs) s =
     (case copy_value type v s of
        (s', Inl e) \<Rightarrow> (s', [], Inl e)
      | (s', Inr c) \<Rightarrow> (case copy_values vs s' of (s'', cs, r) \<Rightarrow> (s'', c # cs, r)))"

definition aggregate_count :: "wadb_query_plan \<Rightarrow> nat" where
  "aggregate_count p = carr_length (qo_aggregates (pl_options p))"

definition grow_rows :: "unit exec" where
  "grow_rows = (\<lambda>(w, x).
     if length (ex_rows x) = ex_capacity x then
       (let p = ex_plan x; limit = so_limit (qo_scan (pl_options p));
            cap0 = (if ex_capacity x \<noteq> 0 then ex_capacity x * 2 else 16);
            cap = (if cap0 > limit then limit else cap0);
            width = length (pl_columns p) * SIZEOF_VALUE + (if aggregate_count p \<noteq> 0 then 0 else SIZEOF_U64) in
        bind_io (charge ((cap - ex_capacity x) * width)) (\<lambda>_.
          bind_io (system (call WADB_NOMEM)) (\<lambda>_.
            bind_io (if aggregate_count p \<noteq> 0 then return_io 0 else system (call WADB_NOMEM)) (\<lambda>_.
              update (\<lambda>x. x\<lparr>ex_capacity := cap\<rparr>)))) (w, x))
     else ((w, x), Inr ()))"

definition result_row :: "wadb_value list \<Rightarrow> nat \<Rightarrow> unit exec" where
  "result_row values sequence =
     bind_io grow_rows (\<lambda>_ (w, x).
       let columns = pl_columns (ex_plan x) in
       case copy_values (zip (map rc_type columns) values) (w, x) of
         ((w', x'), copied, r) \<Rightarrow>
           ((w', x'\<lparr>ex_rows := ex_rows x' @ [copied @ replicate (length columns - length copied) null_value],
                   ex_sequences := (if aggregate_count (ex_plan x) \<noteq> 0 then ex_sequences x' else ex_sequences x' @ [sequence])\<rparr>), r))"

definition predicate_holds :: "wadb_schema \<Rightarrow> wadb_value list \<Rightarrow> wadb_predicate \<Rightarrow> bool" where
  "predicate_holds s values f =
     (let v = values ! pr_field f in
      case pr_op f of
        WADB_IS_NULL \<Rightarrow> is_null v
      | WADB_IS_NOT_NULL \<Rightarrow> \<not> is_null v
      | op \<Rightarrow>
          \<not> is_null v \<and>
          (let c = wadb_value_compare (f_type (schema_fields s ! pr_field f)) v (pr_value f) in
           case op of
             WADB_EQ \<Rightarrow> c = 0
           | WADB_NE \<Rightarrow> c \<noteq> 0
           | WADB_LT \<Rightarrow> c < 0
           | WADB_LE \<Rightarrow> c \<le> 0
           | WADB_GT \<Rightarrow> c > 0
           | _ \<Rightarrow> c \<ge> 0))"

definition matches_filters :: "wadb_query_plan \<Rightarrow> wadb_value list \<Rightarrow> bool" where
  "matches_filters p values \<longleftrightarrow> list_all (predicate_holds (pl_schema p) values) (pl_filters p)"

definition key_bits :: "wadb_type \<Rightarrow> wadb_value \<Rightarrow> u64" where
  "key_bits type v =
     (if wadb_type_bytes type then of_nat (carr_length (as_bytes v))
      else if wadb_type_float type then (if f64_key (as_word v) = 0 then 0 else as_word v)
      else as_word v)"

definition hash_key :: "wadb_type \<Rightarrow> wadb_value \<Rightarrow> u64 \<Rightarrow> u64" where
  "hash_key type v hash =
     (if is_null v then wadb_hash [1] hash
      else
        (let hash = wadb_hash ([0] @ wadb_put_u64 (key_bits type v)) hash in
         if wadb_type_bytes type then wadb_hash (take (carr_length (as_bytes v)) (carr_items (as_bytes v))) hash
         else hash))"

definition key_types :: "wadb_query_plan \<Rightarrow> wadb_type list" where
  "key_types p = map rc_type (take (pl_key_count p) (pl_columns p))"

definition hash_keys :: "wadb_query_plan \<Rightarrow> wadb_value list \<Rightarrow> u64" where
  "hash_keys p keys = fold (\<lambda>(type, v) hash. hash_key type v hash) (zip (key_types p) keys) 14695981039346656037"

definition keys_equal :: "wadb_query_plan \<Rightarrow> wadb_value list \<Rightarrow> wadb_value list \<Rightarrow> bool" where
  "keys_equal p as bs \<longleftrightarrow> list_all (\<lambda>(type, a, b). wadb_value_compare type a b = 0) (zip (key_types p) (zip as bs))"

definition group_hit :: "execution \<Rightarrow> u64 \<Rightarrow> wadb_value list \<Rightarrow> nat \<Rightarrow> bool" where
  "group_hit x hash keys i \<longleftrightarrow>
     gr_hash (ex_groups x ! i) = hash \<and> keys_equal (ex_plan x) (gr_keys (ex_groups x ! i)) keys"

definition find_group :: "execution \<Rightarrow> u64 \<Rightarrow> wadb_value list \<Rightarrow> nat option" where
  "find_group x hash keys =
     (if length (ex_slots x) = 0 then None
      else
        (let slot = find_slot (group_hit x hash keys) (ex_slots x) (hash_slot (length (ex_slots x)) hash) in
         if ex_slots x ! slot = 0 then None else Some (ex_slots x ! slot - 1)))"

definition grow_groups :: "unit exec" where
  "grow_groups = (\<lambda>(w, x).
     if length (ex_groups x) = ex_group_capacity x then
       (let cap0 = (if ex_group_capacity x \<noteq> 0 then ex_group_capacity x * 2 else 16);
            cap = min cap0 (qo_max_groups (pl_options (ex_plan x))) in
        bind_io (charge ((cap - ex_group_capacity x) * SIZEOF_QUERY_GROUP)) (\<lambda>_.
          bind_io (system (call WADB_NOMEM)) (\<lambda>_.
            update (\<lambda>x. x\<lparr>ex_group_capacity := cap\<rparr>))) (w, x))
     else ((w, x), Inr ()))"

fun rehash_groups :: "query_group list \<Rightarrow> nat \<Rightarrow> nat list \<Rightarrow> nat list" where
  "rehash_groups [] i slots = slots"
| "rehash_groups (g # gs) i slots = rehash_groups gs (i + 1) (insert_slot slots (gr_hash g) (i + 1))"

definition grow_group_slots :: "unit exec" where
  "grow_group_slots = (\<lambda>(w, x).
     if length (ex_slots x) < (length (ex_groups x) + 1) * 2 then
       (let count = (if length (ex_slots x) \<noteq> 0 then length (ex_slots x) * 2 else 32) in
        bind_io (charge (count * SIZEOF_U32)) (\<lambda>_.
          bind_io (system (call WADB_NOMEM)) (\<lambda>_.
            update (\<lambda>x. x\<lparr>ex_slots := rehash_groups (ex_groups x) 0 (replicate count 0),
                           ex_used := sub64 (ex_used x) (length (ex_slots x) * SIZEOF_U32)\<rparr>))) (w, x))
     else ((w, x), Inr ()))"

text \<open>A new group: counters start at zero, the other aggregates at null.\<close>

definition new_group :: "wadb_query_plan \<Rightarrow> u64 \<Rightarrow> wadb_value list \<Rightarrow> query_group" where
  "new_group p hash keys =
     \<lparr>gr_hash = hash, gr_keys = keys,
      gr_aggregates = map (\<lambda>r. (word_value 0)\<lparr>is_null := \<not> (rd_op r = WADB_COUNT_ALL \<or> rd_op r = WADB_COUNT)\<rparr>) (pl_aggregates p),
      gr_nonnull = replicate (length (pl_aggregates p)) 0\<rparr>"

definition add_group :: "u64 \<Rightarrow> wadb_value list \<Rightarrow> nat exec" where
  "add_group hash keys = (\<lambda>(w, x).
     let p = ex_plan x; index = length (ex_groups x) in
     case copy_values (zip (key_types p) keys) (w, x) of
       ((w', x'), copied, Inl e) \<Rightarrow>
         ((w', x'\<lparr>ex_groups := ex_groups x' @ [new_group p hash (copied @ replicate (pl_key_count p - length copied) (word_value 0))]\<rparr>), Inl e)
     | ((w', x'), copied, Inr _) \<Rightarrow>
         ((w', x'\<lparr>ex_groups := ex_groups x' @ [new_group p hash copied],
                 ex_slots := insert_slot (ex_slots x') hash (index + 1)\<rparr>), Inr index))"

definition group_for :: "wadb_value list \<Rightarrow> nat exec" where
  "group_for keys = (\<lambda>(w, x).
     let p = ex_plan x; hash = hash_keys p keys in
     case find_group x hash keys of
       Some i \<Rightarrow> ((w, x), Inr i)
     | None \<Rightarrow>
         if length (ex_groups x) = qo_max_groups (pl_options p) then ((w, x), Inl WADB_LIMIT)
         else bind_io grow_groups (\<lambda>_. bind_io grow_group_slots (\<lambda>_. add_group hash keys)) (w, x))"

text \<open>One aggregate of one row: the new value and count, or overflow.\<close>

definition reduce_value ::
  "wadb_aggregate_op \<Rightarrow> wadb_type \<Rightarrow> wadb_value \<Rightarrow> nat \<Rightarrow> wadb_value \<Rightarrow> (wadb_value \<times> nat) res" where
  "reduce_value op type out seen v =
     (if op \<noteq> WADB_COUNT_ALL \<and> is_null v then Inr (out, seen)
      else if seen = UINT64_MAX then Inl WADB_LIMIT
      else
        (let n = seen + 1 in
         if op = WADB_COUNT_ALL \<or> op = WADB_COUNT then Inr (out\<lparr>as_word := of_nat n\<rparr>, n)
         else if op = WADB_AVG then
           (let value = (if wadb_type_float type then as_word v
                         else if wadb_type_signed type then f64_of_int (as_i64 v)
                         else f64_of_int (int (unat (as_word v))));
                mean = (if n = 1 then value
                        else f64_add (f64_mul (as_word out) (f64_div (f64_of_int (int (n - 1))) (f64_of_int (int n))))
                               (f64_div value (f64_of_int (int n))))
            in if \<not> f64_isfinite mean then Inl WADB_LIMIT else Inr (out\<lparr>as_word := mean, is_null := False\<rparr>, n))
         else if n = 1 then Inr (v\<lparr>is_null := False\<rparr>, n)
         else if op = WADB_SUM then
           (if wadb_type_float type then
              (let z = f64_add (as_word out) (as_word v) in
               if \<not> f64_isfinite z then Inl WADB_LIMIT else Inr (out\<lparr>as_word := z, is_null := False\<rparr>, n))
            else if wadb_type_signed type then
              (if (as_i64 v > 0 \<and> as_i64 out > INT64_MAX - as_i64 v) \<or> (as_i64 v < 0 \<and> as_i64 out < INT64_MIN - as_i64 v)
               then Inl WADB_LIMIT
               else Inr (out\<lparr>as_word := word_of_int (as_i64 out + as_i64 v), is_null := False\<rparr>, n))
            else
              (if unat (as_word v) > UINT64_MAX - unat (as_word out) then Inl WADB_LIMIT
               else Inr (out\<lparr>as_word := as_word out + as_word v, is_null := False\<rparr>, n)))
         else
           (let cmp = wadb_value_compare type v out;
                best = (if (op = WADB_MIN \<and> cmp < 0) \<or> (op = WADB_MAX \<and> cmp > 0) then v else out)
            in Inr (best\<lparr>is_null := False\<rparr>, n))))"

fun reduce_all ::
  "wadb_schema \<Rightarrow> wadb_value list \<Rightarrow> wadb_reduction list \<Rightarrow> wadb_value list \<Rightarrow> nat list \<Rightarrow>
   (wadb_value list \<times> nat list) \<times> unit res" where
  "reduce_all s values (r # rs) (out # outs) (n # ns) =
     (case reduce_value (rd_op r) (f_type (schema_fields s ! rd_field r)) out n (values ! rd_field r) of
        Inl e \<Rightarrow> ((out # outs, n # ns), Inl e)
      | Inr (out', n') \<Rightarrow>
          (case reduce_all s values rs outs ns of ((outs', ns'), res) \<Rightarrow> ((out' # outs', n' # ns'), res)))"
| "reduce_all s values _ outs ns = ((outs, ns), Inr ())"

definition reduce :: "nat \<Rightarrow> wadb_value list \<Rightarrow> unit exec" where
  "reduce i values = (\<lambda>(w, x).
     let g = ex_groups x ! i; p = ex_plan x in
     case reduce_all (pl_schema p) values (pl_aggregates p) (gr_aggregates g) (gr_nonnull g) of
       ((outs, ns), r) \<Rightarrow>
         ((w, x\<lparr>ex_groups := (ex_groups x)[i := g\<lparr>gr_aggregates := outs, gr_nonnull := ns\<rparr>]\<rparr>), r))"

definition group_keys :: "wadb_query_plan \<Rightarrow> wadb_value list \<Rightarrow> wadb_value list res" where
  "group_keys p values =
     (let fields = map (nth values) (pl_groups p); o1 = pl_options p in
      if qo_bucket_width_us o1 \<noteq> 0 then
        bind_res (wadb_bucket_floor (as_i64 (values ! 0)) (qo_bucket_width_us o1) (qo_bucket_origin_us o1)) (\<lambda>b.
          Inr (word_value (word_of_int b) # fields))
      else Inr fields)"

text \<open>The row callback; \<^verbatim>\<open>WADB_CANCELLED\<close> with \<open>ex_stopped\<close> means that the result is full.\<close>

definition consume :: "nat \<Rightarrow> wadb_value list \<Rightarrow> unit exec" where
  "consume sequence values = (\<lambda>(w, x0).
     let p = ex_plan x0; x = x0\<lparr>ex_last_sequence := sequence\<rparr> in
     if \<not> matches_filters p values then ((w, x), Inr ())
     else if ex_matched_rows x = UINT64_MAX then ((w, x), Inl WADB_LIMIT)
     else
       (let x = x\<lparr>ex_matched_rows := ex_matched_rows x + 1\<rparr> in
        if aggregate_count p = 0 then
          (case result_row (map (nth values) (pl_projection p)) sequence (w, x) of
             (s, Inl e) \<Rightarrow> (s, Inl e)
           | ((w', x'), Inr _) \<Rightarrow>
               if length (ex_rows x') = so_limit (qo_scan (pl_options p))
               then ((w', x'\<lparr>ex_stopped := True\<rparr>), Inl WADB_CANCELLED)
               else ((w', x'), Inr ()))
        else
          (case group_keys p values of
             Inl e \<Rightarrow> ((w, x), Inl e)
           | Inr keys \<Rightarrow> bind_io (group_for keys) (\<lambda>i. reduce i values) (w, x))))"

definition order_value :: "execution \<Rightarrow> nat \<Rightarrow> wadb_value" where
  "order_value x a =
     (let col = nat (pl_order (ex_plan x)); k = pl_key_count (ex_plan x); g = ex_groups x ! a in
      if col < k then gr_keys g ! col else gr_aggregates g ! (col - k))"

definition compare_groups :: "execution \<Rightarrow> nat \<Rightarrow> nat \<Rightarrow> int" where
  "compare_groups x a b =
     (let p = ex_plan x; va = order_value x a; vb = order_value x b;
          cmp = wadb_value_compare (rc_type (pl_columns p ! nat (pl_order p))) va vb;
          cmp = (if \<not> is_null va \<and> \<not> is_null vb \<and> qo_descending (pl_options p) then - cmp else cmp)
      in if cmp \<noteq> 0 then cmp else three_way (a > b) (a < b))"

text \<open>Merging \<^verbatim>\<open>order[start..mid)\<close> and \<^verbatim>\<open>order[mid..end)\<close> into \<^verbatim>\<open>tmp\<close>.\<close>

fun merge_runs :: "(nat \<Rightarrow> nat \<Rightarrow> int) \<Rightarrow> nat list \<Rightarrow> nat list \<Rightarrow> nat list" where
  "merge_runs cmp (a # as) (b # bs) =
     (if cmp a b \<le> 0 then a # merge_runs cmp as (b # bs) else b # merge_runs cmp (a # as) bs)"
| "merge_runs cmp [] bs = bs"
| "merge_runs cmp as [] = as"

function merge_pass :: "(nat \<Rightarrow> nat \<Rightarrow> int) \<Rightarrow> nat \<Rightarrow> nat list \<Rightarrow> nat list" where
  "merge_pass cmp width order =
     (if order = [] \<or> width = 0 then []
      else merge_runs cmp (take width order) (take width (drop width order)) @ merge_pass cmp width (drop (2 * width) order))"
  by pat_completeness auto
termination by (relation "measure (\<lambda>(cmp, width, order). length order)") auto

declare merge_pass.simps [simp del]

lemma length_merge_runs [simp]: "length (merge_runs cmp as bs) = length as + length bs"
  by (induction cmp as bs rule: merge_runs.induct) simp_all

lemma length_merge_pass [simp]: "0 < width \<Longrightarrow> length (merge_pass cmp width order) = length order"
proof (induction cmp width order rule: merge_pass.induct)
  case (1 cmp width order)
  then show ?case by (subst merge_pass.simps) auto
qed

function sort_loop :: "nat \<Rightarrow> nat list \<Rightarrow> nat list exec" where
  "sort_loop width order (w, x) =
     (if 0 < width \<and> width < length order then
        (case clock_ns w of (w', now) \<Rightarrow>
           if now \<ge> ex_deadline x then ((w', x), Inl WADB_LIMIT)
           else sort_loop (width * 2) (merge_pass (compare_groups x) width order) (w', x))
      else ((w, x), Inr order))"
  by pat_completeness auto
termination
  by (relation "measure (\<lambda>(width, order, w, x). length order - width)") auto

declare sort_loop.simps [simp del]

fun emit_rows :: "nat \<Rightarrow> nat list \<Rightarrow> unit exec" where
  "emit_rows i [] s = (s, Inr ())"
| "emit_rows i (g # gs) (w, x) =
     (case (if i mod 256 = 0 then clock_ns w else (w, 0)) of (w', now) \<Rightarrow>
        if i mod 256 = 0 \<and> now \<ge> ex_deadline x then ((w', x), Inl WADB_LIMIT)
        else bind_io (result_row (gr_keys (ex_groups x ! g) @ gr_aggregates (ex_groups x ! g)) 0) (\<lambda>_. emit_rows (i + 1) gs) (w', x))"

definition emit_groups :: "unit exec" where
  "emit_groups = (\<lambda>(w, x0).
     let n = length (ex_groups x0); x = x0\<lparr>ex_total_groups := n\<rparr>; p = ex_plan x in
     if n = 0 then ((w, x), Inr ())
     else
       bind_io (charge (n * 2 * SIZEOF_U64)) (\<lambda>_.
         bind_io (system (call WADB_NOMEM)) (\<lambda>_. bind_io (system (call WADB_NOMEM)) (\<lambda>_.
           bind_io (if pl_order p \<ge> 0 then sort_loop 1 [0..<n] else return_io [0..<n]) (\<lambda>order.
             emit_rows 0 (take (so_limit (qo_scan (pl_options p))) order))))) (w, x))"

section \<open>Merge sort\<close>

text \<open>Lemmas for any comparison that is a total preorder on the elements being sorted.\<close>

definition total_on :: "nat set \<Rightarrow> (nat \<Rightarrow> nat \<Rightarrow> int) \<Rightarrow> bool" where
  "total_on A cmp \<longleftrightarrow> (\<forall>a \<in> A. \<forall>b \<in> A. cmp a b \<le> 0 \<or> cmp b a \<le> 0) \<and>
     (\<forall>a \<in> A. \<forall>b \<in> A. \<forall>c \<in> A. cmp a b \<le> 0 \<longrightarrow> cmp b c \<le> 0 \<longrightarrow> cmp a c \<le> 0)"

lemma total_on_total: "total_on A cmp \<Longrightarrow> a \<in> A \<Longrightarrow> b \<in> A \<Longrightarrow> cmp a b \<le> 0 \<or> cmp b a \<le> 0"
  unfolding total_on_def by blast

lemma total_on_trans:
  "total_on A cmp \<Longrightarrow> cmp a b \<le> 0 \<Longrightarrow> cmp b c \<le> 0 \<Longrightarrow> a \<in> A \<Longrightarrow> b \<in> A \<Longrightarrow> c \<in> A \<Longrightarrow> cmp a c \<le> 0"
  unfolding total_on_def by blast

lemma total_on_subset: "total_on A cmp \<Longrightarrow> B \<subseteq> A \<Longrightarrow> total_on B cmp"
  unfolding total_on_def by (meson subsetD)

abbreviation in_order :: "(nat \<Rightarrow> nat \<Rightarrow> int) \<Rightarrow> nat list \<Rightarrow> bool" where
  "in_order cmp xs \<equiv> sorted_wrt (\<lambda>a b. cmp a b \<le> 0) xs"

lemma mset_merge_runs [simp]: "mset (merge_runs cmp as bs) = mset as + mset bs"
  by (induction cmp as bs rule: merge_runs.induct) simp_all

lemma set_merge_runs [simp]: "set (merge_runs cmp as bs) = set as \<union> set bs"
  by (metis mset_merge_runs set_mset_mset set_mset_union)

lemma merge_runs_in_order:
  "total_on (set as \<union> set bs) cmp \<Longrightarrow> in_order cmp as \<Longrightarrow> in_order cmp bs \<Longrightarrow> in_order cmp (merge_runs cmp as bs)"
proof (induction cmp as bs rule: merge_runs.induct)
  case (1 cmp a as b bs)
  have t: "total_on (set as \<union> set (b # bs)) cmp" "total_on (set (a # as) \<union> set bs) cmp"
    by (rule total_on_subset [OF 1(3)], auto)+
  show ?case
  proof (cases "cmp a b \<le> 0")
    case True
    have "cmp a c \<le> 0" if "c \<in> set bs" for c
      using total_on_trans [OF 1(3) True, of c] 1(5) that by simp
    then show ?thesis using 1(1) [OF True t(1)] 1(4,5) True by auto
  next
    case False
    then have ba: "cmp b a \<le> 0" using total_on_total [OF 1(3), of a b] by simp
    have "cmp b c \<le> 0" if "c \<in> set as" for c
      using total_on_trans [OF 1(3) ba, of c] 1(4) that by simp
    then show ?thesis using 1(2) [OF False t(2)] 1(4,5) False ba by auto
  qed
qed auto

text \<open>Every run of \<open>width\<close> elements is in order.\<close>

function runs :: "(nat \<Rightarrow> nat \<Rightarrow> int) \<Rightarrow> nat \<Rightarrow> nat list \<Rightarrow> bool" where
  "runs cmp width xs =
     (if xs = [] \<or> width = 0 then True
      else if in_order cmp (take width xs) then runs cmp width (drop width xs) else False)"
  by pat_completeness auto
termination by (relation "measure (\<lambda>(cmp, width, xs). length xs)") auto

declare runs.simps [simp del]

lemma runs_Nil [simp]: "runs cmp w []"
  by (simp add: runs.simps)

lemma mset_merge_pass [simp]: "0 < width \<Longrightarrow> mset (merge_pass cmp width xs) = mset xs"
proof (induction cmp width xs rule: merge_pass.induct)
  case (1 cmp width xs)
  have "mset xs = mset (take width xs) + (mset (take width (drop width xs)) + mset (drop (2 * width) xs))"
    by (simp only: flip: mset_append) (simp add: mult_2 append_take_drop_id drop_drop [symmetric] del: drop_drop)
  then show ?case using 1 by (subst merge_pass.simps) auto
qed

lemma set_merge_pass [simp]: "0 < width \<Longrightarrow> set (merge_pass cmp width xs) = set xs"
  by (metis mset_merge_pass set_mset_mset)

lemma runs_merge_pass:
  "0 < width \<Longrightarrow> total_on (set xs) cmp \<Longrightarrow> runs cmp width xs \<Longrightarrow> runs cmp (width * 2) (merge_pass cmp width xs)"
proof (induction cmp width xs rule: merge_pass.induct)
  case (1 cmp width xs)
  show ?case
  proof (cases "xs = []")
    case True
    then show ?thesis by (simp add: merge_pass.simps)
  next
    case False
    let ?a = "take width xs" and ?b = "take width (drop width xs)" and ?r = "drop (2 * width) xs"
    have r: "in_order cmp ?a" "runs cmp width (drop width xs)" using 1(4) False 1(2) by (auto simp: runs.simps [of cmp width xs] split: if_splits)
    have b: "in_order cmp ?b" "runs cmp width ?r"
      using r(2) 1(2) by (cases "drop width xs = []"; simp add: runs.simps [of cmp width "drop width xs"] mult_2 add.commute split: if_splits)+
    have sub: "set ?a \<union> set ?b \<subseteq> set xs" "set ?r \<subseteq> set xs"
      by (auto dest: in_set_takeD in_set_dropD)
    have t: "total_on (set ?a \<union> set ?b) cmp" "total_on (set ?r) cmp"
      using total_on_subset [OF 1(3)] sub by blast+
    have m: "in_order cmp (merge_runs cmp ?a ?b)" using merge_runs_in_order [OF t(1) r(1) b(1)] .
    have eq: "merge_pass cmp width xs = merge_runs cmp ?a ?b @ merge_pass cmp width ?r"
      using False 1(2) by (subst merge_pass.simps) simp
    have "runs cmp (width * 2) (merge_pass cmp width ?r)" using 1(1) False 1(2) t(2) b(2) by blast
    moreover have "take (width * 2) (merge_pass cmp width xs) = merge_runs cmp ?a ?b \<and>
        drop (width * 2) (merge_pass cmp width xs) = merge_pass cmp width ?r"
    proof (cases "2 * width \<le> length xs")
      case True
      then have "length (merge_runs cmp ?a ?b) = width * 2" by simp
      then show ?thesis unfolding eq by simp
    next
      case False
      then have "?r = []" by simp
      then have "merge_pass cmp width ?r = []" by (simp add: merge_pass.simps)
      moreover have "length (merge_runs cmp ?a ?b) \<le> width * 2" by simp
      ultimately show ?thesis unfolding eq by simp
    qed
    ultimately show ?thesis using m by (subst runs.simps) simp
  qed
qed

lemma sort_loop_ok:
  assumes "sort_loop width order (w, x) = (s, Inr order')" "0 < width" "total_on (set order) (compare_groups x)"
    "runs (compare_groups x) width order"
  shows "snd s = x \<and> mset order' = mset order \<and> in_order (compare_groups x) order'"
  using assms
proof (induction width order w x rule: sort_loop.induct [split_format (complete)])
  case (1 width order w x)
  show ?case
  proof (cases "width < length order")
    case True
    obtain w' now where c: "clock_ns w = (w', now)" by fastforce
    have rec: "\<not> ex_deadline x \<le> now" "sort_loop (width * 2) (merge_pass (compare_groups x) width order) (w', x) = (s, Inr order')"
      using 1(2) True 1(3) c by (auto simp: sort_loop.simps [of width order] split: if_splits)
    have "snd s = x \<and> mset order' = mset (merge_pass (compare_groups x) width order) \<and> in_order (compare_groups x) order'"
      using 1(1) [OF _ c [symmetric] rec(1) rec(2)] True 1(3,4) runs_merge_pass [OF 1(3-5)] by simp
    then show ?thesis using 1(3) by simp
  next
    case False
    then have "order' = order" "snd s = x" using 1(2) by (auto simp: sort_loop.simps)
    moreover have "take width order = order" using False by simp
    then have "in_order (compare_groups x) order" using 1(3,5) by (cases "order = []") (auto simp: runs.simps split: if_splits)
    ultimately show ?thesis by simp
  qed
qed

lemma runs_one: "runs cmp 1 xs"
proof (induction xs)
  case (Cons a xs)
  then show ?case by (subst runs.simps) simp
qed simp

text \<open>The comparison of groups is total on groups whose ordering values are comparable.\<close>

definition order_type :: "execution \<Rightarrow> wadb_type" where
  "order_type x = rc_type (pl_columns (ex_plan x) ! nat (pl_order (ex_plan x)))"

lemma compare_groups_total:
  assumes "\<forall>a \<in> A. comparable (order_type x) (order_value x a)"
  shows "total_on A (compare_groups x)"
proof -
  let ?t = "order_type x" and ?v = "order_value x" and ?d = "qo_descending (pl_options (ex_plan x))"
  define k where "k a b = (if \<not> is_null (?v a) \<and> \<not> is_null (?v b) \<and> ?d then - wadb_value_compare ?t (?v a) (?v b)
    else wadb_value_compare ?t (?v a) (?v b))" for a b
  have cg: "compare_groups x a b = (if k a b \<noteq> 0 then k a b else three_way (a > b) (a < b))" for a b
    by (simp add: compare_groups_def k_def order_type_def Let_def)
  have anti: "k a b = - k b a" if "a \<in> A" "b \<in> A" for a b
    using value_compare_laws(1) [of ?t "?v a" "?v b" "?v b"] assms that by (auto simp: k_def)
  have null: "wadb_value_compare t a b = (if is_null a then 1 else 0) - (if is_null b then 1 else 0)"
    if "is_null a \<or> is_null b" for t a b using that by (auto simp: wadb_value_compare_def)
  have trans: "k a c \<le> 0" if "a \<in> A" "b \<in> A" "c \<in> A" "k a b \<le> 0" "k b c \<le> 0" for a b c
  proof (cases "?d \<and> \<not> is_null (?v a) \<and> \<not> is_null (?v b) \<and> \<not> is_null (?v c)")
    case True
    have "wadb_value_compare ?t (?v c) (?v b) \<le> 0" "wadb_value_compare ?t (?v b) (?v a) \<le> 0"
      using that True anti [OF that(1,2)] anti [OF that(2,3)] by (simp_all add: k_def)
    then have "wadb_value_compare ?t (?v c) (?v a) \<le> 0"
      using value_compare_laws(2) [of ?t "?v c" "?v b" "?v a"] assms that by blast
    then show ?thesis using True anti [OF that(1,3)] by (simp add: k_def)
  next
    case False
    show ?thesis
    proof (cases "?d")
      case False
      then show ?thesis using value_compare_laws(2) [of ?t "?v a" "?v b" "?v c"] assms that by (simp add: k_def)
    next
      case True
      with False show ?thesis using that null [of "?v a" "?v b" ?t] null [of "?v b" "?v c" ?t] null [of "?v a" "?v c" ?t]
        by (auto simp: k_def split: if_splits)
    qed
  qed
  have le: "compare_groups x a b \<le> 0 \<longleftrightarrow> k a b < 0 \<or> k a b = 0 \<and> a \<le> b" for a b
    by (auto simp: cg three_way_def)
  show ?thesis
    unfolding total_on_def le
  proof (intro conjI ballI impI)
    fix a b assume "a \<in> A" "b \<in> A"
    then show "(k a b < 0 \<or> k a b = 0 \<and> a \<le> b) \<or> k b a < 0 \<or> k b a = 0 \<and> b \<le> a"
      using anti [of a b] by auto
  next
    fix a b c assume m: "a \<in> A" "b \<in> A" "c \<in> A" "k a b < 0 \<or> k a b = 0 \<and> a \<le> b" "k b c < 0 \<or> k b c = 0 \<and> b \<le> c"
    have "k a b \<le> 0" "k b c \<le> 0" using m(4,5) by linarith+
    then have ac: "k a c \<le> 0" using trans [OF m(1-3)] by blast
    show "k a c < 0 \<or> k a c = 0 \<and> a \<le> c"
    proof (cases "k a c = 0")
      case True
      have "k c a \<le> 0" using True anti [OF m(1,3)] by simp
      moreover have "k a b \<le> 0" "k b c \<le> 0" using m(4,5) by linarith+
      ultimately have "k b a \<le> 0" "k c b \<le> 0" using trans [OF m(2,3,1)] trans [OF m(3,1,2)] by blast+
      then have "k a b = 0" "k b c = 0" using anti [OF m(1,2)] anti [OF m(2,3)] m(4,5) by auto
      then show ?thesis using m True by auto
    qed (use ac in auto)
  qed
qed

section \<open>Group keys\<close>

text \<open>Values that compare equal are hashed equally.\<close>

lemma f64_key_inj: "f64_key a = f64_key b \<Longrightarrow> f64_key a \<noteq> 0 \<Longrightarrow> a = b"
proof -
  assume e: "f64_key a = f64_key b" "f64_key a \<noteq> 0"
  have s: "bit a 63 = bit b 63"
  proof (rule ccontr)
    assume "bit a 63 \<noteq> bit b 63"
    moreover define m n where "m = unat (take_bit 63 a)" and "n = unat (take_bit 63 b)"
    ultimately show False using e unfolding f64_key_def m_def [symmetric] n_def [symmetric] by (cases "bit a 63"; simp)
  qed
  then have t: "take_bit 63 a = take_bit 63 b"
    using e by (auto simp: f64_key_def split: if_splits intro: unsigned_word_eqI)
  show "a = b"
  proof (rule bit_word_eqI)
    fix k assume "k < LENGTH(64)"
    show "bit a k = bit b k"
    proof (cases "k < 63")
      case True
      then show ?thesis using arg_cong [OF t, of "\<lambda>w. bit w k"] by (simp add: bit_take_bit_iff)
    next
      case False
      then have "k = 63" using \<open>k < LENGTH(64)\<close> by simp
      then show ?thesis using s by simp
    qed
  qed
qed

lemma compare_zero:
  assumes "comparable t a" "comparable t b"
  shows "wadb_value_compare t a b = 0 \<longleftrightarrow>
    (is_null a \<longleftrightarrow> is_null b) \<and> (\<not> is_null a \<longrightarrow>
      (if wadb_type_bytes t then carr_items (as_bytes a) = carr_items (as_bytes b) else number_of t a = number_of t b))"
  using value_compare_eq [OF assms] bytes_compare_order(3) by (auto simp: sign_of_def null_last_def)

lemma hash_key_cong:
  assumes "comparable t a" "comparable t b" "wadb_value_compare t a b = 0"
  shows "hash_key t a h = hash_key t b h"
proof (cases "is_null a")
  case True
  then show ?thesis using compare_zero [OF assms(1,2)] assms(3) by (simp add: hash_key_def)
next
  case False
  then have n: "\<not> is_null b" and e: "if wadb_type_bytes t then carr_items (as_bytes a) = carr_items (as_bytes b) else number_of t a = number_of t b"
    using compare_zero [OF assms(1,2)] assms(3) by simp_all
  show ?thesis
  proof (cases "wadb_type_bytes t")
    case True
    then have "carr_length (as_bytes a) = length (carr_items (as_bytes a))" "carr_length (as_bytes b) = length (carr_items (as_bytes b))"
      using assms(1,2) False n by (simp_all add: comparable_def)
    then show ?thesis using e True False n by (simp add: hash_key_def key_bits_def)
  next
    case nb: False
    have "key_bits t a = key_bits t b"
    proof (cases "wadb_type_float t")
      case True
      then have "\<not> wadb_type_signed t" by (auto simp: wadb_type_float_def wadb_type_signed_def)
      then show ?thesis using e nb True f64_key_inj [of "as_word a" "as_word b"] by (simp add: key_bits_def number_of_def)
    next
      case fl: False
      then have "as_word a = as_word b"
        using e nb by (auto simp: number_of_def as_i64_def split: if_splits intro: signed_word_eqI unsigned_word_eqI)
      then show ?thesis using fl nb by (simp add: key_bits_def)
    qed
    then show ?thesis using nb n False by (simp add: hash_key_def)
  qed
qed

definition keys_valid :: "wadb_query_plan \<Rightarrow> wadb_value list \<Rightarrow> bool" where
  "keys_valid p ks \<longleftrightarrow> list_all2 comparable (key_types p) ks"

lemma keys_equal_nth:
  assumes "keys_valid p as" "keys_valid p bs"
  shows "keys_equal p as bs \<longleftrightarrow> (\<forall>i < length (key_types p). wadb_value_compare (key_types p ! i) (as ! i) (bs ! i) = 0)"
  using assms by (auto simp: keys_equal_def keys_valid_def list_all_length list_all2_lengthD dest!: list_all2_lengthD)

lemma keys_valid_nth: "keys_valid p as \<Longrightarrow> i < length (key_types p) \<Longrightarrow> comparable (key_types p ! i) (as ! i)"
  by (simp add: keys_valid_def list_all2_conv_all_nth)

lemma keys_equal_refl: "keys_valid p as \<Longrightarrow> keys_equal p as as"
  using keys_equal_nth [of p as as] compare_zero keys_valid_nth by auto

lemma keys_equal_sym:
  assumes "keys_valid p as" "keys_valid p bs" "keys_equal p as bs" shows "keys_equal p bs as"
  unfolding keys_equal_nth [OF assms(2,1)]
proof (intro allI impI)
  fix i assume i: "i < length (key_types p)"
  have "wadb_value_compare (key_types p ! i) (as ! i) (bs ! i) = 0" using assms i keys_equal_nth by blast
  then show "wadb_value_compare (key_types p ! i) (bs ! i) (as ! i) = 0"
    using compare_zero keys_valid_nth [OF assms(1) i] keys_valid_nth [OF assms(2) i] by metis
qed

lemma keys_equal_trans:
  assumes v: "keys_valid p as" "keys_valid p bs" "keys_valid p cs" and "keys_equal p as bs" "keys_equal p bs cs"
  shows "keys_equal p as cs"
  unfolding keys_equal_nth [OF v(1,3)]
proof (intro allI impI)
  fix i assume i: "i < length (key_types p)"
  have "wadb_value_compare (key_types p ! i) (as ! i) (bs ! i) = 0" "wadb_value_compare (key_types p ! i) (bs ! i) (cs ! i) = 0"
    using assms i keys_equal_nth by blast+
  then show "wadb_value_compare (key_types p ! i) (as ! i) (cs ! i) = 0"
    using compare_zero keys_valid_nth [OF v(1) i] keys_valid_nth [OF v(2) i] keys_valid_nth [OF v(3) i] by metis
qed

lemma hash_keys_cong:
  assumes "keys_valid p as" "keys_valid p bs" "keys_equal p as bs"
  shows "hash_keys p as = hash_keys p bs"
proof -
  have "fold (\<lambda>(type, v) hash. hash_key type v hash) (zip ts as) h = fold (\<lambda>(type, v) hash. hash_key type v hash) (zip ts bs) h"
    if "list_all2 comparable ts as" "list_all2 comparable ts bs"
      "\<forall>i < length ts. wadb_value_compare (ts ! i) (as ! i) (bs ! i) = 0" for ts h
    using that
  proof (induction ts as arbitrary: bs h rule: list_all2_induct)
    case (Cons t ts a as)
    then obtain b bs' where b: "bs = b # bs'" "comparable t b" "list_all2 comparable ts bs'" by (auto simp: list_all2_Cons1)
    have "wadb_value_compare t a b = 0" using Cons.prems(2) b(1) by force
    moreover have "\<forall>i < length ts. wadb_value_compare (ts ! i) (as ! i) (bs' ! i) = 0" using Cons.prems(2) b(1) by force
    ultimately show ?case using hash_key_cong [OF Cons.hyps(1) b(2)] Cons.IH [OF b(3)] b(1) by simp
  qed simp
  then show ?thesis using assms keys_equal_nth by (auto simp: hash_keys_def keys_valid_def)
qed

section \<open>The group table\<close>

definition memory_limit :: "execution \<Rightarrow> nat" where
  "memory_limit x = qo_memory_limit_bytes (pl_options (ex_plan x))"

definition group_slots_ok :: "query_group list \<Rightarrow> nat list \<Rightarrow> bool" where
  "group_slots_ok gs slots \<longleftrightarrow>
     (slots = [] \<and> gs = []) \<or>
     (32 \<le> length slots \<and> 2 * length gs \<le> length slots \<and> table_ok slots (map gr_hash gs))"

definition budget_ok :: "execution \<Rightarrow> bool" where
  "budget_ok x \<longleftrightarrow> ex_used x \<le> memory_limit x \<and> memory_limit x \<le> UINT64_MAX \<and> SIZEOF_U32 * length (ex_slots x) \<le> ex_used x"

definition groups_ok :: "execution \<Rightarrow> bool" where
  "groups_ok x \<longleftrightarrow>
     group_slots_ok (ex_groups x) (ex_slots x) \<and> budget_ok x \<and>
     (\<forall>g \<in> set (ex_groups x). keys_valid (ex_plan x) (gr_keys g) \<and> gr_hash g = hash_keys (ex_plan x) (gr_keys g)) \<and>
     (\<forall>i < length (ex_groups x). \<forall>j < i. \<not> keys_equal (ex_plan x) (gr_keys (ex_groups x ! j)) (gr_keys (ex_groups x ! i)))"

interpretation group_rehash: slot_rehash gr_hash rehash_groups
  by unfold_locales simp_all

lemma find_group_correct:
  assumes ok: "groups_ok x" and ks: "keys_valid (ex_plan x) ks"
  shows "case find_group x (hash_keys (ex_plan x) ks) ks of
      None \<Rightarrow> \<forall>i < length (ex_groups x). \<not> keys_equal (ex_plan x) (gr_keys (ex_groups x ! i)) ks
    | Some i \<Rightarrow> i < length (ex_groups x) \<and> keys_equal (ex_plan x) (gr_keys (ex_groups x ! i)) ks"
proof -
  let ?p = "ex_plan x" and ?gs = "ex_groups x" and ?slots = "ex_slots x" and ?h = "hash_keys (ex_plan x) ks"
  let ?hit = "group_hit x ?h ks"
  have v: "keys_valid ?p (gr_keys (?gs ! i))" "gr_hash (?gs ! i) = hash_keys ?p (gr_keys (?gs ! i))" if "i < length ?gs" for i
    using ok that by (auto simp: groups_ok_def)
  have hit: "?hit i \<longleftrightarrow> keys_equal ?p (gr_keys (?gs ! i)) ks" if "i < length ?gs" for i
    using v [OF that] hash_keys_cong [OF v(1) [OF that] ks] by (auto simp: group_hit_def)
  show ?thesis
  proof (cases "?slots = []")
    case True
    then have "?gs = []" using ok by (auto simp: groups_ok_def group_slots_ok_def)
    then show ?thesis using True by (simp add: find_group_def)
  next
    case False
    then have t: "table_ok ?slots (map gr_hash ?gs)" "length (map gr_hash ?gs) < length ?slots"
      using ok by (auto simp: groups_ok_def group_slots_ok_def)
    note search = table_search [OF t, where hit = ?hit and h = ?h]
    let ?f = "find_slot ?hit ?slots (hash_slot (length ?slots) ?h)"
    show ?thesis
    proof (cases "\<exists>i < length ?gs. ?hit i")
      case False
      then have "?slots ! ?f = 0" using search(4) by auto
      then show ?thesis using False hit \<open>?slots \<noteq> []\<close> by (simp add: find_group_def)
    next
      case True
      then obtain i where i: "i < length ?gs" "?hit i" by blast
      have uniq: "j = i" if "j < length (map gr_hash ?gs)" "?hit j" for j
      proof (rule ccontr)
        assume "j \<noteq> i"
        have j: "j < length ?gs" using that by simp
        have "keys_equal ?p (gr_keys (?gs ! i)) (gr_keys (?gs ! j))"
          using keys_equal_trans [OF v(1) [OF i(1)] ks v(1) [OF j]] keys_equal_sym [OF v(1) [OF j] ks] hit i j that by blast
        moreover have "keys_equal ?p (gr_keys (?gs ! j)) (gr_keys (?gs ! i))"
          using keys_equal_sym [OF v(1) [OF i(1)] v(1) [OF j]] calculation by blast
        ultimately show False using ok i(1) j \<open>j \<noteq> i\<close> unfolding groups_ok_def by (metis nat_neq_iff)
      qed
      have "?slots ! ?f = i + 1"
      proof (rule search(3))
        show "i < length (map gr_hash ?gs)" "?hit i" using i by simp_all
        show "map gr_hash ?gs ! i = ?h" using i by (simp add: group_hit_def)
        show "j = i" if "j < length (map gr_hash ?gs)" "?hit j" for j using uniq that by blast
      qed
      then show ?thesis using hit i \<open>?slots \<noteq> []\<close> by (simp add: find_group_def)
    qed
  qed
qed

text \<open>Charging and copying change the memory count only.\<close>

definition only_used :: "execution \<Rightarrow> execution \<Rightarrow> bool" where
  "only_used x x' \<longleftrightarrow> (\<exists>u. x' = x\<lparr>ex_used := u\<rparr> \<and> ex_used x \<le> u) \<and> (budget_ok x \<longrightarrow> budget_ok x')"

lemma only_used_refl [simp]: "only_used x x"
  unfolding only_used_def by (intro conjI exI [of _ "ex_used x"]) simp_all

lemma only_used_trans: "only_used x y \<Longrightarrow> only_used y z \<Longrightarrow> only_used x z"
  unfolding only_used_def by (elim conjE exE) (auto intro!: exI)

lemma only_used_fields:
  "only_used x y \<Longrightarrow> ex_plan y = ex_plan x \<and> ex_groups y = ex_groups x \<and> ex_slots y = ex_slots x
     \<and> ex_used x \<le> ex_used y \<and> ex_group_capacity y = ex_group_capacity x"
  by (auto simp: only_used_def)

lemma charge_ok:
  assumes "charge n (w, x) = (s, r)"
  shows "fst s = w \<and> (case r of Inl e \<Rightarrow> snd s = x \<and> e = WADB_LIMIT
    | Inr _ \<Rightarrow> snd s = x\<lparr>ex_used := ex_used x + n\<rparr> \<and> (budget_ok x \<longrightarrow> ex_used x + n \<le> memory_limit x))"
  using assms by (auto simp: charge_def budget_ok_def memory_limit_def sub64_exact split: if_splits)

lemma charge_only_used: "charge n (w, x) = (s, r) \<Longrightarrow> only_used x (snd s)"
  using charge_ok [of n w x s r] by (cases r) (auto simp: only_used_def budget_ok_def memory_limit_def)

lemma system_snd: "system m s0 = (s, r) \<Longrightarrow> snd s = snd s0"
  by (auto simp: system_def split: prod.splits)

lemma copy_value_ok:
  assumes "copy_value t v (w, x) = (s, r)" "comparable t v"
  shows "only_used x (snd s) \<and> (\<forall>c. r = Inr c \<longrightarrow> comparable t c \<and> wadb_value_compare t c v = 0)"
proof (cases "\<not> is_null v \<and> wadb_type_bytes t")
  case True
  let ?n = "carr_length (as_bytes v)"
  let ?c = "v\<lparr>as_bytes := CMem (take ?n (carr_items (as_bytes v)))\<rparr>"
  have c: "comparable t ?c" using assms(2) True by (simp add: comparable_def)
  then have z: "wadb_value_compare t ?c v = 0" using assms(2) True by (simp add: compare_zero) (simp add: comparable_def)
  obtain s1 r1 where c1: "charge (?n + 1) (w, x) = (s1, r1)" by fastforce
  obtain s2 r2 where c2: "system (call WADB_NOMEM) s1 = (s2, r2)" by fastforce
  have "only_used x (snd s1)" "snd s2 = snd s1"
    using charge_only_used [OF c1] system_snd [OF c2] by simp_all
  moreover have "s = (case r1 of Inl _ \<Rightarrow> s1 | Inr _ \<Rightarrow> s2)"
      "r = (case r1 of Inl e \<Rightarrow> Inl e | Inr _ \<Rightarrow> (case r2 of Inl e \<Rightarrow> Inl e | Inr _ \<Rightarrow> Inr ?c))"
    using assms(1) True c1 c2 by (auto simp: copy_value_def bind_io_def return_io_def Let_def split: sum.splits)
  ultimately show ?thesis using c z by (auto split: sum.splits)
next
  case False
  then have "s = (w, x)" "r = Inr v" using assms(1) by (simp_all add: copy_value_def return_io_def split: if_splits)
  then show ?thesis using assms(2) by (simp add: compare_zero)
qed

lemma copy_values_ok:
  "copy_values (zip ts vs) (w, x) = (s, cs, r) \<Longrightarrow> list_all2 comparable ts vs \<Longrightarrow>
     only_used x (snd s) \<and> (is_ok r \<longrightarrow> list_all2 comparable ts cs \<and> (\<forall>i < length ts. wadb_value_compare (ts ! i) (cs ! i) (vs ! i) = 0))"
proof (induction ts arbitrary: vs w x s cs r)
  case (Cons t ts)
  then obtain v vs' where v: "vs = v # vs'" "comparable t v" "list_all2 comparable ts vs'" by (auto simp: list_all2_Cons1)
  obtain s1 r1 where c1: "copy_value t v (w, x) = (s1, r1)" by fastforce
  note o1 = copy_value_ok [OF c1 v(2)]
  show ?case
  proof (cases r1)
    case (Inl e)
    then show ?thesis using Cons.prems(1) c1 v(1) o1 by auto
  next
    case (Inr c)
    obtain s2 cs2 r2 where c2: "copy_values (zip ts vs') s1 = (s2, cs2, r2)" by (metis prod_cases3)
    have eq: "s = s2" "cs = c # cs2" "r = r2" using Cons.prems(1) c1 c2 v(1) Inr by auto
    have "copy_values (zip ts vs') (fst s1, snd s1) = (s2, cs2, r2)" using c2 by simp
    note ih = Cons.IH [OF this v(3)]
    then show ?thesis using o1 Inr eq v(1) only_used_trans [of x "snd s1" "snd s2"] by (auto simp: nth_Cons split: nat.splits)
  qed
qed simp

lemma grow_groups_ok:
  assumes "grow_groups (w, x) = (s, r)"
  shows "ex_plan (snd s) = ex_plan x \<and> ex_groups (snd s) = ex_groups x \<and> ex_slots (snd s) = ex_slots x \<and> (budget_ok x \<longrightarrow> budget_ok (snd s))"
proof (cases "length (ex_groups x) = ex_group_capacity x")
  case True
  define cap where "cap = min (if ex_group_capacity x \<noteq> 0 then ex_group_capacity x * 2 else 16) (qo_max_groups (pl_options (ex_plan x)))"
  obtain s1 r1 where c1: "charge ((cap - ex_group_capacity x) * SIZEOF_QUERY_GROUP) (w, x) = (s1, r1)" by fastforce
  obtain s2 r2 where c2: "system (call WADB_NOMEM) s1 = (s2, r2)" by fastforce
  note u = charge_only_used [OF c1]
  have s2: "snd s2 = snd s1" using system_snd [OF c2] by simp
  have "snd s = snd s1 \<or> snd s = (snd s1)\<lparr>ex_group_capacity := cap\<rparr>"
    using assms True c1 c2 s2 unfolding cap_def
    by (auto simp: grow_groups_def bind_io_def update_def Let_def split: sum.splits prod.splits)
  moreover have "ex_plan (snd s1) = ex_plan x" "ex_groups (snd s1) = ex_groups x" "ex_slots (snd s1) = ex_slots x"
    using only_used_fields [OF u] by simp_all
  ultimately show ?thesis using u by (auto simp: only_used_def budget_ok_def memory_limit_def)
qed (use assms in \<open>auto simp: grow_groups_def\<close>)

lemma grow_group_slots_ok:
  assumes g: "grow_group_slots (w, x) = (s, Inr u)" and ok: "groups_ok x"
  shows "ex_plan (snd s) = ex_plan x \<and> ex_groups (snd s) = ex_groups x \<and> groups_ok (snd s) \<and>
    2 * (length (ex_groups x) + 1) \<le> length (ex_slots (snd s)) \<and> table_ok (ex_slots (snd s)) (map gr_hash (ex_groups x)) \<and> 32 \<le> length (ex_slots (snd s))"
proof (cases "length (ex_slots x) < (length (ex_groups x) + 1) * 2")
  case True
  define n where "n = (if length (ex_slots x) \<noteq> 0 then length (ex_slots x) * 2 else 32)"
  have n: "2 * (length (ex_groups x) + 1) \<le> n" "32 \<le> n" "\<exists>k. n = 2 ^ k"
  proof -
    have "ex_slots x = [] \<and> ex_groups x = [] \<or> 32 \<le> length (ex_slots x) \<and> 2 * length (ex_groups x) \<le> length (ex_slots x) \<and> (\<exists>k. length (ex_slots x) = 2 ^ k)"
      using ok table_ok_power by (auto simp: groups_ok_def group_slots_ok_def)
    then consider (e) "ex_slots x = []" "ex_groups x = []" | (f) k where "32 \<le> length (ex_slots x)" "2 * length (ex_groups x) \<le> length (ex_slots x)" "length (ex_slots x) = 2 ^ k" "ex_slots x \<noteq> []"
      by fastforce
    then have "2 * (length (ex_groups x) + 1) \<le> n \<and> 32 \<le> n \<and> (\<exists>k. n = 2 ^ k)"
    proof cases
      case e
      then show ?thesis by (auto simp: n_def intro!: exI [of _ 5])
    next
      case f
      then have "\<exists>k. n = 2 ^ k" by (intro exI [of _ "Suc k"]) (simp add: n_def)
      moreover have "n = length (ex_slots x) * 2" using f by (simp add: n_def)
      moreover note f(1,2)
      ultimately show ?thesis by simp
    qed
    then show "2 * (length (ex_groups x) + 1) \<le> n" "32 \<le> n" "\<exists>k. n = 2 ^ k" by simp_all
  qed
  from g True have "bind_io (charge (n * SIZEOF_U32)) (\<lambda>_. bind_io (system (call WADB_NOMEM)) (\<lambda>_.
            update (\<lambda>x. x\<lparr>ex_slots := rehash_groups (ex_groups x) 0 (replicate n 0),
                           ex_used := sub64 (ex_used x) (length (ex_slots x) * SIZEOF_U32)\<rparr>))) (w, x) = (s, Inr u)"
    by (simp add: grow_group_slots_def n_def Let_def)
  then obtain s1 s2 v z where c: "charge (n * SIZEOF_U32) (w, x) = (s1, Inr v)" and s2: "system (call WADB_NOMEM) s1 = (s2, Inr z)"
    and e: "update (\<lambda>x. x\<lparr>ex_slots := rehash_groups (ex_groups x) 0 (replicate n 0),
                           ex_used := sub64 (ex_used x) (length (ex_slots x) * SIZEOF_U32)\<rparr>) s2 = (s, Inr u)"
    unfolding bind_io_Inr by blast
  note cc = charge_ok [OF c]
  have "snd s2 = x\<lparr>ex_used := ex_used x + n * SIZEOF_U32\<rparr>" using system_snd [OF s2] cc by simp
  then have sx: "snd s = x\<lparr>ex_slots := rehash_groups (ex_groups x) 0 (replicate n 0),
      ex_used := sub64 (ex_used x + n * SIZEOF_U32) (length (ex_slots x) * SIZEOF_U32)\<rparr>"
    using e by (auto simp: update_def split: prod.splits)
  have b: "budget_ok x" using ok by (simp add: groups_ok_def)
  have le: "ex_used x + n * SIZEOF_U32 \<le> memory_limit x" using cc b by simp
  have u: "sub64 (ex_used x + n * SIZEOF_U32) (length (ex_slots x) * SIZEOF_U32) = ex_used x + n * SIZEOF_U32 - length (ex_slots x) * SIZEOF_U32"
    using b le by (intro sub64_exact) (simp_all add: budget_ok_def mult.commute)
  have b': "budget_ok (snd s)"
    using b le unfolding budget_ok_def memory_limit_def sx u by (simp add: group_rehash.length_refill mult.commute) linarith
  have t: "table_ok (rehash_groups (ex_groups x) 0 (replicate n 0)) (map gr_hash (ex_groups x))"
    using n group_rehash.refill_fresh by fastforce
  have "groups_ok (snd s)"
    using ok b' t n unfolding groups_ok_def sx by (simp add: group_slots_ok_def group_rehash.length_refill)
  then show ?thesis using t n unfolding sx by (simp add: group_rehash.length_refill)
next
  case False
  then have "s = (w, x)" using g by (simp add: grow_group_slots_def)
  moreover have "table_ok (ex_slots x) (map gr_hash (ex_groups x)) \<and> 32 \<le> length (ex_slots x)"
    using ok False by (auto simp: groups_ok_def group_slots_ok_def)
  ultimately show ?thesis using ok False by simp
qed

lemma add_group_ok:
  assumes g: "add_group (hash_keys (ex_plan x) ks) ks (w, x) = (s, Inr i)" and ok: "groups_ok x" and ks: "keys_valid (ex_plan x) ks"
    and room: "2 * (length (ex_groups x) + 1) \<le> length (ex_slots x)" "table_ok (ex_slots x) (map gr_hash (ex_groups x))" "32 \<le> length (ex_slots x)"
    and new: "\<forall>i < length (ex_groups x). \<not> keys_equal (ex_plan x) (gr_keys (ex_groups x ! i)) ks"
  shows "i = length (ex_groups x) \<and> ex_plan (snd s) = ex_plan x \<and> groups_ok (snd s) \<and>
    (\<exists>c. ex_groups (snd s) = ex_groups x @ [new_group (ex_plan x) (hash_keys (ex_plan x) ks) c] \<and> keys_valid (ex_plan x) c \<and> keys_equal (ex_plan x) c ks)"
proof -
  let ?p = "ex_plan x" and ?h = "hash_keys (ex_plan x) ks"
  obtain s1 c r where cv: "copy_values (zip (key_types ?p) ks) (w, x) = (s1, c, r)" by (metis prod_cases3)
  then have r: "r = Inr ()" using g by (cases r) (auto simp: add_group_def Let_def split: prod.splits)
  have ci: "only_used x (snd s1)" "keys_valid ?p c" "keys_equal ?p c ks"
    using copy_values_ok [OF cv] ks r keys_equal_nth [of ?p c ks] by (simp_all add: keys_valid_def)
  note f = only_used_fields [OF ci(1)]
  have i: "i = length (ex_groups x)" and sx: "snd s = (snd s1)\<lparr>ex_groups := ex_groups x @ [new_group ?p ?h c],
      ex_slots := insert_slot (ex_slots x) ?h (length (ex_groups x) + 1)\<rparr>"
    using g cv r f by (auto simp: add_group_def Let_def split: prod.splits)
  have hc: "hash_keys ?p c = ?h" using hash_keys_cong [OF ci(2) ks ci(3)] .
  have t: "table_ok (insert_slot (ex_slots x) ?h (length (ex_groups x) + 1)) (map gr_hash (ex_groups x @ [new_group ?p ?h c]))"
    using table_insert [OF room(2), of ?h] room(1) by (simp add: insert_slot_def new_group_def)
  have b: "budget_ok (snd s)" using ci(1) ok f by (simp add: sx only_used_def groups_ok_def budget_ok_def memory_limit_def insert_slot_def)
  have nk: "\<not> keys_equal ?p (gr_keys (ex_groups x ! j)) c" if "j < length (ex_groups x)" for j
    using new that keys_equal_trans [of ?p "gr_keys (ex_groups x ! j)" c ks] ci ks ok by (auto simp: groups_ok_def)
  have "groups_ok (snd s)"
    using ok t b nk ci f hc room unfolding groups_ok_def
    by (auto simp: sx group_slots_ok_def insert_slot_def new_group_def nth_append less_Suc_eq)
  then show ?thesis using i sx ci f by auto
qed

lemma group_for_ok:
  assumes g: "group_for ks (w, x) = (s, Inr i)" and ok: "groups_ok x" and ks: "keys_valid (ex_plan x) ks"
  shows "ex_plan (snd s) = ex_plan x \<and> groups_ok (snd s) \<and> i < length (ex_groups (snd s)) \<and> keys_equal (ex_plan x) (gr_keys (ex_groups (snd s) ! i)) ks \<and>
    (ex_groups (snd s) = ex_groups x \<or>
     (i = length (ex_groups x) \<and> (\<forall>j < length (ex_groups x). \<not> keys_equal (ex_plan x) (gr_keys (ex_groups x ! j)) ks) \<and>
       (\<exists>c. keys_valid (ex_plan x) c \<and> ex_groups (snd s) = ex_groups x @ [new_group (ex_plan x) (hash_keys (ex_plan x) ks) c])))"
proof (cases "find_group x (hash_keys (ex_plan x) ks) ks")
  case (Some j)
  then show ?thesis using g find_group_correct [OF ok ks] ok by (auto simp: group_for_def Let_def)
next
  case None
  have new: "\<forall>i < length (ex_groups x). \<not> keys_equal (ex_plan x) (gr_keys (ex_groups x ! i)) ks"
    using find_group_correct [OF ok ks] None by simp
  from g None obtain s1 s2 where g1: "grow_groups (w, x) = (s1, Inr ())" and g2: "grow_group_slots s1 = (s2, Inr ())"
    and g3: "add_group (hash_keys (ex_plan x) ks) ks s2 = (s, Inr i)"
    by (auto simp: group_for_def Let_def bind_io_Inr split: if_splits)
  note o1 = grow_groups_ok [OF g1]
  have ok1: "groups_ok (snd s1)" using ok o1 by (simp add: groups_ok_def)
  note o2 = grow_group_slots_ok [of "fst s1" "snd s1" s2 "()", unfolded prod.collapse, OF g2 ok1]
  have p: "ex_plan (snd s2) = ex_plan x" "ex_groups (snd s2) = ex_groups x" using o1 o2 by simp_all
  have g3': "add_group (hash_keys (ex_plan (snd s2)) ks) ks (fst s2, snd s2) = (s, Inr i)" using g3 p by simp
  note o3 = add_group_ok [OF g3']
  have "i = length (ex_groups (snd s2)) \<and> ex_plan (snd s) = ex_plan (snd s2) \<and> groups_ok (snd s) \<and>
    (\<exists>c. ex_groups (snd s) = ex_groups (snd s2) @ [new_group (ex_plan (snd s2)) (hash_keys (ex_plan (snd s2)) ks) c] \<and>
       keys_valid (ex_plan (snd s2)) c \<and> keys_equal (ex_plan (snd s2)) c ks)"
    by (rule o3) (use o2 o1 p ks new in simp_all)
  then show ?thesis using p new by (auto simp: new_group_def)
qed

section \<open>Grouped aggregation\<close>

text \<open>
  The specification of a grouped query: a group holds its key and the aggregates of the matching
  rows with that key, reduced in the order in which they were read.
\<close>

definition group_rows :: "wadb_query_plan \<Rightarrow> wadb_value list \<Rightarrow> wadb_value list list \<Rightarrow> wadb_value list list" where
  "group_rows p key rows = filter (\<lambda>v. matches_filters p v \<and> (case group_keys p v of Inl _ \<Rightarrow> False | Inr k \<Rightarrow> keys_equal p key k)) rows"

fun reduce_rows ::
  "wadb_query_plan \<Rightarrow> wadb_value list list \<Rightarrow> wadb_value list \<times> nat list \<Rightarrow> (wadb_value list \<times> nat list) res" where
  "reduce_rows p [] a = Inr a"
| "reduce_rows p (v # vs) a =
     (case reduce_all (pl_schema p) v (pl_aggregates p) (fst a) (snd a) of
        (_, Inl e) \<Rightarrow> Inl e
      | (a', Inr _) \<Rightarrow> reduce_rows p vs a')"

definition aggregated :: "wadb_query_plan \<Rightarrow> wadb_value list list \<Rightarrow> query_group \<Rightarrow> bool" where
  "aggregated p rows g \<longleftrightarrow>
     reduce_rows p (group_rows p (gr_keys g) rows)
       (gr_aggregates (new_group p (gr_hash g) (gr_keys g)), gr_nonnull (new_group p (gr_hash g) (gr_keys g))) =
     Inr (gr_aggregates g, gr_nonnull g)"

text \<open>Rows as a scan of the plan's schema delivers them.\<close>

definition row_ok :: "wadb_query_plan \<Rightarrow> wadb_value list \<Rightarrow> bool" where
  "row_ok p v \<longleftrightarrow> length v = field_count (pl_schema p) \<and>
     list_all (\<lambda>i. comparable (f_type (schema_fields (pl_schema p) ! i)) (v ! i)) [0..<field_count (pl_schema p)]"

definition grouped :: "wadb_query_plan \<Rightarrow> wadb_value list list \<Rightarrow> query_group list \<Rightarrow> bool" where
  "grouped p rows gs \<longleftrightarrow>
     list_all (aggregated p rows) gs \<and>
     list_all (\<lambda>g. group_rows p (gr_keys g) rows \<noteq> []) gs \<and>
     list_all (\<lambda>v. matches_filters p v \<longrightarrow>
       (case group_keys p v of Inl _ \<Rightarrow> False | Inr k \<Rightarrow> length (filter (\<lambda>g. keys_equal p (gr_keys g) k) gs) = 1)) rows"

fun consume_rows :: "(nat \<times> wadb_value list) list \<Rightarrow> unit exec" where
  "consume_rows [] s = (s, Inr ())"
| "consume_rows ((sequence, v) # rows) s = bind_io (consume sequence v) (\<lambda>_. consume_rows rows) s"

lemma group_keys_valid:
  assumes "plan_ok p" "aggregate_count p \<noteq> 0" "row_ok p v" "group_keys p v = Inr ks"
  shows "keys_valid p ks"
proof -
  let ?b = "if qo_bucket_width_us (pl_options p) = 0 then [] else [WADB_TIMESTAMP_US]"
  let ?g = "map (\<lambda>i. f_type (schema_fields (pl_schema p) ! i)) (pl_groups p)"
  note p = assms(1) [unfolded plan_ok_def]
  have t: "key_types p = ?b @ ?g"
    using p assms(2) by (simp add: Let_def aggregate_count_def key_types_def flip: take_map split: if_splits)
  have g: "list_all (\<lambda>i. i < field_count (pl_schema p)) (pl_groups p)"
    using p assms(2) by (simp add: Let_def aggregate_count_def)
  have "list_all2 comparable ?g (map (nth v) (pl_groups p))"
    using g assms(3) by (auto simp: list_all2_map1 list_all2_map2 list_all2_same row_ok_def list_all_iff)
  then show ?thesis using assms(4) t
    by (auto simp: group_keys_def keys_valid_def Let_def res_simps comparable_def wadb_type_bytes_def wadb_type_float_def split: if_splits)
qed

lemma reduce_rows_snoc:
  "reduce_rows p (vs @ [v]) a = (case reduce_rows p vs a of Inl e \<Rightarrow> Inl e
     | Inr b \<Rightarrow> (case reduce_all (pl_schema p) v (pl_aggregates p) (fst b) (snd b) of (_, Inl e) \<Rightarrow> Inl e | (c, Inr _) \<Rightarrow> Inr c))"
  by (induction vs arbitrary: a) (auto split: prod.splits sum.splits)

lemma filter_length_one:
  assumes "i < length xs" "P (xs ! i)" "\<And>j. j < length xs \<Longrightarrow> P (xs ! j) \<Longrightarrow> j = i"
  shows "length (filter P xs) = 1"
proof -
  have "{j. j < length xs \<and> P (xs ! j)} = {i}" using assms(1,2) by (auto dest: assms(3))
  then show ?thesis by (simp add: length_filter_conv_card)
qed

lemma groups_unique:
  assumes "groups_ok x" "keys_valid (ex_plan x) k" "i < length (ex_groups x)" "j < length (ex_groups x)"
    "keys_equal (ex_plan x) (gr_keys (ex_groups x ! i)) k" "keys_equal (ex_plan x) (gr_keys (ex_groups x ! j)) k"
  shows "i = j"
proof (rule ccontr)
  assume "i \<noteq> j"
  let ?p = "ex_plan x" and ?k = "\<lambda>i. gr_keys (ex_groups x ! i)"
  have v: "keys_valid ?p (?k i)" "keys_valid ?p (?k j)" using assms(1,3,4) by (auto simp: groups_ok_def)
  have "keys_equal ?p (?k i) (?k j)" "keys_equal ?p (?k j) (?k i)"
    using keys_equal_trans [OF v(1) assms(2) v(2) assms(5)] keys_equal_trans [OF v(2) assms(2) v(1) assms(6)]
      keys_equal_sym [OF v(1) assms(2,5)] keys_equal_sym [OF v(2) assms(2,6)] by blast+
  then show False using assms(1,3,4) \<open>i \<noteq> j\<close> unfolding groups_ok_def by (metis nat_neq_iff)
qed

definition covered :: "wadb_query_plan \<Rightarrow> wadb_value list list \<Rightarrow> query_group list \<Rightarrow> bool" where
  "covered p rows gs \<longleftrightarrow> (\<forall>v \<in> set rows. matches_filters p v \<longrightarrow>
     (\<exists>k i. group_keys p v = Inr k \<and> i < length gs \<and> keys_equal p (gr_keys (gs ! i)) k))"

definition tallied :: "wadb_query_plan \<Rightarrow> wadb_value list list \<Rightarrow> query_group list \<Rightarrow> bool" where
  "tallied p rows gs \<longleftrightarrow> (\<forall>i < length gs. aggregated p rows (gs ! i) \<and> group_rows p (gr_keys (gs ! i)) rows \<noteq> [])"

lemma group_rows_snoc:
  "group_rows p key (rows @ [v]) = group_rows p key rows @
     (if matches_filters p v \<and> (case group_keys p v of Inl _ \<Rightarrow> False | Inr k \<Rightarrow> keys_equal p key k) then [v] else [])"
  by (simp add: group_rows_def)

lemma new_group_empty:
  assumes "covered p rows gs" "\<forall>v \<in> set rows. row_ok p v" "plan_ok p" "aggregate_count p \<noteq> 0"
    "\<forall>g \<in> set gs. keys_valid p (gr_keys g)" "keys_valid p c" "\<forall>j < length gs. \<not> keys_equal p (gr_keys (gs ! j)) c"
  shows "group_rows p c rows = []"
proof -
  have "\<not> keys_equal p c k" if v: "v \<in> set rows" "matches_filters p v" "group_keys p v = Inr k" for v k
  proof
    assume e: "keys_equal p c k"
    obtain i where i: "i < length gs" "keys_equal p (gr_keys (gs ! i)) k" using assms(1) v by (fastforce simp: covered_def)
    have kv: "keys_valid p k" "keys_valid p (gr_keys (gs ! i))" using group_keys_valid [OF assms(3,4) _ v(3)] assms(2,5) v(1) i(1) by auto
    have "keys_equal p (gr_keys (gs ! i)) c"
      using keys_equal_trans [OF kv(2,1) assms(6) i(2)] keys_equal_sym [OF assms(6) kv(1) e] by blast
    then show False using assms(7) i(1) by blast
  qed
  then show ?thesis by (auto simp: group_rows_def filter_empty_conv split: sum.splits)
qed

lemma reduce_step:
  assumes "reduce i v (w, x) = (s, Inr u)"
  shows "\<exists>a. reduce_all (pl_schema (ex_plan x)) v (pl_aggregates (ex_plan x)) (gr_aggregates (ex_groups x ! i)) (gr_nonnull (ex_groups x ! i)) = (a, Inr ()) \<and>
    snd s = x\<lparr>ex_groups := (ex_groups x)[i := (ex_groups x ! i)\<lparr>gr_aggregates := fst a, gr_nonnull := snd a\<rparr>]\<rparr>"
  using assms by (auto simp: reduce_def Let_def split: prod.splits)

lemma aggregated_snoc:
  assumes "aggregated p rows g" "matches_filters p v" "group_keys p v = Inr k" "keys_equal p (gr_keys g) k"
    "reduce_all (pl_schema p) v (pl_aggregates p) (gr_aggregates g) (gr_nonnull g) = (a, Inr ())"
  shows "aggregated p (rows @ [v]) (g\<lparr>gr_aggregates := fst a, gr_nonnull := snd a\<rparr>)"
  using assms by (simp add: aggregated_def group_rows_snoc reduce_rows_snoc)

lemma aggregated_other:
  "aggregated p rows g \<Longrightarrow> group_keys p v = Inr k \<Longrightarrow> \<not> keys_equal p (gr_keys g) k \<Longrightarrow> aggregated p (rows @ [v]) g"
  by (simp add: aggregated_def group_rows_snoc)

lemma groups_ok_update:
  assumes "groups_ok x" "gr_keys g = gr_keys (ex_groups x ! i)" "gr_hash g = gr_hash (ex_groups x ! i)" "i < length (ex_groups x)"
  shows "groups_ok (x\<lparr>ex_groups := (ex_groups x)[i := g]\<rparr>)"
proof -
  have k: "gr_keys ((ex_groups x)[i := g] ! j) = gr_keys (ex_groups x ! j)" "gr_hash ((ex_groups x)[i := g] ! j) = gr_hash (ex_groups x ! j)" for j
    using assms(2-4) by (cases "j = i"; simp)+
  have h: "map gr_hash ((ex_groups x)[i := g]) = map gr_hash (ex_groups x)" by (rule nth_equalityI) (simp_all add: k)
  have "\<forall>j < length (ex_groups x). keys_valid (ex_plan x) (gr_keys (ex_groups x ! j)) \<and> gr_hash (ex_groups x ! j) = hash_keys (ex_plan x) (gr_keys (ex_groups x ! j))"
    using assms(1) by (simp add: groups_ok_def)
  then have "\<forall>g \<in> set ((ex_groups x)[i := g]). keys_valid (ex_plan x) (gr_keys g) \<and> gr_hash g = hash_keys (ex_plan x) (gr_keys g)"
    unfolding all_set_conv_all_nth by (simp add: k)
  then show ?thesis using assms(1) unfolding groups_ok_def
    by (simp add: group_slots_ok_def h k budget_ok_def memory_limit_def)
qed

lemma consume_grouped:
  assumes c: "consume sequence v (w, x) = (s, Inr u)" and p: "plan_ok (ex_plan x)" "aggregate_count (ex_plan x) \<noteq> 0"
    and ok: "groups_ok x" and rows: "\<forall>v \<in> set rows. row_ok (ex_plan x) v" "row_ok (ex_plan x) v"
    and inv: "covered (ex_plan x) rows (ex_groups x)" "tallied (ex_plan x) rows (ex_groups x)"
  shows "ex_plan (snd s) = ex_plan x \<and> groups_ok (snd s) \<and> covered (ex_plan x) (rows @ [v]) (ex_groups (snd s)) \<and>
    tallied (ex_plan x) (rows @ [v]) (ex_groups (snd s))"
proof (cases "matches_filters (ex_plan x) v")
  case False
  then have "snd s = x\<lparr>ex_last_sequence := sequence\<rparr>" using c by (auto simp: consume_def Let_def)
  moreover have "groups_ok (x\<lparr>ex_last_sequence := sequence\<rparr>)" using ok by (simp add: groups_ok_def budget_ok_def memory_limit_def)
  moreover have "tallied (ex_plan x) (rows @ [v]) (ex_groups x)"
    using inv(2) False by (simp add: tallied_def aggregated_def group_rows_snoc)
  ultimately show ?thesis using inv(1) False by (simp add: covered_def)
next
  case m: True
  let ?p = "ex_plan x"
  define x0 where "x0 = x\<lparr>ex_last_sequence := sequence, ex_matched_rows := ex_matched_rows x + 1\<rparr>"
  have x0: "ex_plan x0 = ?p" "ex_groups x0 = ex_groups x" "groups_ok x0"
    using ok by (simp_all add: x0_def groups_ok_def budget_ok_def memory_limit_def)
  obtain k where k: "group_keys ?p v = Inr k" using c m p(2) by (cases "group_keys ?p v") (auto simp: consume_def Let_def split: if_splits)
  have "bind_io (group_for k) (\<lambda>i. reduce i v) (w, x0) = (s, Inr u)"
    using c m p(2) k by (simp add: consume_def Let_def x0_def split: if_splits)
  then obtain s1 i where g: "group_for k (w, x0) = (s1, Inr i)" and r: "reduce i v (fst s1, snd s1) = (s, Inr u)"
    by (auto simp: bind_io_Inr)
  have kv: "keys_valid ?p k" using group_keys_valid [OF p rows(2) k] .
  have f: "ex_plan (snd s1) = ?p \<and> groups_ok (snd s1) \<and> i < length (ex_groups (snd s1)) \<and> keys_equal ?p (gr_keys (ex_groups (snd s1) ! i)) k \<and>
    (ex_groups (snd s1) = ex_groups x \<or>
     (i = length (ex_groups x) \<and> (\<forall>j < length (ex_groups x). \<not> keys_equal ?p (gr_keys (ex_groups x ! j)) k) \<and>
       (\<exists>c. keys_valid ?p c \<and> ex_groups (snd s1) = ex_groups x @ [new_group ?p (hash_keys ?p k) c])))"
    using group_for_ok [OF g x0(3)] kv unfolding x0(1,2) by blast
  let ?gs = "ex_groups x" and ?g1 = "ex_groups (snd s1)"
  have p1: "ex_plan (snd s1) = ?p" "groups_ok (snd s1)" "i < length ?g1" "keys_equal ?p (gr_keys (?g1 ! i)) k" using f by simp_all
  obtain a where a: "reduce_all (pl_schema ?p) v (pl_aggregates ?p) (gr_aggregates (?g1 ! i)) (gr_nonnull (?g1 ! i)) = (a, Inr ())"
    and sx: "snd s = (snd s1)\<lparr>ex_groups := ?g1[i := (?g1 ! i)\<lparr>gr_aggregates := fst a, gr_nonnull := snd a\<rparr>]\<rparr>"
    using reduce_step [OF r] p1 by auto
  let ?g2 = "ex_groups (snd s)"
  have g2: "gr_keys (?g2 ! j) = gr_keys (?g1 ! j)" "length ?g2 = length ?g1" for j
    using p1(3) by (simp_all add: sx nth_list_update)
  have tal: "aggregated ?p rows (?g1 ! j)" "j \<noteq> i \<longrightarrow> group_rows ?p (gr_keys (?g1 ! j)) rows \<noteq> []" if j: "j < length ?g1" for j
  proof -
    have "aggregated ?p rows (?g1 ! j) \<and> (j \<noteq> i \<longrightarrow> group_rows ?p (gr_keys (?g1 ! j)) rows \<noteq> [])"
    proof (cases "j < length ?gs")
      case True
      then have "?g1 ! j = ?gs ! j" using f by (auto simp: nth_append)
      then show ?thesis using inv(2) True by (simp add: tallied_def)
    next
      case False
      then obtain c where cc: "keys_valid ?p c" "?g1 = ?gs @ [new_group ?p (hash_keys ?p k) c]" "i = length ?gs" "\<forall>j < length ?gs. \<not> keys_equal ?p (gr_keys (?gs ! j)) k"
        using f j by auto
      have ck: "keys_equal ?p c k" using p1(4) cc by (simp add: new_group_def)
      have val: "\<forall>g \<in> set ?gs. keys_valid ?p (gr_keys g)" using ok by (simp add: groups_ok_def)
      have "\<forall>j < length ?gs. \<not> keys_equal ?p (gr_keys (?gs ! j)) c"
        using cc(4) keys_equal_trans [OF _ cc(1) kv _ ck] val by auto
      then have "group_rows ?p c rows = []" using new_group_empty [OF inv(1) rows(1) p val cc(1)] by simp
      moreover have "j = i" using j False cc by simp
      ultimately show ?thesis using cc by (simp add: aggregated_def new_group_def)
    qed
    then show "aggregated ?p rows (?g1 ! j)" "j \<noteq> i \<longrightarrow> group_rows ?p (gr_keys (?g1 ! j)) rows \<noteq> []" by simp_all
  qed
  have only: "keys_equal ?p (gr_keys (?g1 ! j)) k \<longleftrightarrow> j = i" if "j < length ?g1" for j
    using groups_unique [OF p1(2) _ that p1(3)] p1(1,4) kv by auto
  have "aggregated ?p (rows @ [v]) (?g2 ! j) \<and> group_rows ?p (gr_keys (?g2 ! j)) (rows @ [v]) \<noteq> []" if j: "j < length ?g1" for j
  proof (cases "j = i")
    case True
    then show ?thesis using aggregated_snoc [OF tal(1) [OF p1(3)] m k p1(4) a] m k p1(3,4) by (simp add: sx group_rows_snoc)
  next
    case False
    then have "?g2 ! j = ?g1 ! j" by (simp add: sx)
    then show ?thesis using aggregated_other [OF tal(1) [OF j] k] only [OF j] tal(2) [OF j] False by (simp add: group_rows_snoc)
  qed
  then have t: "tallied ?p (rows @ [v]) ?g2" by (simp add: tallied_def g2)
  have prefix: "j < length ?g1 \<and> ?g1 ! j = ?gs ! j" if "j < length ?gs" for j using f that by (auto simp: nth_append)
  have "covered ?p (rows @ [v]) ?g2"
    unfolding covered_def g2
  proof (intro ballI impI)
    fix r assume r: "r \<in> set (rows @ [v])" "matches_filters ?p r"
    show "\<exists>k i. group_keys ?p r = Inr k \<and> i < length ?g1 \<and> keys_equal ?p (gr_keys (?g1 ! i)) k"
    proof (cases "r \<in> set rows")
      case True
      then obtain k' j where "group_keys ?p r = Inr k'" "j < length ?gs" "keys_equal ?p (gr_keys (?gs ! j)) k'"
        using inv(1) r(2) unfolding covered_def by blast
      then show ?thesis using prefix by metis
    next
      case False
      then show ?thesis using r k p1(3,4) by auto
    qed
  qed
  moreover have "groups_ok (snd s)" unfolding sx by (rule groups_ok_update [OF p1(2) _ _ p1(3)]) simp_all
  ultimately show ?thesis using t p1(1) by (simp add: sx)
qed

lemma consume_rows_grouped:
  "consume_rows rows (w, x) = (s, Inr u) \<Longrightarrow> plan_ok (ex_plan x) \<Longrightarrow> aggregate_count (ex_plan x) \<noteq> 0 \<Longrightarrow> groups_ok x \<Longrightarrow>
     \<forall>v \<in> set seen. row_ok (ex_plan x) v \<Longrightarrow> \<forall>r \<in> set rows. row_ok (ex_plan x) (snd r) \<Longrightarrow>
     covered (ex_plan x) seen (ex_groups x) \<Longrightarrow> tallied (ex_plan x) seen (ex_groups x) \<Longrightarrow>
     ex_plan (snd s) = ex_plan x \<and> groups_ok (snd s) \<and> covered (ex_plan x) (seen @ map snd rows) (ex_groups (snd s)) \<and>
     tallied (ex_plan x) (seen @ map snd rows) (ex_groups (snd s))"
proof (induction rows arbitrary: w x seen)
  case (Cons r rows)
  obtain q v where r: "r = (q, v)" by fastforce
  obtain s1 where c: "consume q v (w, x) = (s1, Inr ())" "consume_rows rows (fst s1, snd s1) = (s, Inr u)"
    using Cons.prems(1) by (auto simp: r bind_io_Inr)
  note st = consume_grouped [OF c(1) Cons.prems(2,3,4,5) _ Cons.prems(7,8)]
  have v: "row_ok (ex_plan x) v" using Cons.prems(6) r by simp
  have pl: "ex_plan (snd s1) = ex_plan x" using st [OF v] by simp
  show ?case using Cons.IH [OF c(2), of "seen @ [v]"] st [OF v] Cons.prems(2,3,5,6) v pl by (simp add: r)
qed auto

lemma grouped_iff:
  assumes "covered (ex_plan x) rows (ex_groups x)" "tallied (ex_plan x) rows (ex_groups x)" "groups_ok x"
    "plan_ok (ex_plan x)" "aggregate_count (ex_plan x) \<noteq> 0" "\<forall>v \<in> set rows. row_ok (ex_plan x) v"
  shows "grouped (ex_plan x) rows (ex_groups x)"
proof -
  let ?p = "ex_plan x" and ?gs = "ex_groups x"
  have "length (filter (\<lambda>g. keys_equal ?p (gr_keys g) k) ?gs) = 1" if v: "v \<in> set rows" "matches_filters ?p v" "group_keys ?p v = Inr k" for v k
  proof -
    obtain i where i: "i < length ?gs" "keys_equal ?p (gr_keys (?gs ! i)) k" using assms(1) v by (fastforce simp: covered_def)
    have kv: "keys_valid ?p k" using group_keys_valid [OF assms(4,5) _ v(3)] assms(6) v(1) by blast
    show ?thesis
      by (rule filter_length_one [where P = "\<lambda>g. keys_equal ?p (gr_keys g) k", OF i]) (use groups_unique [OF assms(3) kv _ i(1)] i in blast)
  qed
  moreover have "\<exists>k. group_keys ?p v = Inr k" if "v \<in> set rows" "matches_filters ?p v" for v
    using assms(1) that unfolding covered_def by blast
  ultimately have "case group_keys ?p v of Inl _ \<Rightarrow> False | Inr k \<Rightarrow> length (filter (\<lambda>g. keys_equal ?p (gr_keys g) k) ?gs) = 1"
    if "v \<in> set rows" "matches_filters ?p v" for v using that by fastforce
  then have "list_all (\<lambda>v. matches_filters ?p v \<longrightarrow>
       (case group_keys ?p v of Inl _ \<Rightarrow> False | Inr k \<Rightarrow> length (filter (\<lambda>g. keys_equal ?p (gr_keys g) k) ?gs) = 1)) rows"
    unfolding list_all_iff by blast
  then show ?thesis using assms(2) by (simp add: grouped_def tallied_def list_all_length)
qed

section \<open>Sums\<close>

fun reduce_column :: "wadb_aggregate_op \<Rightarrow> wadb_type \<Rightarrow> wadb_value list \<Rightarrow> wadb_value \<times> nat \<Rightarrow> (wadb_value \<times> nat) res" where
  "reduce_column op type [] a = Inr a"
| "reduce_column op type (v # vs) a = bind_res (reduce_value op type (fst a) (snd a) v) (reduce_column op type vs)"

definition in_range :: "wadb_type \<Rightarrow> int \<Rightarrow> bool" where
  "in_range t n \<longleftrightarrow> (if wadb_type_signed t then - (2 ^ 63) \<le> n \<and> n < 2 ^ 63 else 0 \<le> n \<and> n < 2 ^ 64)"

definition nonnull :: "wadb_value list \<Rightarrow> wadb_value list" where
  "nonnull vs = filter (\<lambda>v. \<not> is_null v) vs"

definition column_sum :: "wadb_type \<Rightarrow> wadb_value list \<Rightarrow> int" where
  "column_sum t vs = sum_list (map (number_of t) (nonnull vs))"

definition sum_is :: "wadb_type \<Rightarrow> wadb_value list \<Rightarrow> wadb_value \<times> nat \<Rightarrow> bool" where
  "sum_is t vs = (\<lambda>(out, n). n = length (nonnull vs) \<and>
     (if n = 0 then is_null out else \<not> is_null out \<and> number_of t out = column_sum t vs))"

lemma sint_bounds: "- (2 ^ 63) \<le> sint (w :: u64)" "sint (w :: u64) < 2 ^ 63"
  using sint_range_size [of w] by (simp_all add: word_size)

lemma sint_of_sum: "- (2 ^ 63) \<le> n \<Longrightarrow> n < 2 ^ 63 \<Longrightarrow> sint (word_of_int n :: u64) = n"
  using signed_take_bit_int_eq_self [of 63 n] by (simp add: signed_of_int)

lemma sum_step:
  assumes "sum_is t vs (out, n)" "\<not> wadb_type_float t" "n < UINT64_MAX"
  shows "case reduce_value WADB_SUM t out n v of
      Inr a \<Rightarrow> sum_is t (vs @ [v]) a
    | Inl e \<Rightarrow> e = WADB_LIMIT \<and> \<not> in_range t (column_sum t (vs @ [v]))"
proof (cases "is_null v")
  case True
  then show ?thesis using assms by (simp add: reduce_value_def sum_is_def nonnull_def column_sum_def)
next
  case v: False
  show ?thesis
  proof (cases "n = 0")
    case True
    then show ?thesis using v assms by (simp add: reduce_value_def sum_is_def nonnull_def column_sum_def number_of_def as_i64_def)
  next
    case False
    have o1: "number_of t out = column_sum t vs" "\<not> is_null out" "n = length (nonnull vs)" using assms(1) False by (simp_all add: sum_is_def)
    have c: "column_sum t (vs @ [v]) = number_of t out + number_of t v" using v o1 by (simp add: column_sum_def nonnull_def)
    show ?thesis
    proof (cases "wadb_type_signed t")
      case True
      let ?a = "as_i64 out" and ?b = "as_i64 v"
      have b: "- (2 ^ 63) \<le> ?a" "?a < 2 ^ 63" "- (2 ^ 63) \<le> ?b" "?b < 2 ^ 63" by (simp_all only: as_i64_def sint_bounds)
      have ch: "((?b > 0 \<and> ?a > INT64_MAX - ?b) \<or> (?b < 0 \<and> ?a < INT64_MIN - ?b)) \<longleftrightarrow> \<not> in_range t (?a + ?b)"
        using b True by (auto simp: in_range_def)
      show ?thesis
      proof (cases "in_range t (?a + ?b)")
        case r: True
        then have "sint (word_of_int (?a + ?b) :: u64) = ?a + ?b" using True by (intro sint_of_sum) (simp_all add: in_range_def)
        moreover have "reduce_value WADB_SUM t out n v = Inr (out\<lparr>as_word := word_of_int (?a + ?b), is_null := False\<rparr>, n + 1)"
          using r ch v False True assms(2,3) by (simp add: reduce_value_def)
        ultimately show ?thesis using v o1(3) c True by (simp add: sum_is_def nonnull_def number_of_def as_i64_def)
      next
        case r: False
        then show ?thesis using ch v o1 c False True assms(2,3)
          by (simp add: reduce_value_def number_of_def)
      qed
    next
      case us: False
      let ?a = "as_word out" and ?b = "as_word v"
      have in_nat: "(j > UINT64_MAX - i) \<longleftrightarrow> \<not> in_range t (int i + int j)" if "i < 2 ^ 64" for i j
        using us that unfolding in_range_def by (simp; linarith)
      have "unat ?a < 2 ^ 64" using unsigned_less [of ?a, where 'a = nat] by simp
      from in_nat [OF this, of "unat ?b"] have ch: "(unat ?b > UINT64_MAX - unat ?a) \<longleftrightarrow> \<not> in_range t (uint ?a + uint ?b)"
        by (simp only: uint_nat)
      show ?thesis
      proof (cases "in_range t (uint ?a + uint ?b)")
        case r: True
        then have "uint (?a + ?b) = uint ?a + uint ?b" using us by (simp add: in_range_def uint_word_ariths)
        then show ?thesis using r ch v o1 c False us assms(2,3)
          by (simp add: reduce_value_def sum_is_def nonnull_def number_of_def)
      next
        case r: False
        then show ?thesis using ch v o1 c False us assms(2,3)
          by (simp add: reduce_value_def number_of_def)
      qed
    qed
  qed
qed

lemma sum_column:
  "sum_is t seen a \<Longrightarrow> \<not> wadb_type_float t \<Longrightarrow> length seen + length vs \<le> UINT64_MAX \<Longrightarrow>
     case reduce_column WADB_SUM t vs a of
       Inr b \<Rightarrow> sum_is t (seen @ vs) b
     | Inl e \<Rightarrow> e = WADB_LIMIT \<and> (\<exists>k. \<not> in_range t (column_sum t (take k (seen @ vs))))"
proof (induction vs arbitrary: seen a)
  case (Cons v vs)
  have "length (nonnull seen) \<le> length seen" by (simp add: nonnull_def)
  then have "snd a < UINT64_MAX" using Cons.prems(1,3) by (auto simp: sum_is_def split: prod.splits)
  note st = sum_step [of t seen "fst a" "snd a" v, unfolded prod.collapse, OF Cons.prems(1,2) this]
  show ?case
  proof (cases "reduce_value WADB_SUM t (fst a) (snd a) v")
    case (Inl e)
    then have "take (length seen + 1) (seen @ v # vs) = seen @ [v]" by simp
    then show ?thesis using st Inl by (auto intro!: exI [of _ "length seen + 1"])
  next
    case (Inr b)
    then show ?thesis using Cons.IH [of "seen @ [v]" b] st Cons.prems(2,3) by (simp del: append_assoc) (simp only: append_assoc append.simps)
  qed
qed simp

section \<open>Result rows\<close>

definition copy_of :: "wadb_type \<Rightarrow> wadb_value \<Rightarrow> wadb_value" where
  "copy_of type v =
     (if \<not> is_null v \<and> wadb_type_bytes type then v\<lparr>as_bytes := CMem (take (carr_length (as_bytes v)) (carr_items (as_bytes v)))\<rparr> else v)"

definition group_row :: "wadb_query_plan \<Rightarrow> query_group \<Rightarrow> wadb_value list" where
  "group_row p g = map2 copy_of (map rc_type (pl_columns p)) (gr_keys g @ gr_aggregates g)"

lemma copy_value_result: "copy_value type v s = (s', Inr c) \<Longrightarrow> c = copy_of type v"
  by (auto simp: copy_value_def copy_of_def Let_def bind_io_Inr return_io_def split: if_splits)

lemma charge_fields: "charge n s = (s', r) \<Longrightarrow> only_used (snd s) (snd s')"
  using charge_only_used [of n "fst s" "snd s" s' r] by simp

lemma copy_value_fields: "copy_value type v s = (s', r) \<Longrightarrow> \<exists>u. snd s' = (snd s)\<lparr>ex_used := u\<rparr>"
proof (cases "\<not> is_null v \<and> wadb_type_bytes type")
  case True
  assume a: "copy_value type v s = (s', r)"
  obtain s1 r1 where c1: "charge (carr_length (as_bytes v) + 1) s = (s1, r1)" by fastforce
  obtain s2 r2 where c2: "system (call WADB_NOMEM) s1 = (s2, r2)" by fastforce
  have "s' = s1 \<or> s' = s2" using a c1 c2 True by (auto simp: copy_value_def bind_io_def Let_def return_io_def split: sum.splits)
  then show ?thesis using charge_fields [OF c1] system_snd [OF c2] by (auto simp: only_used_def)
next
  case False
  moreover assume "copy_value type v s = (s', r)"
  ultimately have "snd s' = (snd s)\<lparr>ex_used := ex_used (snd s)\<rparr>" by (auto simp: copy_value_def return_io_def split: if_splits)
  then show ?thesis by blast
qed

lemma copy_values_result:
  "copy_values xs s = (s', cs, r) \<Longrightarrow> (\<exists>u. snd s' = (snd s)\<lparr>ex_used := u\<rparr>) \<and> (r = Inr () \<longrightarrow> cs = map (\<lambda>(t, v). copy_of t v) xs)"
proof (induction xs arbitrary: s s' cs r)
  case Nil
  then show ?case by (auto intro: exI [of _ "ex_used (snd s)"])
next
  case (Cons a xs)
  obtain t v where a: "a = (t, v)" by fastforce
  obtain s1 r1 where c1: "copy_value t v s = (s1, r1)" by fastforce
  obtain s2 cs2 r2 where c2: "copy_values xs s1 = (s2, cs2, r2)" by (metis prod_cases3)
  show ?case
    using Cons.prems Cons.IH [OF c2] copy_value_fields [OF c1] copy_value_result [of t v s s1] a c1 c2
    by (auto split: sum.splits)
qed

lemma grow_rows_result:
  assumes "grow_rows s = (s', Inr u)"
  shows "ex_plan (snd s') = ex_plan (snd s) \<and> ex_groups (snd s') = ex_groups (snd s) \<and> ex_rows (snd s') = ex_rows (snd s) \<and> ex_deadline (snd s') = ex_deadline (snd s)"
proof (cases "length (ex_rows (snd s)) = ex_capacity (snd s)")
  case True
  obtain n cap s1 s2 s3 z z' where c1: "charge n s = (s1, Inr ())" and c2: "system (call WADB_NOMEM) s1 = (s2, Inr z)"
    and c3: "(if aggregate_count (ex_plan (snd s)) \<noteq> 0 then return_io 0 else system (call WADB_NOMEM)) s2 = (s3, Inr z')"
    and c4: "update (\<lambda>x. x\<lparr>ex_capacity := cap\<rparr>) s3 = (s', Inr u)"
    using assms True by (cases s) (auto simp: grow_rows_def Let_def bind_io_Inr)
  have "snd s3 = snd s2" using c3 system_snd [of "call WADB_NOMEM" s2 s3 "Inr z'"] by (auto simp: return_io_def split: if_splits)
  moreover have "snd s2 = snd s1" using system_snd [OF c2] .
  moreover have "snd s' = (snd s3)\<lparr>ex_capacity := cap\<rparr>" using c4 by (auto simp: update_def split: prod.splits)
  ultimately show ?thesis using charge_fields [OF c1] by (auto simp: only_used_def)
next
  case False
  then show ?thesis using assms by (cases s) (auto simp: grow_rows_def)
qed

lemma result_row_result:
  assumes "result_row values sequence s = (s', Inr u)" "length values = length (pl_columns (ex_plan (snd s)))"
  shows "ex_plan (snd s') = ex_plan (snd s) \<and> ex_groups (snd s') = ex_groups (snd s) \<and> ex_deadline (snd s') = ex_deadline (snd s) \<and>
    ex_rows (snd s') = ex_rows (snd s) @ [map2 copy_of (map rc_type (pl_columns (ex_plan (snd s)))) values]"
proof -
  obtain s1 v where g: "grow_rows s = (s1, Inr v)" using assms(1) by (auto simp: result_row_def bind_io_Inr)
  note gr = grow_rows_result [OF g]
  obtain s2 cs r where c: "copy_values (zip (map rc_type (pl_columns (ex_plan (snd s1)))) values) s1 = (s2, cs, r)" by (metis prod_cases3)
  note cr = copy_values_result [OF c]
  have "r = Inr ()" using assms(1) g c by (cases s1) (auto simp: result_row_def bind_io_def Let_def split: prod.splits)
  then have cs: "cs = map2 copy_of (map rc_type (pl_columns (ex_plan (snd s)))) values" using cr gr by simp
  then have "length cs = length (pl_columns (ex_plan (snd s1)))" using assms(2) gr by simp
  then have "ex_rows (snd s') = ex_rows (snd s2) @ [cs] \<and> ex_plan (snd s') = ex_plan (snd s2) \<and> ex_groups (snd s') = ex_groups (snd s2) \<and> ex_deadline (snd s') = ex_deadline (snd s2)"
    using assms(1) g c by (cases s1) (auto simp: result_row_def bind_io_def Let_def split: prod.splits)
  then show ?thesis using cr gr cs by auto
qed

lemma emit_rows_result:
  "emit_rows i order s = (s', Inr u) \<Longrightarrow>
     \<forall>g \<in> set order. length (gr_keys (ex_groups (snd s) ! g) @ gr_aggregates (ex_groups (snd s) ! g)) = length (pl_columns (ex_plan (snd s))) \<Longrightarrow>
     ex_rows (snd s') = ex_rows (snd s) @ map (\<lambda>g. group_row (ex_plan (snd s)) (ex_groups (snd s) ! g)) order"
proof (induction order arbitrary: i s)
  case (Cons g order)
  obtain w x where s: "s = (w, x)" by fastforce
  obtain w' now where c: "(if i mod 256 = 0 then clock_ns w else (w, 0)) = (w', now)" by fastforce
  let ?v = "gr_keys (ex_groups x ! g) @ gr_aggregates (ex_groups x ! g)"
  obtain s1 where r: "result_row ?v 0 (w', x) = (s1, Inr ())" and e: "emit_rows (i + 1) order s1 = (s', Inr u)"
    using Cons.prems(1) c by (auto simp: s bind_io_Inr split: if_splits)
  note rr = result_row_result [OF r]
  have l: "length ?v = length (pl_columns (ex_plan (snd (w', x))))" using Cons.prems(2) by (simp add: s)
  show ?case using Cons.IH [OF e] rr [OF l] Cons.prems(2) by (simp add: s group_row_def)
qed auto

definition groups_shaped :: "execution \<Rightarrow> bool" where
  "groups_shaped x \<longleftrightarrow>
     list_all (\<lambda>g. length (gr_keys g) = pl_key_count (ex_plan x) \<and>
       length (gr_keys g) + length (gr_aggregates g) = length (pl_columns (ex_plan x))) (ex_groups x)"

lemma compare_groups_cong:
  "ex_plan x = ex_plan y \<Longrightarrow> ex_groups x = ex_groups y \<Longrightarrow> compare_groups x = compare_groups y"
  by (intro ext) (simp add: compare_groups_def order_value_def Let_def)

lemma emit_groups_result:
  assumes e: "emit_groups (w, x) = (s', Inr u)" and sh: "groups_shaped x"
    and cmp: "pl_order (ex_plan x) \<ge> 0 \<Longrightarrow> \<forall>a < length (ex_groups x). comparable (order_type x) (order_value x a)"
  shows "\<exists>order. mset order = mset [0..<length (ex_groups x)] \<and> (pl_order (ex_plan x) \<ge> 0 \<longrightarrow> in_order (compare_groups x) order) \<and>
    (pl_order (ex_plan x) < 0 \<longrightarrow> order = [0..<length (ex_groups x)]) \<and>
    ex_rows (snd s') = ex_rows x @ map (\<lambda>g. group_row (ex_plan x) (ex_groups x ! g)) (take (so_limit (qo_scan (pl_options (ex_plan x)))) order)"
proof (cases "ex_groups x = []")
  case True
  then have "ex_rows (snd s') = ex_rows x" using e by (auto simp: emit_groups_def Let_def)
  then show ?thesis using True by (intro exI [of _ "[]"]) simp
next
  case False
  let ?n = "length (ex_groups x)" and ?p = "ex_plan x" and ?lim = "so_limit (qo_scan (pl_options (ex_plan x)))"
  define x0 where "x0 = x\<lparr>ex_total_groups := ?n\<rparr>"
  obtain s1 s2 s3 s4 order z z' where c: "charge (?n * 2 * SIZEOF_U64) (w, x0) = (s1, Inr ())"
      "system (call WADB_NOMEM) s1 = (s2, Inr z)" "system (call WADB_NOMEM) s2 = (s3, Inr z')"
      "(if pl_order ?p \<ge> 0 then sort_loop 1 [0..<?n] else return_io [0..<?n]) s3 = (s4, Inr order)"
      "emit_rows 0 (take ?lim order) s4 = (s', Inr u)"
    using e False unfolding emit_groups_def x0_def by (auto simp: Let_def bind_io_Inr)
  have "snd s3 = snd s1" using system_snd [OF c(2)] system_snd [OF c(3)] by simp
  then have f: "ex_plan (snd s3) = ?p" "ex_groups (snd s3) = ex_groups x" "ex_rows (snd s3) = ex_rows x"
    using charge_fields [OF c(1)] by (auto simp: only_used_def x0_def)
  have eq: "compare_groups (snd s3) = compare_groups x" using f by (intro compare_groups_cong) simp_all
  have o1: "snd s4 = snd s3 \<and> mset order = mset [0..<?n] \<and> (pl_order ?p \<ge> 0 \<longrightarrow> in_order (compare_groups x) order) \<and> (pl_order ?p < 0 \<longrightarrow> order = [0..<?n])"
  proof (cases "pl_order ?p \<ge> 0")
    case True
    have "total_on (set [0..<?n]) (compare_groups (snd s3))" unfolding eq using cmp [OF True] by (intro compare_groups_total) simp
    moreover have "sort_loop 1 [0..<?n] (fst s3, snd s3) = (s4, Inr order)" using c(4) True by simp
    ultimately show ?thesis using sort_loop_ok [of 1 "[0..<?n]" "fst s3" "snd s3" s4 order] runs_one True unfolding eq by simp
  next
    case False
    then show ?thesis using c(4) by (simp add: return_io_def)
  qed
  then have "set order = {0..<?n}" by (metis atLeastLessThan_upt mset_eq_setD)
  then have "\<forall>g \<in> set (take ?lim order). g < ?n" by (auto dest: in_set_takeD)
  moreover have w: "\<forall>n < ?n. length (gr_keys (ex_groups x ! n)) + length (gr_aggregates (ex_groups x ! n)) = length (pl_columns (ex_plan x))"
    using sh unfolding groups_shaped_def list_all_length by blast
  ultimately have "ex_rows (snd s') = ex_rows (snd s4) @ map (\<lambda>g. group_row (ex_plan (snd s4)) (ex_groups (snd s4) ! g)) (take ?lim order)"
    using emit_rows_result [OF c(5)] o1 f w by simp
  then show ?thesis using o1 f by (intro exI [of _ order]) simp
qed

section \<open>The order of the output\<close>

text \<open>The order of the values of a column, and of the cells of an ordered result; \<open>ordering_cell\<close> is the cell in the row of a group.\<close>

definition column_less :: "wadb_type \<Rightarrow> wadb_value \<Rightarrow> wadb_value \<Rightarrow> bool" where
  "column_less t u v \<longleftrightarrow>
     (if t \<in> {WADB_UUID, WADB_BYTES, WADB_TEXT, WADB_SYMBOL32} then ord_class.lexordp (carr_items (as_bytes u)) (carr_items (as_bytes v))
      else if t \<in> {WADB_I8, WADB_I16, WADB_I32, WADB_I64, WADB_TIMESTAMP_US} then as_i64 u < as_i64 v
      else if t \<in> {WADB_F32, WADB_F64} then f64_less (as_word u) (as_word v)
      else as_word u < as_word v)"

definition listed_before :: "bool \<Rightarrow> wadb_type \<Rightarrow> wadb_value \<Rightarrow> wadb_value \<Rightarrow> bool" where
  "listed_before descending t u v \<longleftrightarrow>
     \<not> is_null u \<and> (is_null v \<or> (if descending then column_less t v u else column_less t u v))"

definition ordering_cell :: "execution \<Rightarrow> nat \<Rightarrow> wadb_value" where
  "ordering_cell x a = group_row (ex_plan x) (ex_groups x ! a) ! nat (pl_order (ex_plan x))"

lemma value_compare_less:
  assumes "comparable t u" "comparable t v" "\<not> is_null u" "\<not> is_null v"
  shows "wadb_value_compare t u v < 0 \<longleftrightarrow> column_less t u v"
proof (cases "wadb_type_bytes t")
  case True
  then show ?thesis using assms value_compare_eq [OF assms(1,2)]
    by (auto simp: column_less_def wadb_type_bytes_def bytes_compare_def lexordp_irreflexive')
next
  case False
  then have "wadb_value_compare t u v < 0 \<longleftrightarrow> number_of t u < number_of t v" using assms value_compare_eq [OF assms(1,2)] by (simp add: sign_of_def)
  also have "\<dots> \<longleftrightarrow> column_less t u v" using False assms
    by (cases t) (auto simp: column_less_def number_of_def wadb_type_bytes_def wadb_type_signed_def wadb_type_float_def f64_less_def comparable_def word_less_def)
  finally show ?thesis .
qed

lemma column_less_copy:
  assumes "comparable t u" "comparable t v" "\<not> is_null u" "\<not> is_null v"
  shows "column_less t (copy_of t u) (copy_of t v) = column_less t u v"
  using assms by (auto simp: column_less_def copy_of_def comparable_def wadb_type_bytes_def as_i64_def)

lemma is_null_copy [simp]: "is_null (copy_of t v) = is_null v"
  by (simp add: copy_of_def)

lemma listed_before_copy:
  "comparable t u \<Longrightarrow> comparable t v \<Longrightarrow> listed_before d t (copy_of t u) (copy_of t v) = listed_before d t u v"
  by (cases "is_null u \<or> is_null v") (auto simp: listed_before_def column_less_copy)

lemma ordering_cell_eq:
  assumes "groups_shaped x" "a < length (ex_groups x)" "0 \<le> pl_order (ex_plan x)" "pl_order (ex_plan x) < int (length (pl_columns (ex_plan x)))"
  shows "ordering_cell x a = copy_of (order_type x) (order_value x a)"
proof -
  let ?g = "ex_groups x ! a" and ?p = "ex_plan x"
  have g: "length (gr_keys ?g) = pl_key_count ?p" "length (gr_keys ?g) + length (gr_aggregates ?g) = length (pl_columns ?p)"
    using assms(1,2) by (auto simp: groups_shaped_def list_all_length)
  have c: "nat (pl_order ?p) < length (pl_columns ?p)" using assms(3,4) by linarith
  show ?thesis using g c by (simp add: ordering_cell_def group_row_def order_type_def order_value_def Let_def nth_append)
qed

lemma compare_groups_listed:
  assumes "comparable (order_type x) (order_value x a)" "comparable (order_type x) (order_value x b)" "compare_groups x a b \<le> 0" "a \<noteq> b"
  shows "listed_before (qo_descending (pl_options (ex_plan x))) (order_type x) (order_value x a) (order_value x b) \<or>
    \<not> listed_before (qo_descending (pl_options (ex_plan x))) (order_type x) (order_value x b) (order_value x a) \<and> a < b"
proof -
  let ?t = "order_type x" and ?u = "order_value x a" and ?v = "order_value x b" and ?d = "qo_descending (pl_options (ex_plan x))"
  have anti: "wadb_value_compare ?t ?u ?v = - wadb_value_compare ?t ?v ?u" using value_compare_laws [OF assms(1,2,2)] by simp
  define k where "k = (if \<not> is_null ?u \<and> \<not> is_null ?v \<and> ?d then - wadb_value_compare ?t ?u ?v else wadb_value_compare ?t ?u ?v)"
  have "compare_groups x a b = (if k \<noteq> 0 then k else three_way (a > b) (a < b))"
    by (simp add: compare_groups_def k_def order_type_def Let_def)
  then have k: "k < 0 \<or> k = 0 \<and> a < b" using assms(3,4) by (auto simp: three_way_def split: if_splits)
  show ?thesis
  proof (cases "is_null ?u \<or> is_null ?v")
    case True
    then have "k = (if is_null ?u then 1 else 0) - (if is_null ?v then 1 else 0)" by (auto simp: k_def wadb_value_compare_def)
    then show ?thesis using k True by (auto simp: listed_before_def split: if_splits)
  next
    case False
    then have "column_less ?t ?u ?v \<longleftrightarrow> wadb_value_compare ?t ?u ?v < 0" "column_less ?t ?v ?u \<longleftrightarrow> wadb_value_compare ?t ?u ?v > 0"
      using value_compare_less [OF assms(1,2)] value_compare_less [OF assms(2,1)] anti by auto
    then show ?thesis using k False by (auto simp: listed_before_def k_def split: if_splits)
  qed
qed

section \<open>Properties\<close>

definition empty_groups :: "execution \<Rightarrow> bool" where
  "empty_groups x \<longleftrightarrow> ex_groups x = [] \<and> ex_slots x = [] \<and> ex_used x \<le> memory_limit x \<and> memory_limit x \<le> UINT64_MAX"

definition rows_ok :: "wadb_query_plan \<Rightarrow> (nat \<times> wadb_value list) list \<Rightarrow> bool" where
  "rows_ok p rows \<longleftrightarrow> list_all (\<lambda>r. row_ok p (snd r)) rows"

text \<open>
  C9: grouped aggregation. When a grouped query consumes the rows of a scan, every matching row
  belongs to exactly one group, every group has a row, and the aggregates of a group are those of
  the matching rows with its key, reduced in reading order; no memory budget is exceeded.
\<close>

theorem grouped_aggregation:
  assumes "plan_ok (ex_plan x)" and "aggregate_count (ex_plan x) \<noteq> 0" and "empty_groups x"
    and "rows_ok (ex_plan x) rows" and "consume_rows rows (w, x) = (s, Inr u)"
  shows "grouped (ex_plan x) (map snd rows) (ex_groups (snd s)) \<and> ex_used (snd s) \<le> memory_limit x"
proof -
  let ?p = "ex_plan x"
  have ok: "groups_ok x" using assms(3) by (simp add: empty_groups_def groups_ok_def group_slots_ok_def budget_ok_def)
  have i: "covered ?p [] (ex_groups x)" "tallied ?p [] (ex_groups x)" using assms(3) by (simp_all add: empty_groups_def covered_def tallied_def)
  have r: "\<forall>r \<in> set rows. row_ok ?p (snd r)" using assms(4) by (simp add: rows_ok_def list_all_iff)
  have c: "ex_plan (snd s) = ?p" "groups_ok (snd s)" "covered ?p (map snd rows) (ex_groups (snd s))" "tallied ?p (map snd rows) (ex_groups (snd s))"
    using consume_rows_grouped [OF assms(5,1,2) ok _ r i] by simp_all
  have "grouped ?p (map snd rows) (ex_groups (snd s))"
    using grouped_iff [of "snd s" "map snd rows", unfolded c(1), OF c(3,4,2) assms(1,2)] r by auto
  moreover have "ex_used (snd s) \<le> memory_limit x" using c(1,2) by (simp add: groups_ok_def budget_ok_def memory_limit_def)
  ultimately show ?thesis by blast
qed

definition example_plan :: wadb_query_plan where
  "example_plan =
     \<lparr>pl_schema = example_schema,
      pl_options = wadb_query_options_default\<lparr>qo_group_by := CMem [Some (ascii ''ms'')],
        qo_aggregates := CMem [\<lparr>ag_op = WADB_COUNT_ALL, ag_field = None, ag_name = Some (ascii ''n'')\<rparr>]\<rparr>,
      pl_projection = [], pl_groups = [2], pl_filters = [], pl_aggregates = [\<lparr>rd_field = 0, rd_op = WADB_COUNT_ALL\<rparr>],
      pl_columns = [\<lparr>rc_name = ascii ''ms'', rc_type = WADB_U16\<rparr>, \<lparr>rc_name = ascii ''n'', rc_type = WADB_U64\<rparr>],
      pl_key_count = 1, pl_allocated_bytes = 19824, pl_order = 1, pl_first_bucket = 0, pl_bucket_count = 0\<rparr>"

definition example_execution :: execution where
  "example_execution =
     \<lparr>ex_plan = example_plan, ex_groups = [], ex_group_capacity = 0, ex_slots = [], ex_used = 20000, ex_last_sequence = 0,
      ex_deadline = 1000, ex_stopped = False, ex_rows = [], ex_sequences = [], ex_capacity = 0, ex_matched_rows = 0, ex_total_groups = 0\<rparr>"

definition example_row :: "wadb_value list" where
  "example_row = [word_value 5, \<lparr>is_null = False, as_word = 0, as_bytes = CMem [47]\<rparr>, word_value 9]"

lemma example_plan_ok: "plan_ok example_plan" "aggregate_count example_plan \<noteq> 0"
proof -
  have "wadb_identifier (Some (ascii ''n''))" "wadb_identifier (Some (ascii ''ms''))"
    by (simp_all add: wadb_identifier_def identifier_loop.simps identifier_char_def cchar_def ascii_def WADB_NAME_CAP_def)
  then show "plan_ok example_plan"
    by (simp add: plan_ok_def example_plan_def Let_def columns_valid_def column_names_def cstr_def ascii_def WADB_MAX_FIELDS_def
        wadb_query_options_default_def WADB_MAX_FILTERS_def WADB_MAX_GROUP_FIELDS_def WADB_MAX_AGGREGATES_def example_schema_def
        example_fields_def aggregate_type_def)
  show "aggregate_count example_plan \<noteq> 0" by (simp add: aggregate_count_def example_plan_def)
qed

lemma example_consumed:
  "\<exists>w' x'. consume_rows [(1, example_row)] (quiet_world, example_execution) = ((w', x'), Inr ()) \<and>
     ex_groups x' = [\<lparr>gr_hash = hash_keys example_plan [word_value 9], gr_keys = [word_value 9], gr_aggregates = [word_value 1], gr_nonnull = [1]\<rparr>]"
  by (simp add: consume_def example_execution_def example_plan_def matches_filters_def aggregate_count_def group_keys_def Let_def
      wadb_query_options_default_def example_row_def group_for_def find_group_def bind_io_def grow_groups_def charge_def sub64_exact
      SIZEOF_QUERY_GROUP_def system_def call_def sys_def quiet_world_def update_def grow_group_slots_def SIZEOF_U32_def add_group_def
      key_types_def copy_value_def wadb_type_bytes_def return_io_def new_group_def reduce_def reduce_value_def word_value_def)

theorem grouped_aggregation_witness:
  "\<exists>w' x'. consume_rows [(1, example_row)] (quiet_world, example_execution) = ((w', x'), Inr ()) \<and>
     grouped example_plan [example_row] (ex_groups x')"
proof -
  obtain w' x' where c: "consume_rows [(1, example_row)] (quiet_world, example_execution) = ((w', x'), Inr ())" using example_consumed by blast
  have p: "ex_plan example_execution = example_plan" by (simp add: example_execution_def)
  have "grouped (ex_plan example_execution) (map snd [(1 :: nat, example_row)]) (ex_groups (snd (w', x'))) \<and>
     ex_used (snd (w', x')) \<le> memory_limit example_execution"
  proof (rule grouped_aggregation [where rows = "[(1, example_row)]" and w = quiet_world and u = "()"])
    show "plan_ok (ex_plan example_execution)" "aggregate_count (ex_plan example_execution) \<noteq> 0" using example_plan_ok p by simp_all
    show "empty_groups example_execution"
      by (simp add: empty_groups_def example_execution_def memory_limit_def example_plan_def wadb_query_options_default_def)
    show "rows_ok (ex_plan example_execution) [(1, example_row)]"
      by (simp add: rows_ok_def row_ok_def p example_row_def upt_rec example_plan_def example_schema_def example_fields_def comparable_def
          wadb_type_bytes_def wadb_type_float_def)
    show "consume_rows [(1, example_row)] (quiet_world, example_execution) = ((w', x'), Inr ())" by (rule c)
  qed
  then show ?thesis using c p by auto
qed

text \<open>
  C34: the rows of a grouped result. Emitting the groups appends, for a permutation of the
  groups, the row of each group up to the row limit. With an ordering column the rows are sorted by
  their cell in that column: numbers by value and byte strings lexicographically, ascending or, when
  asked for, descending; nulls last in both directions; and equal cells in order of the first
  appearance of their groups.
\<close>

theorem grouped_output_sorted:
  assumes "emit_groups (w, x) = (s, Inr u)" and "groups_shaped x"
    and "0 \<le> pl_order (ex_plan x)" and "pl_order (ex_plan x) < int (length (pl_columns (ex_plan x)))"
    and "list_all (\<lambda>a. comparable (order_type x) (order_value x a)) [0..<length (ex_groups x)]"
  shows "\<exists>order. mset order = mset [0..<length (ex_groups x)] \<and>
    sorted_wrt (\<lambda>a b.
      let before = listed_before (qo_descending (pl_options (ex_plan x))) (rc_type (pl_columns (ex_plan x) ! nat (pl_order (ex_plan x)))) in
      before (ordering_cell x a) (ordering_cell x b) \<or> \<not> before (ordering_cell x b) (ordering_cell x a) \<and> a < b) order \<and>
    ex_rows (snd s) = ex_rows x @
      map (\<lambda>g. group_row (ex_plan x) (ex_groups x ! g)) (take (so_limit (qo_scan (pl_options (ex_plan x)))) order)"
proof -
  obtain order where o1: "mset order = mset [0..<length (ex_groups x)]" "sorted_wrt (\<lambda>a b. compare_groups x a b \<le> 0) order"
    "ex_rows (snd s) = ex_rows x @ map (\<lambda>g. group_row (ex_plan x) (ex_groups x ! g)) (take (so_limit (qo_scan (pl_options (ex_plan x)))) order)"
    using emit_groups_result [OF assms(1,2)] assms(3,5) by (auto simp: list_all_iff)
  have set: "set order = {0..<length (ex_groups x)}" "distinct order"
    using o1(1) by (metis set_mset_mset set_upt) (metis o1(1) distinct_upt mset_eq_imp_distinct_iff)
  have "sorted_wrt (\<lambda>a b. a \<noteq> b \<and> compare_groups x a b \<le> 0) order" using o1(2) set(2) by (induction order) auto
  then have "sorted_wrt (\<lambda>a b.
      let before = listed_before (qo_descending (pl_options (ex_plan x))) (rc_type (pl_columns (ex_plan x) ! nat (pl_order (ex_plan x)))) in
      before (ordering_cell x a) (ordering_cell x b) \<or> \<not> before (ordering_cell x b) (ordering_cell x a) \<and> a < b) order"
  proof (rule sorted_wrt_mono_rel [rotated])
    fix a b assume ab: "a \<in> set order" "b \<in> set order" and c: "a \<noteq> b \<and> compare_groups x a b \<le> 0"
    then have l: "a < length (ex_groups x)" "b < length (ex_groups x)" using set(1) by auto
    then have cm: "comparable (order_type x) (order_value x a)" "comparable (order_type x) (order_value x b)" using assms(5) by (auto simp: list_all_iff)
    show "let before = listed_before (qo_descending (pl_options (ex_plan x))) (rc_type (pl_columns (ex_plan x) ! nat (pl_order (ex_plan x)))) in
      before (ordering_cell x a) (ordering_cell x b) \<or> \<not> before (ordering_cell x b) (ordering_cell x a) \<and> a < b"
      using compare_groups_listed [OF cm] c listed_before_copy [OF cm] listed_before_copy [OF cm(2,1)]
      unfolding Let_def ordering_cell_eq [OF assms(2) l(1) assms(3,4)] ordering_cell_eq [OF assms(2) l(2) assms(3,4)]
      by (simp flip: order_type_def)
  qed
  then show ?thesis using o1 by blast
qed

definition example_groups :: "query_group list" where
  "example_groups = map (\<lambda>k. \<lparr>gr_hash = 0, gr_keys = [word_value k], gr_aggregates = [word_value (3 - k)], gr_nonnull = [1]\<rparr>) [1, 2]"

theorem grouped_output_sorted_witness:
  "\<exists>w' x' order. emit_groups (quiet_world, example_execution\<lparr>ex_groups := example_groups, ex_deadline := 10 ^ 12\<rparr>) = ((w', x'), Inr ()) \<and>
     mset order = mset [0..<2] \<and> ex_rows x' = map (\<lambda>g. group_row example_plan (example_groups ! g)) (take 10000 order)"
proof -
  let ?x = "example_execution\<lparr>ex_groups := example_groups, ex_deadline := 10 ^ 12\<rparr>"
  have "\<exists>w' x'. emit_groups (quiet_world, ?x) = ((w', x'), Inr ())"
    by (simp add: emit_groups_def example_execution_def example_groups_def example_plan_def Let_def bind_io_def charge_def sub64_exact
      wadb_query_options_default_def wadb_scan_options_default_def SIZEOF_U64_def system_def call_def sys_def quiet_world_def sort_loop.simps clock_ns_def wadb_monotonic_ns_def add64_def mul64_def
      upt_rec merge_pass.simps compare_groups_def order_value_def wadb_value_compare_def wadb_type_bytes_def three_way_def
      wadb_type_signed_def wadb_type_float_def
      result_row_def grow_rows_def aggregate_count_def SIZEOF_VALUE_def update_def return_io_def copy_value_def)
  then obtain w' x' where e: "emit_groups (quiet_world, ?x) = ((w', x'), Inr ())" by blast
  have s: "groups_shaped ?x" "0 \<le> pl_order (ex_plan ?x)" "pl_order (ex_plan ?x) < int (length (pl_columns (ex_plan ?x)))"
    "list_all (\<lambda>a. comparable (order_type ?x) (order_value ?x a)) [0..<length (ex_groups ?x)]"
    by (simp_all add: groups_shaped_def example_groups_def example_execution_def example_plan_def order_type_def comparable_def
        wadb_type_bytes_def wadb_type_float_def)
  have f: "length example_groups = 2" "ex_rows ?x = []" "ex_plan ?x = example_plan" "ex_groups ?x = example_groups"
      "so_limit (qo_scan (pl_options example_plan)) = 10000"
    by (simp_all add: example_execution_def example_groups_def example_plan_def wadb_query_options_default_def wadb_scan_options_default_def)
  show ?thesis using grouped_output_sorted [OF e s] e unfolding f snd_conv append_Nil by blast
qed

text \<open>
  C35: sums of integer columns are exact. Reducing a column of a signed or unsigned type by sum
  gives the mathematical sum of the values that are not null and their number, null when there
  is none, or \<^verbatim>\<open>WADB_LIMIT\<close>, and then the sum of some prefix does not fit the type.
\<close>

theorem sum_exact:
  assumes "\<not> wadb_type_float t" and "length vs \<le> UINT64_MAX"
  shows "case reduce_column WADB_SUM t vs (null_value, 0) of
      Inr (out, n) \<Rightarrow> n = length (nonnull vs) \<and> (if n = 0 then is_null out else \<not> is_null out \<and> number_of t out = column_sum t vs)
    | Inl e \<Rightarrow> e = WADB_LIMIT \<and> (\<exists>k. \<not> in_range t (column_sum t (take k vs)))"
  using sum_column [of t "[]" "(null_value, 0)" vs] assms
  by (auto simp: sum_is_def nonnull_def null_value_def split: sum.splits)

theorem sum_exact_witness:
  "(case reduce_column WADB_SUM WADB_I64 [word_value 5, null_value, word_value (-7)] (null_value, 0) of
      Inr (out, n) \<Rightarrow> n = 2 \<and> as_i64 out = -2 | Inl _ \<Rightarrow> False) \<and>
   (case reduce_column WADB_SUM WADB_I64 [word_value (2 ^ 63 - 1), word_value 1] (null_value, 0) of
      Inr _ \<Rightarrow> False | Inl e \<Rightarrow> e = WADB_LIMIT)"
  using sum_exact [of WADB_I64 "[word_value 5, null_value, word_value (-7)]"]
    sum_exact [of WADB_I64 "[word_value (2 ^ 63 - 1), word_value 1]"]
  by (simp add: reduce_value_def wadb_type_float_def wadb_type_signed_def word_value_def null_value_def as_i64_def nonnull_def)

end
