(* ===== verification/Wadb_Engine.thy ===== *)
theory Wadb_Engine
  imports Wadb_Query
begin

unbundle bit_operations_syntax

text \<open>
  The structures of \<^verbatim>\<open>src/core/engine.h\<close> and of the public header, and the operations of
  \<^verbatim>\<open>src/core/stats.c\<close> and of \<^verbatim>\<open>src/core/database.c\<close> that need no storage: paths, defaults, table
  lookup, histograms, statistics, the notification ring and the segment listing.

  Lists stand for arrays together with their counts; capacities are kept because allocation and
  accounting depend on them. A table is named by its position in the database's table array, an
  open descriptor by the path it was opened with. Operations that the code runs under a mutex
  are single transitions of the state.
\<close>

section \<open>Segments and indexes\<close>

datatype wadb_segment_state = WADB_SEG_ACTIVE | WADB_SEG_SEALED | WADB_SEG_RETIRED | WADB_SEG_OTHER nat

fun state_code :: "wadb_segment_state \<Rightarrow> nat" where
  "state_code WADB_SEG_ACTIVE = 1"
| "state_code WADB_SEG_SEALED = 2"
| "state_code WADB_SEG_RETIRED = 3"
| "state_code (WADB_SEG_OTHER n) = n"

definition state_of_code :: "nat \<Rightarrow> wadb_segment_state" where
  "state_of_code n =
     (if n = 1 then WADB_SEG_ACTIVE else if n = 2 then WADB_SEG_SEALED
      else if n = 3 then WADB_SEG_RETIRED else WADB_SEG_OTHER n)"

record wadb_segment_meta =
  sg_id :: nat
  sg_day_start :: int
  sg_first_sequence :: nat
  sg_last_sequence :: nat
  sg_min_time :: int
  sg_max_time :: int
  sg_committed_bytes :: nat
  sg_state :: wadb_segment_state

record wadb_index_entry =
  ie_min_time :: int
  ie_max_time :: int
  ie_first_sequence :: nat
  ie_frame_offset :: nat
  ie_row_count :: nat
  ie_dictionary_count :: nat
  ie_frame_bytes :: nat
  ie_rows_offset :: nat
  ie_frame_crc :: u32
  ie_dictionary_crc :: u32

record wadb_frame_index =
  fi_entries :: "wadb_index_entry list"
  fi_capacity :: nat

definition empty_index :: wadb_frame_index where
  "empty_index = \<lparr>fi_entries = [], fi_capacity = 0\<rparr>"

definition WADB_MAX_TABLES :: nat where "WADB_MAX_TABLES = 1024"
definition WADB_MAX_SEGMENTS :: nat where "WADB_MAX_SEGMENTS = 1000000"
definition WADB_MAX_INDEX_ENTRIES :: nat where "WADB_MAX_INDEX_ENTRIES = 65536"
definition WADB_INDEX_HEADER_BYTES :: nat where "WADB_INDEX_HEADER_BYTES = 128"
definition WADB_INDEX_ENTRY_BYTES :: nat where "WADB_INDEX_ENTRY_BYTES = 64"
definition WADB_NOTIFICATION_CAPACITY :: nat where "WADB_NOTIFICATION_CAPACITY = 1024"

text \<open>Sizes of structures, LP64.\<close>

definition SIZEOF_SEGMENT_META :: nat where "SIZEOF_SEGMENT_META = 64"
definition SIZEOF_INDEX_ENTRY :: nat where "SIZEOF_INDEX_ENTRY = 56"
definition SIZEOF_SNAPSHOT :: nat where "SIZEOF_SNAPSHOT = 64"
definition SIZEOF_CACHE_ENTRY :: nat where "SIZEOF_CACHE_ENTRY = 72"
definition SIZEOF_APPEND_REQUEST :: nat where "SIZEOF_APPEND_REQUEST = 432"
definition SIZEOF_CURSOR :: nat where "SIZEOF_CURSOR = 120"

section \<open>Tables, requests and readers\<close>

record wadb_options =
  op_segment_target_bytes :: nat
  op_queue_limit_bytes :: nat
  op_dictionary_limit_bytes :: nat
  op_read_cache_bytes :: nat
  op_snapshot_limit_bytes :: nat
  op_max_readers :: nat
  op_batch_target_bytes :: nat
  op_batch_delay_ms :: nat
  op_max_tables :: nat

definition wadb_options_default :: wadb_options where
  "wadb_options_default =
     \<lparr>op_segment_target_bytes = 256 * 1024 * 1024, op_queue_limit_bytes = 64 * 1024 * 1024,
      op_dictionary_limit_bytes = 8 * 1024 * 1024, op_read_cache_bytes = 64 * 1024 * 1024,
      op_snapshot_limit_bytes = 64 * 1024 * 1024, op_max_readers = 32, op_batch_target_bytes = 256 * 1024,
      op_batch_delay_ms = 5, op_max_tables = WADB_MAX_TABLES\<rparr>"

record wadb_table =
  tb_id :: nat
  tb_name :: bytes
  tb_directory :: path
  tb_schema :: wadb_schema
  tb_next_segment_id :: nat
  tb_preserved_sequence :: nat
  tb_preserved_time :: int
  tb_retention_us :: nat
  tb_manifest_generation :: nat
  tb_segments :: "wadb_segment_meta list"
  tb_active_fd :: "path option"
  tb_last_sequence :: nat
  tb_last_time :: int
  tb_readers :: nat
  tb_read_only :: bool
  tb_pending_retention :: bool
  tb_maintenance_status :: wadb_status
  tb_dictionary :: "wadb_dictionary option"
  tb_index :: wadb_frame_index
  tb_readable :: "nat list"
  tb_readable_capacity :: nat
  tb_committed_frames :: nat
  tb_append_requests :: nat
  tb_retained_rows :: nat
  tb_retained_bytes :: nat
  tb_retained_segments :: nat
  tb_retired_segments :: nat
  tb_published_dictionary_bytes :: nat

record wadb_append_receipt =
  rc_first_sequence :: nat
  rc_last_sequence :: nat
  rc_ingestion_time :: int
  rc_row_count :: nat

record wadb_append_request =
  rq_table :: nat
  rq_values :: "wadb_value carr"
  rq_rows :: bytes
  rq_row_count :: nat
  rq_row_bytes :: nat
  rq_charge :: nat
  rq_submitted_ns :: nat
  rq_started_ns :: nat
  rq_ingestion_time :: int
  rq_receipt :: wadb_append_receipt
  rq_status :: wadb_status
  rq_done :: bool

record wadb_snapshot =
  sn_table :: "nat option"
  sn_segments :: "wadb_segment_meta list"
  sn_charge :: nat
  sn_active :: "wadb_index_entry list"
  sn_sequence :: nat

record wadb_cache_entry =
  ce_table_id :: nat
  ce_segment_id :: nat
  ce_covered_bytes :: nat
  ce_used :: nat
  ce_dictionary_crc :: u32
  ce_references :: nat
  ce_charge :: nat
  ce_dictionary :: wadb_dictionary

record wadb_cursor_state =
  cu_table :: nat
  cu_plan :: wadb_query_plan
  cu_snapshot :: wadb_snapshot
  cu_id :: nat
  cu_deadline :: nat
  cu_after :: nat
  cu_remaining_bytes :: nat
  cu_busy :: bool

record wadb_histogram =
  hi_bins :: "nat list"
  hi_count :: nat
  hi_max_us :: nat

record wadb_commit_event =
  ev_id :: nat
  ev_table_id :: nat
  ev_first_sequence :: nat
  ev_last_sequence :: nat
  ev_frame_bytes :: nat
  ev_max_time :: int
  ev_rows :: nat

record wadb_db =
  db_directory :: path
  db_locked :: bool
  db_read_only :: bool
  db_writer_started :: bool
  db_stopping :: bool
  db_queue :: "wadb_append_request list"
  db_queue_bytes :: nat
  db_ready_bytes :: nat
  db_rejected_appends :: nat
  db_failed_appends :: nat
  db_snapshot_bytes :: nat
  db_reader_count :: nat
  db_cache :: "wadb_cache_entry list"
  db_cache_bytes :: nat
  db_cache_clock :: nat
  db_cache_hits :: nat
  db_cache_misses :: nat
  db_cursors :: "wadb_cursor_state list"
  db_next_cursor_id :: nat
  db_boot_ns :: nat
  db_committed_rows :: nat
  db_committed_bytes :: nat
  db_committed_frames :: nat
  db_append_requests :: nat
  db_clock_adjustments :: nat
  db_queries :: nat
  db_failed_queries :: nat
  db_rows_scanned :: nat
  db_bytes_scanned :: nat
  db_append_latency :: wadb_histogram
  db_sync_latency :: wadb_histogram
  db_query_latency :: wadb_histogram
  db_notifications :: "wadb_commit_event list"
  db_latest_notification :: nat
  db_options :: wadb_options
  db_next_table_id :: nat
  db_tables :: "wadb_table list"

type_synonym 'a engine = "(world \<times> wadb_db, 'a) io"

section \<open>Paths and lookup\<close>

text \<open>Allocation inside the world: the next outcomes of the script.\<close>

definition allocs :: "world \<Rightarrow> nat \<Rightarrow> bool" where
  "allocs w i \<longleftrightarrow> w_script w (w_tick w + i) \<noteq> Fail"

definition with_allocs :: "nat \<Rightarrow> ((nat \<Rightarrow> bool) \<Rightarrow> 'a) \<Rightarrow> world \<Rightarrow> world \<times> 'a" where
  "with_allocs n f w = (w\<lparr>w_tick := w_tick w + n\<rparr>, f (allocs w))"

text \<open>A null path is reported as \<^verbatim>\<open>WADB_NOMEM\<close> by every caller.\<close>

definition wadb_path :: "path \<Rightarrow> bytes \<Rightarrow> (world, path) io" where
  "wadb_path base name =
     (if length base + length name + 2 > 4096 then fail_io WADB_NOMEM
      else bind_io (call WADB_NOMEM) (\<lambda>_. return_io (base @ 47 # name)))"

text \<open>\<^verbatim>\<open>%020\<close> of a 64-bit number, which has at most twenty digits.\<close>

definition decimal20 :: "nat \<Rightarrow> bytes" where
  "decimal20 n = map (\<lambda>i. of_nat (48 + n div 10 ^ (19 - i) mod 10)) [0..<20]"

definition wadb_id_path :: "path \<Rightarrow> nat \<Rightarrow> (world, path) io" where
  "wadb_id_path base n = wadb_path base (decimal20 n)"

definition wadb_get_table :: "wadb_db option \<Rightarrow> bool \<Rightarrow> nat \<Rightarrow> nat res" where
  "wadb_get_table db out tid =
     (case db of
        None \<Rightarrow> Inl WADB_INVALID
      | Some d \<Rightarrow>
          if \<not> out then Inl WADB_INVALID
          else (case find (\<lambda>i. tb_id (db_tables d ! i) = tid) [0..<length (db_tables d)] of
                  None \<Rightarrow> Inl WADB_NOT_FOUND
                | Some i \<Rightarrow> Inr i))"

definition wadb_find_table :: "wadb_db option \<Rightarrow> bytes option \<Rightarrow> bool \<Rightarrow> nat res" where
  "wadb_find_table db name out =
     (case (db, name) of
        (Some d, Some n) \<Rightarrow>
          if \<not> out then Inl WADB_INVALID
          else (case find (\<lambda>i. strcmp_eq (tb_name (db_tables d ! i)) n) [0..<length (db_tables d)] of
                  None \<Rightarrow> Inl WADB_NOT_FOUND
                | Some i \<Rightarrow> Inr i)
      | _ \<Rightarrow> Inl WADB_INVALID)"

text \<open>The count is set whenever the arguments are valid, the handles when they fit.\<close>

definition wadb_list_tables :: "wadb_db option \<Rightarrow> bool \<Rightarrow> nat \<Rightarrow> bool \<Rightarrow> nat option \<times> nat list res" where
  "wadb_list_tables db tables cap have_count =
     (case db of
        None \<Rightarrow> (None, Inl WADB_INVALID)
      | Some d \<Rightarrow>
          if \<not> have_count \<or> (\<not> tables \<and> cap \<noteq> 0) then (None, Inl WADB_INVALID)
          else
            (let n = length (db_tables d) in
             (Some n,
              if tables then (if cap < n then Inl WADB_LIMIT else Inr [0..<n]) else Inr [])))"

definition wadb_table_id :: "wadb_table option \<Rightarrow> nat" where
  "wadb_table_id t = (case t of None \<Rightarrow> 0 | Some x \<Rightarrow> tb_id x)"

definition wadb_table_name :: "wadb_table option \<Rightarrow> bytes option" where
  "wadb_table_name t = map_option tb_name t"

definition wadb_table_schema :: "wadb_table option \<Rightarrow> wadb_schema option" where
  "wadb_table_schema t = map_option tb_schema t"

section \<open>Histograms and statistics\<close>

function bin_loop :: "nat \<Rightarrow> nat \<Rightarrow> nat" where
  "bin_loop bound bin =
     (if bound > 1 then bin_loop (bound div 2 + (if bound mod 2 \<noteq> 0 then 1 else 0)) (bin + 1) else bin)"
  by pat_completeness auto
termination by (relation "measure fst") (auto, presburger)

declare bin_loop.simps [simp del]

definition to_us :: "nat \<Rightarrow> nat" where
  "to_us ns = ns div 1000 + (if ns mod 1000 \<noteq> 0 then 1 else 0)"

definition wadb_histogram_record :: "nat \<Rightarrow> wadb_histogram \<Rightarrow> wadb_histogram" where
  "wadb_histogram_record ns h =
     (let us = to_us ns; bin = bin_loop us 0 in
      if hi_count h = UINT64_MAX \<or> hi_bins h ! bin = UINT64_MAX then h
      else h\<lparr>hi_count := hi_count h + 1, hi_bins := (hi_bins h)[bin := hi_bins h ! bin + 1],
             hi_max_us := (if us > hi_max_us h then us else hi_max_us h)\<rparr>)"

fun percentile_loop :: "nat list \<Rightarrow> nat \<Rightarrow> nat \<Rightarrow> nat \<Rightarrow> nat" where
  "percentile_loop [] i seen target = UINT64_MAX"
| "percentile_loop (b # bs) i seen target =
     (let seen = add64 seen b in if seen \<ge> target then 2 ^ i else percentile_loop bs (i + 1) seen target)"

definition percentile :: "wadb_histogram \<Rightarrow> nat \<Rightarrow> nat" where
  "percentile h percent =
     (if hi_count h = 0 then 0
      else
        (let target = add64 (mul64 (hi_count h div 100) percent) (((hi_count h mod 100) * percent + 99) div 100)
         in percentile_loop (hi_bins h) 0 0 target))"

record wadb_latency_stats =
  la_samples :: nat
  la_p50_us :: nat
  la_p95_us :: nat
  la_p99_us :: nat
  la_max_us :: nat

definition summarize :: "wadb_histogram \<Rightarrow> wadb_latency_stats" where
  "summarize h =
     \<lparr>la_samples = hi_count h, la_p50_us = percentile h 50, la_p95_us = percentile h 95,
      la_p99_us = percentile h 99, la_max_us = hi_max_us h\<rparr>"

record wadb_scan_stats =
  ss_rows_scanned :: nat
  ss_rows_returned :: nat
  ss_bytes_scanned :: nat
  ss_snapshot_sequence :: nat
  ss_index_bytes :: nat
  ss_dictionary_bytes :: nat
  ss_frames_scanned :: nat
  ss_segments_scanned :: nat
  ss_rebuild_bytes :: nat
  ss_last_sequence :: nat
  ss_limit_reached :: bool

definition wadb_record_query :: "nat \<Rightarrow> wadb_status \<Rightarrow> wadb_scan_stats option \<Rightarrow> world \<times> wadb_db \<Rightarrow> world \<times> wadb_db" where
  "wadb_record_query start status stats = (\<lambda>(w, db).
     case clock_ns w of (w', now) \<Rightarrow>
       (w', db\<lparr>db_queries := add64 (db_queries db) 1,
               db_failed_queries := (if status \<noteq> WADB_OK then add64 (db_failed_queries db) 1 else db_failed_queries db),
               db_rows_scanned := (case stats of None \<Rightarrow> db_rows_scanned db | Some x \<Rightarrow> add64 (db_rows_scanned db) (ss_rows_scanned x)),
               db_bytes_scanned := (case stats of None \<Rightarrow> db_bytes_scanned db | Some x \<Rightarrow> add64 (db_bytes_scanned db) (ss_bytes_scanned x)),
               db_query_latency := wadb_histogram_record (sub64 now start) (db_query_latency db)\<rparr>))"

record wadb_stats =
  st_uptime_us :: nat
  st_table_count :: nat
  st_queue_bytes :: nat
  st_queue_limit_bytes :: nat
  st_cache_bytes :: nat
  st_cache_hits :: nat
  st_cache_misses :: nat
  st_readers :: nat
  st_snapshot_bytes :: nat
  st_committed_rows :: nat
  st_committed_bytes :: nat
  st_committed_frames :: nat
  st_append_requests :: nat
  st_rejected_appends :: nat
  st_failed_appends :: nat
  st_clock_adjustments :: nat
  st_queries :: nat
  st_failed_queries :: nat
  st_rows_scanned :: nat
  st_bytes_scanned :: nat
  st_disk_free_bytes :: nat
  st_latest_notification :: nat
  st_disk_free_available :: bool
  st_read_only :: bool
  st_append_latency :: wadb_latency_stats
  st_sync_latency :: wadb_latency_stats
  st_query_latency :: wadb_latency_stats

text \<open>\<open>disk\<close> is the result of \<^verbatim>\<open>statvfs\<close>: block size and available blocks.\<close>

definition disk_free :: "(nat \<times> nat) option \<Rightarrow> nat option" where
  "disk_free disk =
     (case disk of
        None \<Rightarrow> None
      | Some (frsize, bavail) \<Rightarrow>
          if frsize = 0 \<or> bavail \<le> UINT64_MAX div frsize then Some (mul64 bavail frsize) else None)"

definition wadb_get_stats :: "(nat \<times> nat) option \<Rightarrow> wadb_db option \<Rightarrow> bool \<Rightarrow> world \<Rightarrow> world \<times> wadb_stats res" where
  "wadb_get_stats disk db out w =
     (case db of
        None \<Rightarrow> (w, Inl WADB_INVALID)
      | Some d \<Rightarrow>
          if \<not> out then (w, Inl WADB_INVALID)
          else (case clock_ns w of (w', now) \<Rightarrow>
            (w', Inr
              \<lparr>st_uptime_us = sub64 now (db_boot_ns d) div 1000, st_table_count = length (db_tables d),
               st_queue_bytes = db_queue_bytes d, st_queue_limit_bytes = op_queue_limit_bytes (db_options d),
               st_cache_bytes = db_cache_bytes d, st_cache_hits = db_cache_hits d, st_cache_misses = db_cache_misses d,
               st_readers = db_reader_count d, st_snapshot_bytes = db_snapshot_bytes d,
               st_committed_rows = db_committed_rows d, st_committed_bytes = db_committed_bytes d,
               st_committed_frames = db_committed_frames d, st_append_requests = db_append_requests d,
               st_rejected_appends = db_rejected_appends d, st_failed_appends = db_failed_appends d,
               st_clock_adjustments = db_clock_adjustments d, st_queries = db_queries d,
               st_failed_queries = db_failed_queries d, st_rows_scanned = db_rows_scanned d,
               st_bytes_scanned = db_bytes_scanned d, st_disk_free_bytes = (case disk_free disk of None \<Rightarrow> 0 | Some n \<Rightarrow> n),
               st_latest_notification = db_latest_notification d, st_disk_free_available = (disk_free disk \<noteq> None),
               st_read_only = (db_read_only d \<or> list_ex tb_read_only (db_tables d)),
               st_append_latency = summarize (db_append_latency d), st_sync_latency = summarize (db_sync_latency d),
               st_query_latency = summarize (db_query_latency d)\<rparr>)))"

record wadb_table_stats =
  ts_id :: nat
  ts_retention_us :: nat
  ts_rows :: nat
  ts_bytes :: nat
  ts_segments :: nat
  ts_retired_segments :: nat
  ts_last_sequence :: nat
  ts_dictionary_bytes :: nat
  ts_active_index_bytes :: nat
  ts_min_time :: int
  ts_max_time :: int
  ts_last_assigned_time :: int
  ts_row_width :: nat
  ts_read_only :: bool
  ts_pending_retention :: bool
  ts_maintenance_status :: wadb_status

definition wadb_get_table_stats :: "wadb_db \<Rightarrow> wadb_table option \<Rightarrow> bool \<Rightarrow> wadb_table_stats res" where
  "wadb_get_table_stats db table out =
     (case table of
        None \<Rightarrow> Inl WADB_INVALID
      | Some t \<Rightarrow>
          if \<not> out then Inl WADB_INVALID
          else
            (let readable = tb_readable t in
             Inr \<lparr>ts_id = tb_id t, ts_retention_us = tb_retention_us t, ts_rows = tb_retained_rows t,
                  ts_bytes = tb_retained_bytes t, ts_segments = tb_retained_segments t,
                  ts_retired_segments = tb_retired_segments t, ts_last_sequence = tb_last_sequence t,
                  ts_dictionary_bytes = tb_published_dictionary_bytes t,
                  ts_active_index_bytes = fi_capacity (tb_index t) * SIZEOF_INDEX_ENTRY,
                  ts_min_time = (if readable = [] then 0 else sg_min_time (tb_segments t ! hd readable)),
                  ts_max_time = (if readable = [] then 0 else sg_max_time (tb_segments t ! last readable)),
                  ts_last_assigned_time = tb_last_time t, ts_row_width = row_width (tb_schema t),
                  ts_read_only = (tb_read_only t \<or> db_read_only db), ts_pending_retention = tb_pending_retention t,
                  ts_maintenance_status = tb_maintenance_status t\<rparr>))"

section \<open>Notifications\<close>

text \<open>Publishing a commit, at the end of \<^verbatim>\<open>wadb_commit_requests\<close>: the ring is overwritten in place.\<close>

definition publish_event :: "wadb_commit_event \<Rightarrow> wadb_db \<Rightarrow> wadb_db" where
  "publish_event ev db =
     (if db_latest_notification db < UINT64_MAX then
        (let n = db_latest_notification db + 1 in
         db\<lparr>db_latest_notification := n,
            db_notifications := (db_notifications db)[(n - 1) mod WADB_NOTIFICATION_CAPACITY := ev\<lparr>ev_id := n\<rparr>]\<rparr>)
      else db)"

text \<open>The events read, the identifier of the latest one and whether events were lost.\<close>

definition wadb_read_notifications ::
  "wadb_db option \<Rightarrow> nat \<Rightarrow> bool \<Rightarrow> nat \<Rightarrow> bool \<Rightarrow> (wadb_commit_event list \<times> nat \<times> bool) res" where
  "wadb_read_notifications db after events capacity outs =
     (case db of
        None \<Rightarrow> Inl WADB_INVALID
      | Some d \<Rightarrow>
          if \<not> outs \<or> capacity > WADB_NOTIFICATION_CAPACITY \<or> (capacity \<noteq> 0 \<and> \<not> events) then Inl WADB_INVALID
          else
            (let latest = db_latest_notification d;
                 oldest = (if latest \<ge> WADB_NOTIFICATION_CAPACITY then latest - WADB_NOTIFICATION_CAPACITY + 1 else 1);
                 first = (if after < latest then after + 1 else 0);
                 lost = (first \<noteq> 0 \<and> first < oldest);
                 gap = (after > latest \<or> lost);
                 first = (if lost then oldest else first)
             in if first \<noteq> 0 then
                  (let available = latest - first + 1;
                       n = (if available < capacity then available else capacity)
                   in Inr (map (\<lambda>i. db_notifications d ! ((first + i - 1) mod WADB_NOTIFICATION_CAPACITY)) [0..<n], latest, gap))
                else Inr ([], latest, gap)))"

section \<open>Bisection\<close>

text \<open>The loop \<^verbatim>\<open>while (lo < hi)\<close> of every lookup in an ordered array: \<open>before i\<close> moves the lower end.\<close>

function bisect :: "(nat \<Rightarrow> bool) \<Rightarrow> nat \<Rightarrow> nat \<Rightarrow> nat" where
  "bisect before lo hi =
     (if lo < hi then
        (let mid = lo + (hi - lo) div 2 in
         if before mid then bisect before (mid + 1) hi else bisect before lo mid)
      else lo)"
  by pat_completeness auto
termination by (relation "measure (\<lambda>(before, lo, hi). hi - lo)") (auto simp: Let_def)

declare bisect.simps [simp del]

definition wadb_list_segments ::
  "wadb_table option \<Rightarrow> nat \<Rightarrow> bool \<Rightarrow> nat \<Rightarrow> bool \<Rightarrow> (wadb_segment_meta list \<times> bool) res" where
  "wadb_list_segments table after segments capacity outs =
     (case table of
        None \<Rightarrow> Inl WADB_INVALID
      | Some t \<Rightarrow>
          if \<not> segments \<or> capacity = 0 \<or> capacity > 1024 \<or> \<not> outs then Inl WADB_INVALID
          else
            (let lo = bisect (\<lambda>i. sg_id (tb_segments t ! i) \<le> after) 0 (length (tb_segments t));
                 n = length (tb_segments t) - lo
             in Inr (take (if n > capacity then capacity else n) (drop lo (tb_segments t)), n > capacity)))"

section \<open>Lemmas\<close>

text \<open>Bisection over a predicate that holds on an initial part finds its end.\<close>

definition initial :: "(nat \<Rightarrow> bool) \<Rightarrow> nat \<Rightarrow> bool" where
  "initial before n \<longleftrightarrow> (\<forall>i j. i \<le> j \<longrightarrow> j < n \<longrightarrow> before j \<longrightarrow> before i)"

lemma bisect_range: "lo \<le> hi \<Longrightarrow> lo \<le> bisect before lo hi \<and> bisect before lo hi \<le> hi"
proof (induction before lo hi rule: bisect.induct)
  case (1 before lo hi)
  show ?case
  proof (cases "lo < hi")
    case True
    define mid where "mid = lo + (hi - lo) div 2"
    have m: "lo \<le> mid" "mid < hi" using True by (auto simp: mid_def)
    have st: "bisect before lo hi = (if before mid then bisect before (mid + 1) hi else bisect before lo mid)"
      using True by (subst bisect.simps) (simp add: Let_def mid_def)
    show ?thesis using 1(1,2) [OF True mid_def] m unfolding st by (cases "before mid") auto
  next
    case False
    then show ?thesis using 1(3) by (simp add: bisect.simps)
  qed
qed

lemma bisect_spec:
  assumes "initial before n" "lo \<le> hi" "hi \<le> n" "\<forall>i < lo. before i" "\<forall>i. hi \<le> i \<longrightarrow> i < n \<longrightarrow> \<not> before i"
  shows "(\<forall>i < bisect before lo hi. before i) \<and> (\<forall>i. bisect before lo hi \<le> i \<longrightarrow> i < n \<longrightarrow> \<not> before i)"
  using assms
proof (induction before lo hi rule: bisect.induct)
  case (1 before lo hi)
  show ?case
  proof (cases "lo < hi")
    case True
    define mid where "mid = lo + (hi - lo) div 2"
    have m: "lo \<le> mid" "mid < hi" using True by (auto simp: mid_def)
    have st: "bisect before lo hi = (if before mid then bisect before (mid + 1) hi else bisect before lo mid)"
      using True by (subst bisect.simps) (simp add: Let_def mid_def)
    show ?thesis
    proof (cases "before mid")
      case b: True
      have pre: "\<forall>i < mid + 1. before i"
      proof (intro allI impI)
        fix i assume "i < mid + 1"
        then have "i \<le> mid" "mid < n" using m 1(5) by simp_all
        then show "before i" using b 1(3) unfolding initial_def by blast
      qed
      have "mid + 1 \<le> hi" using m by simp
      from 1(1) [OF True mid_def b 1(3) this 1(5) pre 1(7)] show ?thesis unfolding st if_P [OF b] .
    next
      case b: False
      have post: "\<forall>i. mid \<le> i \<longrightarrow> i < n \<longrightarrow> \<not> before i" using b 1(3) unfolding initial_def by blast
      have "mid \<le> n" using m 1(5) by simp
      from 1(2) [OF True mid_def b 1(3) m(1) this 1(6) post] show ?thesis unfolding st if_not_P [OF b] .
    qed
  next
    case False
    then have "bisect before lo hi = lo" "lo = hi" using 1(4) by (simp_all add: bisect.simps)
    then show ?thesis using 1(6,7) by simp
  qed
qed

lemma bisect_filter:
  assumes "initial (\<lambda>i. P (xs ! i)) (length xs)"
  shows "drop (bisect (\<lambda>i. P (xs ! i)) 0 (length xs)) xs = filter (\<lambda>x. \<not> P x) xs"
proof -
  let ?r = "bisect (\<lambda>i. P (xs ! i)) 0 (length xs)"
  have "\<forall>i < (0 :: nat). P (xs ! i)" "\<forall>i. length xs \<le> i \<longrightarrow> i < length xs \<longrightarrow> \<not> P (xs ! i)" by simp_all
  note s = bisect_spec [OF assms le0 order_refl this]
  have r: "?r \<le> length xs" using bisect_range [of 0 "length xs"] by simp
  have "filter (\<lambda>x. \<not> P x) (take ?r xs) = []" 
  proof -
    have "P x" if "x \<in> set (take ?r xs)" for x
    proof -
      have "\<exists>i < length (take ?r xs). take ?r xs ! i = x" using that by (simp only: in_set_conv_nth)
      then obtain i where "i < length (take ?r xs)" "take ?r xs ! i = x" by blast
      then have "i < ?r" "xs ! i = x" by simp_all
      then show ?thesis using s by blast
    qed
    then show ?thesis unfolding filter_empty_conv by blast
  qed
  moreover have "filter (\<lambda>x. \<not> P x) (drop ?r xs) = drop ?r xs" 
  proof -
    have "\<not> P x" if "x \<in> set (drop ?r xs)" for x
    proof -
      have "\<exists>i < length (drop ?r xs). drop ?r xs ! i = x" using that by (simp only: in_set_conv_nth)
      then obtain i where i: "i < length (drop ?r xs)" "drop ?r xs ! i = x" by blast
      then have "i < length xs - ?r" "x = xs ! (?r + i)" by simp_all
      moreover have "?r + i < length xs" using calculation r by simp
      ultimately show ?thesis using s le_add1 by blast
    qed
    then show ?thesis unfolding filter_id_conv by blast
  qed
  ultimately show ?thesis by (metis append_take_drop_id filter_append append_Nil)
qed

lemma list_segments_page:
  assumes "sorted_wrt (\<lambda>a b. sg_id a < sg_id b) (tb_segments t)" "0 < cap" "cap \<le> 1024"
  shows "wadb_list_segments (Some t) after True cap True =
    (let rest = filter (\<lambda>s. after < sg_id s) (tb_segments t) in Inr (take cap rest, cap < length rest))"
proof -
  let ?ss = "tb_segments t" and ?P = "\<lambda>s. sg_id s \<le> after"
  have "initial (\<lambda>i. ?P (?ss ! i)) (length ?ss)"
    unfolding initial_def
  proof (intro allI impI)
    fix i j assume a: "i \<le> j" "j < length ?ss" "?P (?ss ! j)"
    show "?P (?ss ! i)"
    proof (cases "i = j")
      case False
      then have "sg_id (?ss ! i) < sg_id (?ss ! j)" using sorted_wrt_nth_less [OF assms(1)] a by simp
      then show ?thesis using a(3) by simp
    qed (use a in simp)
  qed
  from bisect_filter [of ?P, OF this] have f: "drop (bisect (\<lambda>i. ?P (?ss ! i)) 0 (length ?ss)) ?ss = filter (\<lambda>s. after < sg_id s) ?ss"
    by (simp add: not_le)
  from arg_cong [OF this, of length] have "length ?ss - bisect (\<lambda>i. ?P (?ss ! i)) 0 (length ?ss) = length (filter (\<lambda>s. after < sg_id s) ?ss)" by simp
  then show ?thesis using assms(2,3) f by (auto simp: wadb_list_segments_def Let_def)
qed

section \<open>Histograms\<close>

lemma bin_loop_add: "bin_loop n k = k + bin_loop n 0"
proof (induction n arbitrary: k rule: less_induct)
  case (less n)
  let ?h = "n div 2 + (if n mod 2 \<noteq> 0 then 1 else 0)"
  show ?case
  proof (cases "n > 1")
    case True
    then have "?h < n" by presburger
    then show ?thesis using less.IH [of ?h "k + 1"] less.IH [of ?h 1] True by (simp add: bin_loop.simps [of n])
  next
    case False
    then show ?thesis by (simp add: bin_loop.simps)
  qed
qed

text \<open>A value is in the bin of the least power of two not below it.\<close>

lemma bin_loop_le: "n \<le> 2 ^ k \<longleftrightarrow> bin_loop n 0 \<le> k"
proof (induction k arbitrary: n)
  case 0
  have "0 < bin_loop n 0" if "n > 1" using that bin_loop_add [of _ 1] by (subst bin_loop.simps) simp
  then show ?case by (cases "n > 1") (auto simp: bin_loop.simps [of n])
next
  case (Suc k)
  let ?h = "n div 2 + (if n mod 2 \<noteq> 0 then 1 else 0)"
  show ?case
  proof (cases "n > 1")
    case True
    then have "bin_loop n 0 = 1 + bin_loop ?h 0" using bin_loop_add [of ?h 1] by (subst bin_loop.simps) simp
    moreover have "n \<le> 2 ^ Suc k \<longleftrightarrow> ?h \<le> 2 ^ k" by (simp split: if_splits) presburger
    ultimately show ?thesis using Suc.IH [of ?h] by simp
  next
    case False
    then have "bin_loop n 0 = 0" by (simp add: bin_loop.simps)
    moreover have "n \<le> 2 ^ Suc k" using False one_le_power [of "2 :: nat" "Suc k"] by linarith
    ultimately show ?thesis by simp
  qed
qed

lemma to_us_bound: "ns \<le> UINT64_MAX \<Longrightarrow> to_us ns \<le> 2 ^ 63"
  by (simp add: to_us_def) linarith

lemma bin_bound: "ns \<le> UINT64_MAX \<Longrightarrow> bin_loop (to_us ns) 0 < 64"
  using bin_loop_le [of "to_us ns" 63] to_us_bound by force

definition empty_histogram :: wadb_histogram where
  "empty_histogram = \<lparr>hi_bins = replicate 64 0, hi_count = 0, hi_max_us = 0\<rparr>"

definition record_all :: "nat list \<Rightarrow> wadb_histogram" where
  "record_all samples = fold wadb_histogram_record samples empty_histogram"

definition in_bin :: "nat \<Rightarrow> nat list \<Rightarrow> nat" where
  "in_bin b samples = length (filter (\<lambda>ns. bin_loop (to_us ns) 0 = b) samples)"

lemma record_all_ok:
  assumes "list_all (\<lambda>ns. ns \<le> UINT64_MAX) samples" "length samples < UINT64_MAX"
  shows "hi_count (record_all samples) = length samples \<and> hi_bins (record_all samples) = map (\<lambda>b. in_bin b samples) [0..<64]"
  using assms
proof (induction samples rule: rev_induct)
  case Nil
  have "replicate 64 0 = map (\<lambda>b. in_bin b []) [0..<64]" by (rule nth_equalityI) (simp_all add: in_bin_def)
  then show ?case by (simp add: record_all_def empty_histogram_def)
next
  case (snoc ns samples)
  let ?h = "record_all samples" and ?b = "bin_loop (to_us ns) 0"
  have ih: "hi_count ?h = length samples" "hi_bins ?h = map (\<lambda>b. in_bin b samples) [0..<64]"
    using snoc by simp_all
  have b: "?b < 64" using snoc.prems(1) by (intro bin_bound) simp
  have le: "in_bin ?b samples \<le> length samples" by (simp add: in_bin_def)
  have "record_all (samples @ [ns]) = wadb_histogram_record ns ?h" by (simp add: record_all_def)
  moreover have "wadb_histogram_record ns ?h = ?h\<lparr>hi_count := length samples + 1, hi_bins := (hi_bins ?h)[?b := in_bin ?b samples + 1],
      hi_max_us := (if to_us ns > hi_max_us ?h then to_us ns else hi_max_us ?h)\<rparr>"
    using ih b le snoc.prems(2) by (simp add: wadb_histogram_record_def Let_def)
  moreover have "(map (\<lambda>b. in_bin b samples) [0..<64])[?b := in_bin ?b samples + 1] = map (\<lambda>b. in_bin b (samples @ [ns])) [0..<64]"
    using b by (intro nth_equalityI) (auto simp: in_bin_def nth_list_update)
  ultimately show ?case using ih by simp
qed

definition at_most :: "nat \<Rightarrow> nat list \<Rightarrow> nat" where
  "at_most us samples = length (filter (\<lambda>ns. to_us ns \<le> us) samples)"

lemma at_most_power: "at_most (2 ^ k) samples = (\<Sum>b \<leftarrow> [0..<Suc k]. in_bin b samples)"
proof (induction k)
  case 0
  have "to_us ns \<le> 2 ^ 0 \<longleftrightarrow> bin_loop (to_us ns) 0 = 0" for ns using bin_loop_le [of "to_us ns" 0] by simp
  then show ?case by (simp add: at_most_def in_bin_def)
next
  case (Suc k)
  have "length (filter (\<lambda>ns. bin_loop (to_us ns) 0 \<le> Suc k) samples) =
      length (filter (\<lambda>ns. bin_loop (to_us ns) 0 \<le> k) samples) + length (filter (\<lambda>ns. bin_loop (to_us ns) 0 = Suc k) samples)"
    by (induction samples) auto
  then show ?case using Suc by (simp add: at_most_def bin_loop_le in_bin_def del: power_Suc)
qed

lemma percentile_loop_ok:
  assumes "\<forall>k \<le> length bs. sum_list (take k bs) + seen \<le> UINT64_MAX" "target \<le> seen + sum_list bs" "seen < target"
  shows "\<exists>k < length bs. percentile_loop bs i seen target = 2 ^ (i + k) \<and> target \<le> seen + sum_list (take (Suc k) bs) \<and> seen + sum_list (take k bs) < target"
  using assms
proof (induction bs arbitrary: i seen)
  case (Cons b bs)
  have "seen + b \<le> UINT64_MAX" using Cons.prems(1) [rule_format, of 1] by simp
  then have e: "add64 seen b = seen + b" by (simp add: add64_exact)
  show ?case
  proof (cases "target \<le> seen + b")
    case True
    then show ?thesis using e Cons.prems(3) by (intro exI [of _ 0]) simp
  next
    case False
    have "\<forall>k \<le> length bs. sum_list (take k bs) + (seen + b) \<le> UINT64_MAX"
    proof (intro allI impI)
      fix k assume "k \<le> length bs"
      then have "sum_list (take (Suc k) (b # bs)) + seen \<le> UINT64_MAX" using Cons.prems(1) by (simp only: length_Cons Suc_le_mono)
      then show "sum_list (take k bs) + (seen + b) \<le> UINT64_MAX" by simp
    qed
    then obtain k where "k < length bs" "percentile_loop bs (i + 1) (seen + b) target = 2 ^ (i + 1 + k)"
        "target \<le> seen + b + sum_list (take (Suc k) bs)" "seen + b + sum_list (take k bs) < target"
      using Cons.IH [of "seen + b" "i + 1"] Cons.prems(2) False by auto
    then show ?thesis using e False by (intro exI [of _ "Suc k"]) (simp add: Let_def add.assoc)
  qed
qed simp

lemma ceiling_le: "p \<le> 100 \<Longrightarrow> (n * p + 99) div 100 \<le> (n :: nat)"
proof -
  assume "p \<le> 100"
  then have "n * p \<le> n * 100" by simp
  then have "(n * p + 99) div 100 \<le> (n * 100 + 99) div 100" by (intro div_le_mono) simp
  then show ?thesis by simp
qed

lemma ceiling_pos: "0 < n \<Longrightarrow> 0 < p \<Longrightarrow> 0 < (n * p + 99) div (100 :: nat)"
proof -
  assume "0 < n" "0 < p"
  moreover define m where "m = n * p"
  ultimately have "0 < m" by simp
  then show ?thesis unfolding m_def [symmetric] by (simp add: div_greater_zero_iff)
qed

lemma target_ceiling:
  assumes "p \<le> 100" "n \<le> UINT64_MAX"
  shows "add64 (mul64 (n div 100) p) (((n mod 100) * p + 99) div 100) = (n * p + 99) div 100"
proof -
  have "n * p + 99 = ((n mod 100) * p + 99) + (n div 100 * p) * 100"
  proof -
    have "n * p = (n div 100 * 100 + n mod 100) * p" by simp
    then show ?thesis by (simp only: distrib_right)
  qed
  then have e: "(n * p + 99) div 100 = ((n mod 100) * p + 99) div 100 + n div 100 * p" by (simp only: div_mult_self1 numeral_neq_zero not_False_eq_True)
  have "(n * p + 99) div 100 \<le> n" using assms(1) by (rule ceiling_le)
  then show ?thesis using e assms(2) by (simp add: mul64_exact add64_exact add.commute)
qed

section \<open>The notification ring\<close>

definition numbered :: "wadb_commit_event list \<Rightarrow> wadb_commit_event list" where
  "numbered evs = map (\<lambda>i. (evs ! i)\<lparr>ev_id := i + 1\<rparr>) [0..<length evs]"

definition ring_ok :: "wadb_commit_event list \<Rightarrow> wadb_db \<Rightarrow> bool" where
  "ring_ok evs db \<longleftrightarrow>
     length (db_notifications db) = WADB_NOTIFICATION_CAPACITY \<and> db_latest_notification db = length evs \<and>
     (\<forall>i < length evs. length evs \<le> i + WADB_NOTIFICATION_CAPACITY \<longrightarrow>
        db_notifications db ! (i mod WADB_NOTIFICATION_CAPACITY) = numbered evs ! i)"

lemma numbered_snoc: "numbered (evs @ [ev]) = numbered evs @ [ev\<lparr>ev_id := length evs + 1\<rparr>]"
  by (simp add: numbered_def nth_append)

lemma length_numbered [simp]: "length (numbered evs) = length evs"
  by (simp add: numbered_def)

lemma same_slot:
  assumes "i mod c = n mod c" "i < n" "n + 1 \<le> i + (c :: nat)" shows False
proof -
  have "c dvd n - i" using assms(1,2) by (metis mod_eq_dvd_iff_nat less_imp_le_nat)
  moreover have "0 < n - i" "n - i < c" using assms by simp_all
  ultimately show False using nat_dvd_not_less by blast
qed

lemma publish_ring:
  assumes "ring_ok evs db" "length evs < UINT64_MAX"
  shows "ring_ok (evs @ [ev]) (publish_event ev db)"
proof -
  let ?c = WADB_NOTIFICATION_CAPACITY and ?n = "length evs"
  have c: "0 < ?c" by (simp add: WADB_NOTIFICATION_CAPACITY_def)
  have db: "length (db_notifications db) = ?c" "db_latest_notification db = ?n" using assms(1) by (simp_all add: ring_ok_def)
  have p: "publish_event ev db = db\<lparr>db_latest_notification := ?n + 1,
      db_notifications := (db_notifications db)[?n mod ?c := ev\<lparr>ev_id := ?n + 1\<rparr>]\<rparr>"
    using db assms(2) by (simp add: publish_event_def)
  have "(db_notifications db)[?n mod ?c := ev\<lparr>ev_id := ?n + 1\<rparr>] ! (i mod ?c) = numbered (evs @ [ev]) ! i"
    if i: "i < ?n + 1" "?n + 1 \<le> i + ?c" for i
  proof (cases "i = ?n")
    case True
    then show ?thesis using db c by (simp add: numbered_snoc nth_append)
  next
    case False
    then have "i mod ?c \<noteq> ?n mod ?c" using same_slot [of i ?c ?n] i by auto
    moreover have "db_notifications db ! (i mod ?c) = numbered evs ! i" using assms(1) False i by (simp add: ring_ok_def)
    ultimately show ?thesis using False i by (simp add: numbered_snoc nth_append)
  qed
  then show ?thesis using db unfolding p ring_ok_def by simp
qed

lemma publish_all_ring:
  "ring_ok seen db \<Longrightarrow> length seen + length evs \<le> UINT64_MAX \<Longrightarrow> ring_ok (seen @ evs) (fold publish_event evs db)"
proof (induction evs arbitrary: seen db)
  case (Cons ev evs)
  then have "ring_ok (seen @ [ev]) (publish_event ev db)" by (intro publish_ring) simp_all
  from Cons.IH [OF this] Cons.prems(2) show ?case by simp
qed simp

lemma read_ring:
  assumes "ring_ok evs db" "cap \<le> WADB_NOTIFICATION_CAPACITY"
  shows "wadb_read_notifications (Some db) after True cap True =
    Inr (take cap (drop (max after (length evs - WADB_NOTIFICATION_CAPACITY)) (numbered evs)), length evs,
         after > length evs \<or> after < length evs - WADB_NOTIFICATION_CAPACITY)"
proof -
  let ?c = WADB_NOTIFICATION_CAPACITY and ?n = "length evs"
  have c: "0 < ?c" by (simp add: WADB_NOTIFICATION_CAPACITY_def)
  have l: "db_latest_notification db = ?n" using assms(1) by (simp add: ring_ok_def)
  show ?thesis
  proof (cases "after < ?n")
    case False
    then have "drop (max after (?n - ?c)) (numbered evs) = []" by simp
    moreover have "\<not> after < ?n - ?c" using False by simp
    ultimately show ?thesis using False l assms(2) by (simp add: wadb_read_notifications_def Let_def)
  next
    case True
    define start where "start = max after (?n - ?c)"
    define m where "m = (if ?n - start < cap then ?n - start else cap)"
    have st: "start < ?n" "?n \<le> start + ?c" using True c by (auto simp: start_def)
    have "wadb_read_notifications (Some db) after True cap True =
        Inr (map (\<lambda>i. db_notifications db ! ((start + i) mod ?c)) [0..<m], ?n, after < ?n - ?c)"
    proof (cases "?c \<le> ?n \<and> after < ?n - ?c")
      case lost: True
      then have "start = ?n - ?c" by (simp add: start_def)
      then show ?thesis using True lost l assms(2) by (simp add: wadb_read_notifications_def Let_def m_def)
    next
      case kept: False
      then have "start = after" by (auto simp: start_def)
      then show ?thesis using True kept l assms(2) Suc_diff_Suc [OF True] by (auto simp: wadb_read_notifications_def Let_def m_def simp del: upt_Suc)
    qed
    moreover have "map (\<lambda>i. db_notifications db ! ((start + i) mod ?c)) [0..<m] = take cap (drop start (numbered evs))"
    proof (rule nth_equalityI)
      show "length (map (\<lambda>i. db_notifications db ! ((start + i) mod ?c)) [0..<m]) = length (take cap (drop start (numbered evs)))"
        by (simp add: m_def min_def)
      fix i assume "i < length (map (\<lambda>i. db_notifications db ! ((start + i) mod ?c)) [0..<m])"
      then have i: "i < m" by simp
      then have "start + i < ?n" "i < cap" by (auto simp: m_def split: if_splits)
      moreover have "db_notifications db ! ((start + i) mod ?c) = numbered evs ! (start + i)"
        using assms(1) calculation st by (simp add: ring_ok_def)
      ultimately show "map (\<lambda>i. db_notifications db ! ((start + i) mod ?c)) [0..<m] ! i = take cap (drop start (numbered evs)) ! i"
        using i by simp
    qed
    ultimately show ?thesis using True by (simp add: start_def)
  qed
qed

section \<open>Properties\<close>

text \<open>
  C36: latency percentiles are upper bounds, tight to a power of two. After recording any samples,
  the reported p-th percentile is a power of two not below which lie at least p percent of the
  samples, and no smaller power of two has that property.
\<close>

theorem percentile_upper_bound:
  assumes "samples \<noteq> []" and "list_all (\<lambda>ns. ns \<le> UINT64_MAX) samples" and "length samples < UINT64_MAX"
    and "0 < p" and "p \<le> 100"
  shows "\<exists>k < 64. percentile (record_all samples) p = 2 ^ k \<and>
    p * length samples \<le> 100 * at_most (2 ^ k) samples \<and>
    (k > 0 \<longrightarrow> 100 * at_most (2 ^ (k - 1)) samples < p * length samples)"
proof -
  let ?n = "length samples" and ?bs = "map (\<lambda>b. in_bin b samples) [0..<64]"
  define target where "target = (?n * p + 99) div 100"
  have h: "hi_count (record_all samples) = ?n" "hi_bins (record_all samples) = ?bs" using record_all_ok [OF assms(2,3)] by simp_all
  have tk: "sum_list (take k ?bs) = (\<Sum>b \<leftarrow> [0..<k]. in_bin b samples)" if "k \<le> 64" for k using that by (simp add: take_map)
  have am: "sum_list (take (Suc k) ?bs) = at_most (2 ^ k) samples" if "k < 64" for k using tk [of "Suc k"] that at_most_power by simp
  have le: "at_most u samples \<le> ?n" for u by (simp add: at_most_def)
  have all: "sum_list ?bs = ?n"
  proof -
    have "filter (\<lambda>ns. to_us ns \<le> 2 ^ 63) samples = samples"
      unfolding filter_id_conv using assms(2) to_us_bound by (auto simp only: list_all_iff)
    then have "at_most (2 ^ 63) samples = ?n" by (simp only: at_most_def)
    then show ?thesis using am [of 63] by (simp add: take_map)
  qed
  have tgt: "target \<le> ?n" "0 < target"
  proof -
    show "target \<le> ?n" unfolding target_def using assms(5) by (rule ceiling_le)
    show "0 < target" unfolding target_def using assms(1,4) by (intro ceiling_pos) simp_all
  qed
  have "percentile (record_all samples) p = percentile_loop ?bs 0 0 target"
    using h assms(1,3,5) target_ceiling [of p ?n] by (simp add: percentile_def Let_def target_def)
  moreover obtain k where k: "k < length ?bs" "percentile_loop ?bs 0 0 target = 2 ^ (0 + k)"
      "target \<le> 0 + sum_list (take (Suc k) ?bs)" "0 + sum_list (take k ?bs) < target"
  proof -
    have "\<forall>k \<le> length ?bs. sum_list (take k ?bs) + 0 \<le> UINT64_MAX"
    proof (intro allI impI)
      fix k assume "k \<le> length ?bs"
      have "sum_list (take k ?bs) + sum_list (drop k ?bs) = sum_list ?bs" by (metis append_take_drop_id sum_list_append)
      then show "sum_list (take k ?bs) + 0 \<le> UINT64_MAX" using all assms(3) by simp
    qed
    then show ?thesis using percentile_loop_ok [of ?bs 0 target 0] tgt all that by auto
  qed
  moreover have "p * ?n \<le> 100 * at_most (2 ^ k) samples" using k(1,3) am [of k] by (simp add: target_def mult.commute)
  moreover have "100 * at_most (2 ^ (k - 1)) samples < p * ?n" if "k > 0"
    using k(1,4) am [of "k - 1"] that by (simp add: target_def mult.commute)
  ultimately show ?thesis using k(1) by auto
qed

theorem percentile_upper_bound_witness:
  "\<exists>k < 64. percentile (record_all [900, 5000, 70000]) 50 = 2 ^ k \<and> 50 * 3 \<le> 100 * at_most (2 ^ k) [900, 5000, 70000]"
  using percentile_upper_bound [of "[900, 5000, 70000]" 50] by auto

text \<open>
  C13: the notification ring implements an unbounded feed. After any number of published commits,
  reading after an identifier returns the next events in order, numbered from one, and reports a
  gap exactly when some of them were overwritten or the identifier is not yet assigned.
\<close>

theorem notification_feed:
  assumes "length (db_notifications db) = WADB_NOTIFICATION_CAPACITY" and "db_latest_notification db = 0"
    and "length evs \<le> UINT64_MAX" and "cap \<le> WADB_NOTIFICATION_CAPACITY"
  shows "wadb_read_notifications (Some (fold publish_event evs db)) after True cap True =
    Inr (take cap (drop (max after (length evs - WADB_NOTIFICATION_CAPACITY)) (numbered evs)), length evs,
         after > length evs \<or> after < length evs - WADB_NOTIFICATION_CAPACITY)"
proof -
  have "ring_ok [] db" using assms(1,2) by (simp add: ring_ok_def)
  from publish_all_ring [OF this, of evs] assms(3) have "ring_ok evs (fold publish_event evs db)" by simp
  from read_ring [OF this assms(4)] show ?thesis .
qed

definition example_event :: wadb_commit_event where
  "example_event = \<lparr>ev_id = 0, ev_table_id = 1, ev_first_sequence = 1, ev_last_sequence = 2, ev_frame_bytes = 128, ev_max_time = 5, ev_rows = 2\<rparr>"

definition empty_db :: wadb_db where
  "empty_db =
     \<lparr>db_directory = ascii ''/d'', db_locked = False, db_read_only = False, db_writer_started = False, db_stopping = False, db_queue = [],
      db_queue_bytes = 0, db_ready_bytes = 0, db_rejected_appends = 0, db_failed_appends = 0, db_snapshot_bytes = 0,
      db_reader_count = 0, db_cache = [], db_cache_bytes = 0, db_cache_clock = 0, db_cache_hits = 0, db_cache_misses = 0,
      db_cursors = [], db_next_cursor_id = 0, db_boot_ns = 0, db_committed_rows = 0, db_committed_bytes = 0,
      db_committed_frames = 0, db_append_requests = 0, db_clock_adjustments = 0, db_queries = 0, db_failed_queries = 0,
      db_rows_scanned = 0, db_bytes_scanned = 0, db_append_latency = empty_histogram, db_sync_latency = empty_histogram,
      db_query_latency = empty_histogram, db_notifications = replicate WADB_NOTIFICATION_CAPACITY example_event,
      db_latest_notification = 0, db_options = wadb_options_default, db_next_table_id = 1, db_tables = []\<rparr>"

theorem notification_feed_witness:
  "wadb_read_notifications (Some (fold publish_event [example_event, example_event] empty_db)) 1 True 8 True =
     Inr ([example_event\<lparr>ev_id := 2\<rparr>], 2, False)"
  using notification_feed [of empty_db "[example_event, example_event]" 8 1]
  by (simp add: empty_db_def WADB_NOTIFICATION_CAPACITY_def numbered_def upt_rec)

text \<open>
  C37: listing segments. With segments in increasing order of identifiers, a page holds the first
  segments after the given identifier, up to the capacity, and tells whether more follow.
\<close>

theorem list_segments_pages:
  assumes "sorted_wrt (\<lambda>a b. sg_id a < sg_id b) (tb_segments t)" and "0 < cap" and "cap \<le> 1024"
  shows "wadb_list_segments (Some t) after True cap True =
    (let rest = filter (\<lambda>s. after < sg_id s) (tb_segments t) in Inr (take cap rest, cap < length rest))"
  by (rule list_segments_page [OF assms])

definition example_segment :: "nat \<Rightarrow> wadb_segment_meta" where
  "example_segment i =
     \<lparr>sg_id = i, sg_day_start = 0, sg_first_sequence = i, sg_last_sequence = i, sg_min_time = 0, sg_max_time = 0,
      sg_committed_bytes = 232, sg_state = WADB_SEG_SEALED\<rparr>"

definition example_table :: wadb_table where
  "example_table =
     \<lparr>tb_id = 1, tb_name = ascii ''visits'', tb_directory = ascii ''/d/tables/1'', tb_schema = example_schema,
      tb_next_segment_id = 1, tb_preserved_sequence = 0, tb_preserved_time = 0, tb_retention_us = 0, tb_manifest_generation = 1,
      tb_segments = [], tb_active_fd = None, tb_last_sequence = 0, tb_last_time = 0, tb_readers = 0, tb_read_only = False,
      tb_pending_retention = False, tb_maintenance_status = WADB_OK, tb_dictionary = None, tb_index = empty_index,
      tb_readable = [], tb_readable_capacity = 0, tb_committed_frames = 0, tb_append_requests = 0, tb_retained_rows = 0,
      tb_retained_bytes = 0, tb_retained_segments = 0, tb_retired_segments = 0, tb_published_dictionary_bytes = 0\<rparr>"

theorem list_segments_pages_witness:
  "wadb_list_segments (Some (example_table\<lparr>tb_segments := [example_segment 1, example_segment 2, example_segment 5]\<rparr>)) 1 True 1 True =
     Inr ([example_segment 2], True)"
  using list_segments_pages [of "example_table\<lparr>tb_segments := [example_segment 1, example_segment 2, example_segment 5]\<rparr>" 1 1]
  by (simp add: example_segment_def)

end
