(* ===== verification/Wadb_Metadata.thy ===== *)
theory Wadb_Metadata
  imports Wadb_Engine
begin

unbundle bit_operations_syntax

text \<open>
  The model of \<^verbatim>\<open>src/storage/metadata.c\<close>: the catalog, schema and manifest files. A buffer that
  the code clears and fills at increasing offsets is written as the concatenation of its parts.
  Loading the catalog also recovers the tables it names and is in \<open>Wadb_Database\<close>.
\<close>

section \<open>Definitions\<close>

definition stored_name :: "bytes \<Rightarrow> bool" where
  "stored_name p \<longleftrightarrow> 0 \<in> set (take WADB_NAME_CAP p) \<and> wadb_identifier (Some p) \<and>
     zeroes (drop (length (cstr p)) p) (WADB_NAME_CAP - length (cstr p))"

definition envelope :: "bytes \<Rightarrow> bytes \<Rightarrow> nat \<Rightarrow> unit res" where
  "envelope p magic minimum =
     (let n = length p in
      if n < minimum \<or> take 8 p \<noteq> magic \<or> wadb_crc32c (take (n - 4) p) \<noteq> wadb_get_u32 (drop (n - 4) p)
      then Inl WADB_CORRUPT
      else if wadb_get_u32 (drop 8 p) \<noteq> of_nat WADB_FORMAT_VERSION then Inl WADB_VERSION
      else Inr ())"

definition seal :: "bytes \<Rightarrow> bytes" where
  "seal p = blit p (length p - 4) (wadb_put_u32 (wadb_crc32c (take (length p - 4) p)))"

definition install :: "path \<Rightarrow> bytes \<Rightarrow> bytes \<Rightarrow> (world, unit) io" where
  "install dir name p = bind_io (wadb_path dir name) (\<lambda>path. wadb_atomic_file path (seal p))"

definition load_file :: "path \<Rightarrow> bytes \<Rightarrow> nat \<Rightarrow> (world, bytes) io" where
  "load_file dir name limit = bind_io (wadb_path dir name) (\<lambda>path. wadb_read_file path limit)"

definition u32_bytes :: "nat \<Rightarrow> bytes" where "u32_bytes n = wadb_put_u32 (of_nat n)"
definition u64_bytes :: "nat \<Rightarrow> bytes" where "u64_bytes n = wadb_put_u64 (of_nat n)"
definition i64_bytes :: "int \<Rightarrow> bytes" where "i64_bytes n = wadb_put_u64 (word_of_int n)"

subsection \<open>Catalog\<close>

definition catalog_image :: "nat \<Rightarrow> nat list \<Rightarrow> bytes" where
  "catalog_image next_table ids =
     ascii ''WADBCAT1'' @ u32_bytes WADB_FORMAT_VERSION @ u32_bytes 32 @ u32_bytes (length ids) @
     zeroes_bytes 4 @ u64_bytes next_table @ concat (map u64_bytes ids) @ zeroes_bytes 4"

definition wadb_save_catalog :: "wadb_db \<Rightarrow> nat option \<Rightarrow> (world, unit) io" where
  "wadb_save_catalog db addition =
     bind_io (call WADB_NOMEM) (\<lambda>_.
       install (db_directory db) (ascii ''catalog'')
         (catalog_image (db_next_table_id db)
           (map tb_id (db_tables db) @ (case addition of None \<Rightarrow> [] | Some n \<Rightarrow> [n]))))"

subsection \<open>Schema\<close>

definition padded_name :: "bytes \<Rightarrow> bytes" where
  "padded_name s = cstr s @ zeroes_bytes (WADB_NAME_CAP - length (cstr s))"

definition field_record :: "wadb_field \<Rightarrow> bytes" where
  "field_record f =
     padded_name (f_name f) @ u32_bytes (type_code (f_type f)) @ u32_bytes (f_size f) @
     u32_bytes (if f_nullable f then 1 else 0) @ zeroes_bytes 4"

definition schema_image :: "wadb_table \<Rightarrow> bytes" where
  "schema_image t =
     (let s = tb_schema t; n = field_count s - 1 in
      ascii ''WADBSCH1'' @ u32_bytes WADB_FORMAT_VERSION @ u32_bytes n @ u64_bytes (tb_id t) @
      wadb_put_u64 (fingerprint s) @ u32_bytes (row_width s) @ u32_bytes (null_bytes s) @
      padded_name (tb_name t) @ zeroes_bytes 24 @
      concat (map (\<lambda>i. field_record (schema_fields s ! (i + 1))) [0..<n]) @ zeroes_bytes 4)"

definition wadb_save_schema :: "wadb_table \<Rightarrow> (world, unit) io" where
  "wadb_save_schema t =
     bind_io (call WADB_NOMEM) (\<lambda>_. install (tb_directory t) (ascii ''schema'') (schema_image t))"

definition stored_def :: "bytes \<Rightarrow> wadb_field_def option" where
  "stored_def r =
     (if \<not> stored_name r \<or> unat (wadb_get_u32 (drop 72 r)) > 1 \<or> \<not> zeroes (drop 76 r) 4 then None
      else Some \<lparr>d_name = Some r, d_type = type_of_code (unat (wadb_get_u32 (drop 64 r))),
                 d_size = unat (wadb_get_u32 (drop 68 r)), d_nullable = wadb_get_u32 (drop 72 r) \<noteq> 0\<rparr>)"

fun stored_defs :: "nat \<Rightarrow> bytes \<Rightarrow> wadb_field_def list option" where
  "stored_defs 0 r = Some []"
| "stored_defs (Suc n) r =
     (case stored_def r of
        None \<Rightarrow> None
      | Some d \<Rightarrow> map_option ((#) d) (stored_defs n (drop 80 r)))"

definition parse_schema :: "wadb_table \<Rightarrow> bytes \<Rightarrow> wadb_table res" where
  "parse_schema t p =
     bind_res (envelope p (ascii ''WADBSCH1'') 132) (\<lambda>_.
       let n = unat (wadb_get_u32 (drop 12 p)) in
       if n \<ge> WADB_MAX_FIELDS \<or> length p \<noteq> 132 + n * 80 \<or> unat (wadb_get_u64 (drop 16 p)) \<noteq> tb_id t \<or>
          \<not> stored_name (drop 40 p) \<or> \<not> zeroes (drop 104 p) 24
       then Inl WADB_CORRUPT
       else
         (case stored_defs n (drop 128 p) of
            None \<Rightarrow> Inl WADB_CORRUPT
          | Some defs \<Rightarrow>
              (case wadb_schema_build (CMem defs) of
                 Inl _ \<Rightarrow> Inl WADB_CORRUPT
               | Inr s \<Rightarrow>
                   if fingerprint s \<noteq> wadb_get_u64 (drop 24 p) \<or> row_width s \<noteq> unat (wadb_get_u32 (drop 32 p)) \<or>
                      null_bytes s \<noteq> unat (wadb_get_u32 (drop 36 p))
                   then Inl WADB_CORRUPT
                   else Inr (t\<lparr>tb_schema := s, tb_name := cstr (drop 40 p)\<rparr>))))"

definition wadb_load_schema :: "wadb_table \<Rightarrow> (world, wadb_table) io" where
  "wadb_load_schema t =
     bind_io (load_file (tb_directory t) (ascii ''schema'') (132 + (WADB_MAX_FIELDS - 1) * 80)) (\<lambda>p w. (w, parse_schema t p))"

subsection \<open>Manifest\<close>

definition segment_record :: "wadb_segment_meta \<Rightarrow> bytes" where
  "segment_record s =
     u64_bytes (sg_id s) @ i64_bytes (sg_day_start s) @ u64_bytes (sg_first_sequence s) @ u64_bytes (sg_last_sequence s) @
     i64_bytes (sg_min_time s) @ i64_bytes (sg_max_time s) @ u64_bytes (sg_committed_bytes s) @
     u32_bytes (state_code (sg_state s)) @ zeroes_bytes 4"

definition manifest_image :: "wadb_table \<Rightarrow> bytes" where
  "manifest_image t =
     ascii ''WADBMAN1'' @ u32_bytes WADB_FORMAT_VERSION @ u32_bytes 80 @ u64_bytes (tb_id t) @
     u64_bytes (tb_next_segment_id t) @ u64_bytes (tb_preserved_sequence t) @ i64_bytes (tb_preserved_time t) @
     u64_bytes (tb_retention_us t) @ u64_bytes (tb_manifest_generation t) @ u32_bytes (length (tb_segments t)) @
     zeroes_bytes 12 @ concat (map segment_record (tb_segments t)) @ zeroes_bytes 4"

definition wadb_save_manifest :: "wadb_table \<Rightarrow> (world, unit) io" where
  "wadb_save_manifest t =
     (if length (tb_segments t) > WADB_MAX_SEGMENTS then fail_io WADB_LIMIT
      else bind_io (call WADB_NOMEM) (\<lambda>_. install (tb_directory t) (ascii ''manifest'') (manifest_image t)))"

definition stored_segment :: "bytes \<Rightarrow> wadb_segment_meta" where
  "stored_segment r =
     \<lparr>sg_id = unat (wadb_get_u64 r), sg_day_start = wadb_get_i64 (drop 8 r),
      sg_first_sequence = unat (wadb_get_u64 (drop 16 r)), sg_last_sequence = unat (wadb_get_u64 (drop 24 r)),
      sg_min_time = wadb_get_i64 (drop 32 r), sg_max_time = wadb_get_i64 (drop 40 r),
      sg_committed_bytes = unat (wadb_get_u64 (drop 48 r)), sg_state = state_of_code (unat (wadb_get_u32 (drop 56 r)))\<rparr>"

definition segment_invalid :: "nat \<Rightarrow> nat \<Rightarrow> wadb_segment_meta \<Rightarrow> bool" where
  "segment_invalid previous next_segment s \<longleftrightarrow>
     sg_id s \<le> previous \<or> sg_id s \<ge> next_segment \<or> sg_day_start s < 0 \<or> sg_day_start s mod WADB_DAY_US \<noteq> 0 \<or>
     sg_first_sequence s = 0 \<or> sg_committed_bytes s < WADB_SEGMENT_HEADER_BYTES \<or> int (sg_committed_bytes s) > INT64_MAX \<or>
     state_code (sg_state s) < 1 \<or> state_code (sg_state s) > 3 \<or>
     (sg_last_sequence s \<noteq> 0 \<and>
       (sg_last_sequence s < sg_first_sequence s \<or> sg_min_time s < sg_day_start s \<or> sg_max_time s < sg_min_time s \<or>
        sg_max_time s div WADB_DAY_US \<noteq> sg_day_start s div WADB_DAY_US)) \<or>
     (sg_last_sequence s = 0 \<and>
       (sg_min_time s \<noteq> 0 \<or> sg_max_time s \<noteq> 0 \<or> sg_committed_bytes s \<noteq> WADB_SEGMENT_HEADER_BYTES))"

text \<open>The loop over the remaining records; an active segment is the last one and the only one.\<close>

fun parse_segments :: "nat \<Rightarrow> nat \<Rightarrow> nat \<Rightarrow> nat \<Rightarrow> bytes \<Rightarrow> wadb_segment_meta list option" where
  "parse_segments next_segment active previous 0 r = Some []"
| "parse_segments next_segment active previous (Suc n) r =
     (let s = stored_segment r; is_active = (sg_state s = WADB_SEG_ACTIVE) in
      if segment_invalid previous next_segment s \<or> \<not> zeroes (drop 60 r) 4 \<or>
         (is_active \<and> (active + 1 > 1 \<or> n \<noteq> 0))
      then None
      else map_option ((#) s) (parse_segments next_segment (if is_active then active + 1 else active) (sg_id s) n (drop 64 r)))"

definition parse_manifest :: "wadb_table \<Rightarrow> bytes \<Rightarrow> (world, wadb_table) io" where
  "parse_manifest t p =
     (case envelope p (ascii ''WADBMAN1'') 84 of
        Inl e \<Rightarrow> fail_io e
      | Inr _ \<Rightarrow>
          (let n = unat (wadb_get_u32 (drop 64 p)); next_segment = unat (wadb_get_u64 (drop 24 p)) in
           if n > WADB_MAX_SEGMENTS \<or> length p \<noteq> 84 + n * 64 \<or> unat (wadb_get_u32 (drop 12 p)) \<noteq> 80 \<or>
              unat (wadb_get_u64 (drop 16 p)) \<noteq> tb_id t \<or> next_segment = 0 \<or> \<not> zeroes (drop 68 p) 12 \<or>
              wadb_get_i64 (drop 40 p) < 0 \<or> int (unat (wadb_get_u64 (drop 48 p))) > INT64_MAX \<or>
              wadb_get_u64 (drop 56 p) = 0
           then fail_io WADB_CORRUPT
           else
             bind_io (if n \<noteq> 0 then call WADB_NOMEM else return_io 0) (\<lambda>_.
               case parse_segments next_segment 0 0 n (drop 80 p) of
                 None \<Rightarrow> fail_io WADB_CORRUPT
               | Some ss \<Rightarrow>
                   return_io (t\<lparr>tb_segments := ss, tb_next_segment_id := next_segment,
                                tb_preserved_sequence := unat (wadb_get_u64 (drop 32 p)),
                                tb_preserved_time := wadb_get_i64 (drop 40 p),
                                tb_retention_us := unat (wadb_get_u64 (drop 48 p)),
                                tb_manifest_generation := unat (wadb_get_u64 (drop 56 p))\<rparr>))))"

definition wadb_load_manifest :: "wadb_table \<Rightarrow> (world, wadb_table) io" where
  "wadb_load_manifest t =
     bind_io (load_file (tb_directory t) (ascii ''manifest'') (84 + WADB_MAX_SEGMENTS * 64)) (parse_manifest t)"

section \<open>Reading concatenated buffers\<close>

named_theorems image_simps \<open>reading members of file images\<close>

lemma length_member_bytes [simp, image_simps]:
  "length (u32_bytes n) = 4" "length (u64_bytes n) = 8" "length (i64_bytes t) = 8"
  by (simp_all add: u32_bytes_def u64_bytes_def i64_bytes_def)

lemma get_append [image_simps]:
  "length a = 4 \<Longrightarrow> wadb_get_u32 (a @ b) = wadb_get_u32 a"
  "length a = 8 \<Longrightarrow> wadb_get_u64 (a @ b) = wadb_get_u64 a"
  "length a = 8 \<Longrightarrow> wadb_get_i64 (a @ b) = wadb_get_i64 a"
  by (simp_all add: wadb_get_u32_def wadb_get_u64_def wadb_get_i64_def nth_append Let_def)

lemma get_u32_member [image_simps]: "n \<le> UINT32_MAX \<Longrightarrow> unat (wadb_get_u32 (u32_bytes n)) = n"
  by (simp add: u32_bytes_def unat_of_nat_32)

lemma get_u64_member [image_simps]: "n \<le> UINT64_MAX \<Longrightarrow> unat (wadb_get_u64 (u64_bytes n)) = n"
  by (simp add: u64_bytes_def unat_of_nat_64)

lemma get_i64_member [image_simps]: "i64_range t \<Longrightarrow> wadb_get_i64 (i64_bytes t) = t"
  by (simp add: i64_bytes_def get_i64_put)

lemma zeroes_member [image_simps]: "zeroes (zeroes_bytes n @ b) n"
  by (simp add: zeroes_def zeroes_bytes_def list_all_iff nth_append)

lemma seal_append: "seal (b @ zeroes_bytes 4) = b @ wadb_put_u32 (wadb_crc32c b)"
  by (simp add: seal_def blit_eq_append zeroes_bytes_def)

lemma length_seal [simp]: "4 \<le> length p \<Longrightarrow> length (seal p) = length p"
  by (simp add: seal_def)

lemma envelope_sealed:
  assumes "take 12 b = magic @ u32_bytes WADB_FORMAT_VERSION" "length magic = 8" "minimum \<le> length b + 4"
  shows "envelope (seal (b @ zeroes_bytes 4)) magic minimum = Inr ()"
proof -
  have l: "12 \<le> length b" using arg_cong [OF assms(1), of length] assms(2) by simp
  have b: "b = magic @ u32_bytes WADB_FORMAT_VERSION @ drop 12 b" using assms(1) by (metis append_assoc append_take_drop_id)
  have "take 8 b = magic" using b assms(2) by (metis append_eq_conv_conj)
  moreover have "wadb_get_u32 (drop 8 b @ c) = of_nat WADB_FORMAT_VERSION" for c
    using assms(2) by (subst b) (simp add: get_append u32_bytes_def)
  ultimately show ?thesis using l assms(3) by (simp add: envelope_def seal_append Let_def)
qed

section \<open>Manifests\<close>

definition segment_range :: "wadb_segment_meta \<Rightarrow> bool" where
  "segment_range s \<longleftrightarrow>
     sg_id s \<le> UINT64_MAX \<and> i64_range (sg_day_start s) \<and> sg_first_sequence s \<le> UINT64_MAX \<and> sg_last_sequence s \<le> UINT64_MAX \<and>
     i64_range (sg_min_time s) \<and> i64_range (sg_max_time s) \<and> sg_committed_bytes s \<le> UINT64_MAX \<and>
     sg_state s \<in> {WADB_SEG_ACTIVE, WADB_SEG_SEALED, WADB_SEG_RETIRED}"

text \<open>Segments that a manifest may list after identifier \<open>previous\<close>.\<close>

fun segments_valid :: "nat \<Rightarrow> nat \<Rightarrow> wadb_segment_meta list \<Rightarrow> bool" where
  "segments_valid next_segment previous [] = True"
| "segments_valid next_segment previous (s # ss) \<longleftrightarrow>
     segment_range s \<and> \<not> segment_invalid previous next_segment s \<and> (sg_state s = WADB_SEG_ACTIVE \<longrightarrow> ss = []) \<and>
     segments_valid next_segment (sg_id s) ss"

definition manifest_valid :: "wadb_table \<Rightarrow> bool" where
  "manifest_valid t \<longleftrightarrow>
     length (tb_segments t) \<le> WADB_MAX_SEGMENTS \<and> tb_id t \<le> UINT64_MAX \<and>
     0 < tb_next_segment_id t \<and> tb_next_segment_id t \<le> UINT64_MAX \<and> tb_preserved_sequence t \<le> UINT64_MAX \<and>
     0 \<le> tb_preserved_time t \<and> tb_preserved_time t \<le> INT64_MAX \<and> int (tb_retention_us t) \<le> INT64_MAX \<and>
     0 < tb_manifest_generation t \<and> tb_manifest_generation t \<le> UINT64_MAX \<and>
     segments_valid (tb_next_segment_id t) 0 (tb_segments t)"

lemma state_codes: "state_of_code (state_code st) = st" if "st \<in> {WADB_SEG_ACTIVE, WADB_SEG_SEALED, WADB_SEG_RETIRED}"
  using that by (auto simp: state_of_code_def)

lemma length_segment_record [simp]: "length (segment_record s) = 64"
  by (simp add: segment_record_def)

lemma state_code_bound: "st \<in> {WADB_SEG_ACTIVE, WADB_SEG_SEALED, WADB_SEG_RETIRED} \<Longrightarrow> state_code st \<le> UINT32_MAX"
  by auto

lemma stored_segment_record: "segment_range s \<Longrightarrow> stored_segment (segment_record s @ rest) = s"
  by (simp add: stored_segment_def segment_record_def segment_range_def image_simps state_codes state_code_bound)

lemma segment_record_zero: "zeroes (drop 60 (segment_record s @ rest)) 4"
  by (simp add: segment_record_def image_simps)

lemma parse_segment_records:
  "segments_valid next_segment previous ss \<Longrightarrow>
     parse_segments next_segment 0 previous (length ss) (concat (map segment_record ss) @ rest) = Some ss"
proof (induction ss arbitrary: previous)
  case (Cons s ss)
  have s: "stored_segment (segment_record s @ concat (map segment_record ss) @ rest) = s"
    using Cons.prems by (simp add: stored_segment_record)
  have "parse_segments next_segment (if sg_state s = WADB_SEG_ACTIVE then 0 + 1 else 0) (sg_id s) (length ss)
      (drop 64 (segment_record s @ concat (map segment_record ss) @ rest)) = Some ss"
    using Cons.IH [of "sg_id s"] Cons.prems by (cases "sg_state s = WADB_SEG_ACTIVE") auto
  then show ?case using s Cons.prems segment_record_zero [of s "concat (map segment_record ss) @ rest"] by (simp add: Let_def)
qed simp

lemma length_segment_records [simp]: "length (concat (map segment_record ss)) = 64 * length ss"
  by (induction ss) simp_all

lemma length_manifest_image: "length (manifest_image t) = 84 + 64 * length (tb_segments t)"
  by (simp add: manifest_image_def)

definition manifest_fields :: "wadb_table \<Rightarrow> wadb_table \<Rightarrow> wadb_table" where
  "manifest_fields t0 t =
     t0\<lparr>tb_segments := tb_segments t, tb_next_segment_id := tb_next_segment_id t,
        tb_preserved_sequence := tb_preserved_sequence t, tb_preserved_time := tb_preserved_time t,
        tb_retention_us := tb_retention_us t, tb_manifest_generation := tb_manifest_generation t\<rparr>"

lemma nonneg_range: "0 \<le> t \<Longrightarrow> t \<le> INT64_MAX \<Longrightarrow> i64_range t"
  by (simp add: i64_range_def)

lemma parse_manifest_eq:
  assumes v: "manifest_valid t" and i: "tb_id t0 = tb_id t"
  shows "parse_manifest t0 (seal (manifest_image t)) =
    bind_io (if length (tb_segments t) \<noteq> 0 then call WADB_NOMEM else return_io 0) (\<lambda>_. return_io (manifest_fields t0 t))"
proof -
  define b where "b = ascii ''WADBMAN1'' @ u32_bytes WADB_FORMAT_VERSION @ u32_bytes 80 @ u64_bytes (tb_id t) @
     u64_bytes (tb_next_segment_id t) @ u64_bytes (tb_preserved_sequence t) @ i64_bytes (tb_preserved_time t) @
     u64_bytes (tb_retention_us t) @ u64_bytes (tb_manifest_generation t) @ u32_bytes (length (tb_segments t)) @
     zeroes_bytes 12 @ concat (map segment_record (tb_segments t))"
  define c where "c = wadb_put_u32 (wadb_crc32c b)"
  have im: "manifest_image t = b @ zeroes_bytes 4" by (simp add: manifest_image_def b_def)
  have se: "seal (manifest_image t) = b @ c" unfolding im by (simp add: seal_append c_def)
  have lc: "length c = 4" by (simp add: c_def)
  have lb: "length b = 80 + 64 * length (tb_segments t)" by (simp add: b_def)
  have env: "envelope (b @ c) (ascii ''WADBMAN1'') 84 = Inr ()"
  proof -
    have "take 12 b = ascii ''WADBMAN1'' @ u32_bytes WADB_FORMAT_VERSION" by (simp add: b_def)
    from envelope_sealed [OF this, of 84] show ?thesis using lb by (simp add: seal_append c_def)
  qed
  have rng: "length (tb_segments t) \<le> UINT32_MAX" "tb_id t \<le> UINT64_MAX" "tb_next_segment_id t \<le> UINT64_MAX" "tb_preserved_sequence t \<le> UINT64_MAX"
      "i64_range (tb_preserved_time t)" "tb_retention_us t \<le> UINT64_MAX" "tb_manifest_generation t \<le> UINT64_MAX"
    using v nonneg_range by (auto simp: manifest_valid_def WADB_MAX_SEGMENTS_def)
  have g: "unat (wadb_get_u32 (drop 64 (b @ c))) = length (tb_segments t)" "unat (wadb_get_u64 (drop 24 (b @ c))) = tb_next_segment_id t"
      "unat (wadb_get_u32 (drop 12 (b @ c))) = 80" "unat (wadb_get_u64 (drop 16 (b @ c))) = tb_id t"
      "zeroes (drop 68 (b @ c)) 12" "wadb_get_i64 (drop 40 (b @ c)) = tb_preserved_time t" "unat (wadb_get_u64 (drop 48 (b @ c))) = tb_retention_us t"
      "unat (wadb_get_u64 (drop 56 (b @ c))) = tb_manifest_generation t" "unat (wadb_get_u64 (drop 32 (b @ c))) = tb_preserved_sequence t"
    using rng by (simp_all add: b_def image_simps)
  have gen: "wadb_get_u64 (drop 56 (b @ c)) \<noteq> 0" using g(8) v by (auto simp: manifest_valid_def)
  have ps: "parse_segments (tb_next_segment_id t) 0 0 (length (tb_segments t)) (drop 80 (b @ c)) = Some (tb_segments t)"
    using v by (simp add: b_def manifest_valid_def parse_segment_records)
  note parts = v [unfolded manifest_valid_def]
  have ok': "\<not> (length (tb_segments t) > WADB_MAX_SEGMENTS \<or> length (b @ c) \<noteq> 84 + length (tb_segments t) * 64 \<or> 80 \<noteq> (80 :: nat) \<or>
      tb_id t \<noteq> tb_id t0 \<or> tb_next_segment_id t = 0 \<or> \<not> zeroes (drop 68 (b @ c)) 12 \<or> tb_preserved_time t < 0 \<or>
      int (tb_retention_us t) > INT64_MAX \<or> wadb_get_u64 (drop 56 (b @ c)) = 0)"
    using parts lb lc i g(5) gen by (simp del: drop_append)
  show ?thesis
    unfolding se parse_manifest_def env sum.case Let_def g if_not_P [OF ok'] ps option.case manifest_fields_def by (rule refl)
qed

lemma parse_manifest_image:
  assumes "manifest_valid t" "tb_id t0 = tb_id t" "parse_manifest t0 (seal (manifest_image t)) w = (w', r)"
  shows "r = Inr (manifest_fields t0 t) \<or> r = Inl WADB_NOMEM"
  using assms(3) unfolding parse_manifest_eq [OF assms(1,2)] by (auto simp: io_simps split: if_splits outcome.splits)

text \<open>What a loaded manifest satisfies.\<close>

lemma stored_segment_range:
  "1 \<le> state_code (sg_state (stored_segment r)) \<Longrightarrow> state_code (sg_state (stored_segment r)) \<le> 3 \<Longrightarrow> segment_range (stored_segment r)"
  by (cases "sg_state (stored_segment r)")
    (auto simp: segment_range_def stored_segment_def i64_range_get unat_u64_le state_of_code_def split: if_splits)

lemma parse_segments_valid:
  "parse_segments next_segment active previous n r = Some ss \<Longrightarrow> segments_valid next_segment previous ss \<and> length ss = n"
proof (induction n arbitrary: active previous r ss)
  case (Suc n)
  let ?s = "stored_segment r"
  obtain rest where c: "\<not> segment_invalid previous next_segment ?s" "\<not> (sg_state ?s = WADB_SEG_ACTIVE \<and> (active + 1 > 1 \<or> n \<noteq> 0))"
      "parse_segments next_segment (if sg_state ?s = WADB_SEG_ACTIVE then active + 1 else active) (sg_id ?s) n (drop 64 r) = Some rest" "ss = ?s # rest"
    using Suc.prems by (auto simp: Let_def split: if_splits)
  have "segment_range ?s" using c(1) by (intro stored_segment_range) (auto simp: segment_invalid_def)
  then show ?case using Suc.IH [OF c(3)] c by auto
qed auto

lemma parse_manifest_valid:
  assumes "parse_manifest t p w = (w', Inr t')" "tb_id t \<le> UINT64_MAX"
  shows "manifest_valid t' \<and> t' = manifest_fields t t'"
proof -
  let ?n = "unat (wadb_get_u32 (drop 64 p))" and ?next = "unat (wadb_get_u64 (drop 24 p))"
  have env: "envelope p (ascii ''WADBMAN1'') 84 = Inr ()"
  proof (cases "envelope p (ascii ''WADBMAN1'') 84")
    case (Inl e)
    then have "parse_manifest t p = fail_io e" by (simp only: parse_manifest_def sum.case)
    then show ?thesis using assms(1) by (simp add: fail_io_def)
  qed simp
  have c: "\<not> (?n > WADB_MAX_SEGMENTS \<or> length p \<noteq> 84 + ?n * 64 \<or> unat (wadb_get_u32 (drop 12 p)) \<noteq> 80 \<or>
              unat (wadb_get_u64 (drop 16 p)) \<noteq> tb_id t \<or> ?next = 0 \<or> \<not> zeroes (drop 68 p) 12 \<or>
              wadb_get_i64 (drop 40 p) < 0 \<or> int (unat (wadb_get_u64 (drop 48 p))) > INT64_MAX \<or> wadb_get_u64 (drop 56 p) = 0)"
    (is "\<not> ?bad")
  proof
    assume ?bad
    then have "parse_manifest t p = fail_io WADB_CORRUPT" unfolding parse_manifest_def env sum.case Let_def by (rule if_P)
    then show False using assms(1) by (simp add: fail_io_def)
  qed
  obtain w1 z where b: "(case parse_segments ?next 0 0 ?n (drop 80 p) of None \<Rightarrow> fail_io WADB_CORRUPT
      | Some ss \<Rightarrow> return_io (t\<lparr>tb_segments := ss, tb_next_segment_id := ?next, tb_preserved_sequence := unat (wadb_get_u64 (drop 32 p)),
           tb_preserved_time := wadb_get_i64 (drop 40 p), tb_retention_us := unat (wadb_get_u64 (drop 48 p)),
           tb_manifest_generation := unat (wadb_get_u64 (drop 56 p))\<rparr>)) w1 = (w', Inr t')"
    using assms(1) unfolding parse_manifest_def env sum.case Let_def if_not_P [OF c] bind_io_Inr by blast
  then obtain ss where ss: "parse_segments ?next 0 0 ?n (drop 80 p) = Some ss"
      "t' = t\<lparr>tb_segments := ss, tb_next_segment_id := ?next, tb_preserved_sequence := unat (wadb_get_u64 (drop 32 p)),
           tb_preserved_time := wadb_get_i64 (drop 40 p), tb_retention_us := unat (wadb_get_u64 (drop 48 p)),
           tb_manifest_generation := unat (wadb_get_u64 (drop 56 p))\<rparr>"
    by (cases "parse_segments ?next 0 0 ?n (drop 80 p)") (simp_all only: option.case fail_io_def return_io_def prod.inject sum.inject sum.distinct simp_thms)
  have "wadb_get_i64 (drop 40 p) \<le> INT64_MAX" using i64_range_get [of "drop 40 p"] by (simp add: i64_range_def)
  moreover have "wadb_get_u64 (drop 56 p) \<noteq> 0" using c by blast
  then have "0 < unat (wadb_get_u64 (drop 56 p))" by (simp add: unat_gt_0)
  moreover have "?n \<le> WADB_MAX_SEGMENTS \<and> ?next \<noteq> 0 \<and> 0 \<le> wadb_get_i64 (drop 40 p) \<and> int (unat (wadb_get_u64 (drop 48 p))) \<le> INT64_MAX"
    using c unfolding not_less [symmetric] de_Morgan_disj by (elim conjE, intro conjI)
  ultimately show ?thesis using parse_segments_valid [OF ss(1)] assms(2) by (simp add: ss(2) manifest_valid_def manifest_fields_def unat_u64_le)
qed

section \<open>Installing and loading\<close>

lemma path_result:
  "wadb_path base name w = (w', r) \<Longrightarrow> w_files w' = w_files w \<and> w_script w' = w_script w \<and> (r = Inr (base @ 47 # name) \<or> r = Inl WADB_NOMEM)"
  by (auto simp: wadb_path_def io_simps split: if_splits outcome.splits)

lemma install_result:
  assumes "install dir name p w = (w', Inr ())"
  shows "w_files w' (dir @ 47 # name) = Some (File (seal p))"
proof -
  obtain w1 path where a: "wadb_path dir name w = (w1, Inr path)" "wadb_atomic_file path (seal p) w1 = (w', Inr ())"
    using assms by (auto simp: install_def bind_io_Inr)
  then show ?thesis using path_result [OF a(1)] atomic_file_ok [OF a(2)] by auto
qed

lemma load_file_result:
  assumes "load_file dir name limit w = (w', r)" "w_files w (dir @ 47 # name) = Some (File c)" "length c \<le> limit" "int (length c) \<le> INT64_MAX"
  shows "r = Inr c \<or> r = Inl WADB_IO \<or> r = Inl WADB_NOMEM"
proof (cases r)
  case (Inl e)
  then consider w1 where "wadb_path dir name w = (w1, Inl e)" | w1 path where "wadb_path dir name w = (w1, Inr path)" "wadb_read_file path limit w1 = (w', Inl e)"
    using assms(1) by (auto simp: load_file_def bind_io_Inl)
  then show ?thesis
  proof cases
    case 1
    then show ?thesis using path_result [OF 1] Inl by auto
  next
    case 2
    then show ?thesis using path_result [OF 2(1)] read_file_ok [OF 2(2)] Inl assms(2-4) by auto
  qed
next
  case (Inr p)
  then obtain w1 path where a: "wadb_path dir name w = (w1, Inr path)" "wadb_read_file path limit w1 = (w', Inr p)"
    using assms(1) by (auto simp: load_file_def bind_io_Inr)
  then show ?thesis using path_result [OF a(1)] read_file_ok [OF a(2)] assms(2) Inr by auto
qed

section \<open>Runs without failures\<close>

text \<open>When no call fails, and every write and read makes progress, installing a file succeeds.\<close>

definition no_failure :: "world \<Rightarrow> bool" where
  "no_failure w \<longleftrightarrow> w_script w = (\<lambda>_. Ret 1)"

lemma call_quiet: "no_failure w \<Longrightarrow> call e w = (w\<lparr>w_tick := w_tick w + 1\<rparr>, Inr 1)"
  by (simp add: no_failure_def io_simps)

lemma no_failure_simps [simp]: "no_failure (w\<lparr>w_tick := n\<rparr>) = no_failure w" "no_failure (set_file p c w) = no_failure w"
  "no_failure (append_file p d w) = no_failure w"
  by (simp_all add: no_failure_def)

lemma write_loop_quiet: "no_failure w \<Longrightarrow> \<exists>w'. write_loop path data done w = (w', Inr ()) \<and> no_failure w'"
proof (induction "length data - done" arbitrary: "done" w)
  case 0
  then show ?case by (simp add: write_loop.simps)
next
  case (Suc n)
  let ?w = "append_file path (take 1 (drop done data)) (w\<lparr>w_tick := w_tick w + 1\<rparr>)"
  have "sys w = (w\<lparr>w_tick := w_tick w + 1\<rparr>, Ret 1)" using Suc.prems by (simp add: no_failure_def sys_def)
  then have "write_loop path data done w = write_loop path data (done + 1) ?w"
    using Suc.hyps(2) by (subst write_loop.simps) (auto simp: Let_def)
  moreover have "n = length data - (done + 1)" "no_failure ?w" using Suc by simp_all
  ultimately show ?case using Suc.hyps(1) [of "done + 1" ?w] by auto
qed

lemma sync_quiet: "no_failure w \<Longrightarrow> wadb_sync_file w = (w\<lparr>w_tick := w_tick w + 1\<rparr>, Inr ())"
  by (simp add: wadb_sync_file_def bind_io_def call_quiet return_io_def)

lemma fill_file_quiet: "no_failure w \<Longrightarrow> \<exists>w'. fill_file temp data w = (w', Inr ()) \<and> no_failure w'"
proof -
  assume "no_failure w"
  then obtain w1 where w1: "wadb_write_all temp data w = (w1, Inr ())" "no_failure w1" using write_loop_quiet unfolding wadb_write_all_def by blast
  then have "bind_io (wadb_write_all temp data) (\<lambda>_. wadb_sync_file) w = (w1\<lparr>w_tick := w_tick w1 + 1\<rparr>, Inr ())"
    by (simp add: bind_io_def sync_quiet)
  then show ?thesis using w1(2) by (simp add: fill_file_def call_quiet)
qed

lemma atomic_file_quiet:
  assumes q: "no_failure w" and path: "0 < length path" "length path \<le> 4096" and free: "w_files w (temp_path path 1) = None"
    and dir: "w_files w (parent_path path) = Some Directory" "w_files w path \<noteq> Some Directory" "parent_path path \<noteq> path"
      "parent_path path \<noteq> temp_path path 1"
  shows "\<exists>w'. wadb_atomic_file path data w = (w', Inr ()) \<and> no_failure w' \<and> w_files w' = (w_files w)(path \<mapsto> File data)"
proof -
  let ?t = "temp_path path 1"
  define w1 where "w1 = set_file ?t (Some (File [])) (w\<lparr>w_tick := w_tick w + 3\<rparr>)"
  have w1: "no_failure w1" "w_files w1 = (w_files w)(?t \<mapsto> File [])" using q by (simp_all add: w1_def)
  obtain w2 where f: "fill_file ?t data w1 = (w2, Inr ())" "no_failure w2" using fill_file_quiet w1(1) by blast
  have "w_files w2 = (w_files w)(?t \<mapsto> File data)" using fill_file_ok [of w1 ?t data w2 "Inr ()"] w1(2) f(1) by auto
  moreover define w3 where "w3 = set_file ?t None (set_file path (w_files w2 ?t) (w2\<lparr>w_tick := w_tick w2 + 1\<rparr>))"
  ultimately have w3: "no_failure w3" "w_files w3 = (w_files w)(path \<mapsto> File data)" using f(2) free by (auto simp: w3_def fun_eq_iff)
  have r: "rename_file ?t path w2 = (w3, Inr ())"
    using f(2) dir(2) \<open>w_files w2 = _\<close> temp_path_neq [of path 1] by (simp add: rename_file_def bind_io_def call_quiet w3_def)
  have "wadb_sync_directory (parent_path path) w3 = (w3\<lparr>w_tick := w_tick w3 + 2\<rparr>, Inr ())"
    using w3 dir by (simp add: wadb_sync_directory_def bind_io_def call_quiet return_io_def)
  then have i: "install_file ?t path w2 = (w3\<lparr>w_tick := w_tick w3 + 2\<rparr>, Inr ())" using r by (simp add: install_file_def bind_io_def)
  have m: "mkstemp path (w\<lparr>w_tick := w_tick w + 2\<rparr>) = (w1, Inr ?t)" using q free by (simp add: mkstemp_def bind_io_def call_quiet w1_def numeral_3_eq_3)
  have "wadb_atomic_file path data w = (w3\<lparr>w_tick := w_tick w3 + 2\<rparr>, Inr ())"
    using q path m f(1) i by (simp add: wadb_atomic_file_def bind_io_def call_quiet)
  then show ?thesis using w3 by auto
qed

lemma pread_loop_quiet: "no_failure w \<Longrightarrow> pread_loop path n offset p w = (w', r) \<Longrightarrow> no_failure w' \<and> r \<noteq> Inl WADB_IO"
proof (induction path n offset p w rule: pread_loop.induct)
  case (1 path n offset p w)
  let ?got = "pread (content w path) (n - length p) (offset + length p) 1"
  show ?case
  proof (cases "length p < n \<and> ?got \<noteq> []")
    case True
    have s: "sys w = (w\<lparr>w_tick := w_tick w + 1\<rparr>, Ret 1)" using 1(2) by (simp add: no_failure_def sys_def)
    then have "pread_loop path n offset (p @ ?got) (w\<lparr>w_tick := w_tick w + 1\<rparr>) = (w', r)"
      using 1(3) True by (simp add: pread_loop.simps [of path n offset p w] Let_def)
    then show ?thesis using 1(1) [OF _ s [symmetric] refl refl] True 1(2) by simp
  next
    case False
    have "sys w = (w\<lparr>w_tick := w_tick w + 1\<rparr>, Ret 1)" using 1(2) by (simp add: no_failure_def sys_def)
    then show ?thesis using 1(2,3) False by (auto simp: pread_loop.simps [of path n offset p w] Let_def split: if_splits)
  qed
qed

lemma read_file_quiet:
  assumes "no_failure w" "w_files w path = Some (File c)" "length c \<le> limit" "int (length c) \<le> INT64_MAX"
  shows "\<exists>w'. wadb_read_file path limit w = (w', Inr c) \<and> no_failure w' \<and> w_files w' = w_files w"
proof -
  let ?w = "w\<lparr>w_tick := w_tick w + 3\<rparr>"
  obtain w' r where p: "wadb_pread_all path (length c) 0 ?w = (w', r)" by fastforce
  have cont: "content ?w path = c" using assms(2) by (simp add: content_def)
  note ok = pread_all_ok [OF p]
  have q: "no_failure w' \<and> r \<noteq> Inl WADB_IO"
    using pread_loop_quiet [of ?w path "length c" 0 "[]" w' r] p assms(1,4) by (simp add: wadb_pread_all_def split: if_splits)
  have "r = Inr c" using ok q cont assms(4) by (cases r) (auto simp: chunk_def)
  moreover have "wadb_read_file path limit w = wadb_pread_all path (length c) 0 ?w"
    using assms(1-3) by (simp add: wadb_read_file_def bind_io_def call_quiet numeral_3_eq_3)
  ultimately show ?thesis using p q ok by auto
qed

section \<open>Properties\<close>

text \<open>
  C10: manifests survive a restart. When saving the manifest of a table succeeds, loading it gives
  back every persistent member, whatever else happens to the calls, or reports an I/O or memory
  failure; a saved manifest is never rejected as corrupt.
\<close>

theorem manifest_roundtrip:
  assumes "manifest_valid t" and "wadb_save_manifest t w = (w1, Inr ())"
    and "tb_id t0 = tb_id t" and "tb_directory t0 = tb_directory t" and "wadb_load_manifest t0 w1 = (w2, r)"
  shows "r = Inr (manifest_fields t0 t) \<or> r = Inl WADB_IO \<or> r = Inl WADB_NOMEM"
proof -
  let ?c = "seal (manifest_image t)"
  have len: "length ?c = 84 + 64 * length (tb_segments t)" "length ?c \<le> 84 + WADB_MAX_SEGMENTS * 64"
    using assms(1) by (simp_all add: length_manifest_image manifest_valid_def)
  obtain w0 z where "install (tb_directory t) (ascii ''manifest'') (manifest_image t) w0 = (w1, Inr ())"
    using assms(2) by (auto simp: wadb_save_manifest_def fail_io_def bind_io_Inr split: if_splits)
  then have f: "w_files w1 (tb_directory t0 @ 47 # ascii ''manifest'') = Some (File ?c)" using install_result assms(4) by simp
  obtain w3 l where l: "load_file (tb_directory t0) (ascii ''manifest'') (84 + WADB_MAX_SEGMENTS * 64) w1 = (w3, l)" by fastforce
  have "l = Inr ?c \<or> l = Inl WADB_IO \<or> l = Inl WADB_NOMEM"
    by (rule load_file_result [OF l f len(2)]) (use len in \<open>simp add: WADB_MAX_SEGMENTS_def\<close>)
  then show ?thesis
  proof (elim disjE)
    assume "l = Inr ?c"
    then have "parse_manifest t0 ?c w3 = (w2, r)" using assms(5) l by (simp add: wadb_load_manifest_def bind_io_def)
    from parse_manifest_image [OF assms(1,3) this] show ?thesis by auto
  qed (use assms(5) l in \<open>auto simp: wadb_load_manifest_def bind_io_def\<close>)
qed


definition example_manifest :: wadb_table where
  "example_manifest = example_table\<lparr>tb_segments := [example_segment 3], tb_next_segment_id := 4, tb_directory := ascii ''d''\<rparr>"

lemma example_manifest_valid: "manifest_valid example_manifest"
  by (simp add: manifest_valid_def example_manifest_def example_table_def WADB_MAX_SEGMENTS_def example_segment_def segment_range_def i64_range_def
      segment_invalid_def WADB_SEGMENT_HEADER_BYTES_def WADB_DAY_US_def)

theorem manifest_roundtrip_witness:
  "\<exists>w1 w2 r. wadb_save_manifest example_manifest quiet_world = (w1, Inr ()) \<and> wadb_load_manifest example_manifest w1 = (w2, r) \<and>
     (r = Inr example_manifest \<or> r = Inl WADB_IO \<or> r = Inl WADB_NOMEM)"
proof -
  let ?d = "seal (manifest_image example_manifest)" and ?p = "ascii ''d'' @ 47 # ascii ''manifest''"
  have q: "no_failure (quiet_world\<lparr>w_tick := 2\<rparr>)" by (simp add: no_failure_def quiet_world_def)
  have "\<exists>w'. wadb_atomic_file ?p ?d (quiet_world\<lparr>w_tick := 2\<rparr>) = (w', Inr ()) \<and> no_failure w' \<and>
      w_files w' = (w_files (quiet_world\<lparr>w_tick := 2\<rparr>))(?p \<mapsto> File ?d)"
    by (rule atomic_file_quiet [OF q]) (simp_all add: quiet_world_def ascii_def temp_path_def parent_path_def Let_def)
  then obtain w1 where "wadb_atomic_file ?p ?d (quiet_world\<lparr>w_tick := 2\<rparr>) = (w1, Inr ())" by blast
  moreover have "tb_directory example_manifest = ascii ''d''" "length (tb_segments example_manifest) \<le> WADB_MAX_SEGMENTS"
    by (simp_all add: example_manifest_def WADB_MAX_SEGMENTS_def)
  ultimately have s: "wadb_save_manifest example_manifest quiet_world = (w1, Inr ())"
    by (simp add: wadb_save_manifest_def install_def wadb_path_def io_simps) (simp add: quiet_world_def numeral_2_eq_2)
  obtain w2 r where l: "wadb_load_manifest example_manifest w1 = (w2, r)" by fastforce
  have "manifest_fields example_manifest example_manifest = example_manifest" by (simp add: manifest_fields_def)
  then show ?thesis using manifest_roundtrip [OF example_manifest_valid s refl refl l] s l by auto
qed

lemma example_loads: "\<exists>w w' t. wadb_load_manifest example_manifest w = (w', Inr t)"
proof -
  let ?d = "seal (manifest_image example_manifest)" and ?p = "ascii ''d'' @ 47 # ascii ''manifest''"
  define w where "w = quiet_world\<lparr>w_files := [?p \<mapsto> File ?d]\<rparr>"
  have q: "no_failure (w\<lparr>w_tick := 1\<rparr>)" by (simp add: no_failure_def w_def quiet_world_def)
  have len: "length ?d = 148" by (simp add: length_manifest_image example_manifest_def)
  have "\<exists>w'. wadb_read_file ?p (84 + WADB_MAX_SEGMENTS * 64) (w\<lparr>w_tick := 1\<rparr>) = (w', Inr ?d) \<and> no_failure w' \<and> w_files w' = w_files (w\<lparr>w_tick := 1\<rparr>)"
    by (rule read_file_quiet [OF q]) (simp_all add: w_def len WADB_MAX_SEGMENTS_def)
  then obtain w1 where w1: "wadb_read_file ?p (84 + WADB_MAX_SEGMENTS * 64) (w\<lparr>w_tick := 1\<rparr>) = (w1, Inr ?d)" "no_failure w1" by blast
  have dir: "tb_directory example_manifest = ascii ''d''" by (simp add: example_manifest_def)
  have "load_file (ascii ''d'') (ascii ''manifest'') (84 + WADB_MAX_SEGMENTS * 64) w = (w1, Inr ?d)"
    using w1(1) by (simp add: load_file_def wadb_path_def io_simps) (simp add: w_def quiet_world_def)
  moreover have "\<exists>w2. parse_manifest example_manifest ?d w1 = (w2, Inr (manifest_fields example_manifest example_manifest))"
    unfolding parse_manifest_eq [OF example_manifest_valid refl] using w1(2) by (simp add: bind_io_def call_quiet return_io_def)
  ultimately have "\<exists>w2. wadb_load_manifest example_manifest w = (w2, Inr (manifest_fields example_manifest example_manifest))"
    by (simp add: wadb_load_manifest_def dir bind_io_def)
  then show ?thesis by blast
qed


section \<open>Schemas\<close>

text \<open>Building a schema depends on the names of the definitions only up to their terminator.\<close>

definition same_def :: "wadb_field_def \<Rightarrow> wadb_field_def \<Rightarrow> bool" where
  "same_def d d' \<longleftrightarrow> wadb_identifier (d_name d) = wadb_identifier (d_name d') \<and> def_name d = def_name d' \<and>
     d_type d = d_type d' \<and> d_size d = d_size d' \<and> d_nullable d = d_nullable d'"

lemma place_fields_cong: "list_all2 same_def ds ds' \<Longrightarrow> place_fields ds off nb = place_fields ds' off nb"
  by (induction ds ds' arbitrary: off nb rule: list_all2_induct) (simp_all add: same_def_def def_name_def Let_def)

lemma check_defs_cong:
  "list_all2 same_def ds ds' \<Longrightarrow> list_all2 same_def seen seen' \<Longrightarrow> check_defs seen ds n = check_defs seen' ds' n"
proof (induction ds ds' arbitrary: seen seen' n rule: list_all2_induct)
  case (Cons d ds d' ds')
  have "list_ex (\<lambda>s. strcmp_eq (the (d_name d)) (the (d_name s))) seen = list_ex (\<lambda>s. strcmp_eq (the (d_name d')) (the (d_name s))) seen'"
    using Cons.prems Cons.hyps(1)
    by (induction seen seen' rule: list_all2_induct) (auto simp: same_def_def def_name_def strcmp_eq_def)
  note ex = this
  have "list_all2 same_def (seen @ [d]) (seen' @ [d'])" using Cons.prems Cons.hyps(1) by (simp add: list_all2_appendI)
  note ih = Cons.IH [OF this]
  have e: "wadb_identifier (d_name d) = wadb_identifier (d_name d')" "d_type d = d_type d'" "d_size d = d_size d'" "d_nullable d = d_nullable d'"
      "strcmp_eq (the (d_name d)) (ascii ''_time'') = strcmp_eq (the (d_name d')) (ascii ''_time'')"
    using Cons.hyps(1) by (simp_all add: same_def_def def_name_def strcmp_eq_def)
  show ?case unfolding check_defs.simps ex ih e by (rule refl)
qed simp

lemma schema_build_cong: "list_all2 same_def ds ds' \<Longrightarrow> wadb_schema_build (CMem ds) = wadb_schema_build (CMem ds')"
  using check_defs_cong [of ds ds' "[]" "[]"] place_fields_cong [of ds ds'] list_all2_lengthD [of same_def ds ds']
  by (simp add: wadb_schema_build_def)

lemma identifier_name: "wadb_identifier (Some s) \<Longrightarrow> length (cstr s) < WADB_NAME_CAP"
  by (simp add: wadb_identifier_iff)

lemma length_padded_name [simp]: "length (cstr s) < WADB_NAME_CAP \<Longrightarrow> length (padded_name s) = 64"
  by (simp add: padded_name_def WADB_NAME_CAP_def)

lemma cstr_padded: "length (cstr s) < WADB_NAME_CAP \<Longrightarrow> cstr (padded_name s @ rest) = cstr s"
proof -
  assume "length (cstr s) < WADB_NAME_CAP"
  then obtain n where "WADB_NAME_CAP - length (cstr s) = Suc n" by (metis Suc_diff_Suc)
  then have "padded_name s @ rest = cstr s @ 0 # (zeroes_bytes n @ rest)" by (simp add: padded_name_def zeroes_bytes_def)
  moreover have "takeWhile (\<lambda>c. c \<noteq> 0) (cstr s @ 0 # xs) = cstr s" for xs using cstr_nonzero [of s] by (subst takeWhile_append2) auto
  ultimately show ?thesis by (simp add: cstr_def)
qed

lemma stored_padded:
  assumes "wadb_identifier (Some s)" shows "stored_name (padded_name s @ rest)"
proof -
  have l: "length (cstr s) < WADB_NAME_CAP" using identifier_name [OF assms] .
  have "wadb_identifier (Some (padded_name s @ rest))" using assms by (simp add: wadb_identifier_iff cstr_padded [OF l])
  moreover have "0 \<in> set (take WADB_NAME_CAP (padded_name s @ rest))" using l by (auto simp: padded_name_def zeroes_bytes_def)
  moreover have "zeroes (drop (length (cstr s)) (padded_name s @ rest)) (WADB_NAME_CAP - length (cstr s))"
    by (simp add: padded_name_def image_simps)
  ultimately show ?thesis by (simp add: stored_name_def cstr_padded [OF l])
qed

lemma type_codes: "t \<in> set type_list \<Longrightarrow> type_of_code (type_code t) = t \<and> type_code t \<le> UINT32_MAX"
  by (auto simp: type_list_def type_of_code_def)

text \<open>The fields that a schema file can hold.\<close>

definition storable :: "wadb_field \<Rightarrow> bool" where
  "storable f \<longleftrightarrow> wadb_identifier (Some (f_name f)) \<and> f_type f \<in> set type_list \<and> f_size f \<le> UINT32_MAX"

definition def_of_field :: "bytes \<Rightarrow> wadb_field \<Rightarrow> wadb_field_def" where
  "def_of_field r f = \<lparr>d_name = Some r, d_type = f_type f, d_size = f_size f, d_nullable = f_nullable f\<rparr>"

lemma length_field_record [simp]: "storable f \<Longrightarrow> length (field_record f) = 80"
  using identifier_name by (simp add: field_record_def storable_def)

lemma stored_field_record: "storable f \<Longrightarrow> stored_def (field_record f @ rest) = Some (def_of_field (field_record f @ rest) f)"
proof -
  assume st: "storable f"
  then have i: "wadb_identifier (Some (f_name f))" and t: "type_of_code (type_code (f_type f)) = f_type f" "type_code (f_type f) \<le> UINT32_MAX"
    using type_codes [of "f_type f"] by (auto simp: storable_def)
  have l: "length (padded_name (f_name f)) = 64" using identifier_name [OF i] by simp
  have "stored_name (field_record f @ rest)" using stored_padded [OF i] by (simp add: field_record_def)
  moreover have "unat (wadb_get_u32 (drop 64 (field_record f @ rest))) = type_code (f_type f)" "unat (wadb_get_u32 (drop 68 (field_record f @ rest))) = f_size f"
      "unat (wadb_get_u32 (drop 72 (field_record f @ rest))) = (if f_nullable f then 1 else 0)" "zeroes (drop 76 (field_record f @ rest)) 4"
    using l t st by (simp_all add: field_record_def image_simps storable_def)
  moreover have "wadb_get_u32 (drop 72 (field_record f @ rest)) \<noteq> 0 \<longleftrightarrow> f_nullable f"
    using calculation(4) unfolding unat_eq_0 [symmetric] by presburger
  ultimately show ?thesis using t by (simp add: stored_def_def def_of_field_def split: if_splits)
qed

lemma stored_field_records:
  "list_all storable fs \<Longrightarrow> \<exists>ds. stored_defs (length fs) (concat (map field_record fs) @ rest) = Some ds \<and>
     list_all2 (\<lambda>d f. \<exists>r. d = def_of_field r f \<and> cstr r = cstr (f_name f) \<and> wadb_identifier (Some r)) ds fs"
proof (induction fs)
  case (Cons f fs)
  let ?r = "field_record f @ concat (map field_record fs) @ rest"
  obtain ds where ds: "stored_defs (length fs) (concat (map field_record fs) @ rest) = Some ds"
      "list_all2 (\<lambda>d f. \<exists>r. d = def_of_field r f \<and> cstr r = cstr (f_name f) \<and> wadb_identifier (Some r)) ds fs"
    using Cons by auto
  have st: "storable f" using Cons.prems by simp
  have i: "wadb_identifier (Some (f_name f))" using st by (simp add: storable_def)
  have c: "cstr ?r = cstr (f_name f)" using cstr_padded [OF identifier_name [OF i]] by (simp add: field_record_def)
  moreover have "wadb_identifier (Some ?r)" using i c by (simp add: wadb_identifier_iff)
  ultimately show ?case using ds stored_field_record [OF st] st by (auto intro!: exI [of _ ?r])
qed simp

text \<open>A built schema is rebuilt from its own fields, under any storage of their names.\<close>

lemma built_fields:
  "list_all2 field_of_def ds fs \<Longrightarrow> list_all def_ok ds \<Longrightarrow>
     list_all storable fs \<and> (list_all2 (\<lambda>d f. \<exists>r. d = def_of_field r f \<and> cstr r = cstr (f_name f) \<and> wadb_identifier (Some r)) es fs \<longrightarrow> list_all2 same_def es ds)"
proof (induction ds fs arbitrary: es rule: list_all2_induct)
  case (Cons d ds f fs)
  have f: "f_name f = def_name d" "f_type f = d_type d" "f_size f = d_size d" "f_nullable f = d_nullable d"
    using Cons.hyps(1) by (simp_all add: field_of_def_def)
  have ok: "wadb_identifier (d_name d)" "d_type d \<in> set type_list" "d_size d \<le> UINT32_MAX"
    using Cons.prems by (auto simp: def_ok_def WADB_MAX_ROW_BYTES_def split: if_splits)
  then have i: "wadb_identifier (Some (def_name d))" by (cases "d_name d") (auto simp: wadb_identifier_iff def_name_def, simp_all add: wadb_identifier_def)
  have "storable f" using ok i f by (simp add: storable_def)
  moreover have "same_def e d" if "e = def_of_field r f" "cstr r = cstr (f_name f)" "wadb_identifier (Some r)" for e r
    using that f ok(1) by (simp add: same_def_def def_of_field_def def_name_def)
  ultimately show ?case using Cons.IH Cons.prems by (cases es) auto
qed simp

lemma built_schema:
  assumes "wadb_schema_build defs = Inr s"
  shows "list_all storable (tl (schema_fields s))"
    "list_all2 (\<lambda>d f. \<exists>r. d = def_of_field r f \<and> cstr r = cstr (f_name f) \<and> wadb_identifier (Some r)) es (tl (schema_fields s)) \<Longrightarrow>
       wadb_schema_build (CMem es) = Inr s"
proof -
  let ?ds = "carr_items defs" and ?fs = "tl (schema_fields s)"
  have c: "wadb_schema_build (CMem ?ds) = Inr s"
    using assms by (cases defs) (auto simp: wadb_schema_build_def split: if_splits)
  have "\<not> defs_rejected defs"
    using assms schema_build_outcome [of defs "if defs_rejected defs then WADB_INVALID else WADB_LIMIT"] by (cases "defs_rejected defs") auto
  then have ok: "list_all def_ok ?ds" by (auto simp: defs_rejected_def list_all_iff)
  note b = built_fields [OF schema_build_ok(2) [OF assms] ok]
  show "list_all storable ?fs" using b by blast
  assume "list_all2 (\<lambda>d f. \<exists>r. d = def_of_field r f \<and> cstr r = cstr (f_name f) \<and> wadb_identifier (Some r)) es ?fs"
  then have "list_all2 same_def es ?ds" using b by blast
  from schema_build_cong [OF this] show "wadb_schema_build (CMem es) = Inr s" using c by simp
qed

lemma field_records: "fs \<noteq> [] \<Longrightarrow> map (\<lambda>i. field_record (fs ! (i + 1))) [0..<length fs - 1] = map field_record (tl fs)"
  by (rule nth_equalityI) (simp_all add: nth_tl)

lemma length_records: "list_all storable fs \<Longrightarrow> length (concat (map field_record fs)) = 80 * length fs"
  by (induction fs) simp_all

lemma parse_schema_image:
  assumes s: "wadb_schema_build defs = Inr (tb_schema t)" and n: "wadb_identifier (Some (tb_name t))" and i: "tb_id t0 = tb_id t" "tb_id t \<le> UINT64_MAX"
  shows "parse_schema t0 (seal (schema_image t)) = Inr (t0\<lparr>tb_schema := tb_schema t, tb_name := cstr (tb_name t)\<rparr>)"
    and "length (seal (schema_image t)) = 132 + (field_count (tb_schema t) - 1) * 80"
proof -
  let ?s = "tb_schema t" and ?fs = "tl (schema_fields (tb_schema t))"
  have ok: "schema_ok ?s" using schema_build_ok(1) [OF s] .
  have ne: "schema_fields ?s \<noteq> []" "field_count ?s = length (schema_fields ?s)" "field_count ?s \<le> WADB_MAX_FIELDS"
    using ok by (simp_all add: schema_ok_def)
  have len: "field_count ?s - 1 = length ?fs" "length ?fs < WADB_MAX_FIELDS" "length ?fs \<le> UINT32_MAX"
    using ne by (auto simp: WADB_MAX_FIELDS_def Suc_le_eq)
  have st: "list_all storable ?fs" using built_schema(1) [OF s] .
  have rw: "row_width ?s \<le> UINT32_MAX" "null_bytes ?s \<le> UINT32_MAX" using ok by (auto simp: schema_ok_def Let_def WADB_MAX_ROW_BYTES_def)
  define b where "b = ascii ''WADBSCH1'' @ u32_bytes WADB_FORMAT_VERSION @ u32_bytes (length ?fs) @ u64_bytes (tb_id t) @
      wadb_put_u64 (fingerprint ?s) @ u32_bytes (row_width ?s) @ u32_bytes (null_bytes ?s) @
      padded_name (tb_name t) @ zeroes_bytes 24 @ concat (map field_record ?fs)"
  define c where "c = wadb_put_u32 (wadb_crc32c b)"
  have ln: "length (padded_name (tb_name t)) = 64" using identifier_name [OF n] by simp
  have im: "schema_image t = b @ zeroes_bytes 4"
    unfolding schema_image_def Let_def len(1) b_def using field_records [OF ne(1)] by (simp add: len(1))
  have se: "seal (schema_image t) = b @ c" unfolding im by (simp add: seal_append c_def)
  have lc: "length c = 4" by (simp add: c_def)
  have lb: "length b = 128 + 80 * length ?fs" using ln by (simp add: b_def length_records [OF st])
  have env: "envelope (b @ c) (ascii ''WADBSCH1'') 132 = Inr ()"
  proof -
    have "take 12 b = ascii ''WADBSCH1'' @ u32_bytes WADB_FORMAT_VERSION" by (simp add: b_def)
    from envelope_sealed [OF this, of 132] show ?thesis using lb by (simp add: seal_append c_def)
  qed
  have g: "unat (wadb_get_u32 (drop 12 (b @ c))) = length ?fs" "unat (wadb_get_u64 (drop 16 (b @ c))) = tb_id t"
      "wadb_get_u64 (drop 24 (b @ c)) = fingerprint ?s" "unat (wadb_get_u32 (drop 32 (b @ c))) = row_width ?s"
      "unat (wadb_get_u32 (drop 36 (b @ c))) = null_bytes ?s" "zeroes (drop 104 (b @ c)) 24"
    using rw len(3) i(2) ln by (simp_all add: b_def image_simps)
  have d40: "drop 40 (b @ c) = padded_name (tb_name t) @ zeroes_bytes 24 @ concat (map field_record ?fs) @ c" by (simp add: b_def)
  have nm: "stored_name (drop 40 (b @ c))" "cstr (drop 40 (b @ c)) = cstr (tb_name t)"
    unfolding d40 using stored_padded [OF n] cstr_padded [OF identifier_name [OF n]] by simp_all
  obtain ds where ds: "stored_defs (length ?fs) (drop 128 (b @ c)) = Some ds"
      "list_all2 (\<lambda>d f. \<exists>r. d = def_of_field r f \<and> cstr r = cstr (f_name f) \<and> wadb_identifier (Some r)) ds ?fs"
    using stored_field_records [OF st, of c] ln by (auto simp: b_def)
  have bs: "wadb_schema_build (CMem ds) = Inr ?s" using built_schema(2) [OF s ds(2)] .
  have ok1: "\<not> (length ?fs \<ge> WADB_MAX_FIELDS \<or> length (b @ c) \<noteq> 132 + length ?fs * 80 \<or> tb_id t \<noteq> tb_id t0 \<or>
      \<not> stored_name (drop 40 (b @ c)) \<or> \<not> zeroes (drop 104 (b @ c)) 24)"
    using len(2) lb lc i(1) nm(1) g(6) by (simp del: drop_append)
  have ok2: "\<not> (fingerprint ?s \<noteq> fingerprint ?s \<or> row_width ?s \<noteq> row_width ?s \<or> null_bytes ?s \<noteq> null_bytes ?s)" by simp
  show "parse_schema t0 (seal (schema_image t)) = Inr (t0\<lparr>tb_schema := ?s, tb_name := cstr (tb_name t)\<rparr>)"
    unfolding se parse_schema_def env bind_res_simps Let_def g if_not_P [OF ok1] ds(1) option.case bs sum.case if_not_P [OF ok2] nm(2) by (rule refl)
  show "length (seal (schema_image t)) = 132 + (field_count ?s - 1) * 80" unfolding se len(1) using lb lc by simp
qed

text \<open>
  C39: schemas survive a restart. When saving the schema of a table succeeds, loading it gives back
  the same name and the same schema, with its layout and fingerprint, or reports an I/O or memory
  failure; a saved schema is never rejected as corrupt.
\<close>

theorem schema_roundtrip:
  assumes "wadb_schema_build defs = Inr (tb_schema t)" and "wadb_identifier (Some (tb_name t))" and "tb_id t \<le> UINT64_MAX"
    and "wadb_save_schema t w = (w1, Inr ())"
    and "tb_id t0 = tb_id t" and "tb_directory t0 = tb_directory t" and "wadb_load_schema t0 w1 = (w2, r)"
  shows "r = Inr (t0\<lparr>tb_schema := tb_schema t, tb_name := cstr (tb_name t)\<rparr>) \<or> r = Inl WADB_IO \<or> r = Inl WADB_NOMEM"
proof -
  let ?c = "seal (schema_image t)" and ?limit = "132 + (WADB_MAX_FIELDS - 1) * 80"
  note im = parse_schema_image [OF assms(1,2,5,3)]
  have "field_count (tb_schema t) \<le> WADB_MAX_FIELDS" using schema_build_ok(1) [OF assms(1)] by (simp add: schema_ok_def)
  then have len: "length ?c \<le> ?limit" "int (length ?c) \<le> INT64_MAX" unfolding im(2) by (simp_all add: WADB_MAX_FIELDS_def)
  obtain w0 where "install (tb_directory t) (ascii ''schema'') (schema_image t) w0 = (w1, Inr ())"
    using assms(4) by (auto simp: wadb_save_schema_def bind_io_Inr)
  then have f: "w_files w1 (tb_directory t0 @ 47 # ascii ''schema'') = Some (File ?c)" using install_result assms(6) by simp
  obtain w3 l where l: "load_file (tb_directory t0) (ascii ''schema'') ?limit w1 = (w3, l)" by fastforce
  have "l = Inr ?c \<or> l = Inl WADB_IO \<or> l = Inl WADB_NOMEM" by (rule load_file_result [OF l f len])
  then show ?thesis
    using assms(7) l im(1) by (auto simp: wadb_load_schema_def bind_io_def)
qed

theorem schema_roundtrip_witness:
  "\<exists>s w1 w2 r. wadb_schema_build example_defs = Inr s \<and> wadb_save_schema (example_manifest\<lparr>tb_schema := s\<rparr>) quiet_world = (w1, Inr ()) \<and>
     wadb_load_schema example_manifest w1 = (w2, r) \<and>
     (r = Inr (example_manifest\<lparr>tb_schema := s\<rparr>) \<or> r = Inl WADB_IO \<or> r = Inl WADB_NOMEM)"
proof -
  obtain s where s: "wadb_schema_build example_defs = Inr s" using example_builds by blast
  let ?t = "example_manifest\<lparr>tb_schema := s\<rparr>"
  let ?d = "seal (schema_image ?t)" and ?p = "ascii ''d'' @ 47 # ascii ''schema''"
  have q: "no_failure (quiet_world\<lparr>w_tick := 2\<rparr>)" by (simp add: no_failure_def quiet_world_def)
  have "\<exists>w'. wadb_atomic_file ?p ?d (quiet_world\<lparr>w_tick := 2\<rparr>) = (w', Inr ()) \<and> no_failure w' \<and>
      w_files w' = (w_files (quiet_world\<lparr>w_tick := 2\<rparr>))(?p \<mapsto> File ?d)"
    by (rule atomic_file_quiet [OF q]) (simp_all add: quiet_world_def ascii_def temp_path_def parent_path_def Let_def)
  then obtain w1 where "wadb_atomic_file ?p ?d (quiet_world\<lparr>w_tick := 2\<rparr>) = (w1, Inr ())" by blast
  moreover have dir: "tb_directory ?t = ascii ''d''" by (simp add: example_manifest_def)
  ultimately have sv: "wadb_save_schema ?t quiet_world = (w1, Inr ())"
    by (simp add: wadb_save_schema_def install_def wadb_path_def io_simps) (simp add: quiet_world_def numeral_2_eq_2)
  obtain w2 r where l: "wadb_load_schema example_manifest w1 = (w2, r)" by fastforce
  have n: "tb_name ?t = ascii ''visits''" "cstr (ascii ''visits'') = ascii ''visits''" "tb_id ?t \<le> UINT64_MAX"
    by (simp_all add: example_manifest_def example_table_def cstr_def ascii_def)
  have i: "wadb_identifier (Some (tb_name ?t))"
    by (simp add: example_manifest_def example_table_def wadb_identifier_def identifier_loop.simps identifier_char_def cchar_def ascii_def cstr_def WADB_NAME_CAP_def)
  have "tb_name example_manifest = cstr (tb_name ?t)" using n by (simp add: example_manifest_def)
  then have "example_manifest\<lparr>tb_schema := s, tb_name := cstr (tb_name ?t)\<rparr> = ?t" by simp
  moreover have "wadb_schema_build example_defs = Inr (tb_schema ?t)" using s by simp
  ultimately show ?thesis
    using schema_roundtrip [OF _ i n(3) sv _ _ l, of example_defs] s sv l dir by auto
qed

end
