(* ===== verification/Wadb_Segments.thy ===== *)
theory Wadb_Segments
  imports Wadb_Metadata
begin

unbundle bit_operations_syntax

text \<open>
  Segment files and their derived indexes: the paths of \<^verbatim>\<open>src/storage/segments.c\<close>, the part of
  \<^verbatim>\<open>src/storage/index.c\<close> that writes index files and reads them back, and the removal of the files
  of retired segments (\<^verbatim>\<open>src/storage/retention.c\<close>).

  A table is passed to these functions for its identifier, directory and schema, which never
  change. An index reader is a record whose descriptor is the path it was opened with.
\<close>

section \<open>Combining computations\<close>

text \<open>Computations on the system and one more part of the state, and results as computations.\<close>

definition on_world :: "(world, 'a) io \<Rightarrow> (world \<times> 's, 'a) io" where
  "on_world m = (\<lambda>(w, s). case m w of (w', r) \<Rightarrow> ((w', s), r))"

definition modify :: "('s \<Rightarrow> 's) \<Rightarrow> (world \<times> 's, unit) io" where
  "modify f = (\<lambda>(w, s). ((w, f s), Inr ()))"

definition from_res :: "'a res \<Rightarrow> ('s, 'a) io" where
  "from_res r = (\<lambda>s. (s, r))"

definition ensure_io :: "bool \<Rightarrow> wadb_status \<Rightarrow> ('s, unit) io" where
  "ensure_io b e = (if b then return_io () else fail_io e)"

fun for_each :: "('a \<Rightarrow> ('s, unit) io) \<Rightarrow> 'a list \<Rightarrow> ('s, unit) io" where
  "for_each f [] s = (s, Inr ())"
| "for_each f (x # xs) s = bind_io (f x) (\<lambda>_. for_each f xs) s"

text \<open>The rules by which a successful computation is taken apart.\<close>

named_theorems io_ok \<open>inversion of successful computations\<close>

lemmas bind_io_ok [io_ok] = bind_io_Inr

lemma basic_io_ok [io_ok]:
  "return_io x s = (s', Inr y) \<longleftrightarrow> s' = s \<and> y = x"
  "fail_io e s = (s', Inr z) \<longleftrightarrow> False"
  "from_res r s = (s', Inr v) \<longleftrightarrow> s' = s \<and> r = Inr v"
  "ensure_io b e s = (s', Inr u) \<longleftrightarrow> s' = s \<and> b"
  by (auto simp: return_io_def fail_io_def from_res_def ensure_io_def)

lemma pair_io_ok [io_ok]:
  "on_world m (w, s1) = ((w', s1'), r) \<longleftrightarrow> s1' = s1 \<and> m w = (w', r)"
  "modify f (w, s1) = ((w', s1'), Inr u) \<longleftrightarrow> w' = w \<and> s1' = f s1"
  by (auto simp: on_world_def modify_def split: prod.splits)

section \<open>Paths\<close>

text \<open>Division of \<^verbatim>\<open>int64_t\<close> by a positive number, which truncates.\<close>

definition c_div :: "int \<Rightarrow> int \<Rightarrow> int" where
  "c_div a b = (if a < 0 then - ((- a) div b) else a div b)"

text \<open>\<^verbatim>\<open>%PRIu64\<close>\<close>

fun decimal :: "nat \<Rightarrow> bytes" where
  "decimal n = (if n < 10 then [of_nat (48 + n)] else decimal (n div 10) @ [of_nat (48 + n mod 10)])"

declare decimal.simps [simp del]

definition decimal2 :: "int \<Rightarrow> bytes" where
  "decimal2 n = [of_nat (48 + nat n div 10), of_nat (48 + nat n mod 10)]"

text \<open>
  \<^verbatim>\<open>gmtime_r\<close> with \<^verbatim>\<open>%Y-%m-%d\<close>: the proleptic Gregorian date of a number of days since 1970-01-01,
  counting years from the first of March. Every \<^verbatim>\<open>int64_t\<close> number of microseconds has a date.
\<close>

definition civil_date :: "int \<Rightarrow> int \<times> int \<times> int" where
  "civil_date days =
     (let z = days + 719468; era = z div 146097; doe = z mod 146097;
          yoe = (doe - doe div 1460 + doe div 36524 - doe div 146096) div 365;
          doy = doe - (365 * yoe + yoe div 4 - yoe div 100);
          mp = (5 * doy + 2) div 153; d = doy - (153 * mp + 2) div 5 + 1;
          m = (if mp < 10 then mp + 3 else mp - 9)
      in (yoe + era * 400 + (if m \<le> 2 then 1 else 0), m, d))"

definition date_text :: "int \<Rightarrow> bytes" where
  "date_text seconds =
     (case civil_date (seconds div 86400) of (y, m, d) \<Rightarrow>
        decimal (nat y) @ 45 # decimal2 m @ 45 # decimal2 d)"

definition partition_path :: "wadb_table \<Rightarrow> int \<Rightarrow> (world, path) io" where
  "partition_path t day_start = wadb_path (tb_directory t) (date_text (c_div day_start 1000000))"

definition wadb_segment_path :: "wadb_table \<Rightarrow> wadb_segment_meta \<Rightarrow> bytes \<Rightarrow> (world, path) io" where
  "wadb_segment_path t s ext =
     bind_io (partition_path t (sg_day_start s)) (\<lambda>dir. wadb_path dir (decimal20 (sg_id s) @ 46 # ext))"

section \<open>Open files\<close>

text \<open>
  \<^verbatim>\<open>open\<close> of an existing file. A node that is not a regular file is opened or not according to its
  kind and then refused by the first read or by \<^verbatim>\<open>fstat\<close>, with the status \<open>e\<close> that the caller also
  gives to a failed \<^verbatim>\<open>open\<close>; both are one failure here.
\<close>

definition open_file :: "path \<Rightarrow> wadb_status \<Rightarrow> (world, unit) io" where
  "open_file path e =
     bind_io (call e) (\<lambda>_ w. case w_files w path of Some (File c) \<Rightarrow> (w, Inr ()) | _ \<Rightarrow> (w, Inl e))"

text \<open>\<^verbatim>\<open>fstat\<close>: the size.\<close>

definition file_size :: "path \<Rightarrow> wadb_status \<Rightarrow> (world, nat) io" where
  "file_size path e = bind_io (call e) (\<lambda>_ w. (w, Inr (length (content w path))))"

text \<open>Reading from a descriptor that may be closed (\<^verbatim>\<open>-1\<close>), where every \<^verbatim>\<open>pread\<close> fails.\<close>

definition pread_fd :: "path option \<Rightarrow> nat \<Rightarrow> nat \<Rightarrow> (world, bytes) io" where
  "pread_fd fd n offset =
     (case fd of
        Some path \<Rightarrow> wadb_pread_all path n offset
      | None \<Rightarrow>
          if int offset > INT64_MAX \<or> int n > INT64_MAX - int offset then fail_io WADB_LIMIT
          else if n = 0 then return_io [] else fail_io WADB_IO)"

section \<open>Index records\<close>

definition wadb_index_free :: wadb_frame_index where
  "wadb_index_free = \<lparr>fi_entries = [], fi_capacity = 0\<rparr>"

definition wadb_index_reserve :: "wadb_frame_index \<Rightarrow> (world, wadb_frame_index) io" where
  "wadb_index_reserve index =
     (if length (fi_entries index) \<ge> WADB_MAX_INDEX_ENTRIES then fail_io WADB_LIMIT
      else if length (fi_entries index) < fi_capacity index then return_io index
      else
        (let cap = (if fi_capacity index \<noteq> 0 then fi_capacity index * 2 else 64);
             cap = (if cap > WADB_MAX_INDEX_ENTRIES then WADB_MAX_INDEX_ENTRIES else cap)
         in bind_io (call WADB_NOMEM) (\<lambda>_. return_io (index\<lparr>fi_capacity := cap\<rparr>))))"

text \<open>\<open>p\<close> is the whole frame; its length is in its header.\<close>

definition wadb_index_for_frame :: "wadb_frame \<Rightarrow> bytes \<Rightarrow> nat \<Rightarrow> wadb_index_entry" where
  "wadb_index_for_frame f p offset =
     (let n = unat (wadb_get_u32 (drop 8 p)) in
      \<lparr>ie_min_time = fr_min_time f, ie_max_time = fr_max_time f, ie_first_sequence = fr_first_sequence f,
       ie_frame_offset = offset, ie_row_count = fr_row_count f, ie_dictionary_count = fr_dictionary_count f,
       ie_frame_bytes = n, ie_rows_offset = WADB_FRAME_HEADER_BYTES + fr_dictionary_bytes f,
       ie_frame_crc = wadb_get_u32 (drop (n - 4) p),
       ie_dictionary_crc = wadb_crc32c (take (fr_dictionary_bytes f) (drop WADB_FRAME_HEADER_BYTES p))\<rparr>)"

definition entry_image :: "wadb_index_entry \<Rightarrow> bytes" where
  "entry_image v =
     i64_bytes (ie_min_time v) @ i64_bytes (ie_max_time v) @ u64_bytes (ie_first_sequence v) @
     u32_bytes (ie_row_count v) @ u32_bytes (ie_dictionary_count v) @ u64_bytes (ie_frame_offset v) @
     u32_bytes (ie_frame_bytes v) @ u32_bytes (ie_rows_offset v) @
     wadb_put_u32 (ie_frame_crc v) @ wadb_put_u32 (ie_dictionary_crc v) @ zeroes_bytes 4"

definition entry_encode :: "wadb_index_entry \<Rightarrow> bytes" where
  "entry_encode v = entry_image v @ wadb_put_u32 (wadb_crc32c (entry_image v))"

definition stored_entry :: "bytes \<Rightarrow> wadb_index_entry" where
  "stored_entry p =
     \<lparr>ie_min_time = wadb_get_i64 p, ie_max_time = wadb_get_i64 (drop 8 p),
      ie_first_sequence = unat (wadb_get_u64 (drop 16 p)), ie_frame_offset = unat (wadb_get_u64 (drop 32 p)),
      ie_row_count = unat (wadb_get_u32 (drop 24 p)), ie_dictionary_count = unat (wadb_get_u32 (drop 28 p)),
      ie_frame_bytes = unat (wadb_get_u32 (drop 40 p)), ie_rows_offset = unat (wadb_get_u32 (drop 44 p)),
      ie_frame_crc = wadb_get_u32 (drop 48 p), ie_dictionary_crc = wadb_get_u32 (drop 52 p)\<rparr>"

text \<open>The bounds that a record must respect in its segment, for rows of width \<open>width\<close>.\<close>

definition entry_invalid :: "wadb_segment_meta \<Rightarrow> nat \<Rightarrow> wadb_index_entry \<Rightarrow> bool" where
  "entry_invalid s width v \<longleftrightarrow>
     ie_row_count v = 0 \<or> ie_first_sequence v = 0 \<or> ie_first_sequence v < sg_first_sequence s \<or>
     ie_row_count v - 1 > UINT64_MAX - ie_first_sequence v \<or>
     ie_first_sequence v + ie_row_count v - 1 > sg_last_sequence s \<or>
     ie_min_time v < sg_min_time s \<or> ie_max_time v < ie_min_time v \<or> ie_max_time v > sg_max_time s \<or>
     ie_frame_offset v < WADB_SEGMENT_HEADER_BYTES \<or> ie_frame_offset v > sg_committed_bytes s \<or>
     ie_frame_bytes v > WADB_MAX_FRAME_BYTES \<or> ie_frame_bytes v > sg_committed_bytes s - ie_frame_offset v \<or>
     ie_rows_offset v < WADB_FRAME_HEADER_BYTES \<or> ie_rows_offset v mod 8 \<noteq> 0 \<or>
     ie_frame_bytes v \<noteq> ie_rows_offset v + ie_row_count v * width + WADB_FRAME_TRAILER_BYTES \<or>
     ie_dictionary_count v > (ie_rows_offset v - WADB_FRAME_HEADER_BYTES) div 12"

definition entry_decode :: "wadb_segment_meta \<Rightarrow> nat \<Rightarrow> bytes \<Rightarrow> wadb_index_entry res" where
  "entry_decode s width p =
     (if wadb_get_u32 (drop 56 p) \<noteq> 0 \<or> wadb_get_u32 (drop 60 p) \<noteq> wadb_crc32c (take 60 p) then Inl WADB_CORRUPT
      else if entry_invalid s width (stored_entry p) then Inl WADB_CORRUPT
      else Inr (stored_entry p))"

section \<open>Index files\<close>

definition index_header ::
  "wadb_table \<Rightarrow> wadb_segment_meta \<Rightarrow> nat \<Rightarrow> bytes \<Rightarrow> nat \<Rightarrow> bytes" where
  "index_header t s entries definitions dictionary_count =
     (let p = ascii ''WADBIDX1'' @ u32_bytes WADB_FORMAT_VERSION @ u32_bytes WADB_INDEX_HEADER_BYTES @
              u64_bytes (tb_id t) @ u64_bytes (sg_id s) @ wadb_put_u64 (fingerprint (tb_schema t)) @
              u64_bytes (sg_committed_bytes s) @ u64_bytes entries @
              u64_bytes (WADB_INDEX_HEADER_BYTES + entries * WADB_INDEX_ENTRY_BYTES) @
              u64_bytes (length definitions) @ u32_bytes dictionary_count @ zeroes_bytes 4 @
              i64_bytes (sg_min_time s) @ i64_bytes (sg_max_time s) @
              u64_bytes (sg_first_sequence s) @ u64_bytes (sg_last_sequence s) @
              u32_bytes (row_width (tb_schema t)) @ wadb_put_u32 (wadb_crc32c definitions) @ zeroes_bytes 4
      in p @ wadb_put_u32 (wadb_crc32c p))"

definition index_image ::
  "wadb_table \<Rightarrow> wadb_segment_meta \<Rightarrow> wadb_index_entry list \<Rightarrow> bytes \<Rightarrow> nat \<Rightarrow> bytes" where
  "index_image t s entries definitions dictionary_count =
     index_header t s (length entries) definitions dictionary_count @ concat (map entry_encode entries) @ definitions"

definition wadb_index_save ::
  "wadb_table \<Rightarrow> wadb_segment_meta \<Rightarrow> wadb_frame_index \<Rightarrow> wadb_dictionary \<Rightarrow> (world, unit) io" where
  "wadb_index_save t s index dictionary =
     bind_io (with_allocs 1 (\<lambda>a. wadb_dictionary_export_limit (a 0) dictionary 0 (64 * 1024 * 1024))) (\<lambda>(definitions, n).
       bind_io (call WADB_NOMEM) (\<lambda>_.
         bind_io (wadb_segment_path t s (ascii ''idx'')) (\<lambda>path.
           wadb_atomic_file path (index_image t s (fi_entries index) definitions n))))"

record wadb_index_reader =
  ir_segment :: wadb_segment_meta
  ir_fd :: "path option"
  ir_memory :: "wadb_index_entry list option"
  ir_count :: nat
  ir_dictionary_offset :: nat
  ir_dictionary_bytes :: nat
  ir_dictionary_count :: nat
  ir_dictionary_crc :: u32
  ir_page_number :: nat
  ir_io_bytes :: nat
  ir_dictionary_io_bytes :: nat
  ir_page_bytes :: nat
  ir_page :: bytes
  ir_repaired :: bool
  ir_rebuilt_index :: wadb_frame_index
  ir_rebuilt_dictionary :: "wadb_dictionary option"
  ir_rebuild_budget :: nat
  ir_rebuilt_bytes :: nat
  ir_deadline :: nat

definition empty_reader :: "wadb_segment_meta \<Rightarrow> wadb_index_reader" where
  "empty_reader s =
     \<lparr>ir_segment = s, ir_fd = None, ir_memory = None, ir_count = 0, ir_dictionary_offset = 0, ir_dictionary_bytes = 0,
      ir_dictionary_count = 0, ir_dictionary_crc = 0, ir_page_number = UINT64_MAX, ir_io_bytes = 0,
      ir_dictionary_io_bytes = 0, ir_page_bytes = 0, ir_page = [], ir_repaired = False, ir_rebuilt_index = empty_index,
      ir_rebuilt_dictionary = None, ir_rebuild_budget = 0, ir_rebuilt_bytes = 0, ir_deadline = 0\<rparr>"

text \<open>
  Reading one page of at most 64 records. After a failed read the buffer is not used again: the
  callers rebuild the index in memory or give the reader up.
\<close>

definition load_page :: "nat \<Rightarrow> (world \<times> wadb_index_reader, unit) io" where
  "load_page page = (\<lambda>(w, r).
     let first = page * 64; records = ir_count r - first; records = (if records > 64 then 64 else records);
         n = records * WADB_INDEX_ENTRY_BYTES in
     bind_io (modify (\<lambda>r. r\<lparr>ir_page_bytes := n\<rparr>)) (\<lambda>_.
       bind_io (on_world (pread_fd (ir_fd r) n (WADB_INDEX_HEADER_BYTES + first * WADB_INDEX_ENTRY_BYTES))) (\<lambda>p.
         modify (\<lambda>r. r\<lparr>ir_page := p, ir_io_bytes := add64 (ir_io_bytes r) n, ir_page_number := page\<rparr>))) (w, r))"

definition get_raw :: "wadb_table \<Rightarrow> nat \<Rightarrow> (world \<times> wadb_index_reader, wadb_index_entry) io" where
  "get_raw t position = (\<lambda>(w, r).
     if position \<ge> ir_count r then ((w, r), Inl WADB_INVALID)
     else
       (case ir_memory r of
          Some entries \<Rightarrow> ((w, r), Inr (entries ! position))
        | None \<Rightarrow>
            bind_io (if ir_page_number r \<noteq> position div 64 then load_page (position div 64) else return_io ()) (\<lambda>_ (w, r).
              ((w, r), entry_decode (ir_segment r) (row_width (tb_schema t))
                         (drop (position mod 64 * WADB_INDEX_ENTRY_BYTES) (ir_page r)))) (w, r)))"

definition index_header_invalid :: "wadb_table \<Rightarrow> wadb_segment_meta \<Rightarrow> nat \<Rightarrow> bytes \<Rightarrow> bool" where
  "index_header_invalid t s filesize p \<longleftrightarrow>
     (let entries = unat (wadb_get_u64 (drop 48 p)); offset = unat (wadb_get_u64 (drop 56 p));
          bytes = unat (wadb_get_u64 (drop 64 p)) in
      take 8 p \<noteq> ascii ''WADBIDX1'' \<or> wadb_get_u32 (drop 8 p) \<noteq> of_nat WADB_FORMAT_VERSION \<or>
      unat (wadb_get_u32 (drop 12 p)) \<noteq> WADB_INDEX_HEADER_BYTES \<or>
      wadb_crc32c (take 124 p) \<noteq> wadb_get_u32 (drop 124 p) \<or>
      unat (wadb_get_u64 (drop 16 p)) \<noteq> tb_id t \<or> unat (wadb_get_u64 (drop 24 p)) \<noteq> sg_id s \<or>
      wadb_get_u64 (drop 32 p) \<noteq> fingerprint (tb_schema t) \<or> unat (wadb_get_u64 (drop 40 p)) \<noteq> sg_committed_bytes s \<or>
      entries > WADB_MAX_INDEX_ENTRIES \<or> offset \<noteq> WADB_INDEX_HEADER_BYTES + entries * WADB_INDEX_ENTRY_BYTES \<or>
      bytes > 64 * 1024 * 1024 \<or> bytes mod 8 \<noteq> 0 \<or> filesize \<noteq> offset + bytes \<or>
      unat (wadb_get_u32 (drop 72 p)) > bytes div 12 \<or> wadb_get_u32 (drop 76 p) \<noteq> 0 \<or> wadb_get_u32 (drop 120 p) \<noteq> 0 \<or>
      wadb_get_i64 (drop 80 p) \<noteq> sg_min_time s \<or> wadb_get_i64 (drop 88 p) \<noteq> sg_max_time s \<or>
      unat (wadb_get_u64 (drop 96 p)) \<noteq> sg_first_sequence s \<or> unat (wadb_get_u64 (drop 104 p)) \<noteq> sg_last_sequence s \<or>
      unat (wadb_get_u32 (drop 112 p)) \<noteq> row_width (tb_schema t) \<or> (entries = 0) \<noteq> (sg_last_sequence s = 0))"

definition endpoints_invalid :: "wadb_segment_meta \<Rightarrow> wadb_index_entry \<Rightarrow> wadb_index_entry \<Rightarrow> bool" where
  "endpoints_invalid s first final \<longleftrightarrow>
     ie_first_sequence first \<noteq> sg_first_sequence s \<or> ie_frame_offset first \<noteq> WADB_SEGMENT_HEADER_BYTES \<or>
     ie_min_time first \<noteq> sg_min_time s \<or> ie_max_time final \<noteq> sg_max_time s \<or>
     ie_first_sequence final + ie_row_count final - 1 \<noteq> sg_last_sequence s \<or>
     ie_frame_offset final + ie_frame_bytes final \<noteq> sg_committed_bytes s"

definition check_endpoints :: "wadb_table \<Rightarrow> wadb_segment_meta \<Rightarrow> (world \<times> wadb_index_reader, unit) io" where
  "check_endpoints t s = (\<lambda>(w, r).
     if ir_count r \<noteq> 0 then
       bind_io (get_raw t 0) (\<lambda>first. bind_io (get_raw t (ir_count r - 1)) (\<lambda>final.
         if endpoints_invalid s first final then fail_io WADB_CORRUPT else return_io ())) (w, r)
     else ((w, r), Inr ()))"

text \<open>
  The part of \<^verbatim>\<open>open_raw\<close> after the file is open; a failure closes it. A failing \<^verbatim>\<open>fstat\<close> is
  reported as corruption.
\<close>

definition read_header :: "wadb_table \<Rightarrow> wadb_segment_meta \<Rightarrow> path \<Rightarrow> (world \<times> wadb_index_reader, unit) io" where
  "read_header t s path =
     bind_io (on_world (wadb_pread_all path WADB_INDEX_HEADER_BYTES 0)) (\<lambda>p.
       bind_io (modify (\<lambda>r. r\<lparr>ir_io_bytes := add64 (ir_io_bytes r) WADB_INDEX_HEADER_BYTES\<rparr>)) (\<lambda>_.
         bind_io (on_world (file_size path WADB_CORRUPT)) (\<lambda>filesize.
           if index_header_invalid t s filesize p then fail_io WADB_CORRUPT
           else
             bind_io (modify (\<lambda>r. r\<lparr>ir_count := unat (wadb_get_u64 (drop 48 p)),
                 ir_dictionary_offset := unat (wadb_get_u64 (drop 56 p)), ir_dictionary_bytes := unat (wadb_get_u64 (drop 64 p)),
                 ir_dictionary_count := unat (wadb_get_u32 (drop 72 p)), ir_dictionary_crc := wadb_get_u32 (drop 116 p)\<rparr>)) (\<lambda>_.
               check_endpoints t s))))"

definition open_raw :: "wadb_table \<Rightarrow> wadb_segment_meta \<Rightarrow> (world \<times> wadb_index_reader, unit) io" where
  "open_raw t s = (\<lambda>(w, _).
     bind_io (on_world (wadb_segment_path t s (ascii ''idx''))) (\<lambda>path (w, r).
       bind_io (on_world (open_file path (if w_files w path = None then WADB_NOT_FOUND else WADB_IO))) (\<lambda>_ s1.
         case bind_io (modify (\<lambda>r. r\<lparr>ir_fd := Some path\<rparr>)) (\<lambda>_. read_header t s path) s1 of
           ((w', r'), Inl e) \<Rightarrow> ((w', r'\<lparr>ir_fd := None\<rparr>), Inl e)
         | (s2, Inr u) \<Rightarrow> (s2, Inr u)) (w, r)) (w, empty_reader s))"

definition wadb_index_close :: "wadb_index_reader \<Rightarrow> wadb_index_reader" where
  "wadb_index_close r = r\<lparr>ir_fd := None, ir_rebuilt_index := wadb_index_free, ir_rebuilt_dictionary := None\<rparr>"

section \<open>Removing retired segments\<close>

text \<open>
  \<^verbatim>\<open>unlink\<close> of one of the two files of a segment: whether it was there. A file that is already
  gone (\<^verbatim>\<open>ENOENT\<close>) is not a failure.
\<close>

definition unlink_file :: "path \<Rightarrow> (world, bool) io" where
  "unlink_file path =
     bind_io (call WADB_IO) (\<lambda>_ w.
       case w_files w path of
         None \<Rightarrow> (w, Inr False)
       | Some Directory \<Rightarrow> (w, Inl WADB_IO)
       | Some _ \<Rightarrow> (set_file path None w, Inr True))"

text \<open>The number of segment files deleted, and the first failure.\<close>

definition remove_segment :: "wadb_table \<Rightarrow> wadb_segment_meta \<Rightarrow> world \<Rightarrow> world \<times> bool \<times> unit res" where
  "remove_segment t s w =
     (case bind_io (wadb_segment_path t s (ascii ''seg'')) unlink_file w of
        (w1, Inl e) \<Rightarrow> (w1, False, Inl e)
      | (w1, Inr removed) \<Rightarrow>
          (case bind_io (wadb_segment_path t s (ascii ''idx'')) (\<lambda>path.
                  bind_io (unlink_file path) (\<lambda>_. wadb_sync_directory (parent_path path))) w1 of
             (w2, r) \<Rightarrow> (w2, removed, r)))"

fun remove_segments :: "wadb_table \<Rightarrow> wadb_segment_meta list \<Rightarrow> nat \<Rightarrow> world \<Rightarrow> world \<times> nat \<times> unit res" where
  "remove_segments t [] deleted w = (w, deleted, Inr ())"
| "remove_segments t (s # ss) deleted w =
     (if sg_state s \<noteq> WADB_SEG_RETIRED then remove_segments t ss deleted w
      else
        (case remove_segment t s w of (w', removed, r) \<Rightarrow>
           let deleted = (if removed then deleted + 1 else deleted) in
           case r of Inl e \<Rightarrow> (w', deleted, Inl e) | Inr _ \<Rightarrow> remove_segments t ss deleted w'))"

definition status_of :: "'a res \<Rightarrow> wadb_status" where
  "status_of r = (case r of Inl e \<Rightarrow> e | Inr _ \<Rightarrow> WADB_OK)"

definition cleanup :: "world \<times> wadb_table \<Rightarrow> (world \<times> wadb_table) \<times> nat \<times> unit res" where
  "cleanup = (\<lambda>(w, t).
     if tb_pending_retention t \<and> tb_readers t = 0 then
       (case remove_segments t (tb_segments t) 0 w of (w', deleted, r) \<Rightarrow>
          ((w', t\<lparr>tb_pending_retention := (status_of r \<noteq> WADB_OK), tb_maintenance_status := status_of r\<rparr>), deleted, r))
     else ((w, t), 0, Inr ()))"

definition wadb_retention_cleanup :: "world \<times> wadb_table \<Rightarrow> (world \<times> wadb_table) \<times> nat \<times> unit res" where
  "wadb_retention_cleanup = cleanup"

end
