(* ===== verification/Wadb_Recovery.thy ===== *)
theory Wadb_Recovery
  imports Wadb_Segments
begin

unbundle bit_operations_syntax

text \<open>
  Recovery of segment files after a restart (\<^verbatim>\<open>recover_segment\<close> and \<^verbatim>\<open>wadb_storage_recover\<close> of
  \<^verbatim>\<open>src/storage/segments.c\<close>) and the index reader that rebuilds a damaged index from its segment
  (\<^verbatim>\<open>src/storage/index.c\<close>).

  The state of recovery is the system and the table being opened. The option that recovery uses,
  \<^verbatim>\<open>dictionary_limit_bytes\<close>, is the argument \<open>limit\<close>.
\<close>

section \<open>Frames of a segment\<close>

text \<open>What the loop over the frames of a segment carries.\<close>

record segment_scan =
  sc_offset :: nat
  sc_last :: nat
  sc_min_time :: int
  sc_max_time :: int
  sc_dictionary :: wadb_dictionary
  sc_index :: wadb_frame_index

definition header_mismatch :: "wadb_table \<Rightarrow> wadb_segment_meta \<Rightarrow> wadb_segment_header \<Rightarrow> bool" where
  "header_mismatch t s h \<longleftrightarrow>
     sh_table_id h \<noteq> tb_id t \<or> sh_segment_id h \<noteq> sg_id s \<or> sh_schema_hash h \<noteq> fingerprint (tb_schema t) \<or>
     sh_row_width h \<noteq> row_width (tb_schema t) \<or> sh_day_start h \<noteq> sg_day_start s \<or> sh_first_sequence h \<noteq> sg_first_sequence s"

definition read_segment_header :: "path \<Rightarrow> (world, wadb_segment_header) io" where
  "read_segment_header path =
     bind_io (wadb_pread_all path WADB_SEGMENT_HEADER_BYTES 0) (\<lambda>p w. (w, wadb_segment_decode p))"

definition frame_mismatch :: "wadb_table \<Rightarrow> wadb_segment_meta \<Rightarrow> wadb_segment_header \<Rightarrow> wadb_frame \<Rightarrow> bool" where
  "frame_mismatch t s h f \<longleftrightarrow>
     fr_schema_hash f \<noteq> sh_schema_hash h \<or> fr_row_width f \<noteq> sh_row_width h \<or>
     tb_last_sequence t = UINT64_MAX \<or> fr_first_sequence f \<noteq> tb_last_sequence t + 1 \<or>
     fr_min_time f < tb_last_time t \<or> c_div (fr_min_time f) WADB_DAY_US \<noteq> c_div (sg_day_start s) WADB_DAY_US"

fun validate_rows :: "wadb_schema \<Rightarrow> wadb_dictionary \<Rightarrow> nat \<Rightarrow> bytes \<Rightarrow> nat \<Rightarrow> unit res" where
  "validate_rows s d width p 0 = Inr ()"
| "validate_rows s d width p (Suc n) =
     bind_res (wadb_validate_row s (take width p) (Some (wadb_dictionary_resolve d))) (\<lambda>_.
       validate_rows s d width (drop width p) n)"

text \<open>Applying the dictionary section of a frame, with four allocations for each definition.\<close>

definition apply_frame :: "wadb_dictionary \<Rightarrow> wadb_frame \<Rightarrow> (world, wadb_dictionary) io" where
  "apply_frame d f w =
     (case with_allocs (4 * fr_dictionary_count f) (\<lambda>a. wadb_dictionary_apply (\<lambda>i j. a (4 * i + j)) d f) w of
        (w', d', r) \<Rightarrow> (w', bind_res r (\<lambda>_. Inr d')))"

text \<open>The checks on one complete frame and its effect.\<close>

definition replay_frame ::
  "wadb_segment_meta \<Rightarrow> wadb_segment_header \<Rightarrow> bytes \<Rightarrow> segment_scan \<Rightarrow> (world \<times> wadb_table, segment_scan) io" where
  "replay_frame s h bytes sc = (\<lambda>(w, t).
     bind_io (from_res (wadb_frame_decode bytes)) (\<lambda>f.
       bind_io (ensure_io (\<not> frame_mismatch t s h f) WADB_CORRUPT) (\<lambda>_.
         bind_io (on_world (apply_frame (sc_dictionary sc) f)) (\<lambda>d.
           bind_io (from_res (validate_rows (tb_schema t) d (fr_row_width f) (the (fr_rows f)) (fr_row_count f))) (\<lambda>_.
             bind_io (on_world (wadb_index_reserve (sc_index sc))) (\<lambda>index (w, t).
               let final = fr_first_sequence f + fr_row_count f - 1 in
               ((w, t\<lparr>tb_last_sequence := final, tb_last_time := fr_max_time f\<rparr>),
                Inr \<lparr>sc_offset = sc_offset sc + fr_frame_bytes f, sc_last = final,
                     sc_min_time = (if sc_last sc = 0 then fr_min_time f else sc_min_time sc), sc_max_time = fr_max_time f,
                     sc_dictionary = d,
                     sc_index = index\<lparr>fi_entries := fi_entries index @ [wadb_index_for_frame f bytes (sc_offset sc)]\<rparr>\<rparr>)))))) (w, t))"

text \<open>One iteration over the file; \<open>None\<close> is a frame that the file does not hold completely.\<close>

definition recover_step ::
  "path \<Rightarrow> wadb_segment_meta \<Rightarrow> wadb_segment_header \<Rightarrow> nat \<Rightarrow> nat \<Rightarrow> segment_scan \<Rightarrow>
   (world \<times> wadb_table, segment_scan option) io" where
  "recover_step path s h filesize deadline sc = (\<lambda>(w, t).
     case clock_ns w of (w1, now) \<Rightarrow>
       if now \<ge> deadline then ((w1, t), Inl WADB_LIMIT)
       else if filesize - sc_offset sc < WADB_FRAME_HEADER_BYTES then ((w1, t), Inr None)
       else
         bind_io (on_world (wadb_pread_all path WADB_FRAME_HEADER_BYTES (sc_offset sc))) (\<lambda>p.
           bind_io (from_res (wadb_frame_inspect p)) (\<lambda>f.
             if fr_frame_bytes f > filesize - sc_offset sc then return_io None
             else
               bind_io (on_world (call WADB_NOMEM)) (\<lambda>_.
                 bind_io (on_world (wadb_pread_all path (fr_frame_bytes f) (sc_offset sc))) (\<lambda>bytes.
                   bind_io (replay_frame s h bytes sc) (\<lambda>sc'. return_io (Some sc')))))) (w1, t))"

lemma replay_frame_offset:
  assumes "replay_frame s h bytes sc st = (st', Inr sc')" shows "sc_offset sc < sc_offset sc'"
proof -
  obtain w t where st: "st = (w, t)" by fastforce
  obtain f where f: "wadb_frame_decode bytes = Inr f" "sc_offset sc' = sc_offset sc + fr_frame_bytes f"
    using assms by (auto simp: st replay_frame_def io_ok Let_def)
  then show ?thesis using frame_decode_ok [OF f(1)] by simp
qed

lemma recover_step_offset:
  assumes "recover_step path s h filesize deadline sc st = (st', Inr (Some sc'))" shows "sc_offset sc < sc_offset sc'"
proof -
  obtain w t where st: "st = (w, t)" by fastforce
  then obtain bytes st1 where "replay_frame s h bytes sc st1 = (st', Inr sc')"
    using assms by (fastforce simp: recover_step_def io_ok split: if_splits prod.splits)
  then show ?thesis by (rule replay_frame_offset)
qed

text \<open>The loop; the flag tells whether it ended at an incomplete frame.\<close>

function recover_loop ::
  "path \<Rightarrow> wadb_segment_meta \<Rightarrow> wadb_segment_header \<Rightarrow> nat \<Rightarrow> nat \<Rightarrow> segment_scan \<Rightarrow>
   (world \<times> wadb_table, segment_scan \<times> bool) io" where
  "recover_loop path s h filesize deadline sc st =
     (if sc_offset sc < filesize then
        (case recover_step path s h filesize deadline sc st of
           (st', Inl e) \<Rightarrow> (st', Inl e)
         | (st', Inr None) \<Rightarrow> (st', Inr (sc, True))
         | (st', Inr (Some sc')) \<Rightarrow> recover_loop path s h filesize deadline sc' st')
      else (st, Inr (sc, False)))"
  by pat_completeness auto
termination
  by (relation "measure (\<lambda>(path, s, h, filesize, deadline, sc, st). filesize - sc_offset sc)")
    (auto dest!: sym [of "recover_step _ _ _ _ _ _ _"] recover_step_offset [OF sym])

declare recover_loop.simps [simp del]

section \<open>Segments\<close>

text \<open>
  An interrupted append leaves an incomplete frame at the end of the active segment; it is cut off.
  Anywhere else an incomplete frame is corruption.
\<close>

definition truncate_tail :: "path \<Rightarrow> wadb_segment_meta \<Rightarrow> nat \<Rightarrow> (world, unit) io" where
  "truncate_tail path s offset =
     bind_io (ensure_io (sg_state s = WADB_SEG_ACTIVE \<and> \<not> offset < sg_committed_bytes s) WADB_CORRUPT) (\<lambda>_.
       bind_io (call WADB_IO) (\<lambda>_ w.
         wadb_sync_file (set_file path (Some (File (take offset (content w path)))) w)))"

text \<open>The end of \<^verbatim>\<open>recover_segment\<close>: the summary is compared, stored, and the results are kept.\<close>

definition summary_mismatch :: "wadb_segment_meta \<Rightarrow> segment_scan \<Rightarrow> bool" where
  "summary_mismatch s sc \<longleftrightarrow>
     (sg_state s \<noteq> WADB_SEG_ACTIVE \<and>
       (sg_last_sequence s \<noteq> sc_last sc \<or> sg_min_time s \<noteq> sc_min_time sc \<or> sg_max_time s \<noteq> sc_max_time sc)) \<or>
     (sg_state s = WADB_SEG_ACTIVE \<and> sc_last sc < sg_last_sequence s)"

definition summarized :: "wadb_segment_meta \<Rightarrow> segment_scan \<Rightarrow> wadb_segment_meta" where
  "summarized s sc =
     s\<lparr>sg_last_sequence := sc_last sc, sg_min_time := sc_min_time sc, sg_max_time := sc_max_time sc,
       sg_committed_bytes := sc_offset sc\<rparr>"

definition finish_segment ::
  "bool \<Rightarrow> path \<Rightarrow> wadb_segment_meta \<Rightarrow> segment_scan \<Rightarrow> (world \<times> wadb_table, wadb_segment_meta) io" where
  "finish_segment force_scan path s sc =
     bind_io (ensure_io (\<not> summary_mismatch s sc) WADB_CORRUPT) (\<lambda>_ (w, t).
       let s' = summarized s sc; kept = t\<lparr>tb_dictionary := Some (sc_dictionary sc), tb_index := sc_index sc\<rparr> in
       if sg_state s = WADB_SEG_ACTIVE then ((w, kept\<lparr>tb_active_fd := Some path\<rparr>), Inr s')
       else if force_scan then ((w, kept), Inr s')
       else
         (case wadb_index_save t s' (sc_index sc) (sc_dictionary sc) w of
            (w', Inl e) \<Rightarrow> if e = WADB_IO \<or> e = WADB_INDETERMINATE then ((w', t), Inr s') else ((w', t), Inl e)
          | (w', Inr _) \<Rightarrow> ((w', t), Inr s')))"

definition scan_segment ::
  "nat \<Rightarrow> bool \<Rightarrow> nat \<Rightarrow> path \<Rightarrow> wadb_segment_meta \<Rightarrow> wadb_segment_header \<Rightarrow> nat \<Rightarrow> (world \<times> wadb_table, wadb_segment_meta) io" where
  "scan_segment limit force_scan deadline path s h filesize = (\<lambda>(w, t).
     bind_io (on_world (with_allocs 2 (\<lambda>a. wadb_dictionary_new a (tb_schema t) limit))) (\<lambda>d.
       bind_io (recover_loop path s h filesize deadline
                  \<lparr>sc_offset = WADB_SEGMENT_HEADER_BYTES, sc_last = 0, sc_min_time = 0, sc_max_time = 0,
                   sc_dictionary = d, sc_index = empty_index\<rparr>) (\<lambda>(sc, partial).
         bind_io (if partial then on_world (truncate_tail path s (sc_offset sc)) else return_io ()) (\<lambda>_.
           finish_segment force_scan path s sc))) (w, t))"

text \<open>A sealed segment with a usable index is not read; the result tells whether that was so.\<close>

definition use_index :: "wadb_segment_meta \<Rightarrow> (world \<times> wadb_table, bool) io" where
  "use_index s = (\<lambda>(w, t).
     case open_raw t s (w, empty_reader s) of
       ((w', _), Inr _) \<Rightarrow>
         if sg_last_sequence s = 0 then ((w', t), Inr True)
         else if sg_min_time s < tb_last_time t then ((w', t), Inl WADB_CORRUPT)
         else ((w', t\<lparr>tb_last_sequence := sg_last_sequence s, tb_last_time := sg_max_time s\<rparr>), Inr True)
     | ((w', _), Inl e) \<Rightarrow> if e = WADB_NOMEM \<or> e = WADB_LIMIT then ((w', t), Inl e) else ((w', t), Inr False))"

definition size_contradicts :: "wadb_segment_meta \<Rightarrow> nat \<Rightarrow> bool" where
  "size_contradicts s filesize \<longleftrightarrow>
     (sg_state s \<noteq> WADB_SEG_ACTIVE \<and> filesize \<noteq> sg_committed_bytes s) \<or> filesize < sg_committed_bytes s"

text \<open>The result is the updated segment; after a failure the callers discard the table.\<close>

definition recover_segment ::
  "nat \<Rightarrow> bool \<Rightarrow> nat \<Rightarrow> wadb_segment_meta \<Rightarrow> (world \<times> wadb_table, wadb_segment_meta) io" where
  "recover_segment limit force_scan deadline s = (\<lambda>(w, t).
     bind_io (on_world (wadb_segment_path t s (ascii ''seg''))) (\<lambda>path.
       bind_io (on_world (open_file path WADB_CORRUPT)) (\<lambda>_.
         bind_io (on_world (file_size path WADB_CORRUPT)) (\<lambda>filesize.
           bind_io (ensure_io (\<not> (filesize < WADB_SEGMENT_HEADER_BYTES \<or> size_contradicts s filesize)) WADB_CORRUPT) (\<lambda>_.
             bind_io (on_world (read_segment_header path)) (\<lambda>h (w, t).
               bind_io (ensure_io (\<not> (header_mismatch t s h \<or> tb_last_sequence t = UINT64_MAX \<or>
                                       sg_first_sequence s \<noteq> tb_last_sequence t + 1)) WADB_CORRUPT) (\<lambda>_.
                 bind_io (if sg_state s \<noteq> WADB_SEG_ACTIVE \<and> \<not> force_scan then use_index s else return_io False) (\<lambda>indexed.
                   if indexed then return_io s else scan_segment limit force_scan deadline path s h filesize)) (w, t)))))) (w, t))"

section \<open>Tables\<close>

definition wadb_readable_reserve :: "(world \<times> wadb_table, unit) io" where
  "wadb_readable_reserve = (\<lambda>(w, t).
     if length (tb_readable t) < tb_readable_capacity t then ((w, t), Inr ())
     else
       (let cap = (if tb_readable_capacity t \<noteq> 0 then tb_readable_capacity t * 2 else 16);
            cap = (if cap > WADB_MAX_SEGMENTS then WADB_MAX_SEGMENTS else cap) in
        if cap \<le> length (tb_readable t) then ((w, t), Inl WADB_LIMIT)
        else bind_io (on_world (call WADB_NOMEM)) (\<lambda>_. modify (\<lambda>t. t\<lparr>tb_readable_capacity := cap\<rparr>)) (w, t)))"

definition segment_rows :: "wadb_segment_meta \<Rightarrow> nat" where
  "segment_rows s = sg_last_sequence s - sg_first_sequence s + 1"

definition count_recovered :: "nat \<Rightarrow> wadb_segment_meta \<Rightarrow> wadb_table \<Rightarrow> wadb_table" where
  "count_recovered i s t =
     t\<lparr>tb_segments := (tb_segments t)[i := s], tb_retained_segments := tb_retained_segments t + 1,
       tb_retained_bytes := add64 (tb_retained_bytes t) (sg_committed_bytes s),
       tb_retained_rows := (if sg_last_sequence s = 0 then tb_retained_rows t else add64 (tb_retained_rows t) (segment_rows s))\<rparr>"

fun recover_segments :: "nat \<Rightarrow> nat list \<Rightarrow> (world \<times> wadb_table, unit) io" where
  "recover_segments limit [] st = (st, Inr ())"
| "recover_segments limit (i # is) (w, t) =
     (let s = tb_segments t ! i in
      if sg_state s = WADB_SEG_RETIRED then
        recover_segments limit is (w, t\<lparr>tb_pending_retention := True, tb_retired_segments := tb_retired_segments t + 1\<rparr>)
      else
        bind_io (recover_segment limit False UINT64_MAX s) (\<lambda>s'.
          bind_io (modify (count_recovered i s')) (\<lambda>_.
            bind_io (if sg_last_sequence s' = 0 then return_io ()
                     else bind_io wadb_readable_reserve (\<lambda>_. modify (\<lambda>t. t\<lparr>tb_readable := tb_readable t @ [i]\<rparr>))) (\<lambda>_.
              recover_segments limit is))) (w, t))"

definition wadb_storage_recover :: "nat \<Rightarrow> (world \<times> wadb_table, unit) io" where
  "wadb_storage_recover limit = (\<lambda>(w, t0).
     let t = t0\<lparr>tb_last_sequence := tb_preserved_sequence t0, tb_last_time := tb_preserved_time t0\<rparr> in
     bind_io (recover_segments limit [0..<length (tb_segments t)]) (\<lambda>_ (w, t).
       let t' = t\<lparr>tb_published_dictionary_bytes := (case tb_dictionary t of None \<Rightarrow> 0 | Some d \<Rightarrow> di_allocated d)\<rparr> in
       (fst (if tb_pending_retention t' then wadb_retention_cleanup (w, t') else ((w, t'), 0, Inr ())), Inr ())) (w, t))"

section \<open>Rebuilding an index\<close>

text \<open>The zeroed view of a table through which one segment is read.\<close>

definition table_view :: "wadb_table \<Rightarrow> wadb_segment_meta \<Rightarrow> wadb_table" where
  "table_view t s =
     \<lparr>tb_id = tb_id t, tb_name = [], tb_directory = tb_directory t, tb_schema = tb_schema t, tb_next_segment_id = 0,
      tb_preserved_sequence = 0, tb_preserved_time = 0, tb_retention_us = 0, tb_manifest_generation = 0, tb_segments = [],
      tb_active_fd = None, tb_last_sequence = sg_first_sequence s - 1, tb_last_time = sg_min_time s, tb_readers = 0,
      tb_read_only = False, tb_pending_retention = False, tb_maintenance_status = WADB_OK, tb_dictionary = None,
      tb_index = empty_index, tb_readable = [], tb_readable_capacity = 0, tb_committed_frames = 0, tb_append_requests = 0,
      tb_retained_rows = 0, tb_retained_bytes = 0, tb_retained_segments = 0, tb_retired_segments = 0,
      tb_published_dictionary_bytes = 0\<rparr>"

definition wadb_rebuild_index_data ::
  "nat \<Rightarrow> wadb_table \<Rightarrow> wadb_segment_meta \<Rightarrow> nat \<Rightarrow> (world, wadb_frame_index \<times> wadb_dictionary) io" where
  "wadb_rebuild_index_data limit t s deadline w =
     (if sg_state s = WADB_SEG_ACTIVE then (w, Inl WADB_INVALID)
      else
        (case recover_segment limit True deadline s (w, table_view t s) of
           ((w', view), Inl e) \<Rightarrow> (w', Inl e)
         | ((w', view), Inr _) \<Rightarrow> (w', Inr (tb_index view, the (tb_dictionary view)))))"

definition wadb_rebuild_index :: "nat \<Rightarrow> wadb_table \<Rightarrow> wadb_segment_meta \<Rightarrow> (world, unit) io" where
  "wadb_rebuild_index limit t s =
     bind_io (wadb_rebuild_index_data limit t s UINT64_MAX) (\<lambda>(index, dictionary). wadb_index_save t s index dictionary)"

text \<open>A pointer to no entries is null.\<close>

definition entries_memory :: "wadb_index_entry list \<Rightarrow> wadb_index_entry list option" where
  "entries_memory entries = (if entries = [] then None else Some entries)"

definition dictionary_section_bytes :: "wadb_dictionary \<Rightarrow> nat" where
  "dictionary_section_bytes d = align8_size (fold (\<lambda>y n. add64 n (12 + length (sy_data y))) (di_symbols d) 0)"

definition install_rebuilt :: "wadb_frame_index \<Rightarrow> wadb_dictionary \<Rightarrow> wadb_index_reader \<Rightarrow> wadb_index_reader" where
  "install_rebuilt index d r =
     (wadb_index_close r)\<lparr>ir_rebuilt_index := index, ir_memory := entries_memory (fi_entries index),
       ir_count := length (fi_entries index), ir_rebuilt_dictionary := Some d, ir_repaired := True,
       ir_dictionary_bytes := dictionary_section_bytes d, ir_dictionary_count := length (di_symbols d), ir_dictionary_crc := 0\<rparr>"

definition repair_reader :: "nat \<Rightarrow> wadb_table \<Rightarrow> (world \<times> wadb_index_reader, unit) io" where
  "repair_reader limit t = (\<lambda>(w, r).
     let s = ir_segment r in
     if sg_committed_bytes s > ir_rebuild_budget r then ((w, r), Inl WADB_LIMIT)
     else
       bind_io (on_world (wadb_rebuild_index_data limit t s (ir_deadline r))) (\<lambda>(index, d).
         bind_io (modify (\<lambda>r. r\<lparr>ir_rebuilt_bytes := add64 (ir_rebuilt_bytes r) (sg_committed_bytes s),
                               ir_rebuild_budget := ir_rebuild_budget r - sg_committed_bytes s\<rparr>)) (\<lambda>_ (w, r).
           case wadb_index_save t s index d w of (w', saved) \<Rightarrow>
             if status_of saved \<in> {WADB_OK, WADB_IO, WADB_INDETERMINATE, WADB_NOMEM}
             then ((w', install_rebuilt index d r), Inr ())
             else ((w', r), Inl (status_of saved)))) (w, r))"

definition wadb_index_open_bounded ::
  "nat \<Rightarrow> wadb_table \<Rightarrow> wadb_segment_meta \<Rightarrow> nat \<Rightarrow> nat \<Rightarrow> (world \<times> wadb_index_reader, unit) io" where
  "wadb_index_open_bounded limit t s budget deadline st =
     (case open_raw t s st of ((w, r), status) \<Rightarrow>
        let r = r\<lparr>ir_rebuild_budget := budget, ir_deadline := deadline\<rparr> in
        case status of
          Inr u \<Rightarrow> ((w, r), Inr u)
        | Inl e \<Rightarrow> if e \<noteq> WADB_NOMEM \<and> e \<noteq> WADB_LIMIT then repair_reader limit t (w, r) else ((w, r), Inl e))"

definition wadb_index_open ::
  "nat \<Rightarrow> wadb_table \<Rightarrow> wadb_segment_meta \<Rightarrow> bool \<Rightarrow> (world \<times> wadb_index_reader, unit) io" where
  "wadb_index_open limit t s repair =
     (if repair then wadb_index_open_bounded limit t s UINT64_MAX UINT64_MAX else open_raw t s)"

definition wadb_index_get :: "nat \<Rightarrow> wadb_table \<Rightarrow> nat \<Rightarrow> (world \<times> wadb_index_reader, wadb_index_entry) io" where
  "wadb_index_get limit t position st =
     (case get_raw t position st of
        ((w, r), Inl e) \<Rightarrow>
          if (e = WADB_CORRUPT \<or> e = WADB_IO) \<and> ir_memory r = None \<and> \<not> ir_repaired r
          then bind_io (repair_reader limit t) (\<lambda>_. get_raw t position) (w, r)
          else ((w, r), Inl e)
      | (st', Inr v) \<Rightarrow> (st', Inr v))"

text \<open>The entry lies before the position a scan starts at.\<close>

definition entry_before :: "int \<Rightarrow> nat \<Rightarrow> wadb_index_entry \<Rightarrow> bool" where
  "entry_before time sequence v \<longleftrightarrow>
     ie_max_time v < time \<or> sub64 (add64 (ie_first_sequence v) (ie_row_count v)) 1 \<le> sequence"

function lower_bound_loop ::
  "nat \<Rightarrow> wadb_table \<Rightarrow> int \<Rightarrow> nat \<Rightarrow> nat \<Rightarrow> nat \<Rightarrow> (world \<times> wadb_index_reader, nat) io" where
  "lower_bound_loop limit t time sequence lo hi st =
     (if lo < hi then
        (let mid = lo + (hi - lo) div 2 in
         case wadb_index_get limit t mid st of
           (st', Inl e) \<Rightarrow> (st', Inl e)
         | (st', Inr v) \<Rightarrow>
             if entry_before time sequence v then lower_bound_loop limit t time sequence (mid + 1) hi st'
             else lower_bound_loop limit t time sequence lo mid st')
      else (st, Inr lo))"
  by pat_completeness auto
termination by (relation "measure (\<lambda>(limit, t, time, sequence, lo, hi, st). hi - lo)") (auto simp: Let_def)

declare lower_bound_loop.simps [simp del]

definition wadb_index_lower_bound :: "nat \<Rightarrow> wadb_table \<Rightarrow> int \<Rightarrow> nat \<Rightarrow> (world \<times> wadb_index_reader, nat) io" where
  "wadb_index_lower_bound limit t time sequence = (\<lambda>(w, r). lower_bound_loop limit t time sequence 0 (ir_count r) (w, r))"

text \<open>
  One attempt of \<^verbatim>\<open>wadb_index_dictionary\<close>, before repair. The bytes are accounted whether or not
  they could be read.
\<close>

definition stored_dictionary :: "nat \<Rightarrow> wadb_table \<Rightarrow> (world \<times> wadb_index_reader, wadb_dictionary) io" where
  "stored_dictionary limit t = (\<lambda>(w, r).
     case ir_memory r of
       Some _ \<Rightarrow>
         (case ir_rebuilt_dictionary r of
            None \<Rightarrow> ((w, r), Inl WADB_INVALID)
          | Some d \<Rightarrow> ((w, r\<lparr>ir_rebuilt_dictionary := None\<rparr>), Inr d))
     | None \<Rightarrow>
         bind_io (on_world (call WADB_NOMEM)) (\<lambda>_ (w, r).
           case pread_fd (ir_fd r) (ir_dictionary_bytes r) (ir_dictionary_offset r) w of (w', p) \<Rightarrow>
             bind_io (from_res p) (\<lambda>bytes.
               bind_io (ensure_io (wadb_crc32c bytes = ir_dictionary_crc r) WADB_CORRUPT) (\<lambda>_.
                 bind_io (on_world (with_allocs 2 (\<lambda>a. wadb_dictionary_new a (tb_schema t) limit))) (\<lambda>d.
                   on_world (apply_frame d
                     \<lparr>fr_schema_hash = 0, fr_first_sequence = 0, fr_min_time = 0, fr_max_time = 0, fr_row_count = 0,
                      fr_row_width = 0, fr_dictionary_count = ir_dictionary_count r, fr_dictionary_bytes = ir_dictionary_bytes r,
                      fr_dictionary = Some bytes, fr_rows = None, fr_frame_bytes = 0, fr_rows_offset = 0\<rparr>))))
               (w', r\<lparr>ir_io_bytes := add64 (ir_io_bytes r) (ir_dictionary_bytes r),
                      ir_dictionary_io_bytes := add64 (ir_dictionary_io_bytes r) (ir_dictionary_bytes r)\<rparr>)) (w, r))"

definition wadb_index_dictionary :: "nat \<Rightarrow> wadb_table \<Rightarrow> (world \<times> wadb_index_reader, wadb_dictionary) io" where
  "wadb_index_dictionary limit t st =
     (case stored_dictionary limit t st of
        ((w, r), Inl e) \<Rightarrow>
          if (e = WADB_CORRUPT \<or> e = WADB_IO) \<and> \<not> ir_repaired r
          then bind_io (repair_reader limit t) (\<lambda>_. stored_dictionary limit t) (w, r)
          else ((w, r), Inl e)
      | (st', Inr d) \<Rightarrow> (st', Inr d))"

end
