(* ===== verification/Wadb_Commit.thy ===== *)
theory Wadb_Commit
  imports Wadb_Recovery
begin

unbundle bit_operations_syntax

text \<open>
  Committing a group of append requests: \<^verbatim>\<open>create_active\<close> and \<^verbatim>\<open>wadb_commit_requests\<close> of
  \<^verbatim>\<open>src/storage/segments.c\<close>.

  A group is encoded into one frame and appended to the active segment; a new segment is started
  on a new day, when the index is full, or when the frame or its symbols do not fit. The only
  writer of a table holds \<^verbatim>\<open>writer_mutex\<close> throughout, so the whole operation is one computation
  on the system and the database.
\<close>

section \<open>Starting a segment\<close>

text \<open>Files left by a crash before their manifest was installed are skipped.\<close>

function create_file :: "wadb_table \<Rightarrow> wadb_segment_meta \<Rightarrow> (world, path \<times> wadb_segment_meta) io" where
  "create_file t s w =
     (if sg_id s \<ge> UINT64_MAX then (w, Inl WADB_LIMIT)
      else
        (case wadb_segment_path t s (ascii ''seg'') w of
           (w1, Inl e) \<Rightarrow> (w1, Inl e)
         | (w1, Inr path) \<Rightarrow>
             (case call WADB_IO w1 of
                (w2, Inl e) \<Rightarrow> (w2, Inl e)
              | (w2, Inr _) \<Rightarrow>
                  if w_files w2 path = None then (set_file path (Some (File [])) w2, Inr (path, s))
                  else create_file t (s\<lparr>sg_id := sg_id s + 1\<rparr>) w2)))"
  by pat_completeness auto
termination by (relation "measure (\<lambda>(t, s, w). UINT64_MAX - sg_id s)") auto

declare create_file.simps [simp del]

definition new_segment :: "wadb_table \<Rightarrow> int \<Rightarrow> wadb_segment_meta" where
  "new_segment t now =
     \<lparr>sg_id = tb_next_segment_id t, sg_day_start = now - c_mod now WADB_DAY_US, sg_first_sequence = tb_last_sequence t + 1,
      sg_last_sequence = 0, sg_min_time = 0, sg_max_time = 0, sg_committed_bytes = WADB_SEGMENT_HEADER_BYTES,
      sg_state = WADB_SEG_ACTIVE\<rparr>"

definition active_last :: "wadb_table \<Rightarrow> bool" where
  "active_last t \<longleftrightarrow> tb_segments t \<noteq> [] \<and> sg_state (last (tb_segments t)) = WADB_SEG_ACTIVE"

definition sealed_segments :: "wadb_table \<Rightarrow> wadb_segment_meta list" where
  "sealed_segments t =
     (if active_last t then butlast (tb_segments t) @ [(last (tb_segments t))\<lparr>sg_state := WADB_SEG_SEALED\<rparr>]
      else tb_segments t)"

definition segment_file_header :: "wadb_table \<Rightarrow> wadb_segment_meta \<Rightarrow> wadb_segment_header" where
  "segment_file_header t s =
     \<lparr>sh_table_id = tb_id t, sh_segment_id = sg_id s, sh_schema_hash = fingerprint (tb_schema t),
      sh_row_width = row_width (tb_schema t), sh_day_start = sg_day_start s, sh_first_sequence = sg_first_sequence s\<rparr>"

definition staged_segment :: "wadb_table \<Rightarrow> wadb_segment_meta \<Rightarrow> wadb_table" where
  "staged_segment t s =
     t\<lparr>tb_segments := sealed_segments t @ [s], tb_next_segment_id := sg_id s + 1,
       tb_manifest_generation := tb_manifest_generation t + 1\<rparr>"

text \<open>The new file with its header, its directory entry, and the manifest that names it.\<close>

definition write_segment :: "wadb_table \<Rightarrow> wadb_segment_meta \<Rightarrow> (world, path \<times> wadb_segment_meta) io" where
  "write_segment t s0 =
     bind_io (partition_path t (sg_day_start s0)) (\<lambda>partition.
       bind_io (wadb_mkdir partition) (\<lambda>_. bind_io (wadb_sync_directory (tb_directory t)) (\<lambda>_.
         bind_io (create_file t s0) (\<lambda>(path, s).
           bind_io (from_res (wadb_segment_encode (segment_file_header t s))) (\<lambda>header.
             bind_io (wadb_write_all path header) (\<lambda>_. bind_io wadb_sync_file (\<lambda>_.
               bind_io (wadb_sync_directory partition) (\<lambda>_.
                 bind_io (wadb_save_manifest (staged_segment t s)) (\<lambda>_. return_io (path, s))))))))))"

definition start_segment :: "path \<Rightarrow> wadb_segment_meta \<Rightarrow> wadb_table \<Rightarrow> wadb_table" where
  "start_segment path s t =
     (staged_segment t s)\<lparr>tb_retained_segments := tb_retained_segments t + 1,
       tb_retained_bytes := add64 (tb_retained_bytes t) WADB_SEGMENT_HEADER_BYTES, tb_published_dictionary_bytes := 0,
       tb_index := wadb_index_free, tb_active_fd := Some path\<rparr>"

definition metadata_exhausted :: "wadb_table \<Rightarrow> bool" where
  "metadata_exhausted t \<longleftrightarrow>
     tb_next_segment_id t = UINT64_MAX \<or> length (tb_segments t) \<ge> WADB_MAX_SEGMENTS \<or> tb_manifest_generation t = UINT64_MAX"

definition create_active :: "int \<Rightarrow> (world \<times> wadb_table, unit) io" where
  "create_active now = (\<lambda>(w, t).
     bind_io (ensure_io (\<not> metadata_exhausted t) WADB_LIMIT) (\<lambda>_.
       bind_io (if active_last t then on_world (wadb_index_save t (last (tb_segments t)) (tb_index t) (the (tb_dictionary t)))
                else return_io ()) (\<lambda>_.
         bind_io (on_world (call WADB_NOMEM)) (\<lambda>_ (w, t).
           case write_segment t (new_segment t now) w of
             (w', Inl e) \<Rightarrow> ((w', if e = WADB_INDETERMINATE then t\<lparr>tb_read_only := True\<rparr> else t), Inl e)
           | (w', Inr (path, s)) \<Rightarrow> ((w', start_segment path s t), Inr ())))) (w, t))"

section \<open>Staging rows\<close>

fun group_size :: "wadb_append_request list \<Rightarrow> nat \<times> nat \<Rightarrow> (nat \<times> nat) option" where
  "group_size [] (rows, bytes) = Some (rows, bytes)"
| "group_size (r # rs) (rows, bytes) =
     (case (wadb_add_size rows (rq_row_count r), wadb_add_size bytes (rq_row_bytes r)) of
        (Some rows', Some bytes') \<Rightarrow> group_size rs (rows', bytes')
      | _ \<Rightarrow> None)"

text \<open>The rows of a request with the ingestion time in every row.\<close>

definition stamp_request :: "nat \<Rightarrow> wadb_append_request \<Rightarrow> bytes" where
  "stamp_request width r =
     fold (\<lambda>j p. blit p (j * width) (wadb_put_u64 (word_of_int (rq_ingestion_time r)))) [0..<rq_row_count r]
       (take (rq_row_bytes r) (rq_rows r))"

text \<open>Replacing one symbol by its identifier; the row buffer and the dictionary are the state.\<close>

definition intern_cell ::
  "wadb_schema \<Rightarrow> wadb_append_request \<Rightarrow> nat \<Rightarrow> nat \<Rightarrow> nat \<Rightarrow> (world \<times> wadb_dictionary \<times> bytes, unit) io" where
  "intern_cell sc r offset row field = (\<lambda>(w, d, rows).
     let f = schema_fields sc ! field; v = carr_items (rq_values r) ! (row * (field_count sc - 1) + field - 1) in
     if f_type f \<noteq> WADB_SYMBOL32 \<or> is_null v then ((w, d, rows), Inr ())
     else
       (case with_allocs 4 (\<lambda>a. wadb_dictionary_intern a d field (as_bytes v)) w of
          (w', d', Inl e) \<Rightarrow> ((w', d', rows), Inl e)
        | (w', d', Inr sid) \<Rightarrow>
            ((w', d', blit rows (offset + row * row_width sc + f_offset f) (wadb_put_u32 (of_nat sid))), Inr ())))"

definition intern_request ::
  "wadb_schema \<Rightarrow> nat \<Rightarrow> wadb_append_request \<Rightarrow> (world \<times> wadb_dictionary \<times> bytes, unit) io" where
  "intern_request sc offset r =
     for_each (\<lambda>row. for_each (intern_cell sc r offset row) [1..<field_count sc]) [0..<rq_row_count r]"

fun intern_group ::
  "wadb_schema \<Rightarrow> nat \<Rightarrow> wadb_append_request list \<Rightarrow> (world \<times> wadb_dictionary \<times> bytes, unit) io" where
  "intern_group sc offset [] st = (st, Inr ())"
| "intern_group sc offset (r # rs) st =
     bind_io (intern_request sc offset r) (\<lambda>_. intern_group sc (offset + rq_row_bytes r) rs) st"

text \<open>What a group needs to be encoded: its requests, sizes and times.\<close>

record append_group =
  gp_requests :: "wadb_append_request list"
  gp_row_count :: nat
  gp_row_bytes :: nat
  gp_first_time :: int
  gp_last_time :: int

definition group_frame :: "wadb_table \<Rightarrow> append_group \<Rightarrow> bytes \<Rightarrow> bytes \<Rightarrow> nat \<Rightarrow> wadb_frame" where
  "group_frame t g rows definitions n =
     \<lparr>fr_schema_hash = fingerprint (tb_schema t), fr_first_sequence = tb_last_sequence t + 1,
      fr_min_time = gp_first_time g, fr_max_time = gp_last_time g, fr_row_count = gp_row_count g,
      fr_row_width = row_width (tb_schema t), fr_dictionary_count = n, fr_dictionary_bytes = length definitions,
      fr_dictionary = (if definitions = [] then None else Some definitions), fr_rows = Some rows,
      fr_frame_bytes = 0, fr_rows_offset = 0\<rparr>"

definition encode_group ::
  "wadb_table \<Rightarrow> append_group \<Rightarrow> nat \<Rightarrow> (world \<times> wadb_dictionary \<times> bytes, wadb_frame \<times> bytes) io" where
  "encode_group t g mark =
     bind_io (intern_group (tb_schema t) 0 (gp_requests g)) (\<lambda>_ (w, d, rows).
       bind_io (on_world (with_allocs 1 (\<lambda>a. wadb_dictionary_export (a 0) d mark))) (\<lambda>(definitions, n).
         bind_io (ensure_io (\<not> length definitions > WADB_MAX_FRAME_BYTES - 96 - gp_row_bytes g) WADB_LIMIT) (\<lambda>_.
           let frame = group_frame t g rows definitions n in
           bind_io (on_world (with_allocs 1 (\<lambda>a. wadb_frame_encode (a 0) frame))) (\<lambda>bytes.
             return_io (frame, bytes)))) (w, d, rows))"

section \<open>Writing and publishing\<close>

definition on_table :: "nat \<Rightarrow> (world \<times> wadb_table, 'a) io \<Rightarrow> 'a engine" where
  "on_table ti m = (\<lambda>(w, db).
     case m (w, db_tables db ! ti) of ((w', t), r) \<Rightarrow> ((w', db\<lparr>db_tables := (db_tables db)[ti := t]\<rparr>), r))"

definition reserve_entry :: "(world \<times> wadb_table, unit) io" where
  "reserve_entry = (\<lambda>(w, t).
     bind_io (on_world (wadb_index_reserve (tb_index t))) (\<lambda>index.
       bind_io (modify (\<lambda>t. t\<lparr>tb_index := index\<rparr>)) (\<lambda>_.
         if sg_last_sequence (last (tb_segments t)) = 0 then wadb_readable_reserve else return_io ())) (w, t))"

text \<open>
  The write and the synchronization, whose latency is recorded. A failure leaves the end of the
  file in doubt: the table becomes read-only and the outcome is reported as indeterminate.
\<close>

definition append_frame :: "nat \<Rightarrow> bytes \<Rightarrow> unit engine" where
  "append_frame ti bytes = (\<lambda>(w, db).
     let path = the (tb_active_fd (db_tables db ! ti));
         failed = (\<lambda>db. db\<lparr>db_tables := (db_tables db)[ti := (db_tables db ! ti)\<lparr>tb_read_only := True\<rparr>]\<rparr>) in
     case wadb_write_all path bytes w of
       (w1, Inl e) \<Rightarrow> ((w1, failed db), Inl WADB_INDETERMINATE)
     | (w1, Inr _) \<Rightarrow>
         (case clock_ns w1 of (w2, started) \<Rightarrow>
          (case wadb_sync_file w2 of (w3, synced) \<Rightarrow>
           (case clock_ns w3 of (w4, ended) \<Rightarrow>
              let db' = db\<lparr>db_sync_latency := wadb_histogram_record (sub64 ended started) (db_sync_latency db)\<rparr> in
              (case synced of
                 Inl e \<Rightarrow> ((w4, failed db'), Inl WADB_INDETERMINATE)
               | Inr _ \<Rightarrow> ((w4, db'), Inr ()))))))"

text \<open>
  The segment after a frame of \<open>n\<close> bytes. Its size stays below the segment target or is that of a
  single frame, and sequences were checked against exhaustion, so neither sum wraps.
\<close>

definition extended_segment :: "append_group \<Rightarrow> wadb_frame \<Rightarrow> nat \<Rightarrow> wadb_segment_meta \<Rightarrow> wadb_segment_meta" where
  "extended_segment g frame n s =
     s\<lparr>sg_min_time := (if sg_last_sequence s = 0 then gp_first_time g else sg_min_time s), sg_max_time := gp_last_time g,
       sg_last_sequence := fr_first_sequence frame + gp_row_count g - 1, sg_committed_bytes := sg_committed_bytes s + n\<rparr>"

definition published_table :: "append_group \<Rightarrow> wadb_frame \<Rightarrow> bytes \<Rightarrow> wadb_table \<Rightarrow> wadb_table" where
  "published_table g frame bytes t =
     (let s = last (tb_segments t); n = length bytes; s' = extended_segment g frame n s in
      t\<lparr>tb_index := (tb_index t)\<lparr>fi_entries := fi_entries (tb_index t) @ [wadb_index_for_frame frame bytes (sg_committed_bytes s)]\<rparr>,
        tb_readable := (if sg_last_sequence s = 0 then tb_readable t @ [length (tb_segments t) - 1] else tb_readable t),
        tb_segments := butlast (tb_segments t) @ [s'], tb_last_sequence := sg_last_sequence s', tb_last_time := gp_last_time g,
        tb_committed_frames := add64 (tb_committed_frames t) 1,
        tb_append_requests := add64 (tb_append_requests t) (length (gp_requests g)),
        tb_retained_rows := add64 (tb_retained_rows t) (gp_row_count g), tb_retained_bytes := add64 (tb_retained_bytes t) n,
        tb_published_dictionary_bytes := di_allocated (the (tb_dictionary t))\<rparr>)"

definition commit_event :: "wadb_table \<Rightarrow> append_group \<Rightarrow> wadb_frame \<Rightarrow> nat \<Rightarrow> wadb_commit_event" where
  "commit_event t g frame n =
     \<lparr>ev_id = 0, ev_table_id = tb_id t, ev_first_sequence = fr_first_sequence frame,
      ev_last_sequence = fr_first_sequence frame + gp_row_count g - 1, ev_frame_bytes = n, ev_max_time = gp_last_time g,
      ev_rows = gp_row_count g\<rparr>"

definition publish :: "nat \<Rightarrow> append_group \<Rightarrow> wadb_frame \<Rightarrow> bytes \<Rightarrow> wadb_db \<Rightarrow> wadb_db" where
  "publish ti g frame bytes db =
     publish_event (commit_event (db_tables db ! ti) g frame (length bytes))
       (db\<lparr>db_tables := (db_tables db)[ti := published_table g frame bytes (db_tables db ! ti)],
           db_committed_frames := add64 (db_committed_frames db) 1,
           db_append_requests := add64 (db_append_requests db) (length (gp_requests g)),
           db_committed_rows := add64 (db_committed_rows db) (gp_row_count g),
           db_committed_bytes := add64 (db_committed_bytes db) (length bytes)\<rparr>)"

fun assign_receipts :: "nat \<Rightarrow> wadb_append_request list \<Rightarrow> wadb_append_request list" where
  "assign_receipts sequence [] = []"
| "assign_receipts sequence (r # rs) =
     r\<lparr>rq_receipt := \<lparr>rc_first_sequence = sequence, rc_last_sequence = sequence + rq_row_count r - 1,
                       rc_ingestion_time = rq_ingestion_time r, rc_row_count = rq_row_count r\<rparr>\<rparr> #
     assign_receipts (sequence + rq_row_count r) rs"

section \<open>Committing\<close>

text \<open>Storing the dictionary of the active segment: provisional additions or their rollback.\<close>

definition put_dictionary :: "nat \<Rightarrow> wadb_dictionary \<Rightarrow> wadb_db \<Rightarrow> wadb_db" where
  "put_dictionary ti d db = db\<lparr>db_tables := (db_tables db)[ti := (db_tables db ! ti)\<lparr>tb_dictionary := Some d\<rparr>]\<rparr>"

text \<open>The last part of an attempt: the segment is active and its dictionary is \<open>d\<close>.\<close>

definition write_group ::
  "nat \<Rightarrow> append_group \<Rightarrow> wadb_dictionary \<Rightarrow> nat \<Rightarrow> wadb_frame \<Rightarrow> bytes \<Rightarrow> wadb_append_request list engine" where
  "write_group ti g d mark frame bytes = (\<lambda>(w, db).
     case bind_io (on_table ti reserve_entry) (\<lambda>_. append_frame ti bytes) (w, put_dictionary ti d db) of
       ((w', db'), Inl e) \<Rightarrow> ((w', put_dictionary ti (wadb_dictionary_rollback d mark) db'), Inl e)
     | ((w', db'), Inr _) \<Rightarrow>
         ((w', publish ti g frame bytes db'), Inr (assign_receipts (fr_first_sequence frame) (gp_requests g))))"

definition too_large :: "nat \<Rightarrow> wadb_segment_meta \<Rightarrow> nat \<Rightarrow> bool" where
  "too_large target s n \<longleftrightarrow>
     sg_last_sequence s \<noteq> 0 \<and> (sg_committed_bytes s \<ge> target \<or> n > target - sg_committed_bytes s)"

text \<open>An attempt in a new segment, with a new dictionary; it is never repeated.\<close>

definition commit_fresh :: "nat \<Rightarrow> append_group \<Rightarrow> bytes \<Rightarrow> wadb_append_request list engine" where
  "commit_fresh ti g rows = (\<lambda>(w, db).
     let t = db_tables db ! ti in
     case with_allocs 2 (\<lambda>a. wadb_dictionary_new a (tb_schema t) (op_dictionary_limit_bytes (db_options db))) w of
       (w1, Inl e) \<Rightarrow> ((w1, db), Inl e)
     | (w1, Inr d) \<Rightarrow>
         (case encode_group t g 0 (w1, d, rows) of
            ((w2, d', _), Inl e) \<Rightarrow> ((w2, db), Inl e)
          | ((w2, d', _), Inr (frame, bytes)) \<Rightarrow>
              bind_io (on_table ti (create_active (gp_first_time g))) (\<lambda>_. write_group ti g d' 0 frame bytes) (w2, db)))"

text \<open>
  An attempt in the active segment. When the symbols or the frame do not fit, the additions to
  the dictionary are rolled back and the group goes to a new segment.
\<close>

definition commit_active :: "nat \<Rightarrow> append_group \<Rightarrow> bytes \<Rightarrow> wadb_append_request list engine" where
  "commit_active ti g rows = (\<lambda>(w, db).
     let t = db_tables db ! ti; d = the (tb_dictionary t); mark = length (di_symbols d) in
     case encode_group t g mark (w, d, rows) of
       ((w1, d', rows'), r) \<Rightarrow>
         let undone = put_dictionary ti (wadb_dictionary_rollback d' mark) db in
         (case r of
            Inl e \<Rightarrow> if e = WADB_LIMIT then commit_fresh ti g rows' (w1, undone) else ((w1, undone), Inl e)
          | Inr (frame, bytes) \<Rightarrow>
              if too_large (op_segment_target_bytes (db_options db)) (last (tb_segments t)) (length bytes)
              then commit_fresh ti g rows' (w1, undone)
              else write_group ti g d' mark frame bytes (w1, db)))"

definition needs_segment :: "wadb_table \<Rightarrow> int \<Rightarrow> bool" where
  "needs_segment t first_time \<longleftrightarrow>
     \<not> active_last t \<or> sg_day_start (last (tb_segments t)) \<noteq> first_time - c_mod first_time WADB_DAY_US \<or>
     length (fi_entries (tb_index t)) \<ge> WADB_MAX_INDEX_ENTRIES"

definition clock_invalid :: "int \<Rightarrow> int \<Rightarrow> bool" where
  "clock_invalid first_time last_time \<longleftrightarrow>
     first_time < 0 \<or> last_time < first_time \<or> c_div first_time WADB_DAY_US \<noteq> c_div last_time WADB_DAY_US"

definition wadb_commit_requests :: "nat \<Rightarrow> wadb_append_request list \<Rightarrow> wadb_append_request list engine" where
  "wadb_commit_requests ti requests = (\<lambda>(w, db).
     case group_size requests (0, 0) of
       None \<Rightarrow> ((w, db), Inl WADB_LIMIT)
     | Some (row_count, row_bytes) \<Rightarrow>
         if requests = [] \<or> row_bytes > WADB_MAX_FRAME_BYTES - 96 \<or> row_count > UINT32_MAX then ((w, db), Inl WADB_LIMIT)
         else
           (let g = \<lparr>gp_requests = requests, gp_row_count = row_count, gp_row_bytes = row_bytes,
                      gp_first_time = rq_ingestion_time (hd requests), gp_last_time = rq_ingestion_time (last requests)\<rparr> in
            if clock_invalid (gp_first_time g) (gp_last_time g) then ((w, db), Inl WADB_IO)
            else
              bind_io (on_world (call WADB_NOMEM)) (\<lambda>_ (w, db).
                let t = db_tables db ! ti; rows = concat (map (stamp_request (row_width (tb_schema t))) requests) in
                if tb_read_only t \<or> db_read_only db then ((w, db), Inl WADB_READ_ONLY)
                else if tb_last_sequence t > UINT64_MAX - row_count then ((w, db), Inl WADB_LIMIT)
                else if needs_segment t (gp_first_time g) then commit_fresh ti g rows (w, db)
                else commit_active ti g rows (w, db)) (w, db)))"

end
