(* ===== verification/Wadb_Readers.thy ===== *)
theory Wadb_Readers
  imports Wadb_Commit
begin

unbundle bit_operations_syntax

text \<open>
  Readers: snapshots of the readable segments (\<^verbatim>\<open>src/query/snapshot.c\<close>), the cache of segment
  dictionaries (\<^verbatim>\<open>src/query/cache.c\<close>) and the list of open cursors (\<^verbatim>\<open>src/query/cursor.c\<close>), with
  their memory and reader budgets.

  A cache entry is named by what it matches on, its table, segment, covered bytes and checksum.
  Loading a dictionary happens outside the mutex, between a reservation and a publication; both
  are operations of their own, so that the loads of several readers interleave.
\<close>

section \<open>Snapshots\<close>

definition readable_segment :: "wadb_table \<Rightarrow> nat \<Rightarrow> wadb_segment_meta" where
  "readable_segment t i = tb_segments t ! (tb_readable t ! i)"

definition snapshot_first :: "wadb_table \<Rightarrow> wadb_scan_options option \<Rightarrow> nat" where
  "snapshot_first t opts =
     bisect (\<lambda>i. case opts of None \<Rightarrow> False
       | Some x \<Rightarrow> sg_max_time (readable_segment t i) < so_start_time x \<or> sg_last_sequence (readable_segment t i) \<le> so_after_sequence x)
       0 (length (tb_readable t))"

definition snapshot_end :: "wadb_table \<Rightarrow> wadb_scan_options option \<Rightarrow> nat" where
  "snapshot_end t opts =
     bisect (\<lambda>i. case opts of None \<Rightarrow> True | Some x \<Rightarrow> sg_min_time (readable_segment t i) < so_end_time x)
       (snapshot_first t opts) (length (tb_readable t))"

definition snapshot_segments :: "wadb_table \<Rightarrow> wadb_scan_options option \<Rightarrow> wadb_segment_meta list" where
  "snapshot_segments t opts =
     (let first = snapshot_first t opts;
          n = (case opts of Some x \<Rightarrow> if so_start_time x = so_end_time x then 0 else snapshot_end t opts - first
               | None \<Rightarrow> snapshot_end t opts - first)
      in map (\<lambda>i. readable_segment t (first + i)) [0..<n])"

definition snapshot_entries :: "wadb_table \<Rightarrow> wadb_segment_meta list \<Rightarrow> wadb_index_entry list" where
  "snapshot_entries t segments =
     (if segments \<noteq> [] \<and> sg_state (last segments) = WADB_SEG_ACTIVE then fi_entries (tb_index t) else [])"

definition snapshot_charge :: "wadb_segment_meta list \<Rightarrow> wadb_index_entry list \<Rightarrow> nat" where
  "snapshot_charge segments entries =
     SIZEOF_SNAPSHOT + length segments * SIZEOF_SEGMENT_META + length entries * SIZEOF_INDEX_ENTRY"

definition update_table :: "nat \<Rightarrow> (wadb_table \<Rightarrow> wadb_table) \<Rightarrow> wadb_db \<Rightarrow> wadb_db" where
  "update_table ti f db = db\<lparr>db_tables := (db_tables db)[ti := f (db_tables db ! ti)]\<rparr>"

definition pin :: "nat \<Rightarrow> nat \<Rightarrow> wadb_db \<Rightarrow> wadb_db" where
  "pin ti cost db =
     update_table ti (\<lambda>t. t\<lparr>tb_readers := tb_readers t + 1\<rparr>)
       (db\<lparr>db_snapshot_bytes := db_snapshot_bytes db + cost, db_reader_count := db_reader_count db + 1\<rparr>)"

definition wadb_snapshot_acquire :: "nat \<Rightarrow> wadb_scan_options option \<Rightarrow> wadb_snapshot engine" where
  "wadb_snapshot_acquire ti opts = (\<lambda>(w, db).
     let t = db_tables db ! ti; segments = snapshot_segments t opts; entries = snapshot_entries t segments;
         cost = snapshot_charge segments entries in
     if db_reader_count db \<ge> op_max_readers (db_options db) \<or>
        cost > sub64 (op_snapshot_limit_bytes (db_options db)) (db_snapshot_bytes db)
     then ((w, db), Inl WADB_BACKPRESSURE)
     else
       bind_io (if segments \<noteq> [] then on_world (call WADB_NOMEM) else return_io 0) (\<lambda>_.
         bind_io (if entries \<noteq> [] then on_world (call WADB_NOMEM) else return_io 0) (\<lambda>_ (w, db).
           ((w, pin ti cost db),
            Inr \<lparr>sn_table = Some ti, sn_segments = segments, sn_charge = cost, sn_active = entries,
                 sn_sequence = tb_last_sequence t\<rparr>))) (w, db))"

definition unpin :: "nat \<Rightarrow> nat \<Rightarrow> wadb_db \<Rightarrow> wadb_db" where
  "unpin ti cost db =
     update_table ti (\<lambda>t. t\<lparr>tb_readers := sub64 (tb_readers t) 1\<rparr>)
       (db\<lparr>db_snapshot_bytes := sub64 (db_snapshot_bytes db) cost, db_reader_count := sub64 (db_reader_count db) 1\<rparr>)"

text \<open>The zeroed snapshot of a failed acquisition has no table and is released without effect.\<close>

definition no_snapshot :: wadb_snapshot where
  "no_snapshot = \<lparr>sn_table = None, sn_segments = [], sn_charge = 0, sn_active = [], sn_sequence = 0\<rparr>"

definition run_cleanup :: "nat \<Rightarrow> world \<times> wadb_db \<Rightarrow> world \<times> wadb_db" where
  "run_cleanup ti = (\<lambda>(w, db).
     case wadb_retention_cleanup (w, db_tables db ! ti) of ((w', t), _) \<Rightarrow> (w', update_table ti (\<lambda>_. t) db))"

definition wadb_snapshot_release :: "wadb_snapshot \<Rightarrow> world \<times> wadb_db \<Rightarrow> world \<times> wadb_db" where
  "wadb_snapshot_release snapshot = (\<lambda>(w, db).
     case sn_table snapshot of
       None \<Rightarrow> (w, db)
     | Some ti \<Rightarrow>
         let db' = unpin ti (sn_charge snapshot) db; t = db_tables db' ! ti in
         if tb_readers t = 0 \<and> tb_pending_retention t then run_cleanup ti (w, db') else (w, db'))"

section \<open>Dictionary cache\<close>

type_synonym cache_key = "nat \<times> nat \<times> nat \<times> u32"

definition entry_key :: "wadb_cache_entry \<Rightarrow> cache_key" where
  "entry_key c = (ce_table_id c, ce_segment_id c, ce_covered_bytes c, ce_dictionary_crc c)"

definition reader_key :: "wadb_table \<Rightarrow> wadb_index_reader \<Rightarrow> cache_key" where
  "reader_key t r = (tb_id t, sg_id (ir_segment r), sg_committed_bytes (ir_segment r), ir_dictionary_crc r)"

definition cache_matches :: "cache_key \<Rightarrow> wadb_cache_entry \<Rightarrow> bool" where
  "cache_matches k c \<longleftrightarrow> entry_key c = k"

definition wadb_cache_clear :: "wadb_db \<Rightarrow> wadb_db" where
  "wadb_cache_clear db = db\<lparr>db_cache := [], db_cache_bytes := 0\<rparr>"

text \<open>Applying a change to the first matching entry.\<close>

fun update_entry :: "cache_key \<Rightarrow> (wadb_cache_entry \<Rightarrow> wadb_cache_entry) \<Rightarrow> wadb_cache_entry list \<Rightarrow> wadb_cache_entry list" where
  "update_entry k f [] = []"
| "update_entry k f (c # cs) = (if cache_matches k c then f c # cs else c # update_entry k f cs)"

text \<open>The position of the unreferenced entry that was used longest ago.\<close>

fun oldest_entry :: "nat \<Rightarrow> wadb_cache_entry list \<Rightarrow> (nat \<times> nat) option \<Rightarrow> nat option" where
  "oldest_entry i [] best = map_option fst best"
| "oldest_entry i (c # cs) best =
     oldest_entry (i + 1) cs
       (if ce_references c = 0 \<and> (case best of None \<Rightarrow> True | Some (_, used) \<Rightarrow> ce_used c < used)
        then Some (i, ce_used c) else best)"

definition cache_reservation :: "wadb_db \<Rightarrow> nat" where
  "cache_reservation db = add64 (op_dictionary_limit_bytes (db_options db)) SIZEOF_CACHE_ENTRY"

definition remove_nth :: "nat \<Rightarrow> 'a list \<Rightarrow> 'a list" where
  "remove_nth i xs = take i xs @ drop (i + 1) xs"

lemma oldest_entry_range:
  "oldest_entry i cs best = Some j \<Longrightarrow> (\<forall>p \<in> set_option best. fst p < i) \<Longrightarrow> j < i + length cs"
proof (induction cs arbitrary: i best)
  case (Cons c cs)
  let ?best = "if ce_references c = 0 \<and> (case best of None \<Rightarrow> True | Some (_, used) \<Rightarrow> ce_used c < used) then Some (i, ce_used c) else best"
  have "\<forall>p \<in> set_option ?best. fst p < i + 1" using Cons.prems(2) by auto
  with Cons.IH [of "i + 1" ?best] Cons.prems(1) show ?case by simp
qed auto

text \<open>Evicting entries until a reservation fits in the budget.\<close>

function evict_loop :: "wadb_db \<Rightarrow> wadb_db \<times> unit res" where
  "evict_loop db =
     (if cache_reservation db > sub64 (op_read_cache_bytes (db_options db)) (db_cache_bytes db) then
        (case oldest_entry 0 (db_cache db) None of
           None \<Rightarrow> (db, Inl WADB_BACKPRESSURE)
         | Some i \<Rightarrow>
             evict_loop (db\<lparr>db_cache := remove_nth i (db_cache db),
                             db_cache_bytes := sub64 (db_cache_bytes db) (ce_charge (db_cache db ! i))\<rparr>))
      else (db, Inr ()))"
  by pat_completeness auto
termination
proof (relation "measure (\<lambda>db. length (db_cache db))")
  fix db i
  assume "oldest_entry 0 (db_cache db) None = Some i"
  then have "i < length (db_cache db)" using oldest_entry_range [of 0 "db_cache db" None i] by simp
  then show "(db\<lparr>db_cache := remove_nth i (db_cache db), db_cache_bytes := sub64 (db_cache_bytes db) (ce_charge (db_cache db ! i))\<rparr>, db)
      \<in> measure (\<lambda>db. length (db_cache db))" by (simp add: remove_nth_def)
qed simp

declare evict_loop.simps [simp del]

text \<open>The first critical section: a hit, or a reservation for loading (\<open>None\<close>).\<close>

definition cache_lookup :: "cache_key \<Rightarrow> wadb_db \<Rightarrow> wadb_db \<times> cache_key option res" where
  "cache_lookup k db =
     (if list_ex (cache_matches k) (db_cache db) then
        (let clock = add64 (db_cache_clock db) 1 in
         (db\<lparr>db_cache := update_entry k (\<lambda>c. c\<lparr>ce_references := ce_references c + 1, ce_used := clock\<rparr>) (db_cache db),
             db_cache_clock := clock, db_cache_hits := add64 (db_cache_hits db) 1\<rparr>, Inr (Some k)))
      else
        (case evict_loop (db\<lparr>db_cache_misses := add64 (db_cache_misses db) 1\<rparr>) of
           (db', Inl e) \<Rightarrow> (db', Inl e)
         | (db', Inr _) \<Rightarrow> (db'\<lparr>db_cache_bytes := db_cache_bytes db' + cache_reservation db'\<rparr>, Inr None)))"

text \<open>
  The second critical section: the reservation is returned, and a loaded dictionary is published
  unless another reader has published the same one meanwhile.
\<close>

definition cache_publish :: "cache_key \<Rightarrow> wadb_dictionary res \<Rightarrow> wadb_db \<Rightarrow> wadb_db \<times> cache_key res" where
  "cache_publish k loaded db0 =
     (let db = db0\<lparr>db_cache_bytes := sub64 (db_cache_bytes db0) (cache_reservation db0)\<rparr> in
      case loaded of
        Inl e \<Rightarrow> (db, Inl e)
      | Inr d \<Rightarrow>
          (let clock = add64 (db_cache_clock db) 1; cost = SIZEOF_CACHE_ENTRY + di_allocated d;
               db = db\<lparr>db_cache_clock := clock\<rparr> in
           if list_ex (cache_matches k) (db_cache db) then
             (db\<lparr>db_cache := update_entry k (\<lambda>c. c\<lparr>ce_references := ce_references c + 1, ce_used := clock\<rparr>) (db_cache db)\<rparr>, Inr k)
           else
             (db\<lparr>db_cache := (case k of (table_id, segment_id, boundary, crc) \<Rightarrow>
                   \<lparr>ce_table_id = table_id, ce_segment_id = segment_id, ce_covered_bytes = boundary, ce_used = clock,
                    ce_dictionary_crc = crc, ce_references = 1, ce_charge = cost, ce_dictionary = d\<rparr>) # db_cache db,
                 db_cache_bytes := db_cache_bytes db + cost\<rparr>, Inr k)))"

text \<open>
  Repairing the index while loading changes the checksum that the entry is stored under, so the
  key is computed again before publication.
\<close>

definition wadb_cache_acquire ::
  "nat \<Rightarrow> wadb_index_reader \<Rightarrow> world \<times> wadb_db \<Rightarrow> (world \<times> wadb_db) \<times> wadb_index_reader \<times> cache_key res" where
  "wadb_cache_acquire ti r = (\<lambda>(w, db).
     let t = db_tables db ! ti in
     case cache_lookup (reader_key t r) db of
       (db1, Inl e) \<Rightarrow> ((w, db1), r, Inl e)
     | (db1, Inr (Some k)) \<Rightarrow> ((w, db1), r, Inr k)
     | (db1, Inr None) \<Rightarrow>
         (case bind_io (on_world (call WADB_NOMEM)) (\<lambda>_. wadb_index_dictionary (op_dictionary_limit_bytes (db_options db)) t) (w, r) of
            ((w', r'), loaded) \<Rightarrow>
              (case cache_publish (reader_key t r') loaded db1 of (db2, res) \<Rightarrow> ((w', db2), r', res))))"

definition wadb_cache_release :: "cache_key \<Rightarrow> wadb_db \<Rightarrow> wadb_db" where
  "wadb_cache_release k db =
     db\<lparr>db_cache := update_entry k (\<lambda>c. c\<lparr>ce_references := sub64 (ce_references c) 1\<rparr>) (db_cache db)\<rparr>"

definition cached_dictionary :: "cache_key \<Rightarrow> wadb_db \<Rightarrow> wadb_dictionary" where
  "cached_dictionary k db = ce_dictionary (the (find (cache_matches k) (db_cache db)))"

section \<open>Cursors\<close>

definition destroy_cursor :: "wadb_cursor_state \<Rightarrow> world \<times> wadb_db \<Rightarrow> world \<times> wadb_db" where
  "destroy_cursor p = wadb_snapshot_release (cu_snapshot p)"

fun destroy_cursors :: "wadb_cursor_state list \<Rightarrow> world \<times> wadb_db \<Rightarrow> world \<times> wadb_db" where
  "destroy_cursors [] st = st"
| "destroy_cursors (p # ps) st = destroy_cursors ps (destroy_cursor p st)"

definition wadb_cursor_clear :: "world \<times> wadb_db \<Rightarrow> world \<times> wadb_db" where
  "wadb_cursor_clear = (\<lambda>(w, db). destroy_cursors (db_cursors db) (w, db\<lparr>db_cursors := []\<rparr>))"

definition cursor_expired :: "nat \<Rightarrow> wadb_cursor_state \<Rightarrow> bool" where
  "cursor_expired now p \<longleftrightarrow> \<not> cu_busy p \<and> cu_deadline p \<le> now"

text \<open>Expired cursors are unlinked in order and destroyed in the opposite order.\<close>

definition wadb_cursor_expire :: "world \<times> wadb_db \<Rightarrow> world \<times> wadb_db" where
  "wadb_cursor_expire = (\<lambda>(w, db).
     case clock_ns w of (w', now) \<Rightarrow>
       destroy_cursors (rev (filter (cursor_expired now) (db_cursors db)))
         (w', db\<lparr>db_cursors := filter (\<lambda>p. \<not> cursor_expired now p) (db_cursors db)\<rparr>))"

definition find_cursor :: "nat \<Rightarrow> wadb_db \<Rightarrow> wadb_cursor_state option" where
  "find_cursor cid db = find (\<lambda>p. cu_id p = cid) (db_cursors db)"

text \<open>Replacing or unlinking the first cursor with an identifier.\<close>

fun relink :: "nat \<Rightarrow> wadb_cursor_state option \<Rightarrow> wadb_cursor_state list \<Rightarrow> wadb_cursor_state list" where
  "relink cid new [] = []"
| "relink cid new (p # ps) =
     (if cu_id p = cid then (case new of None \<Rightarrow> ps | Some q \<Rightarrow> q # ps) else p # relink cid new ps)"

definition set_cursor :: "nat \<Rightarrow> wadb_cursor_state option \<Rightarrow> wadb_db \<Rightarrow> wadb_db" where
  "set_cursor cid new db = db\<lparr>db_cursors := relink cid new (db_cursors db)\<rparr>"

definition wadb_cursor_close :: "nat \<Rightarrow> unit engine" where
  "wadb_cursor_close cid = (\<lambda>(w, db).
     if cid = 0 then ((w, db), Inl WADB_INVALID)
     else
       (case find_cursor cid db of
          None \<Rightarrow> ((w, db), Inr ())
        | Some p \<Rightarrow>
            if cu_busy p then ((w, db), Inl WADB_BACKPRESSURE)
            else (destroy_cursor p (w, set_cursor cid None db), Inr ())))"

section \<open>Readers that share the cache\<close>

text \<open>
  The cache, the number of readers that have reserved room and are loading, and for every entry the
  number of readers that hold it. The steps are the critical sections of any number of readers, in
  any order. The counters of an entry are 64 bits wide and there are fewer readers than that.
\<close>

record cache_state =
  cs_db :: wadb_db
  cs_loading :: nat
  cs_held :: "cache_key \<Rightarrow> nat"

inductive cache_step :: "cache_state \<Rightarrow> cache_state \<Rightarrow> bool" where
  Hit: "cache_lookup k (cs_db s) = (db, Inr (Some k)) \<Longrightarrow> cs_held s k < UINT64_MAX \<Longrightarrow>
      cache_step s (s\<lparr>cs_db := db, cs_held := (cs_held s)(k := cs_held s k + 1)\<rparr>)"
| Miss: "cache_lookup k (cs_db s) = (db, Inr None) \<Longrightarrow> cache_step s (s\<lparr>cs_db := db, cs_loading := cs_loading s + 1\<rparr>)"
| Refuse: "cache_lookup k (cs_db s) = (db, Inl e) \<Longrightarrow> cache_step s (s\<lparr>cs_db := db\<rparr>)"
| Publish: "cs_loading s = Suc n \<Longrightarrow> (\<forall>d. loaded = Inr d \<longrightarrow> di_allocated d \<le> op_dictionary_limit_bytes (db_options (cs_db s))) \<Longrightarrow>
      cache_publish k loaded (cs_db s) = (db, Inr k) \<Longrightarrow> cs_held s k < UINT64_MAX \<Longrightarrow>
      cache_step s (s\<lparr>cs_db := db, cs_loading := n, cs_held := (cs_held s)(k := cs_held s k + 1)\<rparr>)"
| Abandon: "cs_loading s = Suc n \<Longrightarrow> cache_publish k loaded (cs_db s) = (db, Inl e) \<Longrightarrow>
      cache_step s (s\<lparr>cs_db := db, cs_loading := n\<rparr>)"
| Release: "0 < cs_held s k \<Longrightarrow>
      cache_step s (s\<lparr>cs_db := wadb_cache_release k (cs_db s), cs_held := (cs_held s)(k := cs_held s k - 1)\<rparr>)"

definition cache_start :: "cache_state \<Rightarrow> bool" where
  "cache_start s \<longleftrightarrow> db_cache (cs_db s) = [] \<and> db_cache_bytes (cs_db s) = 0 \<and> cs_loading s = 0 \<and> cs_held s = (\<lambda>_. 0)"

definition cache_entries_ok :: "(cache_key \<Rightarrow> nat) \<Rightarrow> wadb_cache_entry list \<Rightarrow> bool" where
  "cache_entries_ok held cs \<longleftrightarrow> distinct (map entry_key cs) \<and> (\<forall>c\<in>set cs. ce_references c = held (entry_key c)) \<and>
     {k. 0 < held k} \<subseteq> entry_key ` set cs \<and> range held \<subseteq> {..UINT64_MAX}"

definition cache_budget_ok :: "nat \<Rightarrow> wadb_db \<Rightarrow> bool" where
  "cache_budget_ok loading db \<longleftrightarrow>
     db_cache_bytes db = sum_list (map ce_charge (db_cache db)) + loading * cache_reservation db \<and>
     db_cache_bytes db \<le> op_read_cache_bytes (db_options db)"

definition limits_ok :: "wadb_db \<Rightarrow> bool" where
  "limits_ok db \<longleftrightarrow> op_read_cache_bytes (db_options db) \<le> UINT64_MAX \<and>
     op_dictionary_limit_bytes (db_options db) + SIZEOF_CACHE_ENTRY \<le> op_read_cache_bytes (db_options db)"

definition cache_ok :: "cache_state \<Rightarrow> bool" where
  "cache_ok s \<longleftrightarrow> cache_entries_ok (cs_held s) (db_cache (cs_db s)) \<and> cache_budget_ok (cs_loading s) (cs_db s) \<and> limits_ok (cs_db s)"

definition cached_keys :: "wadb_db \<Rightarrow> cache_key set" where
  "cached_keys db = entry_key ` set (db_cache db)"

subsection \<open>Entries\<close>

lemma update_entry_keys: "(\<And>c. entry_key (f c) = entry_key c) \<Longrightarrow> map entry_key (update_entry k f cs) = map entry_key cs"
  by (induction cs) auto

lemma update_entry_charges: "(\<And>c. ce_charge (f c) = ce_charge c) \<Longrightarrow> map ce_charge (update_entry k f cs) = map ce_charge cs"
  by (induction cs) auto

lemma update_entry_map:
  "distinct (map entry_key cs) \<Longrightarrow> update_entry k f cs = map (\<lambda>c. if entry_key c = k then f c else c) cs"
proof (induction cs)
  case (Cons c cs)
  have "map (\<lambda>c. if entry_key c = k then f c else c) cs = cs" if e: "entry_key c = k"
  proof -
    have "entry_key x \<noteq> k" if "x \<in> set cs" for x using Cons.prems e that by (metis distinct.simps(2) image_eqI image_set list.simps(9))
    then show ?thesis by (intro map_idI) simp
  qed
  then show ?case using Cons by (simp add: cache_matches_def)
qed simp

text \<open>Changing the counter of the entry that a reader takes or returns.\<close>

lemma recount_entry_ok:
  assumes ok: "cache_entries_ok held cs" and k: "k \<in> entry_key ` set cs" "m \<le> UINT64_MAX"
    and f: "\<And>c. entry_key (f c) = entry_key c" "\<And>c. ce_references c = held k \<Longrightarrow> ce_references (f c) = m"
  shows "cache_entries_ok (held(k := m)) (update_entry k f cs)"
proof -
  have d: "distinct (map entry_key cs)" "\<forall>c\<in>set cs. ce_references c = held (entry_key c)" "{k. 0 < held k} \<subseteq> entry_key ` set cs" "range held \<subseteq> {..UINT64_MAX}"
    using ok by (simp_all add: cache_entries_ok_def)
  have m: "map entry_key (update_entry k f cs) = map entry_key cs" using update_entry_keys [OF f(1)] .
  then have "entry_key ` set (update_entry k f cs) = entry_key ` set cs" by (metis image_set)
  moreover have "\<forall>c\<in>set (update_entry k f cs). ce_references c = (held(k := m)) (entry_key c)"
    using d(2) f by (auto simp: update_entry_map [OF d(1)])
  moreover have "{j. 0 < (held(k := m)) j} \<subseteq> entry_key ` set cs" using d(3) k(1) by (auto split: if_splits simp del: split_paired_All)
  moreover have "range (held(k := m)) \<subseteq> {..UINT64_MAX}" using d(4) k(2) by auto
  ultimately show ?thesis using d(1) m by (simp add: cache_entries_ok_def)
qed

lemma bump_entry_ok:
  assumes "cache_entries_ok held cs" "list_ex (cache_matches k) cs" "held k < UINT64_MAX"
  shows "cache_entries_ok (held(k := held k + 1)) (update_entry k (\<lambda>c. c\<lparr>ce_references := ce_references c + 1, ce_used := u\<rparr>) cs)"
  using assms(2,3) by (intro recount_entry_ok [OF assms(1)]) (auto simp: list_ex_iff cache_matches_def entry_key_def)

lemma release_entry_ok:
  assumes "cache_entries_ok held cs" "0 < held k"
  shows "cache_entries_ok (held(k := held k - 1)) (update_entry k (\<lambda>c. c\<lparr>ce_references := sub64 (ce_references c) 1\<rparr>) cs)"
proof -
  have k: "k \<in> entry_key ` set cs" "held k \<le> UINT64_MAX" using assms unfolding cache_entries_ok_def by blast+
  from this(2) have "sub64 (held k) 1 = held k - 1" using assms(2) by (simp add: sub64_exact)
  note s = this
  show ?thesis
  proof (rule recount_entry_ok [OF assms(1)])
    show "k \<in> entry_key ` set cs" using k(1) .
    show "held k - 1 \<le> UINT64_MAX" using k(2) by linarith
  qed (use s in \<open>simp_all add: entry_key_def\<close>)
qed

lemma insert_entry_ok:
  assumes ok: "cache_entries_ok held cs" and n: "\<not> list_ex (cache_matches k) cs" and c: "entry_key c = k" "ce_references c = 1"
  shows "cache_entries_ok (held(k := held k + 1)) (c # cs)"
proof -
  have k: "k \<notin> entry_key ` set cs" using n by (auto simp: list_ex_iff cache_matches_def)
  have p: "{k. 0 < held k} \<subseteq> entry_key ` set cs" "range held \<subseteq> {..UINT64_MAX}" using ok by (simp_all add: cache_entries_ok_def)
  have h: "held k = 0" using k subsetD [OF p(1), of k] by (metis mem_Collect_eq neq0_conv)
  have "\<forall>b\<in>set cs. ce_references b = (held(k := 1)) (entry_key b)" using ok k unfolding cache_entries_ok_def by auto
  moreover have "{j. 0 < (held(k := 1)) j} \<subseteq> insert k (entry_key ` set cs)" using subsetD [OF p(1)] by (intro subsetI) (simp split: if_splits)
  moreover have "range (held(k := 1)) \<subseteq> {..UINT64_MAX}" using p(2) by auto
  ultimately show ?thesis using ok k h c by (simp add: cache_entries_ok_def)
qed

subsection \<open>Eviction\<close>

lemma oldest_entry_free:
  "oldest_entry i cs best = Some j \<Longrightarrow> (\<forall>p. best = Some p \<longrightarrow> fst p < i) \<Longrightarrow>
     (\<exists>p. best = Some p \<and> j = fst p) \<or> (i \<le> j \<and> j < i + length cs \<and> ce_references (cs ! (j - i)) = 0)"
proof (induction cs arbitrary: i best)
  case (Cons c cs)
  let ?best = "if ce_references c = 0 \<and> (case best of None \<Rightarrow> True | Some (_, used) \<Rightarrow> ce_used c < used) then Some (i, ce_used c) else best"
  have "(\<exists>p. ?best = Some p \<and> j = fst p) \<or> (i + 1 \<le> j \<and> j < i + 1 + length cs \<and> ce_references (cs ! (j - (i + 1))) = 0)"
    using Cons.prems by (intro Cons.IH) auto
  then show ?case by (auto split: if_splits)
qed auto

lemma remove_nth_sum: "i < length xs \<Longrightarrow> sum_list (map g (remove_nth i xs)) + g (xs ! i) = sum_list (map (g :: 'a \<Rightarrow> nat) xs)"
  by (subst (3) id_take_nth_drop [of i xs]) (simp_all add: remove_nth_def)

lemma remove_entry_ok:
  assumes ok: "cache_entries_ok held cs" and i: "i < length cs" "ce_references (cs ! i) = 0"
  shows "cache_entries_ok held (remove_nth i cs)"
proof -
  let ?a = "take i cs" and ?b = "drop (i + 1) cs" and ?c = "cs ! i"
  have cs: "cs = ?a @ ?c # ?b" using i(1) by (simp add: id_take_nth_drop)
  have "distinct (map entry_key (?a @ ?c # ?b))" "{k. 0 < held k} \<subseteq> entry_key ` set (?a @ ?c # ?b)"
    using ok cs unfolding cache_entries_ok_def by metis+
  moreover have "held (entry_key ?c) = 0" using ok i by (auto simp: cache_entries_ok_def)
  ultimately have "distinct (map entry_key (?a @ ?b))" "{k. 0 < held k} \<subseteq> entry_key ` set (?a @ ?b)" by auto
  moreover have "set (?a @ ?b) \<subseteq> set cs" by (auto dest: in_set_takeD in_set_dropD)
  ultimately show ?thesis using ok by (auto simp: cache_entries_ok_def remove_nth_def)
qed

lemma evict_loop_ok:
  "evict_loop db = (db', r) \<Longrightarrow> cache_entries_ok held (db_cache db) \<Longrightarrow> cache_budget_ok n db \<Longrightarrow> limits_ok db \<Longrightarrow>
     cache_entries_ok held (db_cache db') \<and> cache_budget_ok n db' \<and> db_options db' = db_options db \<and>
     (\<exists>cs m. db' = db\<lparr>db_cache := cs, db_cache_bytes := m\<rparr> \<and> set cs \<subseteq> set (db_cache db)) \<and>
     (r = Inr () \<longrightarrow> db_cache_bytes db' + cache_reservation db' \<le> op_read_cache_bytes (db_options db'))"
proof (induction db rule: evict_loop.induct)
  case (1 db)
  show ?case
  proof (cases "cache_reservation db > sub64 (op_read_cache_bytes (db_options db)) (db_cache_bytes db)")
    case False
    then have "db' = db" "r = Inr ()" using "1.prems"(1) by (simp_all add: evict_loop.simps [of db])
    then show ?thesis using False "1.prems"(2-4)
      by (auto simp: cache_budget_ok_def limits_ok_def sub64_exact intro!: exI [of _ "db_cache db"] exI [of _ "db_cache_bytes db"])
  next
    case True
    show ?thesis
    proof (cases "oldest_entry 0 (db_cache db) None")
      case None
      then have "db' = db" "r = Inl WADB_BACKPRESSURE" using "1.prems"(1) True by (simp_all add: evict_loop.simps [of db])
      then show ?thesis using "1.prems"(2-4) by (auto intro!: exI [of _ "db_cache db"] exI [of _ "db_cache_bytes db"])
    next
      case (Some i)
      let ?db = "db\<lparr>db_cache := remove_nth i (db_cache db), db_cache_bytes := sub64 (db_cache_bytes db) (ce_charge (db_cache db ! i))\<rparr>"
      have i: "i < length (db_cache db)" "ce_references (db_cache db ! i) = 0" using oldest_entry_free [OF Some] by auto
      have e: "evict_loop ?db = (db', r)" using "1.prems"(1) True Some by (simp add: evict_loop.simps [of db])
      have "cache_budget_ok n ?db" using "1.prems"(3,4) remove_nth_sum [OF i(1), of ce_charge]
        by (auto simp: cache_budget_ok_def limits_ok_def sub64_exact cache_reservation_def)
      moreover have "limits_ok ?db" using "1.prems"(4) by (simp add: limits_ok_def)
      moreover have "set (remove_nth i (db_cache db)) \<subseteq> set (db_cache db)" by (auto simp: remove_nth_def dest: in_set_takeD in_set_dropD)
      moreover have "cache_entries_ok held (db_cache ?db)" using remove_entry_ok [OF "1.prems"(2) i] by simp
      ultimately have ih: "cache_entries_ok held (db_cache db') \<and> cache_budget_ok n db' \<and> db_options db' = db_options ?db \<and>
          (\<exists>cs m. db' = ?db\<lparr>db_cache := cs, db_cache_bytes := m\<rparr> \<and> set cs \<subseteq> set (db_cache ?db)) \<and>
          (r = Inr () \<longrightarrow> db_cache_bytes db' + cache_reservation db' \<le> op_read_cache_bytes (db_options db'))"
        by (intro "1.IH" [OF True Some e])
      then obtain cs m where "db' = ?db\<lparr>db_cache := cs, db_cache_bytes := m\<rparr>" "set cs \<subseteq> set (remove_nth i (db_cache db))" by auto
      then have "db' = db\<lparr>db_cache := cs, db_cache_bytes := m\<rparr>" "set cs \<subseteq> set (db_cache db)"
        using \<open>set (remove_nth i (db_cache db)) \<subseteq> set (db_cache db)\<close> by simp_all
      then show ?thesis using ih by auto
    qed
  qed
qed

subsection \<open>Every step keeps the invariant\<close>

lemma budget_mono: "cache_budget_ok n db \<Longrightarrow> db_options db' = db_options db \<Longrightarrow> db_cache_bytes db' = db_cache_bytes db \<Longrightarrow>
    map ce_charge (db_cache db') = map ce_charge (db_cache db) \<Longrightarrow> cache_budget_ok n db'"
  by (simp add: cache_budget_ok_def cache_reservation_def)

lemma limits_mono: "limits_ok db \<Longrightarrow> db_options db' = db_options db \<Longrightarrow> limits_ok db'"
  by (simp add: limits_ok_def)

text \<open>What a lookup does: a hit, or evictions and then perhaps a reservation.\<close>

lemma lookup_cases:
  assumes "cache_lookup k db = (db', r)"
  obtains (hit) u where "list_ex (cache_matches k) (db_cache db)" "r = Inr (Some k)" "db_options db' = db_options db"
      "db_cache_bytes db' = db_cache_bytes db"
      "db_cache db' = update_entry k (\<lambda>c. c\<lparr>ce_references := ce_references c + 1, ce_used := u\<rparr>) (db_cache db)"
    | (miss) db1 where "r = Inr None" "evict_loop (db\<lparr>db_cache_misses := add64 (db_cache_misses db) 1\<rparr>) = (db1, Inr ())"
      "db' = db1\<lparr>db_cache_bytes := db_cache_bytes db1 + cache_reservation db1\<rparr>"
    | (full) e where "r = Inl e" "evict_loop (db\<lparr>db_cache_misses := add64 (db_cache_misses db) 1\<rparr>) = (db', Inl e)"
proof (cases "list_ex (cache_matches k) (db_cache db)")
  case True
  then show ?thesis using assms hit by (auto simp: cache_lookup_def Let_def)
next
  case False
  obtain db1 q where "evict_loop (db\<lparr>db_cache_misses := add64 (db_cache_misses db) 1\<rparr>) = (db1, q)" by fastforce
  then show ?thesis using False assms miss full by (cases q) (auto simp: cache_lookup_def)
qed

lemma counted_ok:
  assumes "cache_entries_ok held (db_cache db)" "cache_budget_ok n db" "limits_ok db"
  shows "cache_entries_ok held (db_cache (db\<lparr>db_cache_misses := m\<rparr>))" "cache_budget_ok n (db\<lparr>db_cache_misses := m\<rparr>)" "limits_ok (db\<lparr>db_cache_misses := m\<rparr>)"
  using assms by (simp_all add: cache_budget_ok_def cache_reservation_def limits_ok_def)

lemma returned_ok:
  assumes "cache_budget_ok (Suc n) db" "limits_ok db"
  shows "cache_budget_ok n (db\<lparr>db_cache_bytes := sub64 (db_cache_bytes db) (cache_reservation db)\<rparr>)"
    "sub64 (db_cache_bytes db) (cache_reservation db) + cache_reservation db \<le> op_read_cache_bytes (db_options db)"
  using assms by (simp_all add: cache_budget_ok_def limits_ok_def sub64_exact cache_reservation_def)

lemma publish_cases:
  assumes "cache_publish k loaded db0 = (db', r)" and budget: "cache_budget_ok (Suc n) db0" "limits_ok db0"
    and fits: "\<forall>d. loaded = Inr d \<longrightarrow> di_allocated d \<le> op_dictionary_limit_bytes (db_options db0)"
  shows "cache_budget_ok n db' \<and> db_options db' = db_options db0 \<and>
    (case r of Inl _ \<Rightarrow> db_cache db' = db_cache db0
     | Inr _ \<Rightarrow> r = Inr k \<and>
         (if list_ex (cache_matches k) (db_cache db0)
          then \<exists>u. db_cache db' = update_entry k (\<lambda>c. c\<lparr>ce_references := ce_references c + 1, ce_used := u\<rparr>) (db_cache db0)
          else \<exists>c. db_cache db' = c # db_cache db0 \<and> entry_key c = k \<and> ce_references c = 1))"
proof -
  let ?db = "db0\<lparr>db_cache_bytes := sub64 (db_cache_bytes db0) (cache_reservation db0)\<rparr>"
  note ret = returned_ok [OF budget]
  show ?thesis
  proof (cases loaded)
    case (Inl e)
    then show ?thesis using assms(1) ret by (auto simp: cache_publish_def Let_def)
  next
    case (Inr d)
    let ?u = "add64 (db_cache_clock ?db) 1"
    let ?bump = "update_entry k (\<lambda>c. c\<lparr>ce_references := ce_references c + 1, ce_used := ?u\<rparr>) (db_cache db0)"
    show ?thesis
    proof (cases "list_ex (cache_matches k) (db_cache db0)")
      case True
      then have e: "db' = ?db\<lparr>db_cache_clock := ?u, db_cache := ?bump\<rparr>" "r = Inr k" using assms(1) Inr by (simp_all add: cache_publish_def Let_def)
      have "cache_budget_ok n db'" using ret(1) e(1) update_entry_charges [of "\<lambda>c. c\<lparr>ce_references := ce_references c + 1, ce_used := ?u\<rparr>" k "db_cache db0"]
        by (intro budget_mono [OF ret(1)]) simp_all
      then show ?thesis using e True by auto
    next
      case False
      obtain a b bd cr where k: "k = (a, b, bd, cr)" by (metis surj_pair)
      let ?c = "\<lparr>ce_table_id = a, ce_segment_id = b, ce_covered_bytes = bd, ce_used = ?u, ce_dictionary_crc = cr, ce_references = 1,
          ce_charge = SIZEOF_CACHE_ENTRY + di_allocated d, ce_dictionary = d\<rparr>"
      have e: "db' = ?db\<lparr>db_cache_clock := ?u, db_cache := ?c # db_cache db0, db_cache_bytes := db_cache_bytes ?db + (SIZEOF_CACHE_ENTRY + di_allocated d)\<rparr>" "r = Inr k"
        using assms(1) Inr False k by (simp_all add: cache_publish_def Let_def)
      have "SIZEOF_CACHE_ENTRY + di_allocated d \<le> cache_reservation db0"
        using fits Inr budget(2) by (simp add: cache_reservation_def limits_ok_def add64_exact)
      then have "cache_budget_ok n db'" using ret e(1) by (simp add: cache_budget_ok_def cache_reservation_def)
      moreover have "entry_key ?c = k" by (simp add: entry_key_def k)
      ultimately show ?thesis using e False by auto
    qed
  qed
qed

lemma cache_step_ok: "cache_step s s' \<Longrightarrow> cache_ok s \<Longrightarrow> cache_ok s'"
proof (induction rule: cache_step.induct)
  case (Hit k s db)
  from Hit(1) show ?case
  proof (cases rule: lookup_cases)
    case (hit u)
    then show ?thesis using Hit(2,3) bump_entry_ok [OF _ hit(1)]
      update_entry_charges [of "\<lambda>c. c\<lparr>ce_references := ce_references c + 1, ce_used := u\<rparr>" k "db_cache (cs_db s)"]
      by (auto simp: cache_ok_def intro: budget_mono limits_mono)
  qed simp_all
next
  case (Miss k s db)
  have p: "cache_entries_ok (cs_held s) (db_cache (cs_db s))" "cache_budget_ok (cs_loading s) (cs_db s)" "limits_ok (cs_db s)"
    using Miss(2) by (simp_all add: cache_ok_def)
  from Miss(1) show ?case
  proof (cases rule: lookup_cases)
    case (miss db1)
    have "cache_entries_ok (cs_held s) (db_cache db1) \<and> cache_budget_ok (cs_loading s) db1 \<and> db_options db1 = db_options (cs_db s) \<and>
        db_cache_bytes db1 + cache_reservation db1 \<le> op_read_cache_bytes (db_options db1)"
      using evict_loop_ok [OF miss(2) counted_ok [OF p]] by auto
    then show ?thesis using miss(3) Miss(2) by (auto simp: cache_ok_def cache_budget_ok_def cache_reservation_def limits_ok_def)
  qed simp_all
next
  case (Refuse k s db e)
  have p: "cache_entries_ok (cs_held s) (db_cache (cs_db s))" "cache_budget_ok (cs_loading s) (cs_db s)" "limits_ok (cs_db s)"
    using Refuse(2) by (simp_all add: cache_ok_def)
  from Refuse(1) show ?case
  proof (cases rule: lookup_cases)
    case (full e')
    then show ?thesis using evict_loop_ok [OF full(2) counted_ok [OF p]] p(3) limits_mono by (auto simp: cache_ok_def)
  qed simp_all
next
  case (Publish s n loaded k db)
  have p: "cache_budget_ok (Suc n) (cs_db s)" "limits_ok (cs_db s)" "cache_entries_ok (cs_held s) (db_cache (cs_db s))" using Publish by (simp_all add: cache_ok_def)
  have "cache_entries_ok ((cs_held s)(k := cs_held s k + 1)) (db_cache db)"
  proof (cases "list_ex (cache_matches k) (db_cache (cs_db s))")
    case True
    then show ?thesis using publish_cases [OF Publish(3) p(1,2) Publish(2)] bump_entry_ok [OF p(3) True Publish(4)] by auto
  next
    case False
    then show ?thesis using publish_cases [OF Publish(3) p(1,2) Publish(2)] insert_entry_ok [OF p(3) False] by auto
  qed
  then show ?case using publish_cases [OF Publish(3) p(1,2) Publish(2)] p(2) limits_mono by (auto simp: cache_ok_def)
next
  case (Abandon s n k loaded db e)
  have b: "cache_budget_ok (Suc n) (cs_db s)" "limits_ok (cs_db s)" using Abandon by (simp_all add: cache_ok_def)
  obtain x where "loaded = Inl x" using Abandon(2) by (cases loaded) (auto simp: cache_publish_def Let_def split: if_splits)
  then show ?case using publish_cases [OF Abandon(2) b] Abandon(3) by (auto simp: cache_ok_def intro: limits_mono)
next
  case (Release s k)
  then show ?case using release_entry_ok [of "cs_held s" _ k, OF _ Release(1)] update_entry_charges [of "\<lambda>c. c\<lparr>ce_references := sub64 (ce_references c) 1\<rparr>" k "db_cache (cs_db s)"]
    by (auto simp: cache_ok_def wadb_cache_release_def intro: budget_mono limits_mono)
qed

interpretation caching: step_invariant cache_step cache_ok
  by unfold_locales (rule cache_step_ok)

lemma cache_start_ok: "cache_start s \<Longrightarrow> limits_ok (cs_db s) \<Longrightarrow> cache_ok s"
  by (auto simp: cache_ok_def cache_start_def cache_entries_ok_def cache_budget_ok_def)

lemma cached_dictionary_update:
  assumes "distinct (map entry_key cs)" "\<And>c. entry_key (f c) = entry_key c" "\<And>c. ce_dictionary (f c) = ce_dictionary c" "k \<in> entry_key ` set cs"
  shows "ce_dictionary (the (find (cache_matches k) (update_entry j f cs))) = ce_dictionary (the (find (cache_matches k) cs))"
  using assms(1,4)
proof (induction cs)
  case (Cons c cs)
  then show ?case using assms(2,3) by (auto simp: cache_matches_def)
qed simp

lemma find_subset:
  assumes "distinct (map entry_key cs)" "set ds \<subseteq> set cs" "k \<in> entry_key ` set ds" "distinct (map entry_key ds)"
  shows "find (cache_matches k) ds = find (cache_matches k) cs"
proof -
  obtain c where c: "find (cache_matches k) ds = Some c" using assms(3) by (cases "find (cache_matches k) ds") (auto simp: find_None_iff cache_matches_def)
  then have d: "c \<in> set ds" "entry_key c = k" by (auto simp: find_Some_iff cache_matches_def)
  obtain e where e: "find (cache_matches k) cs = Some e" using assms(2) d by (cases "find (cache_matches k) cs") (auto simp: find_None_iff cache_matches_def)
  then have "e \<in> set cs" "entry_key e = k" by (auto simp: find_Some_iff cache_matches_def)
  then have "e = c" using assms(1,2) d by (auto simp: distinct_map dest: inj_onD)
  then show ?thesis using c e by simp
qed

text \<open>A held dictionary is the same one after every step.\<close>

lemma cache_step_dictionary:
  assumes "cache_step s s'" "cache_ok s" "0 < cs_held s k"
  shows "cached_dictionary k (cs_db s') = cached_dictionary k (cs_db s)"
proof -
  have p: "cache_entries_ok (cs_held s) (db_cache (cs_db s))" "cache_budget_ok (cs_loading s) (cs_db s)" "limits_ok (cs_db s)"
    using assms(2) by (simp_all add: cache_ok_def)
  have d: "distinct (map entry_key (db_cache (cs_db s)))" using p(1) by (simp add: cache_entries_ok_def)
  have held: "k \<in> entry_key ` set cs" if "cache_entries_ok (cs_held s) cs" for cs using that assms(3) unfolding cache_entries_ok_def by blast
  have evict: "ce_dictionary (the (find (cache_matches k) cs)) = cached_dictionary k (cs_db s)"
    if "cache_entries_ok (cs_held s) cs" "set cs \<subseteq> set (db_cache (cs_db s))" for cs
    using find_subset [OF d that(2) held [OF that(1)]] that(1) by (simp add: cached_dictionary_def cache_entries_ok_def)
  have change: "cached_dictionary k db = cached_dictionary k (cs_db s)"
    if "db_cache db = update_entry j f (db_cache (cs_db s))" "\<And>c. entry_key (f c) = entry_key c" "\<And>c. ce_dictionary (f c) = ce_dictionary c" for db j f
    using cached_dictionary_update [of "db_cache (cs_db s)" f k j, OF d that(2,3) held [OF p(1)]] that(1) by (simp add: cached_dictionary_def)
  from assms(1) show ?thesis
  proof cases
    case (Hit j db)
    from Hit(2) show ?thesis
    proof (cases rule: lookup_cases)
      case (hit u)
      show ?thesis using change [OF hit(5)] Hit(1) by (simp add: entry_key_def)
    qed simp_all
  next
    case (Miss j db)
    from Miss(2) show ?thesis
    proof (cases rule: lookup_cases)
      case (miss db1)
      show ?thesis using evict_loop_ok [OF miss(2) counted_ok [OF p]] evict miss(3) Miss(1) by (auto simp: cached_dictionary_def)
    qed simp_all
  next
    case (Refuse j db e)
    from Refuse(2) show ?thesis
    proof (cases rule: lookup_cases)
      case (full e')
      show ?thesis using evict_loop_ok [OF full(2) counted_ok [OF p]] evict Refuse(1) by (auto simp: cached_dictionary_def)
    qed simp_all
  next
    case (Publish n loaded j db)
    have b: "cache_budget_ok (Suc n) (cs_db s)" using p(2) Publish(2) by simp
    show ?thesis
    proof (cases "list_ex (cache_matches j) (db_cache (cs_db s))")
      case True
      then obtain u where "db_cache db = update_entry j (\<lambda>c. c\<lparr>ce_references := ce_references c + 1, ce_used := u\<rparr>) (db_cache (cs_db s))"
        using publish_cases [OF Publish(4) b p(3) Publish(3)] by auto
      from change [OF this] show ?thesis using Publish(1) by (simp add: entry_key_def)
    next
      case False
      then obtain c where c: "db_cache db = c # db_cache (cs_db s)" "entry_key c = j" using publish_cases [OF Publish(4) b p(3) Publish(3)] by auto
      have "j \<noteq> k" using False held [OF p(1)] by (auto simp: list_ex_iff cache_matches_def)
      then show ?thesis using c Publish(1) by (simp add: cached_dictionary_def cache_matches_def)
    qed
  next
    case (Abandon n j loaded db e)
    have b: "cache_budget_ok (Suc n) (cs_db s)" using p(2) Abandon(2) by simp
    obtain x where "loaded = Inl x" using Abandon(3) by (cases loaded) (auto simp: cache_publish_def Let_def split: if_splits)
    then show ?thesis using publish_cases [OF Abandon(3) b p(3)] Abandon(1) by (auto simp: cached_dictionary_def)
  next
    case (Release j)
    then show ?thesis using change [of "wadb_cache_release j (cs_db s)" j "\<lambda>c. c\<lparr>ce_references := sub64 (ce_references c) 1\<rparr>"]
      by (simp add: wadb_cache_release_def entry_key_def)
  qed
qed

lemma cache_ok_present: "cache_ok s \<Longrightarrow> 0 < cs_held s k \<Longrightarrow> k \<in> cached_keys (cs_db s)"
  unfolding cache_ok_def cache_entries_ok_def cached_keys_def by blast

lemma release_keys: "cached_keys (wadb_cache_release k db) = cached_keys db"
proof -
  have "map entry_key (db_cache (wadb_cache_release k db)) = map entry_key (db_cache db)"
    by (simp add: wadb_cache_release_def update_entry_keys entry_key_def)
  then show ?thesis by (metis cached_keys_def image_set)
qed

lemma cache_step_present:
  assumes "cache_step s s'" "cache_ok s" "0 < cs_held s k"
  shows "k \<in> cached_keys (cs_db s')"
  using assms(1)
proof cases
  case (Release j)
  then show ?thesis using cache_ok_present [OF assms(2,3)] by (simp add: release_keys)
qed (use assms(3) cache_ok_present [OF cache_step_ok [OF assms(1,2)], of k] in \<open>auto split: if_splits\<close>)

section \<open>Properties\<close>

text \<open>
  C6: Sharing the dictionary cache. Whatever the order of the critical sections of its readers, the
  bytes that the cache accounts for are those of its entries and of the reservations of readers that
  are loading, and they never exceed the configured limit; and a dictionary that a reader holds is
  neither evicted nor replaced by any step.
\<close>

theorem cache_safety:
  assumes "cache_start s0" and "limits_ok (cs_db s0)" and "cache_step\<^sup>*\<^sup>* s0 s"
  shows "db_cache_bytes (cs_db s) = sum_list (map ce_charge (db_cache (cs_db s))) + cs_loading s * cache_reservation (cs_db s) \<and>
    db_cache_bytes (cs_db s) \<le> op_read_cache_bytes (db_options (cs_db s)) \<and>
    (\<forall>k s'. 0 < cs_held s k \<longrightarrow> cache_step s s' \<longrightarrow>
       k \<in> cached_keys (cs_db s) \<and> k \<in> cached_keys (cs_db s') \<and> cached_dictionary k (cs_db s') = cached_dictionary k (cs_db s))"
proof -
  have ok: "cache_ok s" using caching.reachable [OF assms(3) cache_start_ok [OF assms(1,2)]] .
  show ?thesis using ok cache_step_dictionary [OF _ ok] cache_step_present [OF _ ok] cache_ok_present [OF ok]
    by (simp add: cache_ok_def cache_budget_ok_def)
qed

definition example_cache :: cache_state where
  "example_cache = \<lparr>cs_db = empty_db, cs_loading = 0, cs_held = (\<lambda>_. 0)\<rparr>"

theorem cache_safety_witness:
  "\<exists>s s'. cache_step\<^sup>*\<^sup>* example_cache s \<and> cache_step s s' \<and> 0 < cs_held s (1, 1, 128, 0) \<and>
     (1, 1, 128, 0) \<in> cached_keys (cs_db s') \<and> cached_dictionary (1, 1, 128, 0) (cs_db s') = cached_dictionary (1, 1, 128, 0) (cs_db s) \<and>
     db_cache_bytes (cs_db s) \<le> op_read_cache_bytes (db_options (cs_db s))"
proof -
  let ?k = "(1, 1, 128, 0) :: cache_key" and ?d = "example_dictionary\<lparr>di_allocated := 4096\<rparr>"
  have "\<exists>db1. cache_lookup ?k empty_db = (db1, Inr None) \<and> db_cache db1 = [] \<and> db_options db1 = wadb_options_default"
    by (simp add: cache_lookup_def empty_db_def evict_loop.simps cache_reservation_def wadb_options_default_def SIZEOF_CACHE_ENTRY_def
        add64_def sub64_exact)
  then obtain db1 where l: "cache_lookup ?k empty_db = (db1, Inr None)" "db_cache db1 = []" "db_options db1 = wadb_options_default" by blast
  define s1 where "s1 = \<lparr>cs_db = db1, cs_loading = 1, cs_held = (\<lambda>_. 0 :: nat)\<rparr>"
  have 1: "cache_step example_cache s1" using cache_step.Miss [of ?k example_cache db1] l(1) by (simp add: example_cache_def s1_def)
  obtain db2 where p: "cache_publish ?k (Inr ?d) db1 = (db2, Inr ?k)" using l(2) by (simp add: cache_publish_def Let_def)
  define s2 where "s2 = \<lparr>cs_db = db2, cs_loading = 0, cs_held = (\<lambda>_. 0 :: nat)(?k := 1)\<rparr>"
  have 2: "cache_step s1 s2" using cache_step.Publish [of s1 0 "Inr ?d" ?k db2] p l(3) by (simp add: s1_def s2_def wadb_options_default_def)
  define s3 where "s3 = s2\<lparr>cs_db := wadb_cache_release ?k db2, cs_held := (cs_held s2)(?k := 0)\<rparr>"
  have 3: "cache_step s2 s3" using cache_step.Release [of s2 ?k] by (simp add: s2_def s3_def)
  have r: "cache_step\<^sup>*\<^sup>* example_cache s2" using 1 2 by (meson rtranclp.simps)
  have i: "cache_start example_cache" "limits_ok (cs_db example_cache)"
    by (simp_all add: cache_start_def example_cache_def empty_db_def limits_ok_def wadb_options_default_def SIZEOF_CACHE_ENTRY_def)
  have h: "0 < cs_held s2 ?k" by (simp add: s2_def)
  from cache_safety [OF i r] r 3 h show ?thesis by blast
qed

end
