(* ===== verification/Wadb_Scan.thy ===== *)
theory Wadb_Scan
  imports Wadb_Readers
begin

unbundle bit_operations_syntax

text \<open>
  Scanning a snapshot (\<^verbatim>\<open>src/query/scan.c\<close>), executing a whole query (the end of
  \<^verbatim>\<open>src/query/query.c\<close>) and paging through results with cursors (\<^verbatim>\<open>src/query/cursor.c\<close>).

  The row callback is a computation on the system and a context of its own; for queries it is
  \<^verbatim>\<open>consume\<close> on the structure \<^verbatim>\<open>execution\<close>. The local variables of a scan, the database and the
  context are one record.
\<close>

section \<open>Definitions\<close>

record 'c scan_state =
  sx_db :: wadb_db
  sx_reader :: wadb_index_reader
  sx_accounted :: nat
  sx_cached :: "cache_key option"
  sx_dictionary :: "wadb_dictionary option"
  sx_stats :: wadb_scan_stats
  sx_context :: 'c
  sx_callback_failed :: bool

type_synonym ('c, 'a) scanning = "(world \<times> 'c scan_state, 'a) io"

definition empty_stats :: "nat \<Rightarrow> wadb_scan_stats" where
  "empty_stats sequence =
     \<lparr>ss_rows_scanned = 0, ss_rows_returned = 0, ss_bytes_scanned = 0, ss_snapshot_sequence = sequence, ss_index_bytes = 0,
      ss_dictionary_bytes = 0, ss_frames_scanned = 0, ss_segments_scanned = 0, ss_rebuild_bytes = 0, ss_last_sequence = 0,
      ss_limit_reached = False\<rparr>"

definition on_reader :: "(world \<times> wadb_index_reader, 'a) io \<Rightarrow> ('c, 'a) scanning" where
  "on_reader m = (\<lambda>(w, x). case m (w, sx_reader x) of ((w', r), res) \<Rightarrow> ((w', x\<lparr>sx_reader := r\<rparr>), res))"

definition modify_stats :: "(wadb_scan_stats \<Rightarrow> wadb_scan_stats) \<Rightarrow> ('c, unit) scanning" where
  "modify_stats f = modify (\<lambda>x. x\<lparr>sx_stats := f (sx_stats x)\<rparr>)"

definition check_header :: "wadb_table \<Rightarrow> wadb_segment_meta \<Rightarrow> path \<Rightarrow> (world, unit) io" where
  "check_header t s path =
     bind_io (read_segment_header path) (\<lambda>h. ensure_io (\<not> header_mismatch t s h) WADB_CORRUPT)"

definition check_deadline :: "nat \<Rightarrow> (world, unit) io" where
  "check_deadline deadline w = (case clock_ns w of (w', now) \<Rightarrow> (w', if now \<ge> deadline then Inl WADB_LIMIT else Inr ()))"

text \<open>The dictionary of the active segment is replayed from the frames that add to it.\<close>

definition section_frame :: "wadb_index_entry \<Rightarrow> bytes \<Rightarrow> wadb_frame" where
  "section_frame v p =
     \<lparr>fr_schema_hash = 0, fr_first_sequence = 0, fr_min_time = 0, fr_max_time = 0, fr_row_count = 0, fr_row_width = 0,
      fr_dictionary_count = ie_dictionary_count v, fr_dictionary_bytes = length p, fr_dictionary = Some p, fr_rows = None,
      fr_frame_bytes = 0, fr_rows_offset = 0\<rparr>"

fun apply_entries :: "path \<Rightarrow> nat \<Rightarrow> wadb_index_entry list \<Rightarrow> wadb_dictionary \<Rightarrow> (world, wadb_dictionary) io" where
  "apply_entries path deadline [] d w = (w, Inr d)"
| "apply_entries path deadline (v # vs) d w =
     (if ie_dictionary_count v = 0 then apply_entries path deadline vs d w
      else
        (let n = sub32 (ie_rows_offset v) WADB_FRAME_HEADER_BYTES in
         bind_io (check_deadline deadline) (\<lambda>_. bind_io (call WADB_NOMEM) (\<lambda>_.
           bind_io (wadb_pread_all path n (ie_frame_offset v + WADB_FRAME_HEADER_BYTES)) (\<lambda>p.
             bind_io (ensure_io (wadb_crc32c p = ie_dictionary_crc v) WADB_CORRUPT) (\<lambda>_.
               bind_io (apply_frame d (section_frame v p)) (apply_entries path deadline vs))))) w))"

definition active_dictionary ::
  "nat \<Rightarrow> wadb_table \<Rightarrow> path \<Rightarrow> wadb_index_entry list \<Rightarrow> nat \<Rightarrow> (world, wadb_dictionary) io" where
  "active_dictionary limit t path entries deadline =
     bind_io (with_allocs 2 (\<lambda>a. wadb_dictionary_new a (tb_schema t) limit)) (apply_entries path deadline entries)"

text \<open>Bytes read to rebuild an index count against the budget of the scan.\<close>

definition account_rebuild :: "nat \<Rightarrow> ('c, unit) scanning" where
  "account_rebuild budget = (\<lambda>(w, x).
     let extra = sub64 (ir_rebuilt_bytes (sx_reader x)) (sx_accounted x); st = sx_stats x in
     if extra > sub64 budget (ss_bytes_scanned st) then ((w, x), Inl WADB_LIMIT)
     else
       (let scanned = add64 (ss_bytes_scanned st) extra in
        ((w, x\<lparr>sx_stats := st\<lparr>ss_bytes_scanned := scanned, ss_rebuild_bytes := add64 (ss_rebuild_bytes st) extra\<rparr>,
                sx_accounted := ir_rebuilt_bytes (sx_reader x),
                sx_reader := (sx_reader x)\<lparr>ir_rebuild_budget := sub64 budget scanned\<rparr>\<rparr>), Inr ())))"

fun decode_values :: "wadb_schema \<Rightarrow> bytes \<Rightarrow> wadb_dictionary \<Rightarrow> nat list \<Rightarrow> wadb_value list res" where
  "decode_values s p d [] = Inr []"
| "decode_values s p d (i # is) =
     bind_res (wadb_decode_value s i p (Some (wadb_dictionary_resolve d))) (\<lambda>v.
       bind_res (decode_values s p d is) (\<lambda>vs. Inr (v # vs)))"

definition row_wanted :: "wadb_scan_options \<Rightarrow> nat \<Rightarrow> int \<Rightarrow> nat \<Rightarrow> bool" where
  "row_wanted opts snapshot_sequence time sequence \<longleftrightarrow>
     \<not> (time < so_start_time opts \<or> time \<ge> so_end_time opts \<or> sequence \<le> so_after_sequence opts \<or> sequence > snapshot_sequence)"

text \<open>Passing a decoded row to the callback and counting it.\<close>

definition return_row ::
  "(nat \<Rightarrow> wadb_value list \<Rightarrow> (world \<times> 'c, unit) io) \<Rightarrow> wadb_scan_options \<Rightarrow> nat \<Rightarrow> wadb_value list \<Rightarrow> ('c, unit) scanning" where
  "return_row callback opts sequence values = (\<lambda>(w, x).
     case callback sequence values (w, sx_context x) of
       ((w', c), Inl e) \<Rightarrow> ((w', x\<lparr>sx_context := c, sx_callback_failed := True\<rparr>), Inl e)
     | ((w', c), Inr _) \<Rightarrow>
         let st = sx_stats x; returned = ss_rows_returned st + 1 in
         ((w', x\<lparr>sx_context := c,
                 sx_stats := st\<lparr>ss_rows_returned := returned, ss_last_sequence := sequence,
                                ss_limit_reached := (ss_limit_reached st \<or> returned = so_limit opts)\<rparr>\<rparr>), Inr ()))"

definition scan_row ::
  "(nat \<Rightarrow> wadb_value list \<Rightarrow> (world \<times> 'c, unit) io) \<Rightarrow> wadb_table \<Rightarrow> wadb_scan_options \<Rightarrow> nat \<Rightarrow> wadb_frame \<Rightarrow> nat \<Rightarrow>
   ('c, unit) scanning" where
  "scan_row callback t opts deadline f row =
     bind_io (if row mod 256 = 0 then on_world (check_deadline deadline) else return_io ()) (\<lambda>_.
       bind_io (modify_stats (\<lambda>st. st\<lparr>ss_rows_scanned := add64 (ss_rows_scanned st) 1\<rparr>)) (\<lambda>_ (w, x).
         let sequence = add64 (fr_first_sequence f) row;
             p = take (fr_row_width f) (drop (row * fr_row_width f) (the (fr_rows f)));
             d = the (sx_dictionary x) in
         if \<not> row_wanted opts (ss_snapshot_sequence (sx_stats x)) (wadb_get_i64 p) sequence then ((w, x), Inr ())
         else
           bind_io (from_res (wadb_validate_row (tb_schema t) p (Some (wadb_dictionary_resolve d)))) (\<lambda>_.
             bind_io (from_res (decode_values (tb_schema t) p d [0..<field_count (tb_schema t)])) (\<lambda>values.
               return_row callback opts sequence values)) (w, x)))"

fun scan_rows ::
  "(nat \<Rightarrow> wadb_value list \<Rightarrow> (world \<times> 'c, unit) io) \<Rightarrow> wadb_table \<Rightarrow> wadb_scan_options \<Rightarrow> nat \<Rightarrow> wadb_frame \<Rightarrow> nat list \<Rightarrow>
   ('c, unit) scanning" where
  "scan_rows callback t opts deadline f [] st = (st, Inr ())"
| "scan_rows callback t opts deadline f (row # rows) st =
     (case scan_row callback t opts deadline f row st of
        (st', Inl e) \<Rightarrow> (st', Inl e)
      | ((w, x), Inr _) \<Rightarrow>
          if ss_limit_reached (sx_stats x) then ((w, x), Inr ())
          else scan_rows callback t opts deadline f rows (w, x))"

definition frame_contradicts :: "wadb_table \<Rightarrow> wadb_index_entry \<Rightarrow> bytes \<Rightarrow> wadb_frame \<Rightarrow> bool" where
  "frame_contradicts t v bytes f \<longleftrightarrow>
     fr_schema_hash f \<noteq> fingerprint (tb_schema t) \<or> fr_row_width f \<noteq> row_width (tb_schema t) \<or>
     fr_first_sequence f \<noteq> ie_first_sequence v \<or> fr_row_count f \<noteq> ie_row_count v \<or>
     fr_min_time f \<noteq> ie_min_time v \<or> fr_max_time f \<noteq> ie_max_time v \<or>
     wadb_get_u32 (drop (ie_frame_bytes v - 4) bytes) \<noteq> ie_frame_crc v"

text \<open>Reading the frame of an index entry and its rows.\<close>

definition read_frame ::
  "(nat \<Rightarrow> wadb_value list \<Rightarrow> (world \<times> 'c, unit) io) \<Rightarrow> wadb_table \<Rightarrow> wadb_scan_options \<Rightarrow> nat \<Rightarrow> path \<Rightarrow> wadb_index_entry \<Rightarrow>
   ('c, unit) scanning" where
  "read_frame callback t opts deadline path v =
     bind_io (modify_stats (\<lambda>st. st\<lparr>ss_bytes_scanned := add64 (ss_bytes_scanned st) (ie_frame_bytes v)\<rparr>)) (\<lambda>_.
       bind_io (on_world (call WADB_NOMEM)) (\<lambda>_.
         bind_io (on_world (wadb_pread_all path (ie_frame_bytes v) (ie_frame_offset v))) (\<lambda>bytes.
           bind_io (from_res (wadb_frame_decode bytes)) (\<lambda>f.
             bind_io (ensure_io (\<not> frame_contradicts t v bytes f) WADB_CORRUPT) (\<lambda>_.
               bind_io (modify_stats (\<lambda>st. st\<lparr>ss_frames_scanned := add64 (ss_frames_scanned st) 1\<rparr>)) (\<lambda>_.
                 scan_rows callback t opts deadline f [0..<fr_row_count f]))))))"

text \<open>One position of the index; \<open>False\<close> ends the segment.\<close>

definition scan_frame ::
  "(nat \<Rightarrow> wadb_value list \<Rightarrow> (world \<times> 'c, unit) io) \<Rightarrow> nat \<Rightarrow> wadb_table \<Rightarrow> wadb_scan_options \<Rightarrow> nat \<Rightarrow> path \<Rightarrow> nat \<Rightarrow>
   ('c, bool) scanning" where
  "scan_frame callback limit t opts deadline path position =
     bind_io (on_world (check_deadline deadline)) (\<lambda>_.
       bind_io (modify (\<lambda>x. x\<lparr>sx_reader := (sx_reader x)\<lparr>ir_rebuild_budget :=
                  sub64 (so_max_scan_bytes opts) (ss_bytes_scanned (sx_stats x))\<rparr>\<rparr>)) (\<lambda>_.
         bind_io (on_reader (wadb_index_get limit t position)) (\<lambda>v.
           bind_io (account_rebuild (so_max_scan_bytes opts)) (\<lambda>_ (w, x).
             if ie_min_time v \<ge> so_end_time opts then ((w, x), Inr False)
             else if ie_frame_bytes v > sub64 (so_max_scan_bytes opts) (ss_bytes_scanned (sx_stats x)) then ((w, x), Inl WADB_LIMIT)
             else bind_io (read_frame callback t opts deadline path v) (\<lambda>_. return_io True) (w, x)))))"


text \<open>A reader keeps the number of its entries, except that it may be repaired once.\<close>

definition reader_kept :: "wadb_index_reader \<Rightarrow> wadb_index_reader \<Rightarrow> bool" where
  "reader_kept r r' \<longleftrightarrow> (ir_repaired r' = ir_repaired r \<and> ir_count r' = ir_count r) \<or> (\<not> ir_repaired r \<and> ir_repaired r')"

lemma load_page_kept: "load_page page (w, r) = ((w', r'), res) \<Longrightarrow> ir_repaired r' = ir_repaired r \<and> ir_count r' = ir_count r"
  by (auto simp: load_page_def Let_def bind_io_def modify_def on_world_def split: prod.splits sum.splits)

lemma get_raw_kept: "get_raw t position (w, r) = ((w', r'), res) \<Longrightarrow> ir_repaired r' = ir_repaired r \<and> ir_count r' = ir_count r"
  by (auto simp: get_raw_def bind_io_def return_io_def dest: load_page_kept split: if_splits option.splits prod.splits sum.splits)

lemma repair_reader_repaired: "repair_reader limit t (w, r) = ((w', r'), Inr u) \<Longrightarrow> ir_repaired r'"
  by (auto simp: repair_reader_def Let_def io_ok install_rebuilt_def case_prod_beta split: if_splits)

lemma index_get_kept:
  assumes "wadb_index_get limit t position (w, r) = ((w', r'), Inr v)"
  shows "reader_kept r r'"
proof -
  obtain w1 r1 res where g: "get_raw t position (w, r) = ((w1, r1), res)" by (metis prod.exhaust)
  note k = get_raw_kept [OF g]
  show ?thesis
  proof (cases res)
    case (Inr v1)
    with assms g k show ?thesis by (auto simp: wadb_index_get_def reader_kept_def)
  next
    case (Inl e)
    with assms g obtain w2 r2 where m: "\<not> ir_repaired r1" "repair_reader limit t (w1, r1) = ((w2, r2), Inr ())"
      "get_raw t position (w2, r2) = ((w', r'), Inr v)"
      by (auto simp: wadb_index_get_def io_ok split: if_splits)
    show ?thesis using repair_reader_repaired [OF m(2)] get_raw_kept [OF m(3)] m(1) k by (simp add: reader_kept_def)
  qed
qed

lemma scanning_ok [io_ok]:
  "on_reader m (w, x) = ((w', x'), res) \<longleftrightarrow> (\<exists>r. m (w, sx_reader x) = ((w', r), res) \<and> x' = x\<lparr>sx_reader := r\<rparr>)"
  "modify_stats f (w, x) = ((w', x'), Inr u) \<longleftrightarrow> w' = w \<and> x' = x\<lparr>sx_stats := f (sx_stats x)\<rparr>"
  by (auto simp: on_reader_def modify_stats_def modify_def split: prod.splits)

lemma return_row_reader: "return_row callback opts sequence values (w, x) = ((w', x'), res) \<Longrightarrow> sx_reader x' = sx_reader x"
  by (auto simp: return_row_def Let_def split: prod.splits sum.splits)

lemma scan_row_reader: "scan_row callback t opts deadline f row (w, x) = ((w', x'), Inr u) \<Longrightarrow> sx_reader x' = sx_reader x"
  by (auto simp: scan_row_def io_ok Let_def dest: return_row_reader split: if_splits)

lemma scan_rows_reader:
  "scan_rows callback t opts deadline f rows (w, x) = ((w', x'), Inr u) \<Longrightarrow> sx_reader x' = sx_reader x"
  by (induction rows arbitrary: w x) (auto dest: scan_row_reader split: if_splits prod.splits sum.splits)

lemma scan_frame_kept:
  assumes "scan_frame callback limit t opts deadline path position (w, x) = ((w', x'), Inr True)"
  shows "reader_kept (sx_reader x) (sx_reader x')"
proof -
  have b: "reader_kept (r\<lparr>ir_rebuild_budget := n\<rparr>) r' \<longleftrightarrow> reader_kept r r'"
    "reader_kept r (r'\<lparr>ir_rebuild_budget := n\<rparr>) \<longleftrightarrow> reader_kept r r'" for r r' n
    by (simp_all add: reader_kept_def)
  from assms show ?thesis
    by (auto simp: scan_frame_def read_frame_def account_rebuild_def io_ok Let_def b
             dest!: index_get_kept scan_rows_reader split: if_splits)
qed

function scan_frames ::
  "(nat \<Rightarrow> wadb_value list \<Rightarrow> (world \<times> 'c, unit) io) \<Rightarrow> nat \<Rightarrow> wadb_table \<Rightarrow> wadb_scan_options \<Rightarrow> nat \<Rightarrow> path \<Rightarrow> nat \<Rightarrow>
   ('c, unit) scanning" where
  "scan_frames callback limit t opts deadline path position (w, x) =
     (if position < ir_count (sx_reader x) \<and> \<not> ss_limit_reached (sx_stats x) then
        (case scan_frame callback limit t opts deadline path position (w, x) of
           (st, Inl e) \<Rightarrow> (st, Inl e)
         | (st, Inr False) \<Rightarrow> (st, Inr ())
         | (st, Inr True) \<Rightarrow> scan_frames callback limit t opts deadline path (position + 1) st)
      else ((w, x), Inr ()))"
  by pat_completeness auto
termination
proof (relation "inv_image (less_than <*lex*> less_than)
    (\<lambda>(callback, limit, t, opts, deadline, path, position, w, x).
       (if ir_repaired (sx_reader x) then 0 else 1, ir_count (sx_reader x) - position))", goal_cases)
  case 1
  show ?case by (intro wf_inv_image wf_lex_prod wf_less_than)
next
  case (2 callback limit t opts deadline path position w x st b)
  then have "scan_frame callback limit t opts deadline path position (w, x) = ((fst st, snd st), Inr True)" by (cases st) simp
  from scan_frame_kept [OF this] 2 show ?case by (cases st) (auto simp: reader_kept_def)
qed

declare scan_frames.simps [simp del]

text \<open>
  The reader, the dictionary and the first position of a segment. The active segment is read
  through the entries of the snapshot, others through their index file and the dictionary cache.
\<close>

definition active_reader :: "wadb_segment_meta \<Rightarrow> wadb_index_entry list \<Rightarrow> wadb_index_reader" where
  "active_reader s entries =
     (empty_reader s)\<lparr>ir_memory := entries_memory entries, ir_count := length entries,
       ir_dictionary_bytes := fold (\<lambda>v n. add64 n (sub32 (ie_rows_offset v) WADB_FRAME_HEADER_BYTES)) entries 0\<rparr>"

definition open_reader ::
  "nat \<Rightarrow> wadb_table \<Rightarrow> wadb_scan_options \<Rightarrow> nat \<Rightarrow> wadb_snapshot \<Rightarrow> wadb_segment_meta \<Rightarrow> ('c, unit) scanning" where
  "open_reader limit t opts deadline snapshot s =
     (if sg_state s = WADB_SEG_ACTIVE then modify (\<lambda>x. x\<lparr>sx_reader := active_reader s (sn_active snapshot)\<rparr>)
      else (\<lambda>(w, x). on_reader (wadb_index_open_bounded limit t s
              (sub64 (so_max_scan_bytes opts) (ss_bytes_scanned (sx_stats x))) deadline) (w, x)))"

definition charge_dictionary :: "wadb_scan_options \<Rightarrow> ('c, unit) scanning" where
  "charge_dictionary opts = (\<lambda>(w, x).
     let st = sx_stats x; n = ir_dictionary_bytes (sx_reader x) in
     if n > sub64 (so_max_scan_bytes opts) (ss_bytes_scanned st) then ((w, x), Inl WADB_LIMIT)
     else
       (let scanned = add64 (ss_bytes_scanned st) n in
        ((w, x\<lparr>sx_stats := st\<lparr>ss_dictionary_bytes := add64 (ss_dictionary_bytes st) n, ss_bytes_scanned := scanned\<rparr>,
                sx_reader := (sx_reader x)\<lparr>ir_rebuild_budget := sub64 (so_max_scan_bytes opts) scanned\<rparr>\<rparr>), Inr ())))"

definition cached_lookup :: "nat \<Rightarrow> ('c, unit) scanning" where
  "cached_lookup ti = (\<lambda>(w, x).
     case wadb_cache_acquire ti (sx_reader x) (w, sx_db x) of
       ((w', db), r, Inl e) \<Rightarrow> ((w', x\<lparr>sx_db := db, sx_reader := r\<rparr>), Inl e)
     | ((w', db), r, Inr k) \<Rightarrow>
         ((w', x\<lparr>sx_db := db, sx_reader := r, sx_cached := Some k, sx_dictionary := Some (cached_dictionary k db)\<rparr>), Inr ()))"

definition acquire_dictionary ::
  "nat \<Rightarrow> nat \<Rightarrow> wadb_table \<Rightarrow> nat \<Rightarrow> wadb_snapshot \<Rightarrow> wadb_segment_meta \<Rightarrow> path \<Rightarrow> ('c, unit) scanning" where
  "acquire_dictionary limit ti t deadline snapshot s path =
     (if sg_state s = WADB_SEG_ACTIVE then
        bind_io (on_world (active_dictionary limit t path (sn_active snapshot) deadline)) (\<lambda>d.
          modify (\<lambda>x. x\<lparr>sx_dictionary := Some d\<rparr>))
      else cached_lookup ti)"

definition read_segment ::
  "(nat \<Rightarrow> wadb_value list \<Rightarrow> (world \<times> 'c, unit) io) \<Rightarrow> nat \<Rightarrow> nat \<Rightarrow> wadb_table \<Rightarrow> wadb_scan_options \<Rightarrow> nat \<Rightarrow>
   wadb_snapshot \<Rightarrow> wadb_segment_meta \<Rightarrow> path \<Rightarrow> ('c, unit) scanning" where
  "read_segment callback limit ti t opts deadline snapshot s path =
     (let account = account_rebuild (so_max_scan_bytes opts) in
      bind_io (on_world (check_header t s path)) (\<lambda>_.
        bind_io (open_reader limit t opts deadline snapshot s) (\<lambda>_. bind_io account (\<lambda>_.
          bind_io (charge_dictionary opts) (\<lambda>_.
            bind_io (acquire_dictionary limit ti t deadline snapshot s path) (\<lambda>_. bind_io account (\<lambda>_.
              bind_io (on_reader (wadb_index_lower_bound limit t (so_start_time opts) (so_after_sequence opts))) (\<lambda>position.
                bind_io account (\<lambda>_. scan_frames callback limit t opts deadline path position)))))))))"

text \<open>What is done after a segment on every path.\<close>

definition leave_segment :: "'c scan_state \<Rightarrow> 'c scan_state" where
  "leave_segment x =
     (let st = sx_stats x; r = sx_reader x in
      x\<lparr>sx_stats := st\<lparr>ss_segments_scanned := add64 (ss_segments_scanned st) 1,
                       ss_index_bytes := add64 (ss_index_bytes st) (sub64 (ir_io_bytes r) (ir_dictionary_io_bytes r))\<rparr>,
        sx_db := (case sx_cached x of None \<Rightarrow> sx_db x | Some k \<Rightarrow> wadb_cache_release k (sx_db x)),
        sx_cached := None, sx_dictionary := None\<rparr>)"

definition segment_skipped :: "wadb_scan_options \<Rightarrow> wadb_segment_meta \<Rightarrow> bool" where
  "segment_skipped opts s \<longleftrightarrow>
     sg_last_sequence s \<le> so_after_sequence opts \<or> sg_max_time s < so_start_time opts \<or> sg_min_time s \<ge> so_end_time opts"

definition visit_segment ::
  "(nat \<Rightarrow> wadb_value list \<Rightarrow> (world \<times> 'c, unit) io) \<Rightarrow> nat \<Rightarrow> nat \<Rightarrow> wadb_table \<Rightarrow> wadb_scan_options \<Rightarrow> nat \<Rightarrow>
   wadb_snapshot \<Rightarrow> wadb_segment_meta \<Rightarrow> ('c, unit) scanning" where
  "visit_segment callback limit ti t opts deadline snapshot s =
     bind_io (on_world (check_deadline deadline)) (\<lambda>_.
       if segment_skipped opts s then return_io ()
       else
         bind_io (on_world (wadb_segment_path t s (ascii ''seg''))) (\<lambda>path.
           bind_io (on_world (open_file path WADB_IO)) (\<lambda>_ (w, x).
             case read_segment callback limit ti t opts deadline snapshot s path
                    (w, x\<lparr>sx_reader := empty_reader s, sx_accounted := 0\<rparr>) of
               ((w', x'), res) \<Rightarrow> ((w', leave_segment x'), res))))"

fun visit_segments ::
  "(wadb_segment_meta \<Rightarrow> ('c, unit) scanning) \<Rightarrow> wadb_segment_meta list \<Rightarrow> ('c, unit) scanning" where
  "visit_segments visit [] st = (st, Inr ())"
| "visit_segments visit (s # ss) (w, x) =
     (if ss_limit_reached (sx_stats x) then ((w, x), Inr ())
      else bind_io (visit s) (\<lambda>_. visit_segments visit ss) (w, x))"

definition first_visited :: "wadb_snapshot \<Rightarrow> wadb_scan_options \<Rightarrow> nat" where
  "first_visited snapshot opts =
     bisect (\<lambda>i. let s = sn_segments snapshot ! i in sg_last_sequence s \<le> so_after_sequence opts \<or> sg_max_time s < so_start_time opts)
       0 (length (sn_segments snapshot))"

text \<open>
  A scan returns the context, the statistics and the status. Damage found by the scan itself,
  and not reported by the callback, makes the table read-only.
\<close>

definition wadb_scan_snapshot ::
  "(nat \<Rightarrow> wadb_value list \<Rightarrow> (world \<times> 'c, unit) io) \<Rightarrow> wadb_snapshot \<Rightarrow> wadb_scan_options \<Rightarrow> 'c \<Rightarrow> world \<times> wadb_db \<Rightarrow>
   (world \<times> wadb_db) \<times> 'c \<times> wadb_scan_stats \<times> unit res" where
  "wadb_scan_snapshot callback snapshot opts c = (\<lambda>(w, db).
     let ti = the (sn_table snapshot); t = db_tables db ! ti; limit = op_dictionary_limit_bytes (db_options db) in
     case clock_ns w of (w1, now) \<Rightarrow>
       let deadline = add64 now (so_timeout_ms opts * 1000000);
           segments = drop (first_visited snapshot opts) (sn_segments snapshot) in
       (case visit_segments (visit_segment callback limit ti t opts deadline snapshot) segments
               (w1, \<lparr>sx_db = db, sx_reader = empty_reader (hd (sn_segments snapshot)), sx_accounted = 0, sx_cached = None,
                     sx_dictionary = None, sx_stats = empty_stats (sn_sequence snapshot), sx_context = c,
                     sx_callback_failed = False\<rparr>) of
          ((w2, x), res) \<Rightarrow>
            let db' = sx_db x in
            ((w2, if res = Inl WADB_CORRUPT \<and> \<not> sx_callback_failed x
                  then update_table ti (\<lambda>t. t\<lparr>tb_read_only := True\<rparr>) db' else db'),
             sx_context x, sx_stats x, res)))"

definition scan_invalid :: "wadb_scan_options \<Rightarrow> bool" where
  "scan_invalid x \<longleftrightarrow>
     so_end_time x < so_start_time x \<or> so_limit x = 0 \<or> so_max_scan_bytes x = 0 \<or> so_timeout_ms x = 0 \<or> so_timeout_ms x > 3600000"

text \<open>The statistics are those written through the pointer, when it is not null.\<close>

definition wadb_scan ::
  "nat option \<Rightarrow> wadb_scan_options option \<Rightarrow> (nat \<Rightarrow> wadb_value list \<Rightarrow> (world \<times> 'c, unit) io) option \<Rightarrow> 'c \<Rightarrow> world \<times> wadb_db \<Rightarrow>
   (world \<times> wadb_db) \<times> 'c \<times> wadb_scan_stats option \<times> unit res" where
  "wadb_scan table options callback c st =
     (let opts = (case options of None \<Rightarrow> wadb_scan_options_default | Some x \<Rightarrow> x) in
      case (table, callback) of
        (Some ti, Some f) \<Rightarrow>
          if scan_invalid opts then (st, c, None, Inl WADB_INVALID)
          else
            (case wadb_cursor_expire st of (w, db) \<Rightarrow>
             case clock_ns w of (w1, started) \<Rightarrow>
             case wadb_snapshot_acquire ti (Some opts) (w1, db) of
               (st1, Inl e) \<Rightarrow> (wadb_record_query started e (Some (empty_stats 0)) st1, c, Some (empty_stats 0), Inl e)
             | (st1, Inr snapshot) \<Rightarrow>
                 (case wadb_scan_snapshot f snapshot opts c st1 of (st2, c', stats, res) \<Rightarrow>
                    (wadb_record_query started (status_of res) (Some stats) (wadb_snapshot_release snapshot st2), c', Some stats, res)))
      | _ \<Rightarrow> (st, c, None, Inl WADB_INVALID))"

end
