(* ===== verification/Wadb_Execute.thy ===== *)
theory Wadb_Execute
  imports Wadb_Scan
begin

unbundle bit_operations_syntax

text \<open>
  Executing a compiled query over a snapshot (the end of \<^verbatim>\<open>src/query/query.c\<close>) and paging
  through the rows of a scan with cursors (\<^verbatim>\<open>src/query/cursor.c\<close>).
\<close>

section \<open>Queries\<close>

record wadb_result =
  wr_columns :: "wadb_result_column list"
  wr_rows :: "wadb_value list list"
  wr_sequences :: "nat list"
  wr_matched_rows :: nat
  wr_total_groups :: nat
  wr_stats :: wadb_scan_stats
  wr_has_more :: bool

definition start_execution :: "wadb_query_plan \<Rightarrow> nat \<Rightarrow> nat \<Rightarrow> execution" where
  "start_execution p after deadline =
     \<lparr>ex_plan = p, ex_groups = [], ex_group_capacity = 0, ex_slots = [], ex_used = pl_allocated_bytes p,
      ex_last_sequence = after, ex_deadline = deadline, ex_stopped = False, ex_rows = [], ex_sequences = [],
      ex_capacity = 0, ex_matched_rows = 0, ex_total_groups = 0\<rparr>"

text \<open>The groups of a query without grouping fields exist before any row is seen: \<open>n\<close> more of them, from number \<open>i\<close>.\<close>

fun fill_buckets :: "nat \<Rightarrow> nat \<Rightarrow> int \<Rightarrow> unit exec" where
  "fill_buckets 0 i bucket st = (st, Inr ())"
| "fill_buckets (Suc n) i bucket (w, x) =
     bind_io (if i mod 256 = 0 then on_world (check_deadline (ex_deadline x)) else return_io ()) (\<lambda>_.
       bind_io (group_for [word_value (word_of_int bucket)]) (\<lambda>_.
         fill_buckets n (i + 1) (if n \<noteq> 0 then bucket + qo_bucket_width_us (pl_options (ex_plan x)) else bucket))) (w, x)"

definition initial_groups :: "wadb_query_plan \<Rightarrow> unit exec" where
  "initial_groups p =
     (if aggregate_count p \<noteq> 0 \<and> carr_length (qo_group_by (pl_options p)) = 0
      then fill_buckets (if qo_bucket_width_us (pl_options p) \<noteq> 0 then pl_bucket_count p else 1) 0 (pl_first_bucket p)
      else return_io ())"

definition query_scan :: "wadb_query_plan \<Rightarrow> nat \<Rightarrow> nat \<Rightarrow> nat \<Rightarrow> wadb_scan_options" where
  "query_scan p after bytes timeout =
     (qo_scan (pl_options p))\<lparr>so_limit := UINT32_MAX, so_after_sequence := after, so_max_scan_bytes := bytes, so_timeout_ms := timeout\<rparr>"

text \<open>The status of the scan: a full result is not a failure, examining too many rows is.\<close>

definition scan_status :: "execution \<Rightarrow> wadb_scan_stats \<Rightarrow> unit res \<Rightarrow> unit res" where
  "scan_status x stats res =
     (let res' = (if res = Inl WADB_CANCELLED \<and> ex_stopped x then Inr () else res) in
      if res' = Inr () \<and> \<not> ex_stopped x \<and> ss_limit_reached stats then Inl WADB_LIMIT else res')"

definition finish_result :: "wadb_snapshot \<Rightarrow> execution \<Rightarrow> wadb_scan_stats \<Rightarrow> wadb_result" where
  "finish_result snapshot x stats =
     (let more = (ex_stopped x \<and> ex_last_sequence x < sn_sequence snapshot) in
      \<lparr>wr_columns = pl_columns (ex_plan x), wr_rows = ex_rows x, wr_sequences = ex_sequences x,
       wr_matched_rows = ex_matched_rows x, wr_total_groups = ex_total_groups x,
       wr_stats = stats\<lparr>ss_limit_reached := (if aggregate_count (ex_plan x) \<noteq> 0 then ex_total_groups x > length (ex_rows x) else more),
                        ss_rows_returned := length (ex_rows x), ss_last_sequence := ex_last_sequence x\<rparr>,
       wr_has_more = more\<rparr>)"

text \<open>The work between the allocation of the result and its completion.\<close>

definition run_query ::
  "wadb_query_plan \<Rightarrow> wadb_snapshot \<Rightarrow> wadb_scan_options \<Rightarrow> execution \<Rightarrow> world \<times> wadb_db \<Rightarrow>
   (world \<times> wadb_db) \<times> execution \<times> wadb_scan_stats \<times> unit res" where
  "run_query p snapshot scan x0 = (\<lambda>(w, db).
     case initial_groups p (w, x0) of
       ((w1, x1), Inl e) \<Rightarrow> ((w1, db), x1, empty_stats 0, Inl e)
     | ((w1, x1), Inr _) \<Rightarrow>
         (case wadb_scan_snapshot consume snapshot scan x1 (w1, db) of
            ((w2, db2), x2, stats, res) \<Rightarrow>
              (case scan_status x2 stats res of
                 Inl e \<Rightarrow> ((w2, db2), x2, stats, Inl e)
               | Inr _ \<Rightarrow>
                   if aggregate_count p \<noteq> 0 then
                     (case emit_groups (w2, x2) of ((w3, x3), emitted) \<Rightarrow> ((w3, db2), x3, stats, emitted))
                   else ((w2, db2), x2, stats, Inr ()))))"

definition wadb_query_execute ::
  "wadb_query_plan \<Rightarrow> wadb_snapshot \<Rightarrow> nat \<Rightarrow> nat \<Rightarrow> nat \<Rightarrow> wadb_result engine" where
  "wadb_query_execute p snapshot after bytes timeout = (\<lambda>(w, db).
     case clock_ns w of (w1, started) \<Rightarrow>
     case clock_ns w1 of (w2, now) \<Rightarrow>
     case bind_io (charge (SIZEOF_QUERY_RESULT + length (pl_columns p) * SIZEOF_RESULT_COLUMN)) (\<lambda>_.
            bind_io (system (call WADB_NOMEM)) (\<lambda>_. system (call WADB_NOMEM)))
            (w2, start_execution p after (add64 now (timeout * 1000000))) of
       ((w3, x), Inl e) \<Rightarrow> (wadb_record_query started e None (w3, db), Inl e)
     | ((w3, x), Inr _) \<Rightarrow>
         (case run_query p snapshot (query_scan p after bytes timeout) x (w3, db) of
            (st, x', stats, res) \<Rightarrow>
              let r = finish_result snapshot x' stats in
              (wadb_record_query started (status_of res) (Some (wr_stats r)) st, bind_res res (\<lambda>_. Inr r))))"

definition compile_query :: "nat option \<Rightarrow> wadb_query_options option \<Rightarrow> wadb_query_plan engine" where
  "compile_query table options = (\<lambda>(w, db).
     case with_allocs (1 + WADB_MAX_FILTERS)
            (\<lambda>a. wadb_query_compile a (map_option (\<lambda>ti. tb_schema (db_tables db ! ti)) table) options) w of
       (w', r) \<Rightarrow> ((w', db), r))"

definition wadb_query :: "nat option \<Rightarrow> wadb_query_options option \<Rightarrow> bool \<Rightarrow> wadb_result engine" where
  "wadb_query table options out =
     (if \<not> out then fail_io WADB_INVALID
      else
        bind_io (compile_query table options) (\<lambda>p st.
          let scan = qo_scan (pl_options p) in
          case wadb_snapshot_acquire (the table) (Some scan) (wadb_cursor_expire st) of
            (st1, Inl e) \<Rightarrow> (st1, Inl e)
          | (st1, Inr snapshot) \<Rightarrow>
              (case wadb_query_execute p snapshot (so_after_sequence scan) (so_max_scan_bytes scan) (so_timeout_ms scan) st1 of
                 (st2, r) \<Rightarrow> (wadb_snapshot_release snapshot st2, r))))"

section \<open>Cursors\<close>

definition cursor_rejected :: "nat option \<Rightarrow> wadb_query_options option \<Rightarrow> nat \<Rightarrow> bool \<Rightarrow> bool" where
  "cursor_rejected table options ttl out \<longleftrightarrow>
     table = None \<or> \<not> out \<or> ttl = 0 \<or> ttl > 300000 \<or>
     (case options of None \<Rightarrow> False | Some x \<Rightarrow> carr_length (qo_aggregates x) \<noteq> 0)"

text \<open>The critical section that charges the cursor and links it.\<close>

definition link_cursor :: "wadb_cursor_state \<Rightarrow> wadb_db \<Rightarrow> wadb_db \<times> nat res" where
  "link_cursor p db =
     (let cost = add64 (pl_allocated_bytes (cu_plan p)) SIZEOF_CURSOR; cid = db_next_cursor_id db + 1 in
      if db_next_cursor_id db = UINT64_MAX \<or> cost > sub64 (op_snapshot_limit_bytes (db_options db)) (db_snapshot_bytes db)
      then (db, Inl WADB_BACKPRESSURE)
      else
        (db\<lparr>db_snapshot_bytes := db_snapshot_bytes db + cost, db_next_cursor_id := cid,
            db_cursors := p\<lparr>cu_snapshot := (cu_snapshot p)\<lparr>sn_charge := sn_charge (cu_snapshot p) + cost\<rparr>, cu_id := cid\<rparr> # db_cursors db\<rparr>,
         Inr cid))"

definition new_cursor :: "nat \<Rightarrow> wadb_query_plan \<Rightarrow> wadb_snapshot \<Rightarrow> nat \<Rightarrow> wadb_cursor_state" where
  "new_cursor ti p snapshot deadline =
     \<lparr>cu_table = ti, cu_plan = p, cu_snapshot = snapshot, cu_id = 0, cu_deadline = deadline,
      cu_after = so_after_sequence (qo_scan (pl_options p)), cu_remaining_bytes = so_max_scan_bytes (qo_scan (pl_options p)),
      cu_busy = False\<rparr>"

definition wadb_cursor_open :: "nat option \<Rightarrow> wadb_query_options option \<Rightarrow> nat \<Rightarrow> bool \<Rightarrow> nat engine" where
  "wadb_cursor_open table options ttl out st =
     (if cursor_rejected table options ttl out then (st, Inl WADB_INVALID)
      else
        bind_io (on_world (call WADB_NOMEM)) (\<lambda>_.
          bind_io (compile_query table options) (\<lambda>p.
            bind_io (wadb_snapshot_acquire (the table) (Some (qo_scan (pl_options p)))) (\<lambda>snapshot (w, db).
              case clock_ns w of (w1, now) \<Rightarrow>
                let c = new_cursor (the table) p snapshot (add64 now (ttl * 1000000)) in
                (case link_cursor c db of
                   (db', Inl e) \<Rightarrow> (destroy_cursor c (w1, db'), Inl e)
                 | (db', Inr cid) \<Rightarrow> ((w1, db'), Inr cid))))) (wadb_cursor_expire st))"

text \<open>Reading a page while the cursor is marked busy.\<close>

definition read_page :: "wadb_cursor_state \<Rightarrow> wadb_result engine" where
  "read_page p = (\<lambda>(w, db).
     case clock_ns w of (w1, now) \<Rightarrow>
       if now \<ge> cu_deadline p then ((w1, db), Inl WADB_EXPIRED)
       else
         (let remaining = (cu_deadline p - now + 999999) div 1000000; timeout = so_timeout_ms (qo_scan (pl_options (cu_plan p)));
              timeout = (if remaining < timeout then remaining else timeout) in
          case wadb_query_execute (cu_plan p) (cu_snapshot p) (cu_after p) (cu_remaining_bytes p) timeout (w1, db) of
            ((w2, db2), r) \<Rightarrow>
              (case clock_ns w2 of (w3, now) \<Rightarrow> ((w3, db2), if now \<ge> cu_deadline p then Inl WADB_EXPIRED else r))))"

text \<open>The cursor advances when there is more to read and is destroyed otherwise.\<close>

definition finish_page :: "wadb_cursor_state \<Rightarrow> wadb_result res \<Rightarrow> world \<times> wadb_db \<Rightarrow> world \<times> wadb_db" where
  "finish_page p r = (\<lambda>(w, db).
     case r of
       Inr page \<Rightarrow>
         if wr_has_more page then
           (w, set_cursor (cu_id p)
                 (Some (p\<lparr>cu_after := ss_last_sequence (wr_stats page),
                          cu_remaining_bytes := sub64 (cu_remaining_bytes p) (ss_bytes_scanned (wr_stats page)),
                          cu_busy := False\<rparr>)) db)
         else destroy_cursor p (w, set_cursor (cu_id p) None db)
     | Inl e \<Rightarrow> destroy_cursor p (w, set_cursor (cu_id p) None db))"

definition wadb_cursor_next :: "nat \<Rightarrow> bool \<Rightarrow> wadb_result engine" where
  "wadb_cursor_next cid out st =
     (if \<not> out \<or> cid = 0 then (st, Inl WADB_INVALID)
      else
        (case wadb_cursor_expire st of (w, db) \<Rightarrow>
         case find_cursor cid db of
           None \<Rightarrow> ((w, db), Inl WADB_EXPIRED)
         | Some p \<Rightarrow>
             if cu_busy p then ((w, db), Inl WADB_BACKPRESSURE)
             else
               (let p' = p\<lparr>cu_busy := True\<rparr> in
                case read_page p' (w, set_cursor cid (Some p') db) of
                  (st1, r) \<Rightarrow> (finish_page p' r st1, r))))"

end
