(* ===== verification/Wadb_Maintenance.thy ===== *)
theory Wadb_Maintenance
  imports Wadb_Execute
begin

unbundle bit_operations_syntax

text \<open>
  Maintenance of a table: the retention policy (\<^verbatim>\<open>src/storage/retention.c\<close>) and the integrity
  check that reads every committed frame again (\<^verbatim>\<open>src/storage/integrity.c\<close>).
\<close>

section \<open>Retention\<close>

record wadb_retention_stats =
  rt_cutoff :: int
  rt_eligible_segments :: nat
  rt_eligible_rows :: nat
  rt_eligible_bytes :: nat
  rt_partially_expired_segments :: nat
  rt_pending_segments :: nat
  rt_deleted_segments :: nat

definition protect_uncertain :: "nat \<Rightarrow> wadb_status \<Rightarrow> wadb_db \<Rightarrow> wadb_db" where
  "protect_uncertain ti status db =
     (if status = WADB_INDETERMINATE then update_table ti (\<lambda>t. t\<lparr>tb_read_only := True\<rparr>) db else db)"

definition wadb_set_retention :: "nat option \<Rightarrow> nat \<Rightarrow> unit engine" where
  "wadb_set_retention table duration = (\<lambda>(w, db).
     case table of
       None \<Rightarrow> ((w, db), Inl WADB_INVALID)
     | Some ti \<Rightarrow>
         let t = db_tables db ! ti; generation = tb_manifest_generation t + 1 in
         if int duration > INT64_MAX then ((w, db), Inl WADB_INVALID)
         else if tb_read_only t \<or> db_read_only db then ((w, db), Inl WADB_READ_ONLY)
         else if tb_manifest_generation t = UINT64_MAX then ((w, db), Inl WADB_LIMIT)
         else
           (case wadb_save_manifest (t\<lparr>tb_retention_us := duration, tb_manifest_generation := generation\<rparr>) w of
              (w', Inl e) \<Rightarrow> ((w', protect_uncertain ti e db), Inl e)
            | (w', Inr _) \<Rightarrow>
                ((w', update_table ti (\<lambda>t. t\<lparr>tb_retention_us := duration, tb_manifest_generation := generation\<rparr>) db), Inr ())))"

definition retention_cutoff :: "wadb_table \<Rightarrow> int \<Rightarrow> int" where
  "retention_cutoff t now =
     (if tb_retention_us t \<noteq> 0 \<and> now \<ge> int (tb_retention_us t) then now - int (tb_retention_us t) else 0)"

definition preview_segment :: "bool \<Rightarrow> wadb_segment_meta \<Rightarrow> wadb_retention_stats \<Rightarrow> wadb_retention_stats" where
  "preview_segment pending s st =
     (if sg_state s = WADB_SEG_RETIRED then
        (if pending then st\<lparr>rt_pending_segments := rt_pending_segments st + 1\<rparr> else st)
      else if sg_last_sequence s = 0 \<or> sg_min_time s \<ge> rt_cutoff st then st
      else if sg_max_time s \<ge> rt_cutoff st then st\<lparr>rt_partially_expired_segments := rt_partially_expired_segments st + 1\<rparr>
      else
        st\<lparr>rt_eligible_segments := rt_eligible_segments st + 1,
           rt_eligible_rows := add64 (rt_eligible_rows st) (add64 (sub64 (sg_last_sequence s) (sg_first_sequence s)) 1),
           rt_eligible_bytes := add64 (rt_eligible_bytes st) (sg_committed_bytes s)\<rparr>)"

definition preview :: "wadb_table \<Rightarrow> int \<Rightarrow> wadb_retention_stats" where
  "preview t now =
     fold (preview_segment (tb_pending_retention t)) (tb_segments t)
       \<lparr>rt_cutoff = retention_cutoff t now, rt_eligible_segments = 0, rt_eligible_rows = 0, rt_eligible_bytes = 0,
        rt_partially_expired_segments = 0, rt_pending_segments = 0, rt_deleted_segments = 0\<rparr>"

definition wadb_retention_preview :: "wadb_table option \<Rightarrow> int \<Rightarrow> bool \<Rightarrow> wadb_retention_stats res" where
  "wadb_retention_preview table now out =
     (case table of
        None \<Rightarrow> Inl WADB_INVALID
      | Some t \<Rightarrow> if \<not> out \<or> now < 0 then Inl WADB_INVALID else Inr (preview t now))"

text \<open>Marking whole expired segments, and the last sequence and time among them.\<close>

definition retires :: "int \<Rightarrow> wadb_segment_meta \<Rightarrow> bool" where
  "retires cutoff s \<longleftrightarrow> \<not> (sg_state s = WADB_SEG_RETIRED \<or> sg_last_sequence s = 0 \<or> sg_max_time s \<ge> cutoff)"

fun retire_all :: "int \<Rightarrow> wadb_segment_meta list \<Rightarrow> nat \<times> int \<Rightarrow> wadb_segment_meta list \<times> nat \<times> int" where
  "retire_all cutoff [] preserved = ([], preserved)"
| "retire_all cutoff (s # ss) preserved =
     (if retires cutoff s then
        (case retire_all cutoff ss (sg_last_sequence s, sg_max_time s) of
           (ss', p) \<Rightarrow> (s\<lparr>sg_state := WADB_SEG_RETIRED\<rparr> # ss', p))
      else (case retire_all cutoff ss preserved of (ss', p) \<Rightarrow> (s # ss', p)))"

definition staged_retention :: "int \<Rightarrow> wadb_table \<Rightarrow> wadb_table" where
  "staged_retention cutoff t =
     (case retire_all cutoff (tb_segments t) (tb_preserved_sequence t, tb_preserved_time t) of
        (segments, sequence, time) \<Rightarrow>
          t\<lparr>tb_segments := segments, tb_preserved_sequence := sequence, tb_preserved_time := time,
            tb_manifest_generation := tb_manifest_generation t + 1\<rparr>)"

text \<open>When the last segment was retired there is nothing to append to.\<close>

definition close_active :: "wadb_table \<Rightarrow> wadb_table" where
  "close_active t =
     (if sg_state (last (tb_segments t)) = WADB_SEG_RETIRED
      then t\<lparr>tb_active_fd := None, tb_index := wadb_index_free, tb_published_dictionary_bytes := 0, tb_dictionary := None\<rparr>
      else t)"

definition publish_retention :: "wadb_retention_stats \<Rightarrow> wadb_table \<Rightarrow> wadb_table" where
  "publish_retention st t =
     (let t' = staged_retention (rt_cutoff st) t in
      close_active
        (t'\<lparr>tb_pending_retention := True,
            tb_retained_rows := sub64 (tb_retained_rows t) (rt_eligible_rows st),
            tb_retained_bytes := sub64 (tb_retained_bytes t) (rt_eligible_bytes st),
            tb_retained_segments := sub64 (tb_retained_segments t) (rt_eligible_segments st),
            tb_retired_segments := add64 (tb_retired_segments t) (rt_eligible_segments st),
            tb_readable := filter (\<lambda>i. sg_state (tb_segments t' ! i) \<noteq> WADB_SEG_RETIRED) (tb_readable t)\<rparr>))"

definition retire_segments :: "nat \<Rightarrow> wadb_retention_stats \<Rightarrow> unit engine" where
  "retire_segments ti st = (\<lambda>(w, db).
     let t = db_tables db ! ti in
     if tb_read_only t \<or> db_read_only db then ((w, db), Inl WADB_READ_ONLY)
     else if rt_eligible_segments st = 0 then ((w, db), Inr ())
     else if tb_manifest_generation t = UINT64_MAX then ((w, db), Inl WADB_LIMIT)
     else
       bind_io (on_world (call WADB_NOMEM)) (\<lambda>_ (w, db).
         case wadb_save_manifest (staged_retention (rt_cutoff st) t) w of
           (w', Inl e) \<Rightarrow> ((w', db), Inl e)
         | (w', Inr _) \<Rightarrow> ((w', update_table ti (publish_retention st) db), Inr ())) (w, db))"

definition pending_count :: "wadb_table \<Rightarrow> nat" where
  "pending_count t =
     (if tb_pending_retention t then length (filter (\<lambda>s. sg_state s = WADB_SEG_RETIRED) (tb_segments t)) else 0)"

definition cleanup_table :: "nat \<Rightarrow> world \<times> wadb_db \<Rightarrow> (world \<times> wadb_db) \<times> nat \<times> unit res" where
  "cleanup_table ti = (\<lambda>(w, db).
     case cleanup (w, db_tables db ! ti) of ((w', t), deleted, r) \<Rightarrow> ((w', update_table ti (\<lambda>_. t) db), deleted, r))"

definition wadb_retention_apply ::
  "nat option \<Rightarrow> int \<Rightarrow> world \<times> wadb_db \<Rightarrow> (world \<times> wadb_db) \<times> wadb_retention_stats option \<times> unit res" where
  "wadb_retention_apply table now st =
     (case table of
        None \<Rightarrow> (st, None, Inl WADB_INVALID)
      | Some ti \<Rightarrow>
          if now < 0 then (st, None, Inl WADB_INVALID)
          else
            (let st1 = wadb_cursor_expire st; stats = preview (db_tables (snd st1) ! ti) now in
             case retire_segments ti stats st1 of
               ((w, db), Inl e) \<Rightarrow>
                 ((w, protect_uncertain ti e db), Some (stats\<lparr>rt_pending_segments := pending_count (db_tables db ! ti)\<rparr>), Inl e)
             | ((w, db), Inr _) \<Rightarrow>
                 (case cleanup_table ti (w, db) of
                    ((w', db'), deleted, r) \<Rightarrow>
                      ((w', db'), Some (stats\<lparr>rt_deleted_segments := deleted, rt_pending_segments := pending_count (db_tables db' ! ti)\<rparr>), r))))"

section \<open>Integrity\<close>

text \<open>The cancellation callback is a function of the caller, which may consult the system.\<close>

record wadb_integrity_options =
  io_max_scan_bytes :: nat
  io_timeout_ms :: nat
  io_cancelled :: "(world \<Rightarrow> world \<times> bool) option"

record wadb_integrity_stats =
  is_segments :: nat
  is_frames :: nat
  is_rows :: nat
  is_bytes :: nat
  is_snapshot_sequence :: nat

type_synonym 'a integrity = "(world \<times> wadb_integrity_stats, 'a) io"

definition wadb_integrity_options_default :: wadb_integrity_options where
  "wadb_integrity_options_default = \<lparr>io_max_scan_bytes = 1024 * 1024 * 1024, io_timeout_ms = 60000, io_cancelled = None\<rparr>"

definition check_limits :: "wadb_integrity_options \<Rightarrow> nat \<Rightarrow> (world, unit) io" where
  "check_limits opts deadline =
     bind_io (\<lambda>w. case io_cancelled opts of None \<Rightarrow> (w, Inr ())
                | Some f \<Rightarrow> (case f w of (w', stop) \<Rightarrow> (w', if stop then Inl WADB_CANCELLED else Inr ()))) (\<lambda>_.
       check_deadline deadline)"

record check_position =
  cp_offset :: nat
  cp_last_sequence :: nat
  cp_last_time :: int
  cp_dictionary :: wadb_dictionary

definition frame_disordered :: "wadb_table \<Rightarrow> wadb_segment_meta \<Rightarrow> check_position \<Rightarrow> wadb_frame \<Rightarrow> bool" where
  "frame_disordered t s k f \<longleftrightarrow>
     fr_schema_hash f \<noteq> fingerprint (tb_schema t) \<or> fr_row_width f \<noteq> row_width (tb_schema t) \<or>
     cp_last_sequence k = UINT64_MAX \<or> fr_first_sequence f \<noteq> cp_last_sequence k + 1 \<or>
     fr_min_time f < cp_last_time k \<or> fr_max_time f > sg_max_time s \<or>
     c_div (fr_min_time f) WADB_DAY_US \<noteq> c_div (sg_day_start s) WADB_DAY_US \<or>
     (cp_offset k = WADB_SEGMENT_HEADER_BYTES \<and> fr_min_time f \<noteq> sg_min_time s)"

fun check_rows ::
  "wadb_integrity_options \<Rightarrow> nat \<Rightarrow> wadb_table \<Rightarrow> wadb_dictionary \<Rightarrow> wadb_frame \<Rightarrow> nat list \<Rightarrow> (world, unit) io" where
  "check_rows opts deadline t d f [] w = (w, Inr ())"
| "check_rows opts deadline t d f (row # rows) w =
     bind_io (if row mod 256 = 0 then check_limits opts deadline else return_io ()) (\<lambda>_.
       bind_io (from_res (wadb_validate_row (tb_schema t)
                  (take (fr_row_width f) (drop (row * fr_row_width f) (the (fr_rows f)))) (Some (wadb_dictionary_resolve d)))) (\<lambda>_.
         check_rows opts deadline t d f rows)) w"

text \<open>A complete frame: its decoding, its place in the segment, its symbols and its rows.\<close>

definition check_frame ::
  "wadb_integrity_options \<Rightarrow> nat \<Rightarrow> wadb_table \<Rightarrow> wadb_segment_meta \<Rightarrow> bytes \<Rightarrow> check_position \<Rightarrow> check_position integrity" where
  "check_frame opts deadline t s bytes k =
     bind_io (from_res (wadb_frame_decode bytes)) (\<lambda>f.
       bind_io (ensure_io (\<not> frame_disordered t s k f) WADB_CORRUPT) (\<lambda>_.
         bind_io (on_world (apply_frame (cp_dictionary k) f)) (\<lambda>d.
           bind_io (on_world (check_rows opts deadline t d f [0..<fr_row_count f])) (\<lambda>_.
             bind_io (modify (\<lambda>st. st\<lparr>is_frames := add64 (is_frames st) 1, is_rows := add64 (is_rows st) (fr_row_count f)\<rparr>)) (\<lambda>_.
               return_io \<lparr>cp_offset = cp_offset k + fr_frame_bytes f, cp_last_sequence = fr_first_sequence f + fr_row_count f - 1,
                          cp_last_time = fr_max_time f, cp_dictionary = d\<rparr>)))))"

definition check_step ::
  "wadb_integrity_options \<Rightarrow> nat \<Rightarrow> wadb_table \<Rightarrow> wadb_segment_meta \<Rightarrow> path \<Rightarrow> check_position \<Rightarrow> check_position integrity" where
  "check_step opts deadline t s path k =
     (let left = sg_committed_bytes s - cp_offset k in
      bind_io (on_world (check_limits opts deadline)) (\<lambda>_.
        bind_io (ensure_io (\<not> left < WADB_FRAME_HEADER_BYTES) WADB_CORRUPT) (\<lambda>_.
          bind_io (on_world (wadb_pread_all path WADB_FRAME_HEADER_BYTES (cp_offset k))) (\<lambda>p.
            bind_io (from_res (wadb_frame_inspect p)) (\<lambda>f.
              bind_io (ensure_io (\<not> fr_frame_bytes f > left) WADB_CORRUPT) (\<lambda>_.
                bind_io (on_world (call WADB_NOMEM)) (\<lambda>_.
                  bind_io (on_world (wadb_pread_all path (fr_frame_bytes f) (cp_offset k))) (\<lambda>bytes.
                    bind_io (modify (\<lambda>st. st\<lparr>is_bytes := add64 (is_bytes st) (fr_frame_bytes f)\<rparr>)) (\<lambda>_.
                      check_frame opts deadline t s bytes k)))))))))"

lemma check_step_offset:
  assumes "check_step opts deadline t s path k st = (st', Inr k')" shows "cp_offset k < cp_offset k'"
proof -
  obtain w x where st: "st = (w, x)" by fastforce
  obtain bytes f where f: "wadb_frame_decode bytes = Inr f" "cp_offset k' = cp_offset k + fr_frame_bytes f"
    using assms by (auto simp: st check_step_def check_frame_def io_ok Let_def)
  then show ?thesis using frame_decode_ok [OF f(1)] by simp
qed

function check_loop ::
  "wadb_integrity_options \<Rightarrow> nat \<Rightarrow> wadb_table \<Rightarrow> wadb_segment_meta \<Rightarrow> path \<Rightarrow> check_position \<Rightarrow> check_position integrity" where
  "check_loop opts deadline t s path k st =
     (if cp_offset k < sg_committed_bytes s then
        (case check_step opts deadline t s path k st of
           (st', Inl e) \<Rightarrow> (st', Inl e)
         | (st', Inr k') \<Rightarrow> check_loop opts deadline t s path k' st')
      else (st, Inr k))"
  by pat_completeness auto
termination
  by (relation "measure (\<lambda>(opts, deadline, t, s, path, k, st). sg_committed_bytes s - cp_offset k)")
    (auto dest!: check_step_offset [OF sym])

declare check_loop.simps [simp del]

definition check_size :: "wadb_segment_meta \<Rightarrow> path \<Rightarrow> (world, unit) io" where
  "check_size s path =
     bind_io (file_size path WADB_CORRUPT) (\<lambda>n.
       ensure_io (\<not> (n < sg_committed_bytes s \<or> (sg_state s = WADB_SEG_SEALED \<and> n \<noteq> sg_committed_bytes s))) WADB_CORRUPT)"

definition check_segment ::
  "nat \<Rightarrow> wadb_table \<Rightarrow> wadb_integrity_options \<Rightarrow> nat \<Rightarrow> wadb_segment_meta \<Rightarrow> unit integrity" where
  "check_segment limit t opts deadline s = (\<lambda>(w, stats).
     bind_io (ensure_io (\<not> sg_committed_bytes s > sub64 (io_max_scan_bytes opts) (is_bytes stats)) WADB_LIMIT) (\<lambda>_.
       bind_io (on_world (wadb_segment_path t s (ascii ''seg''))) (\<lambda>path.
         bind_io (on_world (open_file path WADB_IO)) (\<lambda>_.
           bind_io (on_world (wadb_pread_all path WADB_SEGMENT_HEADER_BYTES 0)) (\<lambda>p.
             bind_io (modify (\<lambda>st. st\<lparr>is_bytes := add64 (is_bytes st) WADB_SEGMENT_HEADER_BYTES\<rparr>)) (\<lambda>_.
               bind_io (from_res (wadb_segment_decode p)) (\<lambda>h.
                 bind_io (ensure_io (\<not> header_mismatch t s h) WADB_CORRUPT) (\<lambda>_.
                   bind_io (on_world (check_size s path)) (\<lambda>_.
                     bind_io (on_world (with_allocs 2 (\<lambda>a. wadb_dictionary_new a (tb_schema t) limit))) (\<lambda>d.
                       bind_io (check_loop opts deadline t s path
                                  \<lparr>cp_offset = WADB_SEGMENT_HEADER_BYTES, cp_last_sequence = sub64 (sg_first_sequence s) 1,
                                   cp_last_time = sg_min_time s, cp_dictionary = d\<rparr>) (\<lambda>k.
                         bind_io (ensure_io (cp_last_sequence k = sg_last_sequence s \<and> cp_last_time k = sg_max_time s) WADB_CORRUPT) (\<lambda>_.
                           modify (\<lambda>st. st\<lparr>is_segments := add64 (is_segments st) 1\<rparr>)))))))))))) (w, stats))"

definition directory_disordered :: "wadb_segment_meta list \<Rightarrow> nat \<Rightarrow> bool" where
  "directory_disordered ss i \<longleftrightarrow>
     i \<noteq> 0 \<and> (sg_first_sequence (ss ! i) \<noteq> add64 (sg_last_sequence (ss ! (i - 1))) 1 \<or> sg_min_time (ss ! i) < sg_max_time (ss ! (i - 1)))"

definition check_snapshot ::
  "nat \<Rightarrow> wadb_table \<Rightarrow> wadb_integrity_options \<Rightarrow> nat \<Rightarrow> wadb_segment_meta list \<Rightarrow> unit integrity" where
  "check_snapshot limit t opts deadline ss =
     for_each (\<lambda>i.
       bind_io (ensure_io (\<not> directory_disordered ss i) WADB_CORRUPT) (\<lambda>_.
         bind_io (on_world (check_limits opts deadline)) (\<lambda>_. check_segment limit t opts deadline (ss ! i)))) [0..<length ss]"

definition integrity_invalid :: "wadb_integrity_options \<Rightarrow> bool" where
  "integrity_invalid opts \<longleftrightarrow> io_max_scan_bytes opts = 0 \<or> io_timeout_ms opts = 0 \<or> io_timeout_ms opts > 3600000"

definition empty_integrity :: "nat \<Rightarrow> wadb_integrity_stats" where
  "empty_integrity sequence = \<lparr>is_segments = 0, is_frames = 0, is_rows = 0, is_bytes = 0, is_snapshot_sequence = sequence\<rparr>"

definition wadb_integrity_check ::
  "nat option \<Rightarrow> wadb_integrity_options option \<Rightarrow> world \<times> wadb_db \<Rightarrow> (world \<times> wadb_db) \<times> wadb_integrity_stats \<times> unit res" where
  "wadb_integrity_check table options st =
     (let opts = (case options of None \<Rightarrow> wadb_integrity_options_default | Some x \<Rightarrow> x) in
      case table of
        None \<Rightarrow> (st, empty_integrity 0, Inl WADB_INVALID)
      | Some ti \<Rightarrow>
          if integrity_invalid opts then (st, empty_integrity 0, Inl WADB_INVALID)
          else
            (case wadb_cursor_expire st of (w, db) \<Rightarrow>
             case clock_ns w of (w1, now) \<Rightarrow>
             case wadb_snapshot_acquire ti None (w1, db) of
               (st1, Inl e) \<Rightarrow> (st1, empty_integrity 0, Inl e)
             | ((w2, db2), Inr snapshot) \<Rightarrow>
                 (case check_snapshot (op_dictionary_limit_bytes (db_options db2)) (db_tables db2 ! ti) opts
                         (add64 now (io_timeout_ms opts * 1000000)) (sn_segments snapshot)
                         (w2, empty_integrity (sn_sequence snapshot)) of
                    ((w3, stats), r) \<Rightarrow>
                      (case wadb_snapshot_release snapshot (w3, db2) of (w4, db4) \<Rightarrow>
                         ((w4, if r = Inl WADB_CORRUPT then update_table ti (\<lambda>t. t\<lparr>tb_read_only := True\<rparr>) db4 else db4), stats, r)))))"

section \<open>Empty segments and retention\<close>

text \<open>Recovery insists that every segment starts after the sequence numbers before it.\<close>

lemma recover_segment_sequence:
  "recover_segment limit force deadline s (w, t) = ((w', t'), Inr s') \<Longrightarrow> sg_first_sequence s = tb_last_sequence t + 1"
  by (auto simp: recover_segment_def io_ok)

lemma recover_segments_sequence:
  assumes "recover_segments limit (i # is) (w, t) = (st, Inr u)" "sg_state (tb_segments t ! i) \<noteq> WADB_SEG_RETIRED"
  shows "sg_first_sequence (tb_segments t ! i) = tb_last_sequence t + 1"
proof -
  obtain w1 t1 s' where "recover_segment limit False UINT64_MAX (tb_segments t ! i) (w, t) = ((w1, t1), Inr s')"
    using assms by (auto simp: Let_def bind_io_Inr)
  then show ?thesis by (rule recover_segment_sequence)
qed

text \<open>
  A segment that was created for a group whose commit then failed has no rows, and is sealed when a
  group of another day follows. Retention never retires it, but moves the preserved sequence number
  past it when it retires the segment after it. The manifest that it then stores cannot be recovered.
\<close>

definition empty_segment :: wadb_segment_meta where
  "empty_segment =
     \<lparr>sg_id = 1, sg_day_start = 0, sg_first_sequence = 1, sg_last_sequence = 0, sg_min_time = 0, sg_max_time = 0,
      sg_committed_bytes = 128, sg_state = WADB_SEG_SEALED\<rparr>"

definition filled_segment :: wadb_segment_meta where
  "filled_segment =
     \<lparr>sg_id = 2, sg_day_start = WADB_DAY_US, sg_first_sequence = 1, sg_last_sequence = 2, sg_min_time = WADB_DAY_US, sg_max_time = WADB_DAY_US,
      sg_committed_bytes = 240, sg_state = WADB_SEG_SEALED\<rparr>"

definition stranded_table :: wadb_table where
  "stranded_table = example_table\<lparr>tb_segments := [empty_segment, filled_segment], tb_next_segment_id := 3\<rparr>"

lemma retention_strands_empty_segment:
  "manifest_valid stranded_table \<and> manifest_valid (staged_retention (2 * WADB_DAY_US) stranded_table) \<and>
   (\<forall>limit w st r. wadb_storage_recover limit (w, staged_retention (2 * WADB_DAY_US) stranded_table) = (st, r) \<longrightarrow> (\<exists>e. r = Inl e))"
proof -
  let ?t = "staged_retention (2 * WADB_DAY_US) stranded_table"
  have v: "manifest_valid stranded_table"
    by (simp add: manifest_valid_def stranded_table_def example_table_def empty_segment_def filled_segment_def segment_range_def segment_invalid_def
        WADB_MAX_SEGMENTS_def WADB_DAY_US_def i64_range_def WADB_SEGMENT_HEADER_BYTES_def)
  have t: "tb_segments ?t = [empty_segment, filled_segment\<lparr>sg_state := WADB_SEG_RETIRED\<rparr>]" "tb_preserved_sequence ?t = 2"
    "tb_preserved_time ?t = WADB_DAY_US" "tb_next_segment_id ?t = 3"
    by (simp_all add: staged_retention_def stranded_table_def example_table_def empty_segment_def filled_segment_def retires_def WADB_DAY_US_def Let_def)
  have v': "manifest_valid ?t"
    using v by (simp add: manifest_valid_def t empty_segment_def filled_segment_def segment_range_def segment_invalid_def staged_retention_def
        stranded_table_def example_table_def retires_def WADB_MAX_SEGMENTS_def WADB_DAY_US_def i64_range_def WADB_SEGMENT_HEADER_BYTES_def Let_def)
  have "\<exists>e. r = Inl e" if r: "wadb_storage_recover limit (w, ?t) = (st, r)" for limit w st r
  proof (cases r)
    case (Inr u)
    obtain w' t' where st: "st = (w', t')" by fastforce
    let ?t0 = "?t\<lparr>tb_last_sequence := tb_preserved_sequence ?t, tb_last_time := tb_preserved_time ?t\<rparr>"
    have sg: "tb_segments ?t0 = [empty_segment, filled_segment\<lparr>sg_state := WADB_SEG_RETIRED\<rparr>]" by (simp add: t)
    have "\<exists>st1. recover_segments limit [0..<length (tb_segments ?t0)] (w, ?t0) = (st1, Inr ())"
      using r Inr unfolding wadb_storage_recover_def by (auto simp: Let_def bind_io_Inr)
    moreover have "[0..<length (tb_segments ?t0)] = [0, 1]" unfolding sg by (simp add: upt_rec)
    ultimately have "\<exists>st1. recover_segments limit [0, 1] (w, ?t0) = (st1, Inr ())" by simp
    then obtain st1 where "recover_segments limit [0, 1] (w, ?t0) = (st1, Inr ())" by blast
    from recover_segments_sequence [OF this] show ?thesis unfolding sg by (simp add: empty_segment_def t)
  qed simp
  then show ?thesis using v v' by blast
qed

end
