(* ===== verification/Wadb_Writer.thy ===== *)
theory Wadb_Writer
  imports Wadb_Maintenance
begin

unbundle bit_operations_syntax

text \<open>
  The ingestion queue and the writer thread (\<^verbatim>\<open>src/ingest/writer.c\<close>).

  A producer reserves memory, encodes its rows outside the mutex and queues a request; the writer
  takes batches from the queue, commits them and completes the requests. Each critical section is
  one operation. \<open>ingest_step\<close> interleaves them for any number of producers; a request is in
  exactly one of the lists of the state \<open>ingest\<close>. The writer's waits (an empty queue, and the delay
  that lets a batch fill) only postpone a round and have no operation of their own.
\<close>

section \<open>Producers\<close>

definition validate_symbol :: "unit symbol_encode" where
  "validate_symbol ctx field p = (ctx, Inr 1)"

definition append_invalid :: "wadb_schema \<Rightarrow> wadb_value carr \<Rightarrow> nat \<Rightarrow> bool" where
  "append_invalid sc values n \<longleftrightarrow> n = 0 \<or> n > UINT32_MAX \<or> (carr_null values \<and> field_count sc > 1)"

definition new_request :: "nat \<Rightarrow> wadb_value carr \<Rightarrow> nat \<Rightarrow> nat \<Rightarrow> nat \<Rightarrow> wadb_append_request" where
  "new_request ti values n row_bytes started =
     \<lparr>rq_table = ti, rq_values = values, rq_rows = [], rq_row_count = n, rq_row_bytes = row_bytes,
      rq_charge = row_bytes + SIZEOF_APPEND_REQUEST, rq_submitted_ns = 0, rq_started_ns = started, rq_ingestion_time = 0,
      rq_receipt = \<lparr>rc_first_sequence = 0, rc_last_sequence = 0, rc_ingestion_time = 0, rc_row_count = 0\<rparr>,
      rq_status = WADB_OK, rq_done = False\<rparr>"

text \<open>The argument checks and the first critical section: memory is reserved before it is allocated.\<close>

definition reserve_append :: "nat option \<Rightarrow> wadb_value carr \<Rightarrow> nat \<Rightarrow> wadb_append_request engine" where
  "reserve_append table values n = (\<lambda>(w0, db).
     case clock_ns w0 of (w, started) \<Rightarrow>
     case table of
       None \<Rightarrow> ((w, db), Inl WADB_INVALID)
     | Some ti \<Rightarrow>
         let sc = tb_schema (db_tables db ! ti) in
         if append_invalid sc values n then ((w, db), Inl WADB_INVALID)
         else
           (case wadb_mul_size n (row_width sc) of
              None \<Rightarrow> ((w, db), Inl WADB_LIMIT)
            | Some row_bytes \<Rightarrow>
                if row_bytes > WADB_MAX_FRAME_BYTES - 96 then ((w, db), Inl WADB_LIMIT)
                else if db_stopping db \<or> \<not> db_writer_started db then ((w, db), Inl WADB_CANCELLED)
                else
                  (let r = new_request ti values n row_bytes started in
                   if rq_charge r > sub64 (op_queue_limit_bytes (db_options db)) (db_queue_bytes db)
                   then ((w, db\<lparr>db_rejected_appends := add64 (db_rejected_appends db) 1\<rparr>), Inl WADB_BACKPRESSURE)
                   else ((w, db\<lparr>db_queue_bytes := db_queue_bytes db + rq_charge r\<rparr>), Inr r))))"

text \<open>The rows \<open>i, i + 1, ...\<close>, encoded one after the other.\<close>

fun encode_rows :: "wadb_schema \<Rightarrow> wadb_value carr \<Rightarrow> nat \<Rightarrow> nat \<Rightarrow> bytes res" where
  "encode_rows sc values i 0 = Inr []"
| "encode_rows sc values i (Suc n) =
     (let v = (if carr_null values then CNull 0 else CMem (drop (i * (field_count sc - 1)) (carr_items values))) in
      bind_res (snd (wadb_encode_row sc v 0 (Some validate_symbol) () (row_width sc))) (\<lambda>row.
        bind_res (encode_rows sc values (i + 1) n) (\<lambda>rows. Inr (row @ rows))))"

definition stage_rows :: "wadb_schema \<Rightarrow> wadb_append_request \<Rightarrow> (world, bytes) io" where
  "stage_rows sc r =
     bind_io (call WADB_NOMEM) (\<lambda>_.
       bind_io (from_res (encode_rows sc (rq_values r) 0 (rq_row_count r))) (\<lambda>rows.
         bind_io (call WADB_IO) (\<lambda>_. return_io rows)))"

text \<open>The second critical section: the request is queued, or its reservation is returned.\<close>

definition enqueue :: "wadb_append_request \<Rightarrow> bytes \<Rightarrow> world \<times> wadb_db \<Rightarrow> world \<times> wadb_db" where
  "enqueue r rows = (\<lambda>(w, db).
     case clock_ns w of (w', now) \<Rightarrow>
       (w', db\<lparr>db_queue := db_queue db @ [r\<lparr>rq_rows := rows, rq_submitted_ns := now\<rparr>],
               db_ready_bytes := db_ready_bytes db + rq_row_bytes r\<rparr>))"

definition reject_append :: "wadb_append_request \<Rightarrow> wadb_db \<Rightarrow> wadb_db" where
  "reject_append r db =
     db\<lparr>db_queue_bytes := sub64 (db_queue_bytes db) (rq_charge r), db_rejected_appends := add64 (db_rejected_appends db) 1\<rparr>"

definition append_result :: "wadb_append_request \<Rightarrow> wadb_append_receipt res" where
  "append_result r = (if rq_status r = WADB_OK then Inr (rq_receipt r) else Inl (rq_status r))"

section \<open>The writer\<close>

definition read_realtime :: "world \<Rightarrow> world \<times> int" where
  "read_realtime w =
     (case sys w of
        (w', Fail) \<Rightarrow> (w', wadb_realtime_us None)
      | (w', Ret k) \<Rightarrow> (w', wadb_realtime_us (Some (int k div 1000000, int k mod 1000000 * 1000))))"

text \<open>A clock that runs backwards is held at the previous time.\<close>

definition adjust_time :: "int \<Rightarrow> int \<Rightarrow> int" where
  "adjust_time previous now = (if now \<ge> 0 \<and> now < previous then previous else now)"

definition batch_full :: "wadb_options \<Rightarrow> nat \<Rightarrow> nat \<Rightarrow> wadb_append_request \<Rightarrow> bool" where
  "batch_full opts taken bytes r \<longleftrightarrow>
     taken \<noteq> 0 \<and> (bytes \<ge> op_batch_target_bytes opts \<or> rq_row_bytes r > sub64 (WADB_MAX_FRAME_BYTES - 96) bytes)"

text \<open>The requests at the head of the queue that form a batch, and the rest of the queue.\<close>

fun take_loop ::
  "wadb_options \<Rightarrow> nat \<Rightarrow> nat \<Rightarrow> nat \<Rightarrow> int \<Rightarrow> int \<Rightarrow> wadb_append_request list \<Rightarrow> world \<times> nat \<Rightarrow>
   (world \<times> nat) \<times> wadb_append_request list \<times> wadb_append_request list" where
  "take_loop opts ti taken bytes previous day [] st = (st, [], [])"
| "take_loop opts ti taken bytes previous day (r # rs) (w, adjustments) =
     (if rq_table r \<noteq> ti \<or> taken \<ge> 64 \<or> batch_full opts taken bytes r then ((w, adjustments), [], r # rs)
      else
        (case read_realtime w of (w', clock) \<Rightarrow>
           let now = adjust_time previous clock;
               adjustments' = (if clock \<ge> 0 \<and> clock < previous then add64 adjustments 1 else adjustments);
               r' = r\<lparr>rq_ingestion_time := now\<rparr> in
           if taken \<noteq> 0 \<and> (now < 0 \<or> c_div now WADB_DAY_US \<noteq> day) then ((w', adjustments'), [], r # rs)
           else if now < 0 then ((w', adjustments'), [r'], rs)
           else
             (case take_loop opts ti (taken + 1) (bytes + rq_row_bytes r) now (c_div now WADB_DAY_US) rs (w', adjustments') of
                (st, batch, rest) \<Rightarrow> (st, r' # batch, rest))))"

definition take_batch :: "world \<times> wadb_db \<Rightarrow> (world \<times> wadb_db) \<times> wadb_append_request list" where
  "take_batch = (\<lambda>(w, db).
     let ti = rq_table (hd (db_queue db)) in
     case take_loop (db_options db) ti 0 0 (tb_last_time (db_tables db ! ti)) (-1) (db_queue db) (w, db_clock_adjustments db) of
       ((w', adjustments), batch, rest) \<Rightarrow>
         ((w', db\<lparr>db_queue := rest, db_clock_adjustments := adjustments,
                  db_ready_bytes := fold (\<lambda>r n. sub64 n (rq_row_bytes r)) batch (db_ready_bytes db)\<rparr>), batch))"

text \<open>A group that does not fit is split between requests until a single request does not fit.\<close>

function commit_group :: "wadb_append_request list \<Rightarrow> world \<times> wadb_db \<Rightarrow> (world \<times> wadb_db) \<times> wadb_append_request list" where
  "commit_group requests st =
     (case wadb_commit_requests (rq_table (hd requests)) requests st of
        (st', Inr committed) \<Rightarrow> (st', map (\<lambda>r. r\<lparr>rq_status := WADB_OK\<rparr>) committed)
      | (st', Inl e) \<Rightarrow>
          if e = WADB_LIMIT \<and> length requests > 1 then
            (let half = length requests div 2 in
             case commit_group (take half requests) st' of (st1, first) \<Rightarrow>
             case commit_group (drop half requests) st1 of (st2, second) \<Rightarrow> (st2, first @ second))
          else (st', map (\<lambda>r. r\<lparr>rq_status := e\<rparr>) requests))"
  by pat_completeness auto
termination by (relation "measure (\<lambda>(requests, st). length requests)") auto

declare commit_group.simps [simp del]

definition complete_request :: "wadb_append_request \<Rightarrow> world \<times> wadb_db \<Rightarrow> world \<times> wadb_db" where
  "complete_request r = (\<lambda>(w, db0).
     let db = db0\<lparr>db_queue_bytes := sub64 (db_queue_bytes db0) (rq_charge r)\<rparr> in
     if rq_status r \<noteq> WADB_OK then (w, db\<lparr>db_failed_appends := add64 (db_failed_appends db) 1\<rparr>)
     else
       (case clock_ns w of (w', now) \<Rightarrow>
          (w', db\<lparr>db_append_latency := wadb_histogram_record (sub64 now (rq_started_ns r)) (db_append_latency db)\<rparr>)))"

fun complete_batch :: "wadb_append_request list \<Rightarrow> world \<times> wadb_db \<Rightarrow> (world \<times> wadb_db) \<times> wadb_append_request list" where
  "complete_batch [] st = (st, [])"
| "complete_batch (r # rs) st =
     (case complete_batch rs (complete_request r st) of (st', finished) \<Rightarrow> (st', r\<lparr>rq_rows := [], rq_done := True\<rparr> # finished))"

text \<open>One round of \<^verbatim>\<open>writer_main\<close> on a queue that is not empty.\<close>

definition writer_round :: "world \<times> wadb_db \<Rightarrow> (world \<times> wadb_db) \<times> wadb_append_request list" where
  "writer_round st =
     (case take_batch st of (st1, batch) \<Rightarrow>
      case commit_group batch st1 of (st2, committed) \<Rightarrow> complete_batch committed st2)"

section \<open>What a commit does not touch\<close>

text \<open>The part of the database that belongs to the queue.\<close>

definition queue_view :: "wadb_db \<Rightarrow> wadb_append_request list \<times> nat \<times> nat \<times> wadb_options" where
  "queue_view db = (db_queue db, db_queue_bytes db, db_ready_bytes db, db_options db)"

named_theorems keeps_queue \<open>operations that keep the queue\<close>

lemma on_table_queue [keeps_queue]: "on_table ti m (w, db) = ((w', db'), r) \<Longrightarrow> queue_view db' = queue_view db"
  by (auto simp: on_table_def queue_view_def split: prod.splits)

lemma append_frame_queue [keeps_queue]: "append_frame ti bytes (w, db) = ((w', db'), r) \<Longrightarrow> queue_view db' = queue_view db"
  by (auto simp: append_frame_def queue_view_def Let_def split: prod.splits sum.splits)

lemma put_dictionary_queue [simp]: "queue_view (put_dictionary ti d db) = queue_view db"
  by (simp add: put_dictionary_def queue_view_def)

lemma publish_queue [simp]: "queue_view (publish ti g frame bytes db) = queue_view db"
  by (simp add: publish_def publish_event_def queue_view_def Let_def)

lemma bind_keeps:
  assumes "\<And>w db w' db' r. m (w, db) = ((w', db'), r) \<Longrightarrow> queue_view db' = queue_view db"
    and "\<And>x w db w' db' r. k x (w, db) = ((w', db'), r) \<Longrightarrow> queue_view db' = queue_view db"
    and "bind_io m k (w, db) = ((w', db'), r)"
  shows "queue_view db' = queue_view db"
  using assms(3) by (auto simp: bind_io_def split: prod.splits sum.splits dest!: assms(1,2))

lemma write_group_queue [keeps_queue]:
  assumes "write_group ti g d mark frame bytes (w, db) = ((w', db'), r)" shows "queue_view db' = queue_view db"
proof -
  obtain w1 db1 r1 where b: "bind_io (on_table ti reserve_entry) (\<lambda>_. append_frame ti bytes) (w, put_dictionary ti d db) = ((w1, db1), r1)"
    by (metis prod.exhaust)
  have "queue_view db1 = queue_view db" using bind_keeps [OF on_table_queue append_frame_queue b] by simp
  then show ?thesis using assms b by (auto simp: write_group_def split: sum.splits)
qed

lemma commit_fresh_queue [keeps_queue]:
  assumes "commit_fresh ti g rows (w, db) = ((w', db'), r)" shows "queue_view db' = queue_view db"
  using assms bind_keeps [OF on_table_queue write_group_queue]
  by (auto simp: commit_fresh_def Let_def split: prod.splits sum.splits)

lemma commit_active_queue [keeps_queue]:
  assumes "commit_active ti g rows (w, db) = ((w', db'), r)" shows "queue_view db' = queue_view db"
  using assms by (auto simp: commit_active_def Let_def split: prod.splits sum.splits if_splits dest!: commit_fresh_queue write_group_queue)

lemma commit_requests_queue [keeps_queue]:
  assumes "wadb_commit_requests ti requests (w, db) = ((w', db'), r)" shows "queue_view db' = queue_view db"
  using assms
  by (auto simp: wadb_commit_requests_def Let_def bind_io_def on_world_def
           split: option.splits prod.splits sum.splits if_splits dest!: commit_fresh_queue commit_active_queue)

lemma commit_group_queue [keeps_queue]:
  "commit_group requests (w, db) = ((w', db'), rs) \<Longrightarrow> queue_view db' = queue_view db"
proof (induction requests "(w, db)" arbitrary: w db w' db' rs rule: commit_group.induct)
  case (1 requests w db)
  obtain w1 db1 r where c: "wadb_commit_requests (rq_table (hd requests)) requests (w, db) = ((w1, db1), r)" by (metis prod.exhaust)
  note k = commit_requests_queue [OF c]
  show ?case
  proof (cases "\<exists>e. r = Inl e \<and> e = WADB_LIMIT \<and> length requests > 1")
    case False
    with 1(3) c k show ?thesis by (auto simp: commit_group.simps [of requests] split: sum.splits if_splits)
  next
    case True
    let ?h = "length requests div 2"
    obtain w2 db2 f where f: "commit_group (take ?h requests) (w1, db1) = ((w2, db2), f)" by (metis prod.exhaust)
    obtain w3 db3 s where s: "commit_group (drop ?h requests) (w2, db2) = ((w3, db3), s)" by (metis prod.exhaust)
    have "db' = db3" using 1(3) c True f s by (simp add: commit_group.simps [of requests] Let_def)
    moreover have "queue_view db2 = queue_view db1" using 1(1) [OF c [symmetric]] True f by blast
    moreover have "queue_view db3 = queue_view db2" using 1(2) [OF c [symmetric]] True f s by metis
    ultimately show ?thesis using k by simp
  qed
qed

section \<open>Batches\<close>

text \<open>What identifies a request; the writer changes only its times, rows, receipt and status.\<close>

definition request_id :: "wadb_append_request \<Rightarrow> nat \<times> wadb_value carr \<times> nat \<times> nat \<times> nat \<times> nat" where
  "request_id r = (rq_table r, rq_values r, rq_row_count r, rq_row_bytes r, rq_charge r, rq_started_ns r)"

lemma request_id_update [simp]:
  "request_id (r\<lparr>rq_ingestion_time := t\<rparr>) = request_id r" "request_id (r\<lparr>rq_status := e\<rparr>) = request_id r"
  "request_id (r\<lparr>rq_receipt := c\<rparr>) = request_id r" "request_id (r\<lparr>rq_rows := p\<rparr>) = request_id r"
  "request_id (r\<lparr>rq_done := b\<rparr>) = request_id r" "request_id (r\<lparr>rq_submitted_ns := n\<rparr>) = request_id r"
  by (simp_all add: request_id_def)

lemma same_id:
  assumes "map request_id rs = map request_id qs"
  shows "map rq_charge rs = map rq_charge qs" "map rq_row_bytes rs = map rq_row_bytes qs"
    "map rq_row_count rs = map rq_row_count qs" "map rq_table rs = map rq_table qs"
proof -
  have p: "rq_table r = (case request_id r of (a, b, c, d, e, f) \<Rightarrow> a)" "rq_row_count r = (case request_id r of (a, b, c, d, e, f) \<Rightarrow> c)"
    "rq_row_bytes r = (case request_id r of (a, b, c, d, e, f) \<Rightarrow> d)" "rq_charge r = (case request_id r of (a, b, c, d, e, f) \<Rightarrow> e)" for r
    by (simp_all add: request_id_def)
  have "map (\<lambda>r. g (request_id r)) rs = map (\<lambda>r. g (request_id r)) qs" for g
    using arg_cong [OF assms, of "map g"] by (simp add: comp_def)
  then show "map rq_charge rs = map rq_charge qs" "map rq_row_bytes rs = map rq_row_bytes qs"
    "map rq_row_count rs = map rq_row_count qs" "map rq_table rs = map rq_table qs"
    unfolding p by blast+
qed

lemma take_loop_split:
  assumes "take_loop opts ti taken bytes previous day q st = (st', batch, rest)"
  shows "\<exists>front. q = front @ rest \<and> map request_id batch = map request_id front"
  using assms
proof (induction opts ti taken bytes previous day q st arbitrary: st' batch rest rule: take_loop.induct)
  case (2 opts ti taken bytes previous day r rs w adjustments)
  show ?case
  proof (cases "rq_table r \<noteq> ti \<or> taken \<ge> 64 \<or> batch_full opts taken bytes r")
    case True
    with 2(2) show ?thesis by auto
  next
    case go: False
    obtain w' clock where c: "read_realtime w = (w', clock)" by fastforce
    let ?now = "adjust_time previous clock" and ?a = "if clock \<ge> 0 \<and> clock < previous then add64 adjustments 1 else adjustments"
    show ?thesis
    proof (cases "taken \<noteq> 0 \<and> (?now < 0 \<or> c_div ?now WADB_DAY_US \<noteq> day) \<or> ?now < 0")
      case True
      with 2(2) go c show ?thesis by (auto simp: Let_def split: if_splits intro!: exI [of _ "[r]"])
    next
      case False
      obtain st1 b1 r1 where t: "take_loop opts ti (taken + 1) (bytes + rq_row_bytes r) ?now (c_div ?now WADB_DAY_US) rs (w', ?a) = (st1, b1, r1)"
        by (metis prod.exhaust)
      have e: "batch = r\<lparr>rq_ingestion_time := ?now\<rparr> # b1" "rest = r1" using 2(2) go c False t by (auto simp: Let_def split: if_splits)
      obtain front where "rs = front @ r1" "map request_id b1 = map request_id front"
        using 2(1) [OF go c [symmetric] refl refl refl _ _ t] False by (auto simp: Let_def)
      then show ?thesis using e by (intro exI [of _ "r # front"]) simp
    qed
  qed
qed simp

lemma take_loop_nonempty:
  assumes "take_loop opts (rq_table r) 0 0 previous day (r # rs) st = (st', batch, rest)" shows "batch \<noteq> []"
  using assms by (cases st) (auto simp: batch_full_def Let_def split: prod.splits if_splits)

declare take_loop.simps [simp del]

lemma take_batch_queue:
  assumes "take_batch (w, db) = ((w', db'), batch)" "db_queue db \<noteq> []"
  shows "batch \<noteq> []" "\<exists>front. db_queue db = front @ db_queue db' \<and> map request_id batch = map request_id front"
proof -
  obtain r rs where q: "db_queue db = r # rs" using assms(2) by (cases "db_queue db") auto
  obtain w1 a rest where t: "take_loop (db_options db) (rq_table r) 0 0 (tb_last_time (db_tables db ! rq_table r)) (-1) (r # rs)
      (w, db_clock_adjustments db) = ((w1, a), batch, rest)" and d: "db_queue db' = rest"
    using assms(1) by (auto simp: take_batch_def q Let_def split: prod.splits)
  show "batch \<noteq> []" by (rule take_loop_nonempty [OF t])
  show "\<exists>front. db_queue db = front @ db_queue db' \<and> map request_id batch = map request_id front"
    using take_loop_split [OF t] d q by simp
qed

section \<open>Commits and completions\<close>

lemma assign_receipts_id [simp]: "map request_id (assign_receipts n rs) = map request_id rs"
  by (induction rs arbitrary: n) simp_all

lemma write_group_result:
  "write_group ti g d mark frame bytes st = (st', Inr rs) \<Longrightarrow> \<exists>n. rs = assign_receipts n (gp_requests g)"
  by (cases st) (auto simp: write_group_def split: prod.splits sum.splits)

lemma commit_fresh_result:
  "commit_fresh ti g rows st = (st', Inr rs) \<Longrightarrow> \<exists>n. rs = assign_receipts n (gp_requests g)"
  by (cases st) (auto simp: commit_fresh_def Let_def bind_io_def dest: write_group_result split: prod.splits sum.splits)

lemma commit_active_result:
  "commit_active ti g rows st = (st', Inr rs) \<Longrightarrow> \<exists>n. rs = assign_receipts n (gp_requests g)"
  by (cases st) (auto simp: commit_active_def Let_def dest: write_group_result commit_fresh_result split: prod.splits sum.splits if_splits)

lemma commit_requests_result:
  "wadb_commit_requests ti requests st = (st', Inr rs) \<Longrightarrow> \<exists>n. rs = assign_receipts n requests"
  by (cases st) (auto simp: wadb_commit_requests_def Let_def io_ok dest!: commit_fresh_result commit_active_result
      split: option.splits prod.splits sum.splits if_splits)

lemma commit_group_id: "commit_group requests st = (st', rs) \<Longrightarrow> map request_id rs = map request_id requests"
proof (induction requests st arbitrary: st' rs rule: commit_group.induct)
  case (1 requests st)
  obtain st1 r where c: "wadb_commit_requests (rq_table (hd requests)) requests st = (st1, r)" by fastforce
  show ?case
  proof (cases "\<exists>e. r = Inl e \<and> e = WADB_LIMIT \<and> length requests > 1")
    case False
    with 1(3) c show ?thesis
      by (auto simp: commit_group.simps [of requests] comp_def dest!: commit_requests_result split: sum.splits if_splits)
  next
    case True
    let ?h = "length requests div 2"
    obtain st2 f where f: "commit_group (take ?h requests) st1 = (st2, f)" by fastforce
    obtain st3 s where s: "commit_group (drop ?h requests) st2 = (st3, s)" by fastforce
    have "rs = f @ s" using 1(3) c True f s by (simp add: commit_group.simps [of requests] Let_def)
    moreover have "map request_id f = map request_id (take ?h requests)" using 1(1) [OF c [symmetric]] True f by blast
    moreover have "map request_id s = map request_id (drop ?h requests)" using 1(2) [OF c [symmetric]] True f s by metis
    ultimately show ?thesis by (metis append_take_drop_id map_append)
  qed
qed

lemma complete_request_queue: "complete_request r (w, db) = (w', db') \<Longrightarrow>
    db_queue db' = db_queue db \<and> db_ready_bytes db' = db_ready_bytes db \<and> db_options db' = db_options db \<and>
    db_queue_bytes db' = sub64 (db_queue_bytes db) (rq_charge r)"
  by (auto simp: complete_request_def Let_def split: prod.splits if_splits)

lemma complete_batch_queue: "complete_batch rs (w, db) = ((w', db'), finished) \<Longrightarrow>
    db_queue db' = db_queue db \<and> db_ready_bytes db' = db_ready_bytes db \<and> db_options db' = db_options db \<and>
    db_queue_bytes db' = fold (\<lambda>r n. sub64 n (rq_charge r)) rs (db_queue_bytes db) \<and>
    map request_id finished = map request_id rs \<and> list_all rq_done finished"
proof (induction rs arbitrary: w db finished)
  case (Cons r rs)
  obtain w1 db1 where c: "complete_request r (w, db) = (w1, db1)" by fastforce
  from Cons.IH [of w1 db1] Cons.prems complete_request_queue [OF c] c show ?case by (auto split: prod.splits)
qed simp

lemma writer_round_queue:
  assumes "writer_round (w, db) = ((w', db'), finished)" "db_queue db \<noteq> []"
  shows "finished \<noteq> []" "list_all rq_done finished"
    "\<exists>front. db_queue db = front @ db_queue db' \<and> map request_id finished = map request_id front"
proof -
  obtain w1 db1 batch where t: "take_batch (w, db) = ((w1, db1), batch)" by (metis prod.exhaust)
  obtain w2 db2 committed where c: "commit_group batch (w1, db1) = ((w2, db2), committed)" by (metis prod.exhaust)
  have f: "complete_batch committed (w2, db2) = ((w', db'), finished)" using assms(1) t c by (simp add: writer_round_def)
  note tb = take_batch_queue [OF t assms(2)] and cb = complete_batch_queue [OF f]
  have ids: "map request_id finished = map request_id batch" using cb commit_group_id [OF c] by simp
  then have "length finished = length batch" by (metis length_map)
  then show "finished \<noteq> []" using tb(1) by auto
  show "list_all rq_done finished" using cb by simp
  have "db_queue db' = db_queue db1" using cb commit_group_queue [OF c] by (simp add: queue_view_def)
  then show "\<exists>front. db_queue db = front @ db_queue db' \<and> map request_id finished = map request_id front"
    using tb(2) ids by simp
qed

text \<open>The rounds the writer makes on what is queued, as when it is stopped.\<close>

function writer_drain :: "world \<times> wadb_db \<Rightarrow> (world \<times> wadb_db) \<times> wadb_append_request list" where
  "writer_drain (w, db) =
     (if db_queue db = [] then ((w, db), [])
      else
        (case writer_round (w, db) of (st, finished) \<Rightarrow>
         case writer_drain st of (st', others) \<Rightarrow> (st', finished @ others)))"
  by pat_completeness auto
termination
proof (relation "measure (\<lambda>(w, db). length (db_queue db))", goal_cases)
  case (2 w db st finished)
  then have "writer_round (w, db) = ((fst st, snd st), finished)" "db_queue db \<noteq> []" by auto
  note q = writer_round_queue [OF this]
  obtain front where f: "db_queue db = front @ db_queue (snd st)" "map request_id finished = map request_id front" using q(3) by blast
  have "front \<noteq> []" using q(1) f(2) by auto
  then show ?case using f(1) by (cases st) simp
qed simp

declare writer_drain.simps [simp del]

definition wadb_writer_start :: "unit engine" where
  "wadb_writer_start =
     bind_io (on_world (call WADB_IO)) (\<lambda>_. bind_io (on_world (call WADB_IO)) (\<lambda>_.
       modify (\<lambda>db. db\<lparr>db_writer_started := True\<rparr>)))"

text \<open>The thread is joined after it has drained the queue.\<close>

definition wadb_writer_stop :: "world \<times> wadb_db \<Rightarrow> (world \<times> wadb_db) \<times> wadb_append_request list" where
  "wadb_writer_stop = (\<lambda>(w, db).
     if db_writer_started db then
       (case writer_drain (w, db\<lparr>db_stopping := True\<rparr>) of ((w', db'), finished) \<Rightarrow> ((w', db'\<lparr>db_writer_started := False\<rparr>), finished))
     else ((w, db), []))"

text \<open>
  An append by the only active producer, from the call to its return: the writer runs until the
  request is complete.
\<close>

definition wadb_append_batch :: "nat option \<Rightarrow> wadb_value carr \<Rightarrow> nat \<Rightarrow> wadb_append_receipt engine" where
  "wadb_append_batch table values n =
     bind_io (reserve_append table values n) (\<lambda>r (w, db).
       case stage_rows (tb_schema (db_tables db ! the table)) r w of
         (w', Inl e) \<Rightarrow> ((w', reject_append r db), Inl e)
       | (w', Inr rows) \<Rightarrow>
           (case writer_drain (enqueue r rows (w', db)) of (st, finished) \<Rightarrow> (st, append_result (last finished))))"

lemma writer_drain_queue:
  "writer_drain (w, db) = ((w', db'), finished) \<Longrightarrow>
     db_queue db' = [] \<and> map request_id finished = map request_id (db_queue db) \<and> list_all rq_done finished"
proof (induction "length (db_queue db)" arbitrary: w db finished rule: less_induct)
  case less
  show ?case
  proof (cases "db_queue db = []")
    case True
    with less(2) show ?thesis by (simp add: writer_drain.simps)
  next
    case False
    obtain w1 db1 f1 where r: "writer_round (w, db) = ((w1, db1), f1)" by (metis prod.exhaust)
    obtain st f2 where d: "writer_drain (w1, db1) = (st, f2)" by fastforce
    have e: "st = (w', db')" "finished = f1 @ f2" using less(2) False r d by (simp_all add: writer_drain.simps [of w db])
    note q = writer_round_queue [OF r False]
    obtain front where f: "db_queue db = front @ db_queue db1" "map request_id f1 = map request_id front" using q(3) by blast
    have "front \<noteq> []" using q(1) f(2) by auto
    then show ?thesis using less(1) [of db1 w1 f2] d e f q(2) by simp
  qed
qed

section \<open>Interleaving producers and the writer\<close>

text \<open>
  Requests by where they are: being staged by their producers, in the queue of the database,
  taken by the writer, committed but not yet completed, and completed.
\<close>

record ingest =
  in_world :: world
  in_db :: wadb_db
  in_staging :: "wadb_append_request list"
  in_batch :: "wadb_append_request list"
  in_committed :: "wadb_append_request list"
  in_done :: "wadb_append_request list"

inductive ingest_step :: "ingest \<Rightarrow> ingest \<Rightarrow> bool" where
  Refuse: "reserve_append table values n (in_world s, in_db s) = ((w, db), Inl e) \<Longrightarrow>
    ingest_step s (s\<lparr>in_world := w, in_db := db\<rparr>)"
| Reserve: "reserve_append table values n (in_world s, in_db s) = ((w, db), Inr r) \<Longrightarrow>
    ingest_step s (s\<lparr>in_world := w, in_db := db, in_staging := in_staging s @ [r]\<rparr>)"
| Reject: "in_staging s = front @ r # behind \<Longrightarrow>
    stage_rows (tb_schema (db_tables (in_db s) ! rq_table r)) r (in_world s) = (w, Inl e) \<Longrightarrow>
    ingest_step s (s\<lparr>in_world := w, in_db := reject_append r (in_db s), in_staging := front @ behind\<rparr>)"
| Enqueue: "in_staging s = front @ r # behind \<Longrightarrow>
    stage_rows (tb_schema (db_tables (in_db s) ! rq_table r)) r (in_world s) = (w, Inr rows) \<Longrightarrow>
    enqueue r rows (w, in_db s) = (w', db) \<Longrightarrow>
    ingest_step s (s\<lparr>in_world := w', in_db := db, in_staging := front @ behind\<rparr>)"
| Take: "in_batch s = [] \<Longrightarrow> in_committed s = [] \<Longrightarrow> db_queue (in_db s) \<noteq> [] \<Longrightarrow>
    take_batch (in_world s, in_db s) = ((w, db), batch) \<Longrightarrow>
    ingest_step s (s\<lparr>in_world := w, in_db := db, in_batch := batch\<rparr>)"
| Commit: "in_batch s \<noteq> [] \<Longrightarrow> commit_group (in_batch s) (in_world s, in_db s) = ((w, db), rs) \<Longrightarrow>
    ingest_step s (s\<lparr>in_world := w, in_db := db, in_batch := [], in_committed := rs\<rparr>)"
| Complete: "in_committed s \<noteq> [] \<Longrightarrow> complete_batch (in_committed s) (in_world s, in_db s) = ((w, db), rs) \<Longrightarrow>
    ingest_step s (s\<lparr>in_world := w, in_db := db, in_committed := [], in_done := in_done s @ rs\<rparr>)"
| Stop: "ingest_step s (s\<lparr>in_db := (in_db s)\<lparr>db_stopping := True\<rparr>\<rparr>)"

text \<open>A database just opened.\<close>

definition ingest_start :: "ingest \<Rightarrow> bool" where
  "ingest_start s \<longleftrightarrow>
     in_staging s = [] \<and> in_batch s = [] \<and> in_committed s = [] \<and> in_done s = [] \<and> db_queue (in_db s) = [] \<and>
     db_queue_bytes (in_db s) = 0 \<and> db_ready_bytes (in_db s) = 0 \<and> op_queue_limit_bytes (db_options (in_db s)) \<le> UINT64_MAX"

definition in_flight :: "ingest \<Rightarrow> wadb_append_request list" where
  "in_flight s = in_staging s @ db_queue (in_db s) @ in_batch s @ in_committed s"

text \<open>
  A batch can be committed as one frame: one table, at most 64 requests and one frame of rows,
  with ascending times on one day. When the clock cannot be read it is a single request.
\<close>

definition batch_ok :: "wadb_append_request list \<Rightarrow> bool" where
  "batch_ok batch \<longleftrightarrow>
     length batch \<le> 64 \<and> list_all (\<lambda>r. rq_table r = rq_table (hd batch)) batch \<and>
     sum_list (map rq_row_bytes batch) \<le> WADB_MAX_FRAME_BYTES - 96 \<and>
     ((length batch = 1 \<and> rq_ingestion_time (hd batch) < 0) \<or>
      (sorted (map rq_ingestion_time batch) \<and> 0 \<le> rq_ingestion_time (hd batch) \<and>
       list_all (\<lambda>r. c_div (rq_ingestion_time r) WADB_DAY_US = c_div (rq_ingestion_time (hd batch)) WADB_DAY_US) batch))"

definition request_ok :: "wadb_append_request \<Rightarrow> bool" where
  "request_ok r \<longleftrightarrow> rq_charge r = rq_row_bytes r + SIZEOF_APPEND_REQUEST \<and> rq_row_bytes r \<le> WADB_MAX_FRAME_BYTES - 96"

definition ingest_ok :: "ingest \<Rightarrow> bool" where
  "ingest_ok s \<longleftrightarrow>
     db_queue_bytes (in_db s) = sum_list (map rq_charge (in_flight s)) \<and>
     db_queue_bytes (in_db s) \<le> op_queue_limit_bytes (db_options (in_db s)) \<and>
     op_queue_limit_bytes (db_options (in_db s)) \<le> UINT64_MAX \<and>
     db_ready_bytes (in_db s) = sum_list (map rq_row_bytes (db_queue (in_db s))) \<and>
     list_all request_ok (in_flight s) \<and> (in_batch s \<noteq> [] \<longrightarrow> batch_ok (in_batch s) \<and> in_committed s = [])"

lemma request_ok_id: "map request_id rs = map request_id qs \<Longrightarrow> list_all request_ok rs = list_all request_ok qs"
proof (induction rs arbitrary: qs)
  case (Cons r rs)
  then obtain q qs' where q: "qs = q # qs'" by (cases qs) auto
  then have "request_ok r = request_ok q" using Cons.prems by (simp add: request_ok_def request_id_def)
  then show ?case using Cons q by simp
qed simp

lemma fold_sub64:
  "sum_list (map f rs) \<le> n \<Longrightarrow> n \<le> UINT64_MAX \<Longrightarrow> fold (\<lambda>r n. sub64 n (f r)) rs n = n - sum_list (map f rs)"
  by (induction rs arbitrary: n) (auto simp: sub64_exact)

lemma adjust_time_ge: "0 \<le> adjust_time previous now \<Longrightarrow> previous \<le> adjust_time previous now"
  by (auto simp: adjust_time_def split: if_splits)

text \<open>The rest of a batch, after \<open>taken\<close> requests of \<open>bytes\<close> bytes up to time \<open>previous\<close>.\<close>

lemma take_loop_batch:
  assumes "take_loop opts ti taken bytes previous day q st = (st', batch, rest)" "taken \<noteq> 0" "taken \<le> 64"
    "bytes \<le> WADB_MAX_FRAME_BYTES - 96"
  shows "taken + length batch \<le> 64 \<and> list_all (\<lambda>r. rq_table r = ti) batch \<and>
    bytes + sum_list (map rq_row_bytes batch) \<le> WADB_MAX_FRAME_BYTES - 96 \<and>
    sorted (previous # map rq_ingestion_time batch) \<and> list_all (\<lambda>r. c_div (rq_ingestion_time r) WADB_DAY_US = day) batch"
  using assms
proof (induction opts ti taken bytes previous day q st arbitrary: st' batch rest rule: take_loop.induct)
  case (2 opts ti taken bytes previous day r rs w adjustments)
  show ?case
  proof (cases "rq_table r \<noteq> ti \<or> taken \<ge> 64 \<or> batch_full opts taken bytes r")
    case True
    with 2 show ?thesis by (auto simp: take_loop.simps)
  next
    case go: False
    obtain w' clock where c: "read_realtime w = (w', clock)" by fastforce
    let ?now = "adjust_time previous clock" and ?a = "if clock \<ge> 0 \<and> clock < previous then add64 adjustments 1 else adjustments"
    show ?thesis
    proof (cases "?now < 0 \<or> c_div ?now WADB_DAY_US \<noteq> day")
      case True
      with 2 go c show ?thesis by (auto simp: take_loop.simps Let_def split: if_splits)
    next
      case False
      obtain st1 b1 r1 where t: "take_loop opts ti (taken + 1) (bytes + rq_row_bytes r) ?now (c_div ?now WADB_DAY_US) rs (w', ?a) = (st1, b1, r1)"
        by (metis prod.exhaust)
      have e: "batch = r\<lparr>rq_ingestion_time := ?now\<rparr> # b1" using 2(2,3) go c False t by (auto simp: take_loop.simps Let_def split: if_splits)
      have "sub64 (WADB_MAX_FRAME_BYTES - 96) bytes = WADB_MAX_FRAME_BYTES - 96 - bytes"
        using 2(5) by (simp add: sub64_exact WADB_MAX_FRAME_BYTES_def)
      then have b: "bytes + rq_row_bytes r \<le> WADB_MAX_FRAME_BYTES - 96" using go 2(3,5) by (auto simp: batch_full_def)
      have "previous \<le> ?now" using adjust_time_ge False by simp
      then show ?thesis using 2(1) [OF go c [symmetric] refl refl refl _ _ t] False go b e 2(3) by auto
    qed
  qed
qed (simp add: take_loop.simps)

lemma take_batch_ok:
  assumes t: "take_batch (w, db) = ((w', db'), batch)" and q: "db_queue db \<noteq> []" and ok: "list_all request_ok (db_queue db)"
  shows "batch_ok batch"
proof -
  obtain r rs where q: "db_queue db = r # rs" using q by (cases "db_queue db") auto
  let ?p = "tb_last_time (db_tables db ! rq_table r)"
  obtain st rest where l: "take_loop (db_options db) (rq_table r) 0 0 ?p (-1) (r # rs) (w, db_clock_adjustments db) = (st, batch, rest)"
    using t by (auto simp: take_batch_def q Let_def split: prod.splits)
  obtain w1 clock where c: "read_realtime w = (w1, clock)" by fastforce
  let ?now = "adjust_time ?p clock"
  have r: "rq_row_bytes r \<le> WADB_MAX_FRAME_BYTES - 96" using ok q by (simp add: request_ok_def)
  show ?thesis
  proof (cases "?now < 0")
    case True
    with l c have "batch = [r\<lparr>rq_ingestion_time := ?now\<rparr>]" by (auto simp: take_loop.simps batch_full_def Let_def split: if_splits)
    then show ?thesis using True r by (simp add: batch_ok_def)
  next
    case False
    obtain st1 b1 r1 where k: "take_loop (db_options db) (rq_table r) (0 + 1) (0 + rq_row_bytes r) ?now (c_div ?now WADB_DAY_US) rs
        (w1, if clock \<ge> 0 \<and> clock < ?p then add64 (db_clock_adjustments db) 1 else db_clock_adjustments db) = (st1, b1, r1)"
      by (metis prod.exhaust)
    have e: "batch = r\<lparr>rq_ingestion_time := ?now\<rparr> # b1"
      using l c False k by (auto simp: take_loop.simps batch_full_def Let_def split: if_splits)
    show ?thesis using take_loop_batch [OF k] r e False by (auto simp: batch_ok_def list_all_iff)
  qed
qed

lemma take_batch_view:
  assumes "take_batch (w, db) = ((w', db'), batch)"
  shows "db_options db' = db_options db" "db_queue_bytes db' = db_queue_bytes db"
    "db_ready_bytes db' = fold (\<lambda>r n. sub64 n (rq_row_bytes r)) batch (db_ready_bytes db)"
  using assms by (auto simp: take_batch_def Let_def split: prod.splits)

lemma reserve_append_view:
  assumes "reserve_append table values n (w, db) = ((w', db'), res)"
  shows "db_options db' = db_options db" "db_queue db' = db_queue db" "db_ready_bytes db' = db_ready_bytes db"
    "res = Inl e \<Longrightarrow> db_queue_bytes db' = db_queue_bytes db"
    "res = Inr r \<Longrightarrow> db_queue_bytes db' = db_queue_bytes db + rq_charge r \<and> request_ok r \<and>
       rq_charge r \<le> sub64 (op_queue_limit_bytes (db_options db)) (db_queue_bytes db)"
  using assms
  by (auto simp: reserve_append_def Let_def new_request_def request_ok_def split: prod.splits option.splits if_splits)

lemma enqueue_view:
  assumes "enqueue r rows (w, db) = (w', db')"
  shows "db_options db' = db_options db" "db_queue_bytes db' = db_queue_bytes db"
    "db_ready_bytes db' = db_ready_bytes db + rq_row_bytes r"
    "\<exists>now. db_queue db' = db_queue db @ [r\<lparr>rq_rows := rows, rq_submitted_ns := now\<rparr>]"
  using assms by (auto simp: enqueue_def split: prod.splits)

lemma ingest_ok_start: "ingest_start s \<Longrightarrow> ingest_ok s"
  by (simp add: ingest_start_def ingest_ok_def in_flight_def)

lemma ingest_ok_step: "ingest_step s s' \<Longrightarrow> ingest_ok s \<Longrightarrow> ingest_ok s'"
proof (induction rule: ingest_step.induct)
  case (Refuse table _ n s w db e)
  with reserve_append_view(1,2,3,4) [OF Refuse(1)] show ?case by (simp add: ingest_ok_def in_flight_def)
next
  case (Reserve table _ n s w db r)
  with reserve_append_view(1,2,3,5) [OF Reserve(1)] show ?case by (auto simp: ingest_ok_def in_flight_def sub64_exact)
next
  case (Reject s front r behind w e)
  then show ?case by (auto simp: ingest_ok_def in_flight_def reject_append_def sub64_exact)
next
  case (Enqueue s front r behind w rows w' db)
  with enqueue_view [OF Enqueue(3)] show ?case by (auto simp: ingest_ok_def in_flight_def request_ok_def)
next
  case (Take s w db batch)
  obtain front where f: "db_queue (in_db s) = front @ db_queue db" "map request_id batch = map request_id front"
    using take_batch_queue [OF Take(4,3)] by blast
  note i = same_id [OF f(2)] and v = take_batch_view [OF Take(4)]
  have ok: "batch_ok batch" using take_batch_ok [OF Take(4,3)] Take(5) by (auto simp: ingest_ok_def in_flight_def)
  have "sum_list (map rq_row_bytes (db_queue (in_db s))) \<le> sum_list (map rq_charge (db_queue (in_db s)))"
    using Take(5) by (intro sum_list_mono) (auto simp: ingest_ok_def in_flight_def list_all_iff request_ok_def)
  then have "db_ready_bytes (in_db s) \<le> UINT64_MAX" using Take(5) by (auto simp: ingest_ok_def in_flight_def)
  then have "db_ready_bytes db = db_ready_bytes (in_db s) - sum_list (map rq_row_bytes batch)"
    using v(3) f(1) i Take(5) by (simp add: fold_sub64 ingest_ok_def)
  then show ?case using Take v i f ok request_ok_id [OF f(2)] by (auto simp: ingest_ok_def in_flight_def)
next
  case (Commit s w db rs)
  note g = commit_group_id [OF Commit(2)] and q = commit_group_queue [OF Commit(2)]
  show ?case using Commit q same_id [OF g] request_ok_id [OF g] by (auto simp: ingest_ok_def in_flight_def queue_view_def)
next
  case (Complete s w db rs)
  note c = complete_batch_queue [OF Complete(2)]
  have b: "in_batch s = []" using Complete(1,3) by (auto simp: ingest_ok_def)
  have "fold (\<lambda>r n. sub64 n (rq_charge r)) (in_committed s) (db_queue_bytes (in_db s)) =
      db_queue_bytes (in_db s) - sum_list (map rq_charge (in_committed s))"
    using Complete(3) by (intro fold_sub64) (auto simp: ingest_ok_def in_flight_def)
  then show ?case using Complete(3) c b by (auto simp: ingest_ok_def in_flight_def)
next
  case (Stop s)
  then show ?case by (simp add: ingest_ok_def in_flight_def)
qed

interpretation ingestion: step_invariant ingest_step ingest_ok
  by unfold_locales (rule ingest_ok_step)

section \<open>Properties\<close>

lemma complete_batch_bytes:
  assumes "complete_batch rs (w, db) = ((w', db'), finished)" "sum_list (map rq_charge rs) \<le> db_queue_bytes db" "db_queue_bytes db \<le> UINT64_MAX"
  shows "db_queue_bytes db' = db_queue_bytes db - sum_list (map rq_charge finished)"
  using complete_batch_queue [OF assms(1)] same_id(1) [of finished rs] assms(2,3) by (simp add: fold_sub64)

lemma writer_round_bytes:
  assumes r: "writer_round (w, db) = ((w', db'), finished)" and q: "db_queue db \<noteq> []"
    and b: "sum_list (map rq_charge (db_queue db)) \<le> db_queue_bytes db" "db_queue_bytes db \<le> UINT64_MAX"
  shows "db_queue_bytes db' = db_queue_bytes db - sum_list (map rq_charge finished)"
proof -
  obtain w1 db1 batch where t: "take_batch (w, db) = ((w1, db1), batch)" by (metis prod.exhaust)
  obtain w2 db2 committed where c: "commit_group batch (w1, db1) = ((w2, db2), committed)" by (metis prod.exhaust)
  have f: "complete_batch committed (w2, db2) = ((w', db'), finished)" using r t c by (simp add: writer_round_def)
  have v: "db_queue_bytes db2 = db_queue_bytes db" using commit_group_queue [OF c] take_batch_view [OF t] by (simp add: queue_view_def)
  obtain front where "db_queue db = front @ db_queue db1" "map request_id batch = map request_id front"
    using take_batch_queue [OF t q] by blast
  then have "sum_list (map rq_charge committed) \<le> db_queue_bytes db"
    using same_id(1) [of committed front] commit_group_id [OF c] b(1) by simp
  then show ?thesis using complete_batch_bytes [OF f] v b(2) by simp
qed

lemma writer_drain_bytes:
  "writer_drain (w, db) = ((w', db'), finished) \<Longrightarrow> sum_list (map rq_charge (db_queue db)) \<le> db_queue_bytes db \<Longrightarrow>
     db_queue_bytes db \<le> UINT64_MAX \<Longrightarrow> db_queue_bytes db' = db_queue_bytes db - sum_list (map rq_charge (db_queue db))"
proof (induction "length (db_queue db)" arbitrary: w db finished rule: less_induct)
  case less
  show ?case
  proof (cases "db_queue db = []")
    case True
    with less(2) show ?thesis by (simp add: writer_drain.simps)
  next
    case False
    obtain w1 db1 f1 where r: "writer_round (w, db) = ((w1, db1), f1)" by (metis prod.exhaust)
    obtain st f2 where d: "writer_drain (w1, db1) = (st, f2)" by fastforce
    have e: "st = (w', db')" using less(2) False r d by (simp add: writer_drain.simps [of w db])
    note q = writer_round_queue [OF r False]
    obtain front where f: "db_queue db = front @ db_queue db1" "map request_id f1 = map request_id front" using q(3) by blast
    have "front \<noteq> []" using q(1) f(2) by auto
    moreover have "db_queue_bytes db1 = db_queue_bytes db - sum_list (map rq_charge front)"
      using writer_round_bytes [OF r False less(3,4)] same_id(1) [OF f(2)] by simp
    ultimately show ?thesis using less(1) [of db1 w1 f2] d e f(1) less(3,4) by simp
  qed
qed

text \<open>
  C3: Every queued append is answered. Stopping the writer, whatever system calls fail meanwhile,
  ends with an empty queue; each request that was queued has been completed, in the order of the
  queue, and the memory reserved for all of them has been returned.
\<close>

theorem writer_stop_completes:
  assumes "db_writer_started db" and "db_queue_bytes db = sum_list (map rq_charge (db_queue db))" and "db_queue_bytes db \<le> UINT64_MAX"
  shows "\<exists>w' db' finished. wadb_writer_stop (w, db) = ((w', db'), finished) \<and> db_queue db' = [] \<and> db_queue_bytes db' = 0 \<and>
    \<not> db_writer_started db' \<and> map request_id finished = map request_id (db_queue db) \<and> list_all rq_done finished"
proof -
  obtain w1 db1 f where d: "writer_drain (w, db\<lparr>db_stopping := True\<rparr>) = ((w1, db1), f)" by (metis prod.exhaust)
  show ?thesis using writer_drain_queue [OF d] writer_drain_bytes [OF d] assms d by (simp add: wadb_writer_stop_def)
qed

definition example_request :: wadb_append_request where
  "example_request = new_request 0 (CMem []) 1 16 0"

definition example_queue :: wadb_db where
  "example_queue =
     empty_db\<lparr>db_writer_started := True, db_tables := [example_table], db_queue := [example_request, example_request],
              db_queue_bytes := 896, db_ready_bytes := 32\<rparr>"

lemma example_queue_simps:
  "db_writer_started example_queue" "db_queue example_queue = [example_request, example_request]" "db_queue_bytes example_queue = 896"
  "rq_charge example_request = 448"
  by (simp_all add: example_queue_def example_request_def new_request_def SIZEOF_APPEND_REQUEST_def)

theorem writer_stop_completes_witness:
  "db_writer_started example_queue \<and> db_queue_bytes example_queue = sum_list (map rq_charge (db_queue example_queue)) \<and>
   db_queue_bytes example_queue \<le> UINT64_MAX \<and>
   (\<exists>w' db' finished. wadb_writer_stop (quiet_world, example_queue) = ((w', db'), finished) \<and> db_queue db' = [] \<and> db_queue_bytes db' = 0 \<and>
      \<not> db_writer_started db' \<and> map request_id finished = map request_id (db_queue example_queue) \<and> list_all rq_done finished)"
  using writer_stop_completes [of example_queue quiet_world] by (simp add: example_queue_simps)

text \<open>
  C4: In every interleaving of producers and the writer, the reserved memory is exactly that of the
  requests that have not been answered and stays within the configured limit, and every batch the
  writer takes can be one frame: one table, bounded size, times in order and on one day.
\<close>

theorem ingestion_accounting:
  assumes "ingest_start s0" and "ingest_step\<^sup>*\<^sup>* s0 s"
  shows "db_queue_bytes (in_db s) = sum_list (map rq_charge (in_flight s)) \<and>
    db_queue_bytes (in_db s) \<le> op_queue_limit_bytes (db_options (in_db s)) \<and>
    db_ready_bytes (in_db s) = sum_list (map rq_row_bytes (db_queue (in_db s))) \<and>
    (in_batch s \<noteq> [] \<longrightarrow> batch_ok (in_batch s))"
  using ingestion.reachable [OF assms(2) ingest_ok_start [OF assms(1)]] by (simp add: ingest_ok_def)

definition example_ingest :: ingest where
  "example_ingest =
     \<lparr>in_world = quiet_world, in_db = empty_db\<lparr>db_writer_started := True, db_tables := [example_table]\<rparr>,
      in_staging = [], in_batch = [], in_committed = [], in_done = []\<rparr>"

lemma example_ingest_reserves:
  "\<exists>s. ingest_step example_ingest s \<and> length (in_flight s) = 1"
proof -
  let ?db = "empty_db\<lparr>db_writer_started := True, db_tables := [example_table]\<rparr>"
  have c: "clock_ns quiet_world = (quiet_world\<lparr>w_tick := 1\<rparr>, 1)"
    by (simp add: clock_ns_def sys_def quiet_world_def wadb_monotonic_ns_def add64_exact mul64_def)
  let ?r = "new_request 0 (CMem [null_value, null_value]) 1 (row_width example_schema) 1"
  have "reserve_append (Some 0) (CMem [null_value, null_value]) 1 (quiet_world, ?db) =
      ((quiet_world\<lparr>w_tick := 1\<rparr>, ?db\<lparr>db_queue_bytes := rq_charge ?r\<rparr>), Inr ?r)"
    by (simp add: reserve_append_def c append_invalid_def empty_db_def example_table_def example_schema_def wadb_mul_size_def mul64_def
        WADB_MAX_FRAME_BYTES_def new_request_def SIZEOF_APPEND_REQUEST_def wadb_options_default_def sub64_exact Let_def)
  then have "reserve_append (Some 0) (CMem [null_value, null_value]) 1 (in_world example_ingest, in_db example_ingest) =
      ((quiet_world\<lparr>w_tick := 1\<rparr>, ?db\<lparr>db_queue_bytes := rq_charge ?r\<rparr>), Inr ?r)" by (simp only: example_ingest_def ingest.simps)
  note step = ingest_step.Reserve [OF this]
  show ?thesis by (rule exI, rule conjI, rule step) (simp add: in_flight_def example_ingest_def empty_db_def)
qed

theorem ingestion_accounting_witness:
  "\<exists>s. ingest_start example_ingest \<and> ingest_step\<^sup>*\<^sup>* example_ingest s \<and> length (in_flight s) = 1 \<and>
     db_queue_bytes (in_db s) = sum_list (map rq_charge (in_flight s)) \<and>
     db_queue_bytes (in_db s) \<le> op_queue_limit_bytes (db_options (in_db s)) \<and>
     db_ready_bytes (in_db s) = sum_list (map rq_row_bytes (db_queue (in_db s))) \<and>
     (in_batch s \<noteq> [] \<longrightarrow> batch_ok (in_batch s))"
proof -
  obtain s where s: "ingest_step example_ingest s" "length (in_flight s) = 1" using example_ingest_reserves by blast
  have i: "ingest_start example_ingest" by (simp add: ingest_start_def example_ingest_def empty_db_def wadb_options_default_def)
  have r: "ingest_step\<^sup>*\<^sup>* example_ingest s" using s(1) by blast
  show ?thesis using i r s(2) ingestion_accounting [OF i r] by blast
qed

end
