(* ===== verification/Wadb_Durability.thy ===== *)
theory Wadb_Durability
  imports Wadb_Writer
begin

unbundle bit_operations_syntax

text \<open>
  What an acknowledged append is worth. The frames of a segment file tile it from the end of the
  header to the committed boundary, and the index describes exactly these frames (\<open>tiled\<close>). A
  commit that returns successfully extends such a file by one complete frame; recovery finds every
  frame of such a file again, whatever an interrupted append has left behind it. A commit that fails
  publishes nothing.
\<close>

section \<open>Segment files\<close>

text \<open>
  The bytes of \<open>c\<close> from \<open>off\<close> to \<open>final\<close> are the frames that the entries describe, and their rows
  are numbered from \<open>seq + 1\<close> to \<open>last_seq\<close>.
\<close>

fun tiled :: "bytes \<Rightarrow> nat \<Rightarrow> nat \<Rightarrow> wadb_index_entry list \<Rightarrow> nat \<Rightarrow> nat \<Rightarrow> bool" where
  "tiled c off seq [] final last_seq \<longleftrightarrow> off = final \<and> seq = last_seq"
| "tiled c off seq (v # vs) final last_seq \<longleftrightarrow>
     (let p = chunk c off (ie_frame_bytes v) in
      case wadb_frame_decode p of
        Inl _ \<Rightarrow> False
      | Inr f \<Rightarrow>
          v = wadb_index_for_frame f p off \<and> fr_first_sequence f = seq + 1 \<and>
          tiled c (off + ie_frame_bytes v) (seq + fr_row_count f) vs final last_seq)"

text \<open>The active segment of a table and its file.\<close>

definition active_ok :: "world \<Rightarrow> wadb_table \<Rightarrow> bool" where
  "active_ok w t \<longleftrightarrow>
     (active_last t \<longrightarrow>
       (case tb_active_fd t of
          None \<Rightarrow> False
        | Some path \<Rightarrow>
            w_files w path = Some (File (content w path)) \<and>
            length (content w path) = sg_committed_bytes (last (tb_segments t)) \<and>
            0 < sg_first_sequence (last (tb_segments t)) \<and>
            tiled (content w path) WADB_SEGMENT_HEADER_BYTES (sg_first_sequence (last (tb_segments t)) - 1)
              (fi_entries (tb_index t)) (sg_committed_bytes (last (tb_segments t))) (tb_last_sequence t)))"

lemma inspect_bytes: "wadb_frame_inspect p = Inr f \<Longrightarrow> fr_frame_bytes f = unat (wadb_get_u32 (drop 8 p))"
  by (auto simp: wadb_frame_inspect_def Let_def split: if_splits option.splits)

lemma decode_bytes: "wadb_frame_decode p = Inr f \<Longrightarrow> unat (wadb_get_u32 (drop 8 p)) = length p"
proof -
  assume d: "wadb_frame_decode p = Inr f"
  then obtain f0 where f0: "wadb_frame_inspect p = Inr f0" "length p = fr_frame_bytes f0"
    by (auto simp: wadb_frame_decode_def res_simps Let_def split: if_splits)
  then show ?thesis using inspect_bytes [OF f0(1)] by simp
qed

lemma decode_length: "wadb_frame_decode p = Inr f \<Longrightarrow> 96 \<le> length p"
  using frame_decode_ok(3) by fastforce

lemma entry_bytes_decoded: "wadb_frame_decode p = Inr f \<Longrightarrow> ie_frame_bytes (wadb_index_for_frame f p off) = length p"
  by (simp add: wadb_index_for_frame_def decode_bytes Let_def)

text \<open>The length of a frame is in its header.\<close>

lemma get_u32_take: "4 \<le> k \<Longrightarrow> wadb_get_u32 (take k p) = wadb_get_u32 p"
  by (simp add: wadb_get_u32_def)

lemma length_field_chunk: "12 \<le> n \<Longrightarrow> wadb_get_u32 (drop 8 (chunk c off n)) = wadb_get_u32 (drop (8 + off) c)"
  by (simp add: chunk_def drop_take get_u32_take)

lemma header_length:
  assumes "wadb_frame_decode (chunk c off n) = Inr f" "wadb_frame_inspect (chunk c off 80) = Inr g" "length (chunk c off n) = n"
  shows "fr_frame_bytes g = n"
  using decode_length [OF assms(1)] inspect_bytes [OF assms(2)] decode_bytes [OF assms(1)] assms(3) by (simp add: length_field_chunk)

lemma frame_length_unique:
  assumes "wadb_frame_decode (chunk c off n) = Inr f" "wadb_frame_decode (chunk c off m) = Inr g" "off + n \<le> length c" "off + m \<le> length c"
  shows "n = m"
  using decode_length [OF assms(1)] decode_length [OF assms(2)] decode_bytes [OF assms(1)] decode_bytes [OF assms(2)] assms(3,4)
  by (simp add: length_field_chunk)

lemma tiled_ConsD:
  assumes "tiled c off seq (v # vs) final last_seq"
  obtains f where "wadb_frame_decode (chunk c off (ie_frame_bytes v)) = Inr f"
    "v = wadb_index_for_frame f (chunk c off (ie_frame_bytes v)) off" "fr_first_sequence f = seq + 1"
    "length (chunk c off (ie_frame_bytes v)) = ie_frame_bytes v" "96 \<le> ie_frame_bytes v" "off + ie_frame_bytes v \<le> length c"
    "tiled c (off + ie_frame_bytes v) (seq + fr_row_count f) vs final last_seq"
proof -
  let ?p = "chunk c off (ie_frame_bytes v)"
  obtain f where f: "wadb_frame_decode ?p = Inr f" "v = wadb_index_for_frame f ?p off" "fr_first_sequence f = seq + 1"
    "tiled c (off + ie_frame_bytes v) (seq + fr_row_count f) vs final last_seq"
    using assms by (auto simp: Let_def split: sum.splits)
  have l: "length ?p = ie_frame_bytes v" using entry_bytes_decoded [OF f(1)] f(2) by metis
  moreover have "96 \<le> ie_frame_bytes v" using decode_length [OF f(1)] l by simp
  moreover have "off + ie_frame_bytes v \<le> length c" using calculation by (simp add: chunk_def)
  ultimately show ?thesis using that f by blast
qed

lemma tiled_bound: "tiled c off seq vs final last_seq \<Longrightarrow> off \<le> length c \<Longrightarrow> off \<le> final \<and> final \<le> length c"
proof (induction vs arbitrary: off seq)
  case (Cons v vs)
  from Cons.prems(1) show ?case by (rule tiled_ConsD) (use Cons.IH in fastforce)
qed simp

lemma tiled_cong:
  "tiled c off seq vs final last_seq \<Longrightarrow> off \<le> length c \<Longrightarrow> take final c' = take final c \<Longrightarrow> tiled c' off seq vs final last_seq"
proof (induction vs arbitrary: off seq)
  case (Cons v vs)
  from Cons.prems(1) show ?case
  proof (rule tiled_ConsD)
    fix f assume f: "wadb_frame_decode (chunk c off (ie_frame_bytes v)) = Inr f"
      "v = wadb_index_for_frame f (chunk c off (ie_frame_bytes v)) off" "fr_first_sequence f = seq + 1"
      "off + ie_frame_bytes v \<le> length c" "tiled c (off + ie_frame_bytes v) (seq + fr_row_count f) vs final last_seq"
    have b: "off + ie_frame_bytes v \<le> final" using tiled_bound [OF f(5,4)] by simp
    have "chunk c' off (ie_frame_bytes v) = chunk (take final c') off (ie_frame_bytes v)" using b by (simp add: chunk_def drop_take)
    also have "\<dots> = chunk c off (ie_frame_bytes v)" using b Cons.prems(3) by (simp add: chunk_def drop_take)
    finally show ?thesis using f Cons.IH [OF f(5,4) Cons.prems(3)] by (simp add: Let_def)
  qed
qed simp

lemma tiled_append:
  "tiled c off seq vs mid mid_seq \<Longrightarrow> tiled c mid mid_seq us final last_seq \<Longrightarrow> tiled c off seq (vs @ us) final last_seq"
  by (induction vs arbitrary: off seq) (auto simp: Let_def split: sum.splits)

lemma tiled_single:
  "wadb_frame_decode p = Inr f \<Longrightarrow> p = chunk c off (length p) \<Longrightarrow> fr_first_sequence f = seq + 1 \<Longrightarrow>
     tiled c off seq [wadb_index_for_frame f p off] (off + length p) (seq + fr_row_count f)"
  by (simp add: entry_bytes_decoded Let_def)

section \<open>Recovery\<close>

lemma replay_frame_ok:
  assumes "replay_frame s h bytes sc (w, t) = ((w', t'), Inr sc')"
  obtains f where "wadb_frame_decode bytes = Inr f" "fr_first_sequence f = tb_last_sequence t + 1" "w_files w' = w_files w"
    "tb_last_sequence t' = tb_last_sequence t + fr_row_count f" "sc_offset sc' = sc_offset sc + length bytes"
    "fi_entries (sc_index sc') = fi_entries (sc_index sc) @ [wadb_index_for_frame f bytes (sc_offset sc)]"
    "sc_last sc' = tb_last_sequence t'"
proof -
  obtain f d w1 w2 w3 index where f: "wadb_frame_decode bytes = Inr f" "\<not> frame_mismatch t s h f" "apply_frame (sc_dictionary sc) f w = (w1, Inr d)"
    "wadb_index_reserve (sc_index sc) w1 = (w', Inr index)" "t' = t\<lparr>tb_last_sequence := fr_first_sequence f + fr_row_count f - 1, tb_last_time := fr_max_time f\<rparr>"
    "sc_offset sc' = sc_offset sc + fr_frame_bytes f" "sc_last sc' = fr_first_sequence f + fr_row_count f - 1"
    "sc_index sc' = index\<lparr>fi_entries := fi_entries index @ [wadb_index_for_frame f bytes (sc_offset sc)]\<rparr>"
    using assms by (auto simp: replay_frame_def io_ok Let_def)
  have "w_files w1 = w_files w" using f(3) by (auto simp: apply_frame_def with_allocs_def split: prod.splits)
  moreover have "w_files w' = w_files w1 \<and> fi_entries index = fi_entries (sc_index sc)"
    using f(4) by (auto simp: wadb_index_reserve_def Let_def io_ok dest: call_files split: if_splits)
  moreover have "fr_first_sequence f = tb_last_sequence t + 1" using f(2) by (simp add: frame_mismatch_def)
  ultimately show ?thesis using that [of f] f frame_decode_ok(7) [OF f(1)] by simp
qed

text \<open>One step reads the frame at the current offset, or finds that the file ends inside it.\<close>

definition incomplete :: "bytes \<Rightarrow> bool" where
  "incomplete p \<longleftrightarrow>
     length p < WADB_FRAME_HEADER_BYTES \<or>
     (case wadb_frame_inspect (take WADB_FRAME_HEADER_BYTES p) of Inl _ \<Rightarrow> False | Inr f \<Rightarrow> length p < fr_frame_bytes f)"

lemma clock_files: "clock_ns w = (w', now) \<Longrightarrow> w_files w' = w_files w"
  by (auto simp: clock_ns_def sys_def split: outcome.splits)

lemma recover_step_ok:
  assumes "recover_step path s h (length (content w path)) deadline sc (w, t) = ((w', t'), Inr (Some sc'))"
  obtains f where "wadb_frame_decode (chunk (content w path) (sc_offset sc) (sc_offset sc' - sc_offset sc)) = Inr f"
    "fr_first_sequence f = tb_last_sequence t + 1" "w_files w' = w_files w" "tb_last_sequence t' = tb_last_sequence t + fr_row_count f"
    "sc_offset sc < sc_offset sc'" "sc_offset sc' \<le> length (content w path)"
    "fi_entries (sc_index sc') = fi_entries (sc_index sc) @
       [wadb_index_for_frame f (chunk (content w path) (sc_offset sc) (sc_offset sc' - sc_offset sc)) (sc_offset sc)]"
    "sc_last sc' = tb_last_sequence t'"
proof -
  obtain w1 now where c: "clock_ns w = (w1, now)" by fastforce
  obtain w2 w3 w4 p f0 k bytes where r: "wadb_pread_all path WADB_FRAME_HEADER_BYTES (sc_offset sc) w1 = (w2, Inr p)"
    "wadb_frame_inspect p = Inr f0" "call WADB_NOMEM w2 = (w3, Inr k)"
    "wadb_pread_all path (fr_frame_bytes f0) (sc_offset sc) w3 = (w4, Inr bytes)" "replay_frame s h bytes sc (w4, t) = ((w', t'), Inr sc')"
    using assms c by (auto simp: recover_step_def io_ok split: if_splits)
  have fs: "w_files w1 = w_files w" "w_files w2 = w_files w" "w_files w3 = w_files w" "w_files w4 = w_files w"
    using clock_files [OF c] pread_all_ok [OF r(1)] call_files [OF r(3)] pread_all_ok [OF r(4)] by simp_all
  have ct: "content w1 path = content w path" "content w3 path = content w path" using fs by (simp_all add: content_def)
  have n0: "fr_frame_bytes f0 \<noteq> 0" using frame_inspect_ok(3) [OF r(2)] by simp
  have b: "bytes = chunk (content w path) (sc_offset sc) (fr_frame_bytes f0)" "sc_offset sc + fr_frame_bytes f0 \<le> length (content w path)"
    using pread_all_ok [OF r(4)] ct n0 by simp_all
  then have l: "length bytes = fr_frame_bytes f0" by simp
  from r(5) show ?thesis
  proof (rule replay_frame_ok)
    fix f assume f: "wadb_frame_decode bytes = Inr f" "fr_first_sequence f = tb_last_sequence t + 1" "w_files w' = w_files w4"
      "tb_last_sequence t' = tb_last_sequence t + fr_row_count f" "sc_offset sc' = sc_offset sc + length bytes"
      "fi_entries (sc_index sc') = fi_entries (sc_index sc) @ [wadb_index_for_frame f bytes (sc_offset sc)]" "sc_last sc' = tb_last_sequence t'"
    show ?thesis using that [of f] f fs b l n0 by simp
  qed
qed

lemma recover_step_none:
  assumes "recover_step path s h (length (content w path)) deadline sc (w, t) = ((w', t'), Inr None)" "sc_offset sc \<le> length (content w path)"
  shows "incomplete (drop (sc_offset sc) (content w path))" "w_files w' = w_files w" "t' = t"
proof -
  obtain w1 now where c: "clock_ns w = (w1, now)" by fastforce
  let ?p = "drop (sc_offset sc) (content w path)"
  have "incomplete ?p \<and> w_files w' = w_files w \<and> t' = t"
  proof (cases "length (content w path) - sc_offset sc < WADB_FRAME_HEADER_BYTES")
    case True
    then show ?thesis using assms(1) c clock_files [OF c] by (auto simp: recover_step_def incomplete_def split: if_splits)
  next
    case False
    obtain p f0 where r: "wadb_pread_all path WADB_FRAME_HEADER_BYTES (sc_offset sc) w1 = (w', Inr p)" "wadb_frame_inspect p = Inr f0"
      "fr_frame_bytes f0 > length (content w path) - sc_offset sc" "t' = t"
      using assms(1) c False by (auto simp: recover_step_def io_ok split: if_splits)
    have "p = take WADB_FRAME_HEADER_BYTES ?p"
      using pread_all_ok [OF r(1)] clock_files [OF c] by (simp add: content_def chunk_def)
    then show ?thesis using r pread_all_ok [OF r(1)] clock_files [OF c] by (simp add: incomplete_def)
  qed
  then show "incomplete ?p" "w_files w' = w_files w" "t' = t" by simp_all
qed

text \<open>The loop reads the frames that tile the file, and stops at its end or at an incomplete frame.\<close>

lemma recover_loop_ok:
  assumes "recover_loop path s h filesize deadline sc (w, t) = ((w', t'), Inr (sc', partial))"
    and "filesize = length (content w path)" and "sc_offset sc \<le> filesize"
  shows "w_files w' = w_files w \<and> sc_offset sc \<le> sc_offset sc' \<and> sc_offset sc' \<le> filesize \<and>
    (\<exists>vs. fi_entries (sc_index sc') = fi_entries (sc_index sc) @ vs \<and>
       tiled (content w path) (sc_offset sc) (tb_last_sequence t) vs (sc_offset sc') (tb_last_sequence t')) \<and>
    (if partial then incomplete (drop (sc_offset sc') (content w path)) else sc_offset sc' = filesize)"
  using assms
proof (induction path s h filesize deadline sc "(w, t)" arbitrary: w t rule: recover_loop.induct)
  case (1 path s h filesize deadline sc w t)
  show ?case
  proof (cases "sc_offset sc < filesize")
    case False
    then show ?thesis using 1(2,4) by (auto simp: recover_loop.simps [of path s h filesize])
  next
    case True
    obtain w1 t1 r where st: "recover_step path s h filesize deadline sc (w, t) = ((w1, t1), r)" by (metis prod.exhaust)
    consider e where "r = Inl e" | "r = Inr None" | sc1 where "r = Inr (Some sc1)" by (metis option.exhaust sum.exhaust)
    then show ?thesis
    proof cases
      case 1
      then show ?thesis using "1.prems"(1) st True by (simp add: recover_loop.simps [of path s h filesize])
    next
      case 2
      then have e: "w' = w1" "t' = t1" "sc' = sc" "partial" using "1.prems"(1) st True by (simp_all add: recover_loop.simps [of path s h filesize])
      show ?thesis using recover_step_none [of path s h w deadline sc t w1 t1] st 2 "1.prems" e True by simp
    next
      case (3 sc1)
      have l: "recover_loop path s h filesize deadline sc1 (w1, t1) = ((w', t'), Inr (sc', partial))"
        using "1.prems"(1) st True 3 by (simp add: recover_loop.simps [of path s h filesize])
      have st': "recover_step path s h (length (content w path)) deadline sc (w, t) = ((w1, t1), Inr (Some sc1))" using st 3 "1.prems"(2) by simp
      let ?p = "chunk (content w path) (sc_offset sc) (sc_offset sc1 - sc_offset sc)"
      from st' show ?thesis
      proof (rule recover_step_ok)
        fix f assume f: "wadb_frame_decode ?p = Inr f" "fr_first_sequence f = tb_last_sequence t + 1" "w_files w1 = w_files w"
          "tb_last_sequence t1 = tb_last_sequence t + fr_row_count f" "sc_offset sc < sc_offset sc1" "sc_offset sc1 \<le> length (content w path)"
          "fi_entries (sc_index sc1) = fi_entries (sc_index sc) @ [wadb_index_for_frame f ?p (sc_offset sc)]" "sc_last sc1 = tb_last_sequence t1"
        have c: "content w1 path = content w path" using f(3) by (simp add: content_def)
        have lp: "length ?p = sc_offset sc1 - sc_offset sc" using f(5,6) by simp
        have tl: "tiled (content w path) (sc_offset sc) (tb_last_sequence t) [wadb_index_for_frame f ?p (sc_offset sc)] (sc_offset sc1) (tb_last_sequence t1)"
          using tiled_single [OF f(1), of "content w path" "sc_offset sc" "tb_last_sequence t"] lp f(2,4,5) by simp
        note ih = "1.hyps" [OF True st [symmetric] 3 refl l]
        have "w_files w' = w_files w1 \<and> sc_offset sc1 \<le> sc_offset sc' \<and> sc_offset sc' \<le> filesize \<and>
          (\<exists>vs. fi_entries (sc_index sc') = fi_entries (sc_index sc1) @ vs \<and>
             tiled (content w1 path) (sc_offset sc1) (tb_last_sequence t1) vs (sc_offset sc') (tb_last_sequence t')) \<and>
          (if partial then incomplete (drop (sc_offset sc') (content w1 path)) else sc_offset sc' = filesize)"
          using c f(6) "1.prems"(2) by (intro ih) simp_all
        then show ?thesis using c f(3,5,7) tiled_append [OF tl] by auto
      qed
    qed
  qed
qed

text \<open>Every frame that tiles the file is found, in a loop that returns.\<close>

lemma recover_loop_complete:
  assumes "recover_loop path s h filesize deadline sc (w, t) = ((w', t'), Inr (sc', partial))"
    and "filesize = length (content w path)" and "tiled (content w path) (sc_offset sc) (tb_last_sequence t) vs final last_seq"
  shows "\<exists>us. fi_entries (sc_index sc') = fi_entries (sc_index sc) @ vs @ us"
  using assms
proof (induction path s h filesize deadline sc "(w, t)" arbitrary: w t vs rule: recover_loop.induct)
  case (1 path s h filesize deadline sc w t)
  show ?case
  proof (cases vs)
    case Nil
    show ?thesis
    proof (cases "sc_offset sc \<le> filesize")
      case True
      then show ?thesis using recover_loop_ok [OF "1.prems"(1,2)] Nil by auto
    next
      case False
      then show ?thesis using "1.prems"(1) Nil by (simp add: recover_loop.simps [of path s h filesize])
    qed
  next
    case (Cons v us)
    let ?c = "content w path" and ?n = "ie_frame_bytes v"
    from "1.prems"(3) [unfolded Cons] show ?thesis
    proof (rule tiled_ConsD)
      fix f assume f: "wadb_frame_decode (chunk ?c (sc_offset sc) ?n) = Inr f"
        "v = wadb_index_for_frame f (chunk ?c (sc_offset sc) ?n) (sc_offset sc)" "length (chunk ?c (sc_offset sc) ?n) = ?n"
        "96 \<le> ?n" "sc_offset sc + ?n \<le> length ?c"
        "tiled ?c (sc_offset sc + ?n) (tb_last_sequence t + fr_row_count f) us final last_seq"
      have lt: "sc_offset sc < filesize" using f(4,5) "1.prems"(2) by simp
      obtain w1 t1 r where st: "recover_step path s h filesize deadline sc (w, t) = ((w1, t1), r)" by (metis prod.exhaust)
      have hdr: "fr_frame_bytes g = ?n" if "wadb_frame_inspect (chunk ?c (sc_offset sc) 80) = Inr g" for g
        by (rule header_length [OF f(1) that f(3)])
      obtain sc1 where sc1: "r = Inr (Some sc1)"
      proof (cases r)
        case (Inl e)
        then show ?thesis using "1.prems"(1) st lt by (simp add: recover_loop.simps [of path s h filesize])
      next
        case (Inr x)
        have "x \<noteq> None"
        proof
          assume "x = None"
          then have "incomplete (drop (sc_offset sc) ?c)"
            using recover_step_none(1) [of path s h w deadline sc t w1 t1] st Inr "1.prems"(2) lt by simp
          then show False using hdr f(4,5) by (auto simp: incomplete_def WADB_FRAME_HEADER_BYTES_def chunk_def split: sum.splits)
        qed
        then show ?thesis using that Inr by auto
      qed
      have l: "recover_loop path s h filesize deadline sc1 (w1, t1) = ((w', t'), Inr (sc', partial))"
        using "1.prems"(1) st lt sc1 by (simp add: recover_loop.simps [of path s h filesize])
      have st': "recover_step path s h (length ?c) deadline sc (w, t) = ((w1, t1), Inr (Some sc1))" using st sc1 "1.prems"(2) by simp
      from st' show ?thesis
      proof (rule recover_step_ok)
        fix f1 assume g: "wadb_frame_decode (chunk ?c (sc_offset sc) (sc_offset sc1 - sc_offset sc)) = Inr f1" "w_files w1 = w_files w"
          "tb_last_sequence t1 = tb_last_sequence t + fr_row_count f1" "sc_offset sc < sc_offset sc1"
          "fi_entries (sc_index sc1) = fi_entries (sc_index sc) @
             [wadb_index_for_frame f1 (chunk ?c (sc_offset sc) (sc_offset sc1 - sc_offset sc)) (sc_offset sc)]"
          "sc_offset sc1 \<le> length ?c"
        have n: "sc_offset sc1 - sc_offset sc = ?n"
          using frame_length_unique [OF g(1) f(1)] f(5) g(4,6) by simp
        then have e: "f1 = f" "sc_offset sc1 = sc_offset sc + ?n" using g(1,4) f(1) by simp_all
        have c: "content w1 path = ?c" using g(2) by (simp add: content_def)
        have "tiled (content w1 path) (sc_offset sc1) (tb_last_sequence t1) us final last_seq" using f(6) e g(3) c by simp
        then show ?thesis using "1.hyps" [OF lt st [symmetric] sc1 refl l] "1.prems"(2) c g(5) f(2) n e(1) Cons by simp
      qed
    qed
  qed
qed

subsection \<open>The active segment\<close>

definition seg_path :: "wadb_table \<Rightarrow> wadb_segment_meta \<Rightarrow> bytes \<Rightarrow> path" where
  "seg_path t s ext =
     tb_directory t @ 47 # date_text (c_div (sg_day_start s) 1000000) @ 47 # decimal20 (sg_id s) @ 46 # ext"

lemma segment_path_ok:
  "wadb_segment_path t s ext w = (w', Inr path) \<Longrightarrow> w_files w' = w_files w \<and> path = seg_path t s ext"
  by (auto simp: wadb_segment_path_def partition_path_def seg_path_def io_ok dest!: path_result)

lemma open_file_ok:
  assumes "open_file path e w = (w', Inr u)"
  shows "w_files w' = w_files w" "w_files w path = Some (File (content w path))"
proof -
  obtain w1 k where c: "call e w = (w1, Inr k)"
    and o: "(case w_files w1 path of Some (File c) \<Rightarrow> (w1, Inr ()) | _ \<Rightarrow> (w1, Inl e)) = (w', Inr u)"
    using assms by (auto simp: open_file_def io_ok)
  from o obtain c where "w_files w1 path = Some (File c)" "w' = w1" by (auto split: option.splits node.splits)
  then show "w_files w' = w_files w" "w_files w path = Some (File (content w path))"
    using call_files [OF c] by (simp_all add: content_def)
qed

lemma file_size_ok: "file_size path e w = (w', Inr n) \<Longrightarrow> w_files w' = w_files w \<and> n = length (content w path)"
  by (auto simp: file_size_def io_ok content_def dest!: call_files)

lemma read_segment_header_ok: "read_segment_header path w = (w', Inr h) \<Longrightarrow> w_files w' = w_files w"
  by (auto simp: read_segment_header_def io_ok dest!: pread_all_ok)

lemma truncate_tail_ok:
  "truncate_tail path s offset w = (w', Inr u) \<Longrightarrow>
     w_files w' = (w_files w)(path \<mapsto> File (take offset (content w path))) \<and> sg_committed_bytes s \<le> offset"
  by (auto simp: truncate_tail_def io_ok content_def dest!: call_files sync_file_files)

lemma with_allocs_files: "with_allocs n f w = (w', r) \<Longrightarrow> w_files w' = w_files w"
  by (auto simp: with_allocs_def)

lemma scan_active_ok:
  assumes r: "scan_segment limit force deadline path s h (length (content w path)) (w, t) = ((w', t'), Inr s')"
    and s: "sg_state s = WADB_SEG_ACTIVE" and c: "w_files w path = Some (File (content w path))"
    and size: "WADB_SEGMENT_HEADER_BYTES \<le> length (content w path)" "sg_committed_bytes s \<le> length (content w path)"
  shows "tb_active_fd t' = Some path \<and> w_files w' = (w_files w)(path \<mapsto> File (take (sg_committed_bytes s') (content w path))) \<and>
    sg_committed_bytes s \<le> sg_committed_bytes s' \<and> sg_committed_bytes s' \<le> length (content w path) \<and>
    sg_first_sequence s' = sg_first_sequence s \<and> sg_state s' = WADB_SEG_ACTIVE \<and>
    tiled (content w path) WADB_SEGMENT_HEADER_BYTES (tb_last_sequence t) (fi_entries (tb_index t')) (sg_committed_bytes s') (tb_last_sequence t') \<and>
    (sg_committed_bytes s' = length (content w path) \<or> incomplete (drop (sg_committed_bytes s') (content w path))) \<and>
    (\<forall>vs final last_seq. tiled (content w path) WADB_SEGMENT_HEADER_BYTES (tb_last_sequence t) vs final last_seq \<longrightarrow>
       (\<exists>us. fi_entries (tb_index t') = vs @ us))"
proof -
  obtain w1 d w2 t2 sc partial w3 where
    d: "with_allocs 2 (\<lambda>a. wadb_dictionary_new a (tb_schema t) limit) w = (w1, Inr d)"
    and l: "recover_loop path s h (length (content w path)) deadline
        \<lparr>sc_offset = WADB_SEGMENT_HEADER_BYTES, sc_last = 0, sc_min_time = 0, sc_max_time = 0, sc_dictionary = d, sc_index = empty_index\<rparr>
        (w1, t) = ((w2, t2), Inr (sc, partial))"
    and p: "(if partial then truncate_tail path s (sc_offset sc) else return_io ()) w2 = (w3, Inr ())"
    and f: "finish_segment force path s sc (w3, t2) = ((w', t'), Inr s')"
    using r by (auto simp: scan_segment_def io_ok split: if_splits)
  have cw: "content w1 path = content w path" using with_allocs_files [OF d] by (simp add: content_def)
  note ok = recover_loop_ok [OF l] and complete = recover_loop_complete [OF l]
  have k: "w_files w2 = w_files w" "WADB_SEGMENT_HEADER_BYTES \<le> sc_offset sc" "sc_offset sc \<le> length (content w path)"
    "tiled (content w path) WADB_SEGMENT_HEADER_BYTES (tb_last_sequence t) (fi_entries (sc_index sc)) (sc_offset sc) (tb_last_sequence t2)"
    "if partial then incomplete (drop (sc_offset sc) (content w path)) else sc_offset sc = length (content w path)"
    using ok [unfolded cw] size with_allocs_files [OF d] by (simp_all add: empty_index_def)
  have fin: "w' = w3" "t' = t2\<lparr>tb_dictionary := Some (sc_dictionary sc), tb_index := sc_index sc, tb_active_fd := Some path\<rparr>"
    "s' = summarized s sc" using f s by (auto simp: finish_segment_def io_ok Let_def)
  have w3: "w_files w3 = (w_files w)(path \<mapsto> File (take (sc_offset sc) (content w path))) \<and> sg_committed_bytes s \<le> sc_offset sc"
  proof (cases partial)
    case True
    have "content w2 path = content w path" using k(1) by (simp add: content_def)
    then show ?thesis using p True truncate_tail_ok [of path s "sc_offset sc" w2 w3] k(1) by simp
  next
    case False
    then show ?thesis using p k(1,5) c size(2) by (auto simp: return_io_def)
  qed
  have cp: "\<exists>us. fi_entries (sc_index sc) = vs @ us"
    if "tiled (content w path) WADB_SEGMENT_HEADER_BYTES (tb_last_sequence t) vs final last_seq" for vs final last_seq
    using complete [of vs final last_seq] that cw by (simp add: empty_index_def)
  show ?thesis using w3 k fin cp s by (auto simp: summarized_def split: if_splits)
qed

lemma recover_active_ok:
  assumes r: "recover_segment limit force deadline s (w, t) = ((w', t'), Inr s')" and s: "sg_state s = WADB_SEG_ACTIVE"
  defines "path \<equiv> seg_path t s (ascii ''seg'')"
  shows "tb_active_fd t' = Some path \<and> w_files w' = (w_files w)(path \<mapsto> File (take (sg_committed_bytes s') (content w path))) \<and>
    sg_committed_bytes s \<le> sg_committed_bytes s' \<and> sg_committed_bytes s' \<le> length (content w path) \<and>
    sg_first_sequence s = tb_last_sequence t + 1 \<and> sg_first_sequence s' = sg_first_sequence s \<and> sg_state s' = WADB_SEG_ACTIVE \<and>
    tiled (content w path) WADB_SEGMENT_HEADER_BYTES (tb_last_sequence t) (fi_entries (tb_index t')) (sg_committed_bytes s') (tb_last_sequence t') \<and>
    (sg_committed_bytes s' = length (content w path) \<or> incomplete (drop (sg_committed_bytes s') (content w path))) \<and>
    (\<forall>vs final last_seq. tiled (content w path) WADB_SEGMENT_HEADER_BYTES (tb_last_sequence t) vs final last_seq \<longrightarrow>
       (\<exists>us. fi_entries (tb_index t') = vs @ us))"
proof -
  obtain w1 w2 w3 w4 n h p where
    a: "wadb_segment_path t s (ascii ''seg'') w = (w1, Inr p)" "open_file p WADB_CORRUPT w1 = (w2, Inr ())"
      "file_size p WADB_CORRUPT w2 = (w3, Inr n)" "\<not> (n < WADB_SEGMENT_HEADER_BYTES \<or> size_contradicts s n)"
      "read_segment_header p w3 = (w4, Inr h)" "sg_first_sequence s = tb_last_sequence t + 1"
      "scan_segment limit force deadline p s h n (w4, t) = ((w', t'), Inr s')"
    using r s by (auto simp: recover_segment_def io_ok)
  have fs: "w_files w4 = w_files w" "p = path" "w_files w path = Some (File (content w path))" "n = length (content w path)"
    using segment_path_ok [OF a(1)] open_file_ok [OF a(2)] file_size_ok [OF a(3)] read_segment_header_ok [OF a(5)]
    by (auto simp: path_def content_def)
  have c: "content w4 path = content w path" using fs(1) by (simp add: content_def)
  show ?thesis
    using scan_active_ok [of limit force deadline path s h w4 t w' t' s'] a(4,6,7) fs s c by (simp add: size_contradicts_def)
qed

section \<open>Commits\<close>

text \<open>Inverting a case distinction on a result.\<close>

lemma case_io_ok:
  "(case m of (w, Inl e) \<Rightarrow> f w e | (w, Inr x) \<Rightarrow> k w x) = (s, Inr y) \<longleftrightarrow>
     (\<exists>w e. m = (w, Inl e) \<and> f w e = (s, Inr y)) \<or> (\<exists>w x. m = (w, Inr x) \<and> k w x = (s, Inr y))"
  by (cases m; cases "snd m") auto

subsection \<open>Encoding a group\<close>

lemma intern_cell_ok:
  "intern_cell sc r offset row field (w, d, rows) = ((w', d', rows'), res) \<Longrightarrow> w_files w' = w_files w \<and> length rows' = length rows"
  by (auto simp: intern_cell_def Let_def split: if_splits prod.splits sum.splits dest!: with_allocs_files)

lemma for_each_keeps:
  assumes "\<And>x w d rows w' d' rows' res. f x (w, d, rows) = ((w', d', rows'), res) \<Longrightarrow> w_files w' = w_files w \<and> length rows' = length rows"
    and "for_each f xs (w, d, rows) = ((w', d', rows'), res)"
  shows "w_files w' = w_files w \<and> length rows' = length rows"
  using assms(2)
proof (induction xs arbitrary: w d rows)
  case (Cons x xs)
  obtain w1 d1 rows1 r1 where x: "f x (w, d, rows) = ((w1, d1, rows1), r1)" by (metis prod.exhaust)
  from Cons show ?case using assms(1) [OF x] x by (auto simp: bind_io_def split: sum.splits)
qed simp

lemma intern_request_ok:
  "intern_request sc offset r (w, d, rows) = ((w', d', rows'), res) \<Longrightarrow> w_files w' = w_files w \<and> length rows' = length rows"
  unfolding intern_request_def by (rule for_each_keeps [OF for_each_keeps [OF intern_cell_ok]])

lemma intern_group_ok:
  "intern_group sc offset rs (w, d, rows) = ((w', d', rows'), res) \<Longrightarrow> w_files w' = w_files w \<and> length rows' = length rows"
proof (induction rs arbitrary: offset w d rows)
  case (Cons r rs)
  obtain w1 d1 rows1 r1 where x: "intern_request sc offset r (w, d, rows) = ((w1, d1, rows1), r1)" by (metis prod.exhaust)
  from Cons show ?case using intern_request_ok [OF x] x by (auto simp: bind_io_def split: sum.splits)
qed simp

lemma encode_group_files:
  assumes "encode_group t g mark (w, d, rows) = ((w', d', rows'), res)"
  shows "w_files w' = w_files w \<and> length rows' = length rows"
proof -
  obtain w1 d1 rows1 r1 where x: "intern_group (tb_schema t) 0 (gp_requests g) (w, d, rows) = ((w1, d1, rows1), r1)" by (metis prod.exhaust)
  note i = intern_group_ok [OF x]
  from assms x i show ?thesis
    by (auto simp: encode_group_def bind_io_def on_world_def with_allocs_def return_io_def fail_io_def ensure_io_def Let_def
             split: sum.splits prod.splits if_splits)
qed

lemma encode_group_ok:
  assumes "encode_group t g mark (w, d, rows) = ((w', d', rows'), Inr (frame, bytes))"
  obtains definitions n alloc where "frame = group_frame t g rows' definitions n" "wadb_frame_encode alloc frame = Inr bytes"
    "length rows' = length rows"
proof -
  obtain w1 d1 rows1 where x: "intern_group (tb_schema t) 0 (gp_requests g) (w, d, rows) = ((w1, d1, rows1), Inr ())"
    and e: "\<exists>definitions n alloc. rows' = rows1 \<and> frame = group_frame t g rows1 definitions n \<and> wadb_frame_encode alloc frame = Inr bytes"
    using assms by (auto simp: encode_group_def io_ok Let_def with_allocs_def)
  then show ?thesis using that intern_group_ok [OF x] by auto
qed

text \<open>What requests look like when they are queued for a table of this width.\<close>

definition staged_ok :: "nat \<Rightarrow> wadb_append_request list \<Rightarrow> bool" where
  "staged_ok width rs \<longleftrightarrow>
     list_all (\<lambda>r. 0 < rq_row_count r \<and> rq_row_count r \<le> UINT32_MAX \<and> rq_row_bytes r \<le> WADB_MAX_FRAME_BYTES - 96 \<and>
       rq_row_bytes r = rq_row_count r * width \<and> length (rq_rows r) = rq_row_bytes r \<and> i64_range (rq_ingestion_time r)) rs"

lemma group_size_sums:
  "group_size rs (a, b) = Some (n, m) \<Longrightarrow> staged_ok width rs \<Longrightarrow> a \<le> UINT64_MAX \<Longrightarrow> b \<le> UINT64_MAX \<Longrightarrow>
     n = a + sum_list (map rq_row_count rs) \<and> m = b + sum_list (map rq_row_bytes rs)"
proof (induction rs arbitrary: a b)
  case (Cons r rs)
  then obtain a1 b1 where s: "wadb_add_size a (rq_row_count r) = Some a1" "wadb_add_size b (rq_row_bytes r) = Some b1" "group_size rs (a1, b1) = Some (n, m)"
    by (auto split: option.splits)
  have "a1 = a + rq_row_count r" "a1 \<le> UINT64_MAX" "b1 = b + rq_row_bytes r" "b1 \<le> UINT64_MAX"
    using s(1,2) Cons.prems
    by (auto simp: wadb_add_size_def add64_exact sub64_exact staged_ok_def WADB_MAX_FRAME_BYTES_def split: if_splits)
  then show ?case using Cons.IH [OF s(3)] Cons.prems(2) by (simp add: staged_ok_def)
qed simp

lemma length_stamp: "length (stamp_request width r) = min (rq_row_bytes r) (length (rq_rows r))"
proof -
  have "length (fold (\<lambda>j p. blit p (j * width) (f j)) xs p) = length p" for xs f and p :: bytes
    by (induction xs arbitrary: p) simp_all
  then show ?thesis by (simp add: stamp_request_def)
qed

lemma length_stamped: "staged_ok width rs \<Longrightarrow> length (concat (map (stamp_request width) rs)) = sum_list (map rq_row_count rs) * width"
  by (induction rs) (auto simp: staged_ok_def length_stamp add_mult_distrib)

lemma group_frame_decodes:
  assumes e: "wadb_frame_encode alloc (group_frame t g rows definitions n) = Inr bytes"
    and rows: "gp_row_count g * row_width (tb_schema t) \<le> length rows" and q: "tb_last_sequence t + 1 \<le> UINT64_MAX"
    and ts: "i64_range (gp_first_time g)" "i64_range (gp_last_time g)"
    and sz: "gp_row_count g \<le> UINT32_MAX" "row_width (tb_schema t) \<le> UINT32_MAX"
  shows "wadb_frame_decode bytes = Inr (decoded_frame (group_frame t g rows definitions n) bytes)"
proof -
  let ?f = "group_frame t g rows definitions n"
  have "frame_sizes ?f \<noteq> None" using e by (auto simp: wadb_frame_encode_def split: option.splits)
  then have "fr_dictionary_bytes ?f \<le> WADB_MAX_FRAME_BYTES" "fr_dictionary_count ?f \<le> fr_dictionary_bytes ?f div 12"
    by (auto simp: frame_sizes_def split: if_splits)
  then have "frame_range ?f" using q ts sz by (auto simp: frame_range_def group_frame_def WADB_MAX_FRAME_BYTES_def)
  moreover have "frame_buffers ?f" using rows by (simp add: frame_buffers_def group_frame_def)
  ultimately show ?thesis using frame_encode_decode(1) e by blast
qed

subsection \<open>A new segment\<close>

lemma decimal_first: "\<exists>d ds. decimal n = of_nat (48 + d) # ds \<and> d < 10"
proof (induction n rule: decimal.induct)
  case (1 n)
  show ?case
  proof (cases "n < 10")
    case True
    then show ?thesis by (intro exI [of _ n]) (simp add: decimal.simps [of n])
  next
    case False
    then show ?thesis using 1 by (auto simp: decimal.simps [of n])
  qed
qed

text \<open>The partition directory starts with a digit, so a segment is never the manifest.\<close>

lemma seg_path_not_manifest: "seg_path t s ext \<noteq> tb_directory t @ 47 # ascii ''manifest''"
proof
  assume a: "seg_path t s ext = tb_directory t @ 47 # ascii ''manifest''"
  obtain y m d where y: "civil_date (c_div (sg_day_start s) 1000000 div 86400) = (y, m, d)" by (metis prod.exhaust)
  obtain k ds where k: "decimal (nat y) = of_nat (48 + k) # ds" "k < 10" using decimal_first by blast
  have "(of_nat (48 + k) :: byte) = 109" using a y k(1) by (simp add: seg_path_def date_text_def ascii_def)
  moreover have "k \<in> {0, 1, 2, 3, 4, 5, 6, 7, 8, 9}" using k(2) by auto
  ultimately show False by auto
qed

lemma create_file_ok:
  "create_file t s w = (w', Inr (path, s')) \<Longrightarrow>
     path = seg_path t s' (ascii ''seg'') \<and> w_files w' path = Some (File []) \<and> (\<exists>n. s' = s\<lparr>sg_id := n\<rparr>)"
proof (induction t s w rule: create_file.induct)
  case (1 t s w)
  obtain w1 r where p: "wadb_segment_path t s (ascii ''seg'') w = (w1, r)" by fastforce
  obtain q where q: "r = Inr q" "sg_id s < UINT64_MAX" using 1(2) p by (auto simp: create_file.simps [of t s] split: if_splits sum.splits)
  obtain w2 k where c: "call WADB_IO w1 = (w2, Inr k)" using 1(2) p q by (auto simp: create_file.simps [of t s] split: prod.splits sum.splits)
  show ?case
  proof (cases "w_files w2 q = None")
    case True
    have "path = q" "s' = s" "w' = set_file q (Some (File [])) w2" using 1(2) p q c True by (auto simp: create_file.simps [of t s])
    then show ?thesis using segment_path_ok [OF p [unfolded q(1)]] by (auto intro: exI [of _ "sg_id s"])
  next
    case False
    have "create_file t (s\<lparr>sg_id := sg_id s + 1\<rparr>) w2 = (w', Inr (path, s'))" using 1(2) p q c False by (simp add: create_file.simps [of t s])
    from 1(1) [OF _ p [symmetric] q(1) c [symmetric] refl False this] q(2) show ?thesis by auto
  qed
qed

lemma install_files:
  assumes "install dir name p w = (w', Inr ())" "q \<noteq> dir @ 47 # name" shows "w_files w' q = w_files w q"
proof -
  obtain w1 path where a: "wadb_path dir name w = (w1, Inr path)" "wadb_atomic_file path (seal p) w1 = (w', Inr ())"
    using assms(1) by (auto simp: install_def io_ok)
  then show ?thesis using path_result [OF a(1)] atomic_file_ok [OF a(2)] assms(2) by auto
qed

lemma save_manifest_files:
  assumes "wadb_save_manifest t w = (w', Inr ())" "q \<noteq> tb_directory t @ 47 # ascii ''manifest''" shows "w_files w' q = w_files w q"
  using assms by (auto simp: wadb_save_manifest_def io_ok dest!: call_files install_files split: if_splits)

lemma write_segment_ok:
  assumes "write_segment t s0 w = (w', Inr (path, s))"
  shows "\<exists>header. w_files w' path = Some (File header) \<and> length header = WADB_SEGMENT_HEADER_BYTES" "\<exists>n. s = s0\<lparr>sg_id := n\<rparr>"
proof -
  obtain partition w3 w4 w5 w6 w7 header where
    c: "create_file t s0 w3 = (w4, Inr (path, s))" and h: "wadb_segment_encode (segment_file_header t s) = Inr header"
    and wr: "wadb_write_all path header w4 = (w5, Inr ())" and sy: "wadb_sync_file w5 = (w6, Inr ())" "wadb_sync_directory partition w6 = (w7, Inr ())"
    and m: "wadb_save_manifest (staged_segment t s) w7 = (w', Inr ())"
    using assms by (auto simp: write_segment_def io_ok)
  note cf = create_file_ok [OF c]
  have "w_files w5 path = Some (File header)" using write_all_files [OF _ wr, of "[]"] cf by auto
  moreover have "path \<noteq> tb_directory (staged_segment t s) @ 47 # ascii ''manifest''"
    using cf seg_path_not_manifest by (simp add: staged_segment_def)
  ultimately have "w_files w' path = Some (File header)"
    using sync_file_files [OF sy(1)] sync_directory_files [OF sy(2)] save_manifest_files [OF m] by simp
  moreover have "length header = WADB_SEGMENT_HEADER_BYTES"
    using h by (auto simp: wadb_segment_encode_def WADB_SEGMENT_HEADER_BYTES_def Let_def split: if_splits)
  ultimately show "\<exists>header. w_files w' path = Some (File header) \<and> length header = WADB_SEGMENT_HEADER_BYTES" by blast
  show "\<exists>n. s = s0\<lparr>sg_id := n\<rparr>" using cf by blast
qed

lemma create_active_ok:
  assumes "create_active now (w, t) = ((w', t'), Inr ())"
  shows "active_ok w' t'" "active_last t'" "tb_last_sequence t' = tb_last_sequence t" "tb_schema t' = tb_schema t"
    "sg_last_sequence (last (tb_segments t')) = 0"
proof -
  obtain w1 w2 path s where ws: "write_segment t (new_segment t now) w2 = (w', Inr (path, s))" and t': "t' = start_segment path s t"
    using assms by (auto simp: create_active_def io_ok case_io_ok split: if_splits)
  obtain header n where h: "w_files w' path = Some (File header)" "length header = WADB_SEGMENT_HEADER_BYTES" "s = (new_segment t now)\<lparr>sg_id := n\<rparr>"
    using write_segment_ok [OF ws] by blast
  show "active_ok w' t'" using h by (simp add: t' active_ok_def start_segment_def staged_segment_def new_segment_def content_def wadb_index_free_def empty_index_def)
  show "active_last t'" "tb_last_sequence t' = tb_last_sequence t" "tb_schema t' = tb_schema t" "sg_last_sequence (last (tb_segments t')) = 0"
    using h(3) by (simp_all add: t' active_last_def start_segment_def staged_segment_def new_segment_def)
qed

subsection \<open>Writing and publishing\<close>

lemma readable_reserve_ok:
  assumes "wadb_readable_reserve (w, t) = ((w', t'), Inr ())"
  shows "w_files w' = w_files w \<and> (\<exists>cap. t' = t\<lparr>tb_readable_capacity := cap\<rparr>)"
proof (cases "length (tb_readable t) < tb_readable_capacity t")
  case True
  then have "w' = w" "t' = t" using assms by (simp_all add: wadb_readable_reserve_def)
  then show ?thesis by (intro conjI exI [of _ "tb_readable_capacity t"]) simp_all
next
  case False
  define cap where "cap = (let c = (if tb_readable_capacity t \<noteq> 0 then tb_readable_capacity t * 2 else 16) in if c > WADB_MAX_SEGMENTS then WADB_MAX_SEGMENTS else c)"
  obtain k where "call WADB_NOMEM w = (w', Inr k)" "t' = t\<lparr>tb_readable_capacity := cap\<rparr>"
    using assms False unfolding wadb_readable_reserve_def Let_def cap_def prod.case
    by (simp only: if_False io_ok simp_thms split: if_split_asm) (auto simp: io_ok)
  then show ?thesis using call_files by blast
qed

lemma reserve_entry_ok:
  assumes "reserve_entry (w, t) = ((w', t'), Inr ())"
  shows "w_files w' = w_files w" "fi_entries (tb_index t') = fi_entries (tb_index t)" "tb_segments t' = tb_segments t"
    "tb_active_fd t' = tb_active_fd t" "tb_last_sequence t' = tb_last_sequence t" "tb_schema t' = tb_schema t"
proof -
  obtain w1 index where i: "wadb_index_reserve (tb_index t) w = (w1, Inr index)"
    and r: "(if sg_last_sequence (last (tb_segments t)) = 0 then wadb_readable_reserve else return_io ()) (w1, t\<lparr>tb_index := index\<rparr>) = ((w', t'), Inr ())"
    using assms by (auto simp: reserve_entry_def io_ok)
  have "w_files w1 = w_files w \<and> fi_entries index = fi_entries (tb_index t)"
    using i by (auto simp: wadb_index_reserve_def Let_def io_ok dest!: call_files split: if_splits)
  moreover have "w_files w' = w_files w1 \<and> (\<exists>cap. t' = t\<lparr>tb_index := index, tb_readable_capacity := cap\<rparr>)"
  proof (cases "sg_last_sequence (last (tb_segments t)) = 0")
    case True
    with r show ?thesis using readable_reserve_ok [of w1 "t\<lparr>tb_index := index\<rparr>" w' t'] by simp
  next
    case False
    with r have "w' = w1" "t' = t\<lparr>tb_index := index\<rparr>" by (simp_all add: return_io_def)
    then show ?thesis by (intro conjI exI [of _ "tb_readable_capacity t"]) simp_all
  qed
  ultimately show "w_files w' = w_files w" "fi_entries (tb_index t') = fi_entries (tb_index t)" "tb_segments t' = tb_segments t"
    "tb_active_fd t' = tb_active_fd t" "tb_last_sequence t' = tb_last_sequence t" "tb_schema t' = tb_schema t" by auto
qed

lemma append_frame_ok:
  assumes "append_frame ti bytes (w, db) = ((w', db'), Inr ())" "tb_active_fd (db_tables db ! ti) = Some path" "w_files w path = Some (File c)"
  shows "w_files w' = (w_files w)(path \<mapsto> File (c @ bytes))" "db_tables db' = db_tables db"
proof -
  obtain w1 w2 w3 a b where s: "wadb_write_all path bytes w = (w1, Inr ())" "clock_ns w1 = (w2, a)" "wadb_sync_file w2 = (w3, Inr ())"
    "clock_ns w3 = (w', b)" "db_tables db' = db_tables db"
    using assms(1,2) by (auto simp: append_frame_def Let_def split: prod.splits sum.splits)
  show "w_files w' = (w_files w)(path \<mapsto> File (c @ bytes))"
    using write_all_files [OF assms(3) s(1)] clock_files [OF s(2)] sync_file_files [OF s(3)] clock_files [OF s(4)] by auto
  show "db_tables db' = db_tables db" by (rule s(5))
qed

lemma write_group_ok:
  assumes wg: "write_group ti g d mark frame bytes (w, db) = ((w', db'), Inr rs)" and ti: "ti < length (db_tables db)"
    and fd: "tb_active_fd (db_tables db ! ti) = Some path" and c: "w_files w path = Some (File c)"
  obtains t1 where "w_files w' = (w_files w)(path \<mapsto> File (c @ bytes))" "rs = assign_receipts (fr_first_sequence frame) (gp_requests g)"
    "db_tables db' ! ti = published_table g frame bytes t1" "fi_entries (tb_index t1) = fi_entries (tb_index (db_tables db ! ti))"
    "tb_segments t1 = tb_segments (db_tables db ! ti)" "tb_active_fd t1 = Some path" "tb_last_sequence t1 = tb_last_sequence (db_tables db ! ti)"
proof -
  let ?db = "put_dictionary ti d db"
  let ?t = "db_tables ?db ! ti"
  have t: "fi_entries (tb_index ?t) = fi_entries (tb_index (db_tables db ! ti))" "tb_segments ?t = tb_segments (db_tables db ! ti)"
    "tb_active_fd ?t = Some path" "tb_last_sequence ?t = tb_last_sequence (db_tables db ! ti)"
    using ti fd by (simp_all add: put_dictionary_def)
  obtain w2 db2 where b: "bind_io (on_table ti reserve_entry) (\<lambda>_. append_frame ti bytes) (w, ?db) = ((w2, db2), Inr ())"
    and e: "w' = w2" "db' = publish ti g frame bytes db2" "rs = assign_receipts (fr_first_sequence frame) (gp_requests g)"
    using wg by (auto simp: write_group_def split: prod.splits sum.splits)
  obtain w1 t1 where r: "reserve_entry (w, ?t) = ((w1, t1), Inr ())"
    and a: "append_frame ti bytes (w1, ?db\<lparr>db_tables := (db_tables ?db)[ti := t1]\<rparr>) = ((w2, db2), Inr ())"
    using b by (auto simp: io_ok on_table_def split: prod.splits)
  note re = reserve_entry_ok [OF r]
  have l: "ti < length (db_tables ?db)" using ti by (simp add: put_dictionary_def)
  have ap: "w_files w2 = (w_files w1)(path \<mapsto> File (c @ bytes))" "db_tables db2 = (db_tables ?db)[ti := t1]"
    using append_frame_ok [OF a, of path c] re(1,4) t(3) c l by simp_all
  have "db_tables db' ! ti = published_table g frame bytes t1"
    using ap(2) l by (simp add: e publish_def publish_event_def Let_def)
  then show ?thesis using that [of t1] ap(1) re e t by simp
qed

lemma decoded_frame_simps [simp]:
  "fr_first_sequence (decoded_frame f p) = fr_first_sequence f" "fr_row_count (decoded_frame f p) = fr_row_count f"
  by (simp_all add: decoded_frame_def)

lemma index_for_decoded: "wadb_index_for_frame (decoded_frame f p) p off = wadb_index_for_frame f p off"
  by (simp add: wadb_index_for_frame_def decoded_frame_def)

text \<open>The file, the index and the boundary after a frame has been written behind the boundary.\<close>

lemma published_ok:
  assumes t: "active_last t1" "tb_active_fd t1 = Some path" and w: "w_files w' = (w_files w)(path \<mapsto> File (c @ bytes))"
    and c: "length c = sg_committed_bytes (last (tb_segments t1))" "0 < sg_first_sequence (last (tb_segments t1))"
    and tl: "tiled c WADB_SEGMENT_HEADER_BYTES (sg_first_sequence (last (tb_segments t1)) - 1) (fi_entries (tb_index t1)) (length c) (tb_last_sequence t1)"
    and hd: "WADB_SEGMENT_HEADER_BYTES \<le> length c" and d: "wadb_frame_decode bytes = Inr (decoded_frame frame bytes)"
    and q: "fr_first_sequence frame = tb_last_sequence t1 + 1" "fr_row_count frame = gp_row_count g"
  shows "active_ok w' (published_table g frame bytes t1)" "active_last (published_table g frame bytes t1)"
    "tb_last_sequence (published_table g frame bytes t1) = tb_last_sequence t1 + gp_row_count g"
    "tb_active_fd (published_table g frame bytes t1) = Some path"
    "last (fi_entries (tb_index (published_table g frame bytes t1))) = wadb_index_for_frame frame bytes (length c)"
    "content w' path = c @ bytes"
proof -
  let ?v = "wadb_index_for_frame frame bytes (length c)"
  have "tiled (c @ bytes) WADB_SEGMENT_HEADER_BYTES (sg_first_sequence (last (tb_segments t1)) - 1) (fi_entries (tb_index t1)) (length c) (tb_last_sequence t1)"
    using tiled_cong [OF tl hd] by simp
  moreover have "tiled (c @ bytes) (length c) (tb_last_sequence t1) [?v] (length c + length bytes) (tb_last_sequence t1 + gp_row_count g)"
    using tiled_single [OF d, of "c @ bytes" "length c" "tb_last_sequence t1"] q
    by (simp add: index_for_decoded chunk_def del: tiled.simps)
  ultimately have tl': "tiled (c @ bytes) WADB_SEGMENT_HEADER_BYTES (sg_first_sequence (last (tb_segments t1)) - 1)
      (fi_entries (tb_index t1) @ [?v]) (length c + length bytes) (tb_last_sequence t1 + gp_row_count g)" by (rule tiled_append)
  have ct: "content w' path = c @ bytes" using w by (simp add: content_def)
  show "active_ok w' (published_table g frame bytes t1)"
    using t w c tl' ct q by (simp add: active_ok_def active_last_def published_table_def extended_segment_def Let_def)
  show "active_last (published_table g frame bytes t1)" "tb_last_sequence (published_table g frame bytes t1) = tb_last_sequence t1 + gp_row_count g"
    "tb_active_fd (published_table g frame bytes t1) = Some path" "content w' path = c @ bytes"
    "last (fi_entries (tb_index (published_table g frame bytes t1))) = ?v"
    using t c q ct by (simp_all add: active_last_def published_table_def extended_segment_def Let_def)
qed

text \<open>
  What a successful commit of some rows to a table with last sequence \<open>n\<close> leaves behind: the last
  entry of the index leads to a complete frame with these rows, which ends at the boundary.
\<close>

definition committed :: "nat \<Rightarrow> nat \<Rightarrow> world \<Rightarrow> wadb_table \<Rightarrow> bool" where
  "committed n rows w t \<longleftrightarrow>
     active_ok w t \<and> active_last t \<and> tb_last_sequence t = n + rows \<and>
     (let v = last (fi_entries (tb_index t)); p = chunk (content w (the (tb_active_fd t))) (ie_frame_offset v) (ie_frame_bytes v) in
      case wadb_frame_decode p of
        Inl _ \<Rightarrow> False
      | Inr f \<Rightarrow> fr_first_sequence f = n + 1 \<and> fr_row_count f = rows \<and> ie_frame_offset v + ie_frame_bytes v = sg_committed_bytes (last (tb_segments t)))"

lemma tiled_start: "tiled c off seq vs (length c) last_seq \<Longrightarrow> off \<le> length c"
  by (cases vs) (auto elim!: tiled_ConsD simp del: tiled.simps(2))

lemma group_written:
  assumes wg: "write_group ti g d mark frame bytes (w, db) = ((w', db'), Inr rs)" and ti: "ti < length (db_tables db)"
    and ok: "active_ok w (db_tables db ! ti)" "active_last (db_tables db ! ti)" and d: "wadb_frame_decode bytes = Inr (decoded_frame frame bytes)"
    and q: "fr_first_sequence frame = tb_last_sequence (db_tables db ! ti) + 1" "fr_row_count frame = gp_row_count g"
  shows "committed (tb_last_sequence (db_tables db ! ti)) (gp_row_count g) w' (db_tables db' ! ti)"
    "rs = assign_receipts (tb_last_sequence (db_tables db ! ti) + 1) (gp_requests g)"
proof -
  let ?t = "db_tables db ! ti"
  obtain path where p: "tb_active_fd ?t = Some path" "w_files w path = Some (File (content w path))" using ok by (auto simp: active_ok_def split: option.splits)
  let ?c = "content w path"
  have c: "length ?c = sg_committed_bytes (last (tb_segments ?t))" "0 < sg_first_sequence (last (tb_segments ?t))"
    "tiled ?c WADB_SEGMENT_HEADER_BYTES (sg_first_sequence (last (tb_segments ?t)) - 1) (fi_entries (tb_index ?t)) (length ?c) (tb_last_sequence ?t)"
    using ok p(1) by (auto simp: active_ok_def)
  from wg ti p have "committed (tb_last_sequence ?t) (gp_row_count g) w' (db_tables db' ! ti) \<and> rs = assign_receipts (tb_last_sequence ?t + 1) (gp_requests g)"
  proof (rule write_group_ok)
    fix t1 assume t1: "w_files w' = (w_files w)(path \<mapsto> File (?c @ bytes))" "rs = assign_receipts (fr_first_sequence frame) (gp_requests g)"
      "db_tables db' ! ti = published_table g frame bytes t1" "fi_entries (tb_index t1) = fi_entries (tb_index ?t)"
      "tb_segments t1 = tb_segments ?t" "tb_active_fd t1 = Some path" "tb_last_sequence t1 = tb_last_sequence ?t"
    have "active_last t1" using ok(2) t1(5) by (simp add: active_last_def)
    note pub = published_ok [OF this t1(6,1), of frame g]
    have pb: "active_ok w' (db_tables db' ! ti)" "active_last (db_tables db' ! ti)"
      "tb_last_sequence (db_tables db' ! ti) = tb_last_sequence ?t + gp_row_count g" "tb_active_fd (db_tables db' ! ti) = Some path"
      "last (fi_entries (tb_index (db_tables db' ! ti))) = wadb_index_for_frame frame bytes (length ?c)" "content w' path = ?c @ bytes"
      using pub c tiled_start [OF c(3)] d q t1(3,4,5,7) by simp_all
    let ?v = "wadb_index_for_frame frame bytes (length ?c)"
    have v: "ie_frame_offset ?v = length ?c" "ie_frame_bytes ?v = length bytes"
      using decode_bytes [OF d] by (simp_all add: wadb_index_for_frame_def Let_def)
    have "sg_committed_bytes (last (tb_segments (db_tables db' ! ti))) = length ?c + length bytes"
      using pb(1,2,4,6) by (simp add: active_ok_def)
    then show ?thesis using pb v d q t1(2) by (simp add: committed_def Let_def chunk_def)
  qed
  then show "committed (tb_last_sequence ?t) (gp_row_count g) w' (db_tables db' ! ti)" "rs = assign_receipts (tb_last_sequence ?t + 1) (gp_requests g)" by simp_all
qed

text \<open>What \<^verbatim>\<open>wadb_commit_requests\<close> has checked when it starts to encode a group.\<close>

definition group_ok :: "append_group \<Rightarrow> wadb_table \<Rightarrow> nat \<Rightarrow> bool" where
  "group_ok g t n \<longleftrightarrow>
     gp_row_count g * row_width (tb_schema t) \<le> n \<and> tb_last_sequence t + 1 \<le> UINT64_MAX \<and> i64_range (gp_first_time g) \<and>
     i64_range (gp_last_time g) \<and> gp_row_count g \<le> UINT32_MAX \<and> row_width (tb_schema t) \<le> UINT32_MAX"

lemma encode_group_decodes:
  assumes e: "encode_group t g mark (w, d, rows) = ((w', d', rows'), Inr (frame, bytes))" and g: "group_ok g t (length rows)"
  shows "wadb_frame_decode bytes = Inr (decoded_frame frame bytes)" "fr_first_sequence frame = tb_last_sequence t + 1"
    "fr_row_count frame = gp_row_count g"
proof -
  from e obtain definitions n alloc where f: "frame = group_frame t g rows' definitions n" "wadb_frame_encode alloc frame = Inr bytes"
    "length rows' = length rows" by (rule encode_group_ok)
  show "wadb_frame_decode bytes = Inr (decoded_frame frame bytes)"
    using group_frame_decodes [OF f(2) [unfolded f(1)]] g f(1,3) by (simp add: group_ok_def)
  show "fr_first_sequence frame = tb_last_sequence t + 1" "fr_row_count frame = gp_row_count g" by (simp_all add: f(1) group_frame_def)
qed

lemma commit_fresh_ok:
  assumes c: "commit_fresh ti g rows (w, db) = ((w', db'), Inr rs)" and ti: "ti < length (db_tables db)"
    and g: "group_ok g (db_tables db ! ti) (length rows)"
  shows "committed (tb_last_sequence (db_tables db ! ti)) (gp_row_count g) w' (db_tables db' ! ti) \<and>
    rs = assign_receipts (tb_last_sequence (db_tables db ! ti) + 1) (gp_requests g)"
proof -
  let ?t = "db_tables db ! ti"
  obtain w1 d w2 d' rows' frame bytes w3 db3 where e: "encode_group ?t g 0 (w1, d, rows) = ((w2, d', rows'), Inr (frame, bytes))"
    and a: "on_table ti (create_active (gp_first_time g)) (w2, db) = ((w3, db3), Inr ())"
    and wg: "write_group ti g d' 0 frame bytes (w3, db3) = ((w', db'), Inr rs)"
    using c by (auto simp: commit_fresh_def Let_def io_ok split: prod.splits sum.splits)
  obtain t3 where t3: "create_active (gp_first_time g) (w2, ?t) = ((w3, t3), Inr ())" "db3 = db\<lparr>db_tables := (db_tables db)[ti := t3]\<rparr>"
    using a by (auto simp: on_table_def split: prod.splits)
  note ca = create_active_ok [OF t3(1)] and en = encode_group_decodes [OF e g]
  show ?thesis using group_written [OF wg] ca en t3(2) ti by simp
qed

lemma active_ok_files: "w_files w' = w_files w \<Longrightarrow> active_ok w' t = active_ok w t"
proof -
  assume f: "w_files w' = w_files w"
  then have "content w' = content w" by (auto simp: content_def)
  with f show ?thesis by (simp add: active_ok_def split: option.split)
qed

lemma put_dictionary_table:
  "ti < length (db_tables db) \<Longrightarrow> db_tables (put_dictionary ti d db) ! ti = (db_tables db ! ti)\<lparr>tb_dictionary := Some d\<rparr>"
  "length (db_tables (put_dictionary ti d db)) = length (db_tables db)"
  by (simp_all add: put_dictionary_def)

lemma commit_active_ok:
  assumes c: "commit_active ti g rows (w, db) = ((w', db'), Inr rs)" and ti: "ti < length (db_tables db)"
    and g: "group_ok g (db_tables db ! ti) (length rows)" and ok: "active_ok w (db_tables db ! ti)" "active_last (db_tables db ! ti)"
  shows "committed (tb_last_sequence (db_tables db ! ti)) (gp_row_count g) w' (db_tables db' ! ti) \<and>
    rs = assign_receipts (tb_last_sequence (db_tables db ! ti) + 1) (gp_requests g)"
proof -
  let ?t = "db_tables db ! ti"
  obtain w1 d1 rows1 r where e: "encode_group ?t g (length (di_symbols (the (tb_dictionary ?t)))) (w, the (tb_dictionary ?t), rows) = ((w1, d1, rows1), r)"
    by (metis prod.exhaust)
  let ?undone = "put_dictionary ti (wadb_dictionary_rollback d1 (length (di_symbols (the (tb_dictionary ?t))))) db"
  note fl = encode_group_files [OF e]
  have fresh: ?thesis if "commit_fresh ti g rows1 (w1, ?undone) = ((w', db'), Inr rs)"
    using commit_fresh_ok [OF that] g fl ti by (simp add: put_dictionary_table group_ok_def)
  show ?thesis
  proof (cases r)
    case (Inl e')
    then show ?thesis using c e fresh by (auto simp: commit_active_def Let_def split: if_splits)
  next
    case (Inr fb)
    obtain frame bytes where fb: "fb = (frame, bytes)" by fastforce
    show ?thesis
    proof (cases "too_large (op_segment_target_bytes (db_options db)) (last (tb_segments ?t)) (length bytes)")
      case True
      then show ?thesis using c e fresh Inr fb by (simp add: commit_active_def Let_def)
    next
      case False
      then have wg: "write_group ti g d1 (length (di_symbols (the (tb_dictionary ?t)))) frame bytes (w1, db) = ((w', db'), Inr rs)"
        using c e Inr fb by (simp add: commit_active_def Let_def)
      have "active_ok w1 ?t" using ok(1) active_ok_files [of w1 w] fl by blast
      then show ?thesis using group_written [OF wg ti _ ok(2)] encode_group_decodes [OF e [unfolded Inr fb] g] by simp
    qed
  qed
qed

lemma commit_requests_ok:
  assumes c: "wadb_commit_requests ti rs (w, db) = ((w', db'), Inr rs')" and ti: "ti < length (db_tables db)"
    and ok: "active_ok w (db_tables db ! ti)" and st: "staged_ok (row_width (tb_schema (db_tables db ! ti))) rs"
    and width: "row_width (tb_schema (db_tables db ! ti)) \<le> UINT32_MAX"
  shows "committed (tb_last_sequence (db_tables db ! ti)) (sum_list (map rq_row_count rs)) w' (db_tables db' ! ti) \<and>
    rs' = assign_receipts (tb_last_sequence (db_tables db ! ti) + 1) rs"
proof -
  let ?t = "db_tables db ! ti" and ?rows = "concat (map (stamp_request (row_width (tb_schema (db_tables db ! ti)))) rs)"
  obtain n m where s: "group_size rs (0, 0) = Some (n, m)" using c by (auto simp: wadb_commit_requests_def split: option.splits)
  define g where "g = \<lparr>gp_requests = rs, gp_row_count = n, gp_row_bytes = m, gp_first_time = rq_ingestion_time (hd rs), gp_last_time = rq_ingestion_time (last rs)\<rparr>"
  have gs: "n = sum_list (map rq_row_count rs)" using group_size_sums [OF s st] by simp
  obtain w1 k where rest: "rs \<noteq> []" "n \<le> UINT32_MAX" "call WADB_NOMEM w = (w1, Inr k)" "\<not> tb_last_sequence ?t > UINT64_MAX - n"
    "(if needs_segment ?t (gp_first_time g) then commit_fresh ti g ?rows (w1, db) else commit_active ti g ?rows (w1, db)) = ((w', db'), Inr rs')"
    using c s by (auto simp: wadb_commit_requests_def g_def Let_def io_ok split: if_splits)
  have n0: "0 < n" using rest(1) st gs by (cases rs) (auto simp: staged_ok_def)
  have tr: "i64_range (rq_ingestion_time (hd rs))" "i64_range (rq_ingestion_time (last rs))"
    using st rest(1) hd_in_set last_in_set by (auto simp: staged_ok_def list_all_iff)
  have g: "group_ok g ?t (length ?rows)"
    using n0 rest(2,4) tr width length_stamped [OF st] gs by (simp add: group_ok_def g_def)
  have "active_ok w1 ?t" using ok active_ok_files call_files [OF rest(3)] by blast
  then have "committed (tb_last_sequence ?t) (gp_row_count g) w' (db_tables db' ! ti) \<and> rs' = assign_receipts (tb_last_sequence ?t + 1) (gp_requests g)"
    using rest(5) commit_fresh_ok [OF _ ti g] commit_active_ok [OF _ ti g] by (auto simp: needs_segment_def split: if_splits)
  then show ?thesis using gs by (simp add: g_def)
qed

subsection \<open>Commits that fail\<close>

text \<open>What readers and subscribers can see of a table.\<close>

definition table_view_of :: "wadb_table \<Rightarrow> nat \<times> int \<times> nat list \<times> nat \<times> nat" where
  "table_view_of t = (tb_last_sequence t, tb_last_time t, tb_readable t, tb_committed_frames t, tb_retained_rows t)"

definition published_view :: "wadb_db \<Rightarrow> (nat \<times> int \<times> nat list \<times> nat \<times> nat) list \<times> nat \<times> nat \<times> wadb_commit_event list" where
  "published_view db =
     (map table_view_of (db_tables db), db_committed_rows db, db_latest_notification db, db_notifications db)"

lemma update_same_view:
  "table_view_of t = table_view_of (db_tables db ! ti) \<Longrightarrow> map table_view_of ((db_tables db)[ti := t]) = map table_view_of (db_tables db)"
proof (rule nth_equalityI)
  fix i assume "table_view_of t = table_view_of (db_tables db ! ti)" "i < length (map table_view_of ((db_tables db)[ti := t]))"
  then show "map table_view_of ((db_tables db)[ti := t]) ! i = map table_view_of (db_tables db) ! i" by (cases "i = ti") simp_all
qed simp

lemma on_table_published:
  assumes "on_table ti m (w, db) = ((w', db'), r)" "\<And>t w t' w' r. m (w, t) = ((w', t'), r) \<Longrightarrow> table_view_of t' = table_view_of t"
  shows "published_view db' = published_view db"
proof -
  obtain t' where t': "m (w, db_tables db ! ti) = ((w', t'), r)" "db' = db\<lparr>db_tables := (db_tables db)[ti := t']\<rparr>"
    using assms(1) by (auto simp: on_table_def split: prod.splits)
  then show ?thesis using update_same_view [OF assms(2) [OF t'(1)]] by (simp add: published_view_def)
qed

lemma create_active_view: "create_active now (w, t) = ((w', t'), r) \<Longrightarrow> table_view_of t' = table_view_of t"
  by (auto simp: create_active_def bind_io_def ensure_io_def return_io_def fail_io_def on_world_def table_view_of_def
      start_segment_def staged_segment_def split: prod.splits sum.splits if_splits)

lemma reserve_entry_view: "reserve_entry (w, t) = ((w', t'), r) \<Longrightarrow> table_view_of t' = table_view_of t"
  by (auto simp: reserve_entry_def wadb_readable_reserve_def bind_io_def return_io_def on_world_def modify_def table_view_of_def Let_def
      split: prod.splits sum.splits if_splits)

lemma put_dictionary_published [simp]: "published_view (put_dictionary ti d db) = published_view db"
  by (simp add: published_view_def put_dictionary_def update_same_view table_view_of_def)

lemma append_frame_published:
  "append_frame ti bytes (w, db) = ((w', db'), r) \<Longrightarrow> published_view db' = published_view db"
  by (auto simp: append_frame_def published_view_def Let_def update_same_view table_view_of_def split: prod.splits sum.splits)

lemma write_group_failed:
  assumes "write_group ti g d mark frame bytes (w, db) = ((w', db'), Inl e)" shows "published_view db' = published_view db"
proof -
  obtain w1 db1 r1 where b: "bind_io (on_table ti reserve_entry) (\<lambda>_. append_frame ti bytes) (w, put_dictionary ti d db) = ((w1, db1), r1)"
    by (metis prod.exhaust)
  have "published_view db1 = published_view db"
    using b by (auto simp: bind_io_def split: prod.splits sum.splits
        dest!: append_frame_published on_table_published [OF _ reserve_entry_view])
  then show ?thesis using assms b by (auto simp: write_group_def split: sum.splits)
qed

lemma commit_fresh_failed:
  assumes "commit_fresh ti g rows (w, db) = ((w', db'), Inl e)" shows "published_view db' = published_view db"
  using assms
  by (auto simp: commit_fresh_def Let_def bind_io_def split: prod.splits sum.splits
      dest!: write_group_failed on_table_published [OF _ create_active_view])

lemma commit_active_failed:
  assumes "commit_active ti g rows (w, db) = ((w', db'), Inl e)" shows "published_view db' = published_view db"
  using assms
  by (auto simp: commit_active_def Let_def split: prod.splits sum.splits if_splits dest!: commit_fresh_failed write_group_failed)

lemma commit_requests_failed:
  assumes "wadb_commit_requests ti rs (w, db) = ((w', db'), Inl e)" shows "published_view db' = published_view db"
  using assms
  by (auto simp: wadb_commit_requests_def Let_def bind_io_def on_world_def
      split: option.splits prod.splits sum.splits if_splits dest!: commit_fresh_failed commit_active_failed)

section \<open>Properties\<close>

lemma tiled_rest:
  "tiled c off seq (vs @ us) final last_seq \<Longrightarrow> tiled c off seq vs mid mid_seq \<Longrightarrow> tiled c mid mid_seq us final last_seq"
  by (induction vs arbitrary: off seq) (auto simp: Let_def split: sum.splits)


definition small_schema :: wadb_schema where
  "small_schema = \<lparr>field_count = 1, row_width = 8, null_bytes = 0, fingerprint = 1, schema_fields = [time_field]\<rparr>"

definition small_segment :: wadb_segment_meta where
  "small_segment =
     \<lparr>sg_id = 1, sg_day_start = 0, sg_first_sequence = 1, sg_last_sequence = 0, sg_min_time = 0, sg_max_time = 0,
      sg_committed_bytes = 128, sg_state = WADB_SEG_ACTIVE\<rparr>"

definition small_table :: wadb_table where
  "small_table =
     example_table\<lparr>tb_schema := small_schema, tb_next_segment_id := 2, tb_segments := [small_segment],
       tb_active_fd := Some (ascii ''/s''), tb_dictionary := Some (example_dictionary\<lparr>di_schema := small_schema\<rparr>)\<rparr>"

definition small_db :: wadb_db where
  "small_db = empty_db\<lparr>db_tables := [small_table]\<rparr>"

definition small_world :: world where
  "small_world = \<lparr>w_files = [ascii ''/s'' \<mapsto> File (zeroes_bytes 128)], w_script = (\<lambda>_. Ret 1), w_tick = 0\<rparr>"

definition small_request :: wadb_append_request where
  "small_request = (new_request 0 (CNull 0) 1 8 0)\<lparr>rq_rows := zeroes_bytes 8, rq_ingestion_time := 5\<rparr>"

lemma small_table_simps:
  "tb_schema small_table = small_schema" "tb_segments small_table = [small_segment]" "tb_active_fd small_table = Some (ascii ''/s'')"
  "tb_dictionary small_table = Some (example_dictionary\<lparr>di_schema := small_schema\<rparr>)" "tb_last_sequence small_table = 0"
  "tb_index small_table = empty_index" "tb_read_only small_table = False" "tb_readable small_table = []" "tb_readable_capacity small_table = 0"
  by (simp_all add: small_table_def example_table_def)

lemma small_db_simps: "db_tables small_db = [small_table]" "db_read_only small_db = False" "db_options small_db = wadb_options_default"
  by (simp_all add: small_db_def empty_db_def)

lemma small_active: "active_ok small_world small_table" "active_last small_table"
  by (simp_all add: active_ok_def active_last_def small_table_simps small_segment_def small_world_def content_def
      empty_index_def WADB_SEGMENT_HEADER_BYTES_def)

lemma small_staged: "staged_ok (row_width (tb_schema small_table)) [small_request]"
  by (simp add: staged_ok_def small_table_simps small_schema_def small_request_def new_request_def i64_range_def WADB_MAX_FRAME_BYTES_def)

text \<open>The commit of this request, step by step.\<close>

definition small_group :: append_group where
  "small_group = \<lparr>gp_requests = [small_request], gp_row_count = 1, gp_row_bytes = 8, gp_first_time = 5, gp_last_time = 5\<rparr>"

definition small_rows :: bytes where
  "small_rows = concat (map (stamp_request 8) [small_request])"

lemma small_rows_eq: "small_rows = wadb_put_u64 5"
proof -
  have "small_rows = blit (zeroes_bytes 8) 0 (wadb_put_u64 5)" by (simp add: small_rows_def stamp_request_def small_request_def new_request_def)
  also have "\<dots> = wadb_put_u64 5" by (rule nth_equalityI) (simp_all add: nth_blit)
  finally show ?thesis .
qed

lemma small_frame_encodes: "\<exists>bytes. wadb_frame_encode True (group_frame small_table small_group small_rows [] 0) = Inr bytes"
proof -
  let ?f = "group_frame small_table small_group small_rows [] 0"
  have "frame_sizes ?f = Some (8, 104)"
    by (simp add: frame_sizes_def group_frame_def small_table_simps small_schema_def small_group_def WADB_MAX_ROW_BYTES_def sub64_exact
        WADB_MAX_FRAME_BYTES_def wadb_mul_size_def wadb_add_size_def mul64_def add64_exact WADB_FRAME_HEADER_BYTES_def WADB_FRAME_TRAILER_BYTES_def)
  moreover have "dictionary_valid ?f" by (simp add: dictionary_valid_def group_frame_def sub64_exact)
  moreover have "wadb_get_i64 (wadb_put_u64 5) = 5" using get_i64_put [of 5] by (simp add: i64_range_def)
  then have "times_valid ?f" by (simp add: times_valid_def group_frame_def small_group_def small_rows_eq Let_def)
  ultimately show ?thesis by (simp add: wadb_frame_encode_def group_frame_def Let_def)
qed

lemma small_encode:
  assumes "no_failure w"
  obtains w' frame bytes where "no_failure w'"
    "encode_group small_table small_group 0 (w, example_dictionary\<lparr>di_schema := small_schema\<rparr>, small_rows) =
      ((w', example_dictionary\<lparr>di_schema := small_schema\<rparr>, small_rows), Inr (frame, bytes))"
proof -
  let ?d = "example_dictionary\<lparr>di_schema := small_schema\<rparr>" and ?f = "group_frame small_table small_group small_rows [] 0"
  obtain bytes where b: "wadb_frame_encode True ?f = Inr bytes" using small_frame_encodes by blast
  have i: "intern_group small_schema 0 (gp_requests small_group) (w, ?d, small_rows) = ((w, ?d, small_rows), Inr ())"
    by (simp add: small_group_def small_request_def new_request_def intern_request_def small_schema_def bind_io_def)
  have e: "wadb_dictionary_export alloc ?d 0 = Inr ([], 0)" for alloc
    by (simp add: wadb_dictionary_export_def wadb_dictionary_export_limit_def example_dictionary_def align8_size_def add64_exact)
  have a: "allocs w' i" if "no_failure w'" for w' i using that by (simp add: allocs_def no_failure_def)
  have "encode_group small_table small_group 0 (w, ?d, small_rows) =
      ((w\<lparr>w_tick := w_tick w + 2\<rparr>, ?d, small_rows), Inr (?f, bytes))"
    using a [of w] a [of "w\<lparr>w_tick := w_tick w + 1\<rparr>"] b e i assms
    by (simp add: encode_group_def small_table_simps bind_io_def on_world_def with_allocs_def ensure_io_def return_io_def Let_def)
  then show ?thesis using that assms by (metis no_failure_simps(1))
qed

lemma small_write:
  assumes q: "no_failure w" and db: "db_tables db = [small_table]"
  obtains w' db' rs where "write_group 0 small_group d mark frame bytes (w, db) = ((w', db'), Inr rs)"
proof -
  let ?db = "put_dictionary 0 d db"
  let ?w = "w\<lparr>w_tick := w_tick w + 2\<rparr>"
  obtain t1 where r: "reserve_entry (w, db_tables ?db ! 0) = ((?w, t1), Inr ())" "tb_active_fd t1 = Some (ascii ''/s'')"
  proof -
    have "reserve_entry (w, db_tables ?db ! 0) = ((?w, small_table\<lparr>tb_dictionary := Some d, tb_index := empty_index\<lparr>fi_capacity := 64\<rparr>,
        tb_readable_capacity := 16\<rparr>), Inr ())"
      using q by (simp add: reserve_entry_def put_dictionary_def db small_table_simps wadb_index_reserve_def empty_index_def
          WADB_MAX_INDEX_ENTRIES_def WADB_MAX_SEGMENTS_def bind_io_def on_world_def call_quiet return_io_def modify_def small_segment_def
          wadb_readable_reserve_def Let_def)
    then show ?thesis using that by (simp add: small_table_simps)
  qed
  let ?db1 = "?db\<lparr>db_tables := (db_tables ?db)[0 := t1]\<rparr>"
  obtain w1 where w1: "wadb_write_all (ascii ''/s'') bytes ?w = (w1, Inr ())" "no_failure w1"
    using write_loop_quiet [of ?w "ascii ''/s''" bytes 0] q unfolding wadb_write_all_def by auto
  obtain w2 a where c1: "clock_ns w1 = (w2, a)" by fastforce
  have "no_failure w2" using c1 w1(2) by (auto simp: clock_ns_def sys_def no_failure_def)
  then have sy: "wadb_sync_file w2 = (w2\<lparr>w_tick := w_tick w2 + 1\<rparr>, Inr ())" by (rule sync_quiet)
  obtain w3 b where c2: "clock_ns (w2\<lparr>w_tick := w_tick w2 + 1\<rparr>) = (w3, b)" by fastforce
  have "\<exists>db2. append_frame 0 bytes (?w, ?db1) = ((w3, db2), Inr ())"
    using w1(1) c1 sy c2 r(2) by (simp add: append_frame_def Let_def put_dictionary_def db)
  then obtain db2 where "bind_io (on_table 0 reserve_entry) (\<lambda>_. append_frame 0 bytes) (w, ?db) = ((w3, db2), Inr ())"
    using r(1) by (auto simp: bind_io_def on_table_def)
  then show ?thesis using that by (simp add: write_group_def)
qed

lemma small_commit: "\<exists>w' db' rs. wadb_commit_requests 0 [small_request] (small_world, small_db) = ((w', db'), Inr rs)"
proof -
  have q: "no_failure small_world" by (simp add: no_failure_def small_world_def)
  let ?w = "small_world\<lparr>w_tick := w_tick small_world + 1\<rparr>"
  have g: "group_size [small_request] (0, 0) = Some (1, 8)"
    by (simp add: small_request_def new_request_def wadb_add_size_def add64_exact sub64_exact)
  have n: "\<not> needs_segment small_table 5"
    by (simp add: needs_segment_def active_last_def small_table_simps small_segment_def c_mod_def empty_index_def
        WADB_DAY_US_def WADB_MAX_INDEX_ENTRIES_def)
  obtain w1 frame bytes where e: "no_failure w1" "encode_group small_table small_group 0 (?w, example_dictionary\<lparr>di_schema := small_schema\<rparr>, small_rows) =
      ((w1, example_dictionary\<lparr>di_schema := small_schema\<rparr>, small_rows), Inr (frame, bytes))"
    using small_encode [of ?w] q by auto
  obtain w' db' rs where wg: "write_group 0 small_group (example_dictionary\<lparr>di_schema := small_schema\<rparr>) 0 frame bytes (w1, small_db) = ((w', db'), Inr rs)"
    using small_write [OF e(1) small_db_simps(1)] by blast
  have "commit_active 0 small_group small_rows (?w, small_db) = ((w', db'), Inr rs)"
    using e(2) wg by (simp add: commit_active_def small_db_simps small_table_simps example_dictionary_def too_large_def small_segment_def Let_def)
  moreover have "\<not> clock_invalid 5 5" by (simp add: clock_invalid_def)
  moreover have "rq_ingestion_time small_request = 5" by (simp add: small_request_def)
  moreover have "\<lparr>gp_requests = [small_request], gp_row_count = Suc 0, gp_row_bytes = 8, gp_first_time = 5, gp_last_time = 5\<rparr> = small_group"
    "stamp_request 8 small_request = small_rows" "gp_first_time small_group = 5" "gp_last_time small_group = 5"
    by (simp_all add: small_group_def small_rows_def)
  ultimately have "wadb_commit_requests 0 [small_request] (small_world, small_db) = ((w', db'), Inr rs)"
    using g n q by (simp add: wadb_commit_requests_def WADB_MAX_FRAME_BYTES_def bind_io_def on_world_def call_quiet small_db_simps small_table_simps
        small_schema_def Let_def)
  then show ?thesis by blast
qed


text \<open>
  C2: What has been committed survives a crash. When the file of an active segment holds the
  committed frames followed by anything that later appends may have left, and recovery of the
  segment succeeds, then the recovered index starts with all the committed entries, every committed
  byte is still there, and what recovery cuts off behind them is at most one incomplete frame.
\<close>

theorem recovery_keeps_committed:
  assumes "active_ok w t" and "active_last t" and "tb_active_fd t = Some path"
    and "content w2 path = content w path @ rest"
    and "recover_segment limit force deadline s (w2, t2) = ((w3, t3), Inr s')" and "sg_state s = WADB_SEG_ACTIVE"
    and "sg_first_sequence s = sg_first_sequence (last (tb_segments t))" and "seg_path t2 s (ascii ''seg'') = path"
  shows "\<exists>more kept cut. fi_entries (tb_index t3) = fi_entries (tb_index t) @ more \<and> rest = kept @ cut \<and>
    content w3 path = content w path @ kept \<and> (cut = [] \<or> incomplete cut) \<and> active_ok w3 (t3\<lparr>tb_segments := [s']\<rparr>)"
proof -
  let ?c = "content w path"
  note r = recover_active_ok [OF assms(5,6), unfolded assms(8)]
  have c: "length ?c = sg_committed_bytes (last (tb_segments t))" "0 < sg_first_sequence (last (tb_segments t))"
    "tiled ?c WADB_SEGMENT_HEADER_BYTES (sg_first_sequence (last (tb_segments t)) - 1) (fi_entries (tb_index t)) (length ?c) (tb_last_sequence t)"
    using assms(1,2,3) by (auto simp: active_ok_def)
  have sq: "tb_last_sequence t2 = sg_first_sequence (last (tb_segments t)) - 1" using r assms(7) by simp
  have tl: "tiled (content w2 path) WADB_SEGMENT_HEADER_BYTES (tb_last_sequence t2) (fi_entries (tb_index t)) (length ?c) (tb_last_sequence t)"
    using tiled_cong [OF c(3) tiled_start [OF c(3)], of "content w2 path"] assms(4) sq by simp
  then obtain more where more: "fi_entries (tb_index t3) = fi_entries (tb_index t) @ more" using r by blast
  have tl3: "tiled (content w2 path) WADB_SEGMENT_HEADER_BYTES (tb_last_sequence t2) (fi_entries (tb_index t) @ more) (sg_committed_bytes s') (tb_last_sequence t3)"
    using r more by simp
  have le: "length ?c \<le> sg_committed_bytes s'"
    using tiled_bound [OF tiled_rest [OF tl3 tl]] assms(4) by simp
  define n where "n = sg_committed_bytes s' - length ?c"
  have cut: "take (sg_committed_bytes s') (content w2 path) = ?c @ take n rest" "drop (sg_committed_bytes s') (content w2 path) = drop n rest"
    using le assms(4) by (simp_all add: n_def)
  have c3: "content w3 path = ?c @ take n rest" "w_files w3 path = Some (File (content w3 path))" using r cut(1) by (simp_all add: content_def)
  have "active_ok w3 (t3\<lparr>tb_segments := [s']\<rparr>)"
  proof -
    have "tiled (content w3 path) WADB_SEGMENT_HEADER_BYTES (tb_last_sequence t2) (fi_entries (tb_index t3)) (sg_committed_bytes s') (tb_last_sequence t3)"
      using tiled_cong [OF tl3 [folded more], of "content w3 path"] c3(1) cut(1) tiled_start [OF c(3)] assms(4) by (simp add: n_def)
    moreover have "length (content w3 path) = sg_committed_bytes s'" using r c3(1) le assms(4) by (auto simp: n_def min_def)
    ultimately show ?thesis using r c3(2) sq assms(7) c(2) by (simp add: active_ok_def)
  qed
  moreover have "drop n rest = [] \<or> incomplete (drop n rest)"
    using r cut(2) le assms(4) by (auto simp: n_def)
  ultimately show ?thesis using more c3(1) append_take_drop_id [of n rest] by metis
qed

section \<open>A torn append\<close>

lemma pread_all_quiet:
  assumes q: "no_failure w" and le: "offset + n \<le> length (content w path)" "int (offset + n) \<le> INT64_MAX"
  obtains w' where "wadb_pread_all path n offset w = (w', Inr (chunk (content w path) offset n))" "no_failure w'" "w_files w' = w_files w"
proof -
  obtain w' r where p: "wadb_pread_all path n offset w = (w', r)" by fastforce
  have "no_failure w'" "r \<noteq> Inl WADB_IO"
    using pread_loop_quiet [of w path n offset "[]" w' r] p q le by (simp_all add: wadb_pread_all_def split: if_splits)
  then show ?thesis using that p pread_all_ok [OF p] le by (cases r) auto
qed

lemma path_quiet:
  "no_failure w \<Longrightarrow> length base + length name + 2 \<le> 4096 \<Longrightarrow>
     wadb_path base name w = (w\<lparr>w_tick := w_tick w + 1\<rparr>, Inr (base @ 47 # name))"
  by (simp add: wadb_path_def bind_io_def call_quiet return_io_def)

definition small_header :: wadb_segment_header where
  "small_header =
     \<lparr>sh_table_id = 1, sh_segment_id = 1, sh_schema_hash = 1, sh_row_width = 8, sh_day_start = 0, sh_first_sequence = 1\<rparr>"

definition small_image :: bytes where
  "small_image = (case wadb_segment_encode small_header of Inr p \<Rightarrow> p | Inl e \<Rightarrow> [])"

definition small_path :: path where
  "small_path = seg_path small_table small_segment (ascii ''seg'')"

definition torn_world :: "bytes \<Rightarrow> world" where
  "torn_world rest = \<lparr>w_files = [small_path \<mapsto> File (small_image @ rest)], w_script = (\<lambda>_. Ret 1), w_tick = 0\<rparr>"

lemma small_image_decode: "wadb_segment_decode small_image = Inr small_header" "length small_image = 128"
proof -
  have "wadb_segment_encode small_header = Inr small_image"
    by (simp add: small_image_def wadb_segment_encode_def small_header_def WADB_MAX_ROW_BYTES_def WADB_DAY_US_def Let_def)
  then show d: "wadb_segment_decode small_image = Inr small_header"
    by (rule segment_encode_decode [rotated]) (simp add: header_range_def small_header_def i64_range_def)
  then show "length small_image = 128" by (simp add: wadb_segment_decode_def WADB_SEGMENT_HEADER_BYTES_def split: if_splits)
qed

lemma small_date: "length (date_text (c_div 0 1000000)) = 10"
proof -
  have "length (decimal 1) = 1" by (subst decimal.simps) simp
  then have "length (decimal 19) = 2" by (subst decimal.simps) simp
  then have "length (decimal 197) = 3" by (subst decimal.simps) simp
  then have "length (decimal 1970) = 4" by (subst decimal.simps) simp
  moreover have "civil_date 0 = (1970, 1, 1)" by code_simp
  ultimately show ?thesis by (simp add: date_text_def c_div_def decimal2_def)
qed

lemma small_segment_path:
  assumes "no_failure w"
  shows "wadb_segment_path small_table small_segment (ascii ''seg'') w = (w\<lparr>w_tick := w_tick w + 2\<rparr>, Inr small_path)"
proof -
  have "tb_directory small_table = ascii ''/d/tables/1''" "sg_day_start small_segment = 0"
    by (simp_all add: small_table_def example_table_def small_segment_def)
  then show ?thesis using assms small_date
    by (simp add: wadb_segment_path_def partition_path_def bind_io_def path_quiet small_path_def seg_path_def decimal20_def ascii_def
        del: upt_rec_numeral upt_conv_Cons)
qed

lemma torn_header:
  assumes q: "no_failure w" and c: "content w small_path = small_image @ rest"
  obtains w' where "read_segment_header small_path w = (w', Inr small_header)" "no_failure w'" "w_files w' = w_files w"
proof -
  obtain w' where p: "wadb_pread_all small_path 128 0 w = (w', Inr (chunk (content w small_path) 0 128))" "no_failure w'" "w_files w' = w_files w"
    using pread_all_quiet [OF q, of 0 128 small_path] c small_image_decode(2) by auto
  moreover have "chunk (content w small_path) 0 128 = small_image" using c small_image_decode(2) by (simp add: chunk_def)
  ultimately have "read_segment_header small_path w = (w', Inr small_header)"
    using small_image_decode(1) by (simp add: read_segment_header_def bind_io_def WADB_SEGMENT_HEADER_BYTES_def)
  then show ?thesis using that p by simp
qed

text \<open>A tail that is shorter than a frame header is cut off.\<close>

lemma torn_scan:
  assumes q: "no_failure w" and c: "content w small_path = small_image @ rest" and r: "rest \<noteq> []" "length rest < WADB_FRAME_HEADER_BYTES"
    and t: "tb_schema t = small_schema"
  shows "\<exists>w' t' s'. scan_segment 1048576 False 100 small_path small_segment small_header (128 + length rest) (w, t) = ((w', t'), Inr s')"
proof -
  let ?w = "w\<lparr>w_tick := w_tick w + 2\<rparr>"
  have d: "\<exists>d. with_allocs 2 (\<lambda>a. wadb_dictionary_new a (tb_schema t) 1048576) w = (?w, Inr d)"
    using q by (simp add: with_allocs_def wadb_dictionary_new_def allocs_def no_failure_def t small_schema_def SIZEOF_DICTIONARY_def
        SIZEOF_COLUMN_def Let_def)
  then obtain d where d: "with_allocs 2 (\<lambda>a. wadb_dictionary_new a (tb_schema t) 1048576) w = (?w, Inr d)" by blast
  let ?sc = "\<lparr>sc_offset = WADB_SEGMENT_HEADER_BYTES, sc_last = 0, sc_min_time = 0, sc_max_time = 0, sc_dictionary = d, sc_index = empty_index\<rparr>"
  let ?w1 = "?w\<lparr>w_tick := w_tick ?w + 1\<rparr>"
  have "clock_ns ?w = (?w1, 1)" using q by (simp add: clock_ns_def sys_def no_failure_def wadb_monotonic_ns_def mul64_def add64_exact)
  then have "recover_step small_path small_segment small_header (128 + length rest) 100 ?sc (?w, t) = ((?w1, t), Inr None)"
    using r by (simp add: recover_step_def WADB_SEGMENT_HEADER_BYTES_def)
  then have l: "recover_loop small_path small_segment small_header (128 + length rest) 100 ?sc (?w, t) = ((?w1, t), Inr (?sc, True))"
    using r by (simp add: recover_loop.simps WADB_SEGMENT_HEADER_BYTES_def)
  have p: "\<exists>w'. truncate_tail small_path small_segment 128 ?w1 = (w', Inr ())"
    using q by (simp add: truncate_tail_def bind_io_def ensure_io_def return_io_def call_quiet sync_quiet small_segment_def)
  then obtain w' where p: "truncate_tail small_path small_segment WADB_SEGMENT_HEADER_BYTES ?w1 = (w', Inr ())"
    by (auto simp: WADB_SEGMENT_HEADER_BYTES_def)
  show ?thesis using d l p
    by (simp add: scan_segment_def bind_io_def on_world_def finish_segment_def summary_mismatch_def small_segment_def ensure_io_def return_io_def Let_def)
qed

lemma torn_recovery:
  assumes r: "rest \<noteq> []" "length rest < WADB_FRAME_HEADER_BYTES"
  shows "\<exists>w3 t3 s'. recover_segment 1048576 False 100 small_segment (torn_world rest, small_table) = ((w3, t3), Inr s')"
proof -
  let ?w = "torn_world rest"
  let ?w4 = "?w\<lparr>w_tick := 4\<rparr>"
  have q: "no_failure ?w" and f: "w_files ?w small_path = Some (File (small_image @ rest))"
    by (simp_all add: no_failure_def torn_world_def)
  then have c: "content ?w4 small_path = small_image @ rest" by (simp add: content_def)
  obtain w5 where h: "read_segment_header small_path ?w4 = (w5, Inr small_header)" "no_failure w5" "w_files w5 = w_files ?w4"
    using torn_header [OF _ c] q by auto
  obtain w' t' s' where s: "scan_segment 1048576 False 100 small_path small_segment small_header (128 + length rest) (w5, small_table) = ((w', t'), Inr s')"
    using torn_scan [OF h(2) _ r, of small_table] h(3) c by (auto simp: content_def small_table_simps)
  have "\<not> header_mismatch small_table small_segment small_header"
    by (simp add: header_mismatch_def small_header_def small_segment_def small_table_def example_table_def small_schema_def)
  moreover have "tb_last_sequence small_table = 0" "sg_first_sequence small_segment = 1" "sg_state small_segment = WADB_SEG_ACTIVE"
    "sg_committed_bytes small_segment = 128" by (simp_all add: small_table_simps small_segment_def)
  moreover have "open_file small_path WADB_CORRUPT (?w\<lparr>w_tick := 2\<rparr>) = (?w\<lparr>w_tick := 3\<rparr>, Inr ())"
    using q f by (simp add: open_file_def bind_io_def call_quiet)
  moreover have "file_size small_path WADB_CORRUPT (?w\<lparr>w_tick := 3\<rparr>) = (?w4, Inr (128 + length rest))"
    using q f by (simp add: file_size_def bind_io_def call_quiet content_def small_image_decode)
  moreover have "wadb_segment_path small_table small_segment (ascii ''seg'') ?w = (?w\<lparr>w_tick := 2\<rparr>, Inr small_path)"
    using small_segment_path [OF q] by (simp add: torn_world_def)
  ultimately show ?thesis using h(1) s
    by (simp add: recover_segment_def bind_io_def on_world_def ensure_io_def return_io_def size_contradicts_def WADB_SEGMENT_HEADER_BYTES_def)
qed

theorem recovery_keeps_committed_witness:
  "\<exists>w3 t3 s'. recover_segment 1048576 False 100 small_segment (torn_world [1, 2], small_table) = ((w3, t3), Inr s') \<and>
     (\<exists>kept cut. [1, 2] = kept @ cut \<and> content w3 small_path = small_image @ kept \<and> (cut = [] \<or> incomplete cut))"
proof -
  obtain w3 t3 s' where r: "recover_segment 1048576 False 100 small_segment (torn_world [1, 2], small_table) = ((w3, t3), Inr s')"
    using torn_recovery [of "[1, 2]"] by (auto simp: WADB_FRAME_HEADER_BYTES_def)
  let ?t = "small_table\<lparr>tb_active_fd := Some small_path\<rparr>"
  have "active_ok (torn_world []) ?t"
    by (simp add: active_ok_def active_last_def small_table_simps small_segment_def torn_world_def content_def
        empty_index_def WADB_SEGMENT_HEADER_BYTES_def small_image_decode)
  from recovery_keeps_committed [OF this _ _ _ r, of small_path "[1, 2]"] r show ?thesis
    by (fastforce simp: small_path_def torn_world_def content_def active_last_def small_table_simps small_segment_def)
qed

end
