(* ===== verification/Wadb_Database.thy ===== *)
theory Wadb_Database
  imports Wadb_Durability
begin

text \<open>
  The model of the life of a database: \<^verbatim>\<open>wadb_load_catalog\<close> of \<^verbatim>\<open>src/storage/metadata.c\<close> and
  \<^verbatim>\<open>wadb_open\<close>, \<^verbatim>\<open>wadb_close\<close>, \<^verbatim>\<open>wadb_create_table\<close> of \<^verbatim>\<open>src/core/database.c\<close>.

  The resolution of a path by \<^verbatim>\<open>realpath\<close> is an argument: it depends on the links of the file
  system, which the world does not have.
\<close>

section \<open>Loading the catalog\<close>

text \<open>A structure from \<^verbatim>\<open>calloc\<close>, with no active file.\<close>

definition blank_schema :: wadb_schema where
  "blank_schema = \<lparr>field_count = 0, row_width = 0, null_bytes = 0, fingerprint = 0, schema_fields = []\<rparr>"

definition blank_table :: "nat \<Rightarrow> wadb_table" where
  "blank_table tid =
     \<lparr>tb_id = tid, tb_name = [], tb_directory = [], tb_schema = blank_schema,
      tb_next_segment_id = 0, tb_preserved_sequence = 0, tb_preserved_time = 0, tb_retention_us = 0, tb_manifest_generation = 0,
      tb_segments = [], tb_active_fd = None, tb_last_sequence = 0, tb_last_time = 0, tb_readers = 0, tb_read_only = False,
      tb_pending_retention = False, tb_maintenance_status = WADB_OK, tb_dictionary = None, tb_index = empty_index,
      tb_readable = [], tb_readable_capacity = 0, tb_committed_frames = 0, tb_append_requests = 0, tb_retained_rows = 0,
      tb_retained_bytes = 0, tb_retained_segments = 0, tb_retired_segments = 0, tb_published_dictionary_bytes = 0\<rparr>"

definition parse_catalog :: "nat \<Rightarrow> bytes \<Rightarrow> (nat \<times> nat list) res" where
  "parse_catalog max_tables p =
     bind_res (envelope p (ascii ''WADBCAT1'') 36) (\<lambda>_.
       let n = unat (wadb_get_u32 (drop 16 p)); next_table = unat (wadb_get_u64 (drop 24 p)) in
       if unat (wadb_get_u32 (drop 12 p)) \<noteq> 32 \<or> \<not> zeroes (drop 20 p) 4 \<or> next_table = 0 \<or>
          n > WADB_MAX_TABLES \<or> length p \<noteq> 36 + n * 8
       then Inl WADB_CORRUPT
       else if n > max_tables then Inl WADB_LIMIT
       else Inr (next_table, map (\<lambda>i. unat (wadb_get_u64 (drop (32 + i * 8) p))) [0..<n]))"

text \<open>The metadata and the segments of one table; missing metadata is corruption.\<close>

definition read_table :: "nat \<Rightarrow> path \<Rightarrow> nat \<Rightarrow> (world, wadb_table) io" where
  "read_table limit tables tid =
     bind_io (wadb_id_path tables tid) (\<lambda>dir.
       bind_io (wadb_load_schema ((blank_table tid)\<lparr>tb_directory := dir\<rparr>)) (\<lambda>t.
         bind_io (wadb_load_manifest t) (\<lambda>t w.
           case wadb_storage_recover limit (w, t) of
             ((w', t'), Inl e) \<Rightarrow> (w', Inl e)
           | ((w', t'), Inr _) \<Rightarrow> (w', Inr t'))))"

definition load_table :: "path \<Rightarrow> nat \<Rightarrow> unit engine" where
  "load_table tables tid = (\<lambda>(w, db).
     bind_io (on_world (call WADB_NOMEM)) (\<lambda>_ (w, db).
       case read_table (op_dictionary_limit_bytes (db_options db)) tables tid w of
         (w', Inl e) \<Rightarrow> ((w', db), Inl (if e = WADB_NOT_FOUND then WADB_CORRUPT else e))
       | (w', Inr t) \<Rightarrow>
           if list_ex (\<lambda>u. strcmp_eq (tb_name u) (tb_name t)) (db_tables db) then ((w', db), Inl WADB_CORRUPT)
           else ((w', db\<lparr>db_tables := db_tables db @ [t]\<rparr>), Inr ())) (w, db))"

fun load_tables :: "path \<Rightarrow> nat \<Rightarrow> nat \<Rightarrow> nat list \<Rightarrow> unit engine" where
  "load_tables tables next_table previous [] st = (st, Inr ())"
| "load_tables tables next_table previous (tid # ids) st =
     (if tid \<le> previous \<or> tid \<ge> next_table then (st, Inl WADB_CORRUPT)
      else bind_io (load_table tables tid) (\<lambda>_. load_tables tables next_table tid ids) st)"

definition wadb_load_catalog :: "unit engine" where
  "wadb_load_catalog = (\<lambda>(w, db).
     bind_io (on_world (load_file (db_directory db) (ascii ''catalog'') (36 + WADB_MAX_TABLES * 8))) (\<lambda>p.
       bind_io (from_res (parse_catalog (op_max_tables (db_options db)) p)) (\<lambda>(next_table, ids).
         bind_io (on_world (wadb_path (db_directory db) (ascii ''tables''))) (\<lambda>tables.
           bind_io (load_tables tables next_table 0 ids) (\<lambda>_.
             modify (\<lambda>db. db\<lparr>db_next_table_id := next_table\<rparr>))))) (w, db))"

section \<open>Closing\<close>

text \<open>
  The requests that the writer still completed are part of the result. The memory, the locks and
  the descriptors of the database are released; that is the empty rest of its state.
\<close>

definition wadb_close :: "world \<times> wadb_db \<Rightarrow> (world \<times> wadb_db) \<times> wadb_append_request list" where
  "wadb_close st =
     (case wadb_writer_stop st of (st1, finished) \<Rightarrow>
        (case wadb_cursor_clear st1 of (w, db) \<Rightarrow>
           ((w, (wadb_cache_clear db)\<lparr>db_tables := [], db_locked := False\<rparr>), finished)))"

section \<open>Opening\<close>

definition options_invalid :: "wadb_options \<Rightarrow> bool" where
  "options_invalid opts \<longleftrightarrow>
     op_max_tables opts = 0 \<or> op_max_tables opts > WADB_MAX_TABLES \<or> op_segment_target_bytes opts < 256 \<or>
     int (op_segment_target_bytes opts) > INT64_MAX \<or> op_queue_limit_bytes opts < WADB_MAX_FRAME_BYTES \<or>
     op_dictionary_limit_bytes opts < 1024 \<or> op_dictionary_limit_bytes opts > 64 * 1024 * 1024 \<or> op_batch_target_bytes opts < 256 \<or>
     op_batch_target_bytes opts > WADB_MAX_FRAME_BYTES \<or> op_batch_delay_ms opts > 1000 \<or>
     op_read_cache_bytes opts < op_dictionary_limit_bytes opts + SIZEOF_CACHE_ENTRY \<or>
     op_snapshot_limit_bytes opts < 1024 \<or> op_max_readers opts = 0 \<or> op_max_readers opts > 1024"

definition zero_event :: wadb_commit_event where
  "zero_event =
     \<lparr>ev_id = 0, ev_table_id = 0, ev_first_sequence = 0, ev_last_sequence = 0, ev_frame_bytes = 0, ev_max_time = 0, ev_rows = 0\<rparr>"

definition new_database :: "path \<Rightarrow> wadb_options \<Rightarrow> nat \<Rightarrow> wadb_db" where
  "new_database dir opts boot =
     \<lparr>db_directory = dir, db_locked = False, db_read_only = False, db_writer_started = False, db_stopping = False, db_queue = [],
      db_queue_bytes = 0, db_ready_bytes = 0, db_rejected_appends = 0, db_failed_appends = 0, db_snapshot_bytes = 0,
      db_reader_count = 0, db_cache = [], db_cache_bytes = 0, db_cache_clock = 0, db_cache_hits = 0, db_cache_misses = 0,
      db_cursors = [], db_next_cursor_id = 0, db_boot_ns = boot, db_committed_rows = 0, db_committed_bytes = 0,
      db_committed_frames = 0, db_append_requests = 0, db_clock_adjustments = 0, db_queries = 0, db_failed_queries = 0,
      db_rows_scanned = 0, db_bytes_scanned = 0, db_append_latency = empty_histogram, db_sync_latency = empty_histogram,
      db_query_latency = empty_histogram, db_notifications = replicate WADB_NOTIFICATION_CAPACITY zero_event,
      db_latest_notification = 0, db_options = opts, db_next_table_id = 1, db_tables = []\<rparr>"

text \<open>\<^verbatim>\<open>realpath\<close>, the table array and the two mutexes are all tried before their failures are reported.\<close>

definition initialize :: "(world, unit) io" where
  "initialize w =
     (case call WADB_NOMEM w of (w1, directory) \<Rightarrow>
        (case call WADB_NOMEM w1 of (w2, array) \<Rightarrow>
           (case bind_io (call WADB_NOMEM) (\<lambda>_. call WADB_NOMEM) w2 of (w3, mutexes) \<Rightarrow>
              (w3, if is_ok directory \<and> is_ok array \<and> is_ok mutexes then Inr () else Inl WADB_NOMEM))))"

text \<open>\<^verbatim>\<open>open\<close> with \<^verbatim>\<open>O_CREAT\<close>: a directory cannot be opened for writing.\<close>

definition open_lock :: "path \<Rightarrow> (world, unit) io" where
  "open_lock path =
     bind_io (call WADB_IO) (\<lambda>_ w.
       case w_files w path of
         None \<Rightarrow> (set_file path (Some (File [])) w, Inr ())
       | Some Directory \<Rightarrow> (w, Inl WADB_IO)
       | Some n \<Rightarrow> (w, Inr ()))"

definition acquire_lock :: "unit engine" where
  "acquire_lock = (\<lambda>(w, db).
     bind_io (on_world (wadb_path (db_directory db) (ascii ''LOCK''))) (\<lambda>path.
       bind_io (on_world (open_lock path)) (\<lambda>_.
         bind_io (on_world (call WADB_LOCKED)) (\<lambda>_.
           modify (\<lambda>db. db\<lparr>db_locked := True\<rparr>)))) (w, db))"

text \<open>
  Reading a directory to its end. A failing \<^verbatim>\<open>readdir\<close> gives a null pointer as its end does, and
  the code does not tell them apart: a directory whose first entry cannot be read looks empty.
\<close>

definition has_entry :: "world \<Rightarrow> path \<Rightarrow> bool" where
  "has_entry w path \<longleftrightarrow> (\<exists>name. 47 \<notin> set name \<and> w_files w (path @ 47 # name) \<noteq> None)"

definition directory_empty :: "path \<Rightarrow> (world, bool) io" where
  "directory_empty path =
     bind_io (call WADB_IO) (\<lambda>_ w.
       if w_files w path \<noteq> Some Directory then (w, Inl WADB_IO)
       else (case sys w of (w', Fail) \<Rightarrow> (w', Inr True) | (w', Ret _) \<Rightarrow> (w', Inr (\<not> has_entry w path))))"

text \<open>A missing catalog is created when there are no tables.\<close>

definition initialize_catalog :: "unit engine" where
  "initialize_catalog = (\<lambda>(w, db).
     case wadb_path (db_directory db) (ascii ''tables'') w of
       (w', Inl _) \<Rightarrow> ((w', db), Inl WADB_IO)
     | (w', Inr path) \<Rightarrow>
         bind_io (on_world (directory_empty path)) (\<lambda>empty (w, db).
           if \<not> empty then ((w, db), Inl WADB_CORRUPT)
           else on_world (wadb_save_catalog db None) (w, db)) (w', db))"

definition open_catalog :: "unit engine" where
  "open_catalog st =
     (case wadb_load_catalog st of
        (st', Inl e) \<Rightarrow> if e = WADB_NOT_FOUND then initialize_catalog st' else (st', Inl e)
      | (st', Inr u) \<Rightarrow> (st', Inr u))"

definition open_database :: "unit engine" where
  "open_database = (\<lambda>(w, db).
     bind_io (on_world (call WADB_NOMEM)) (\<lambda>_.
       bind_io (on_world (wadb_sync_directory (parent_path (db_directory db)))) (\<lambda>_.
         bind_io acquire_lock (\<lambda>_.
           bind_io (on_world (wadb_path (db_directory db) (ascii ''tables''))) (\<lambda>path.
             bind_io (on_world (wadb_mkdir path)) (\<lambda>_.
               bind_io (on_world (wadb_sync_directory (db_directory db))) (\<lambda>_.
                 bind_io open_catalog (\<lambda>_. wadb_writer_start))))))) (w, db))"

definition wadb_open :: "(path \<Rightarrow> path) \<Rightarrow> path option \<Rightarrow> wadb_options option \<Rightarrow> bool \<Rightarrow> (world, wadb_db) io" where
  "wadb_open realpath directory options out w0 =
     (case directory of
        None \<Rightarrow> (w0, Inl WADB_INVALID)
      | Some dir \<Rightarrow>
          let opts = (case options of None \<Rightarrow> wadb_options_default | Some opts \<Rightarrow> opts) in
          if dir = [] \<or> \<not> out then (w0, Inl WADB_INVALID)
          else if options_invalid opts then (w0, Inl WADB_INVALID)
          else
            bind_io (wadb_mkdir dir) (\<lambda>_.
              bind_io (call WADB_NOMEM) (\<lambda>_ w.
                case clock_ns w of (w1, boot) \<Rightarrow>
                  (case bind_io (on_world initialize) (\<lambda>_. open_database) (w1, new_database (realpath dir) opts boot) of
                     ((w2, db), Inl e) \<Rightarrow> (fst (fst (wadb_close (w2, db))), Inl e)
                   | ((w2, db), Inr _) \<Rightarrow> (w2, Inr db)))) w0)"

section \<open>Creating a table\<close>

text \<open>Directories left by interrupted calls are skipped.\<close>

function claim_directory :: "path \<Rightarrow> world \<times> wadb_db \<Rightarrow> (world \<times> wadb_db) \<times> (nat \<times> path) res" where
  "claim_directory tables (w, db) =
     (if db_next_table_id db \<ge> UINT64_MAX then ((w, db), Inl WADB_LIMIT)
      else
        (let tid = db_next_table_id db; db' = db\<lparr>db_next_table_id := tid + 1\<rparr> in
         case wadb_id_path tables tid w of
           (w1, Inl e) \<Rightarrow> ((w1, db'), Inl e)
         | (w1, Inr dir) \<Rightarrow>
             (case call WADB_IO w1 of
                (w2, Inl e) \<Rightarrow> ((w2, db'), Inl e)
              | (w2, Inr _) \<Rightarrow>
                  if w_files w2 dir = None then ((set_file dir (Some Directory) w2, db'), Inr (tid, dir))
                  else claim_directory tables (w2, db'))))"
  by pat_completeness auto
termination by (relation "measure (\<lambda>(tables, w, db). UINT64_MAX - db_next_table_id db)") auto

declare claim_directory.simps [simp del]

definition new_table :: "bytes \<Rightarrow> wadb_schema \<Rightarrow> nat \<Rightarrow> nat \<Rightarrow> path \<Rightarrow> wadb_table" where
  "new_table name schema retention tid dir =
     (blank_table tid)\<lparr>tb_name := cstr name, tb_directory := dir, tb_schema := schema, tb_next_segment_id := 1,
       tb_manifest_generation := 1, tb_retention_us := retention\<rparr>"

text \<open>The part under the mutex, up to the catalog.\<close>

definition store_table :: "bytes \<Rightarrow> wadb_schema \<Rightarrow> nat \<Rightarrow> wadb_table engine" where
  "store_table name schema retention = (\<lambda>(w, db).
     bind_io (on_world (wadb_path (db_directory db) (ascii ''tables''))) (\<lambda>tables.
       bind_io (claim_directory tables) (\<lambda>(tid, dir).
         let t = new_table name schema retention tid dir in
         bind_io (on_world (wadb_sync_directory tables)) (\<lambda>_.
           bind_io (on_world (wadb_save_schema t)) (\<lambda>_.
             bind_io (on_world (wadb_save_manifest t)) (\<lambda>_ (w, db).
               bind_io (on_world (wadb_save_catalog db (Some tid))) (\<lambda>_. return_io t) (w, db)))))) (w, db))"

definition wadb_create_table ::
  "bool \<Rightarrow> bytes option \<Rightarrow> wadb_field_def carr \<Rightarrow> nat \<Rightarrow> bool \<Rightarrow> nat engine" where
  "wadb_create_table have_db name_mem defs retention out = (\<lambda>(w, db).
     case name_mem of
       None \<Rightarrow> ((w, db), Inl WADB_INVALID)
     | Some name \<Rightarrow>
         if \<not> have_db \<or> \<not> out \<or> \<not> wadb_identifier (Some name) \<or> int retention > INT64_MAX then ((w, db), Inl WADB_INVALID)
         else
           bind_io (on_world (call WADB_NOMEM)) (\<lambda>_.
             bind_io (from_res (wadb_schema_build defs)) (\<lambda>schema (w, db).
               if db_read_only db then ((w, db), Inl WADB_READ_ONLY)
               else if length (db_tables db) \<ge> op_max_tables (db_options db) then ((w, db), Inl WADB_LIMIT)
               else if list_ex (\<lambda>t. strcmp_eq (tb_name t) name) (db_tables db) then ((w, db), Inl WADB_EXISTS)
               else
                 (case store_table name schema retention (w, db) of
                    ((w', db'), Inl e) \<Rightarrow>
                      ((w', if e = WADB_INDETERMINATE then db'\<lparr>db_read_only := True\<rparr> else db'), Inl e)
                  | ((w', db'), Inr t) \<Rightarrow>
                      ((w', db'\<lparr>db_tables := db_tables db' @ [t]\<rparr>), Inr (length (db_tables db')))))) (w, db))"

section \<open>What the catalog lists\<close>

definition catalog_ok :: "wadb_db \<Rightarrow> bool" where
  "catalog_ok db \<longleftrightarrow>
     sorted_wrt (<) (map tb_id (db_tables db)) \<and> (\<forall>t\<in>set (db_tables db). 0 < tb_id t \<and> tb_id t < db_next_table_id db) \<and>
     distinct (map (\<lambda>t. cstr (tb_name t)) (db_tables db)) \<and> length (db_tables db) \<le> op_max_tables (db_options db) \<and>
     0 < db_next_table_id db \<and> db_next_table_id db \<le> UINT64_MAX"

definition table_key :: "wadb_table \<Rightarrow> nat \<times> bytes" where
  "table_key t = (tb_id t, tb_name t)"

subsection \<open>Recovery keeps the identity of a table\<close>

lemma replay_frame_key: "replay_frame s h bytes sc (w, t) = ((w', t'), r) \<Longrightarrow> table_key t' = table_key t"
  by (auto simp: replay_frame_def bind_io_def from_res_def ensure_io_def on_world_def return_io_def fail_io_def table_key_def Let_def
      split: prod.splits sum.splits if_splits)

lemma recover_step_key: "recover_step path s h n deadline sc (w, t) = ((w', t'), r) \<Longrightarrow> table_key t' = table_key t"
  by (auto simp: recover_step_def bind_io_def from_res_def on_world_def return_io_def
      split: prod.splits sum.splits if_splits dest!: replay_frame_key)

lemma recover_loop_key: "recover_loop path s h n deadline sc (w, t) = ((w', t'), r) \<Longrightarrow> table_key t' = table_key t"
proof (induction path s h n deadline sc "(w, t)" arbitrary: w t rule: recover_loop.induct)
  case (1 path s h n deadline sc w t)
  obtain w1 t1 r1 where st: "recover_step path s h n deadline sc (w, t) = ((w1, t1), r1)" by (metis surj_pair)
  note k = recover_step_key [OF st]
  show ?case
  proof (cases "sc_offset sc < n")
    case False
    then show ?thesis using "1.prems" by (simp add: recover_loop.simps)
  next
    case True
    show ?thesis
    proof (cases r1)
      case (Inl e)
      then show ?thesis using "1.prems" True st k by (simp add: recover_loop.simps [of path s h n deadline sc])
    next
      case (Inr o1)
      show ?thesis
      proof (cases o1)
        case None
        then show ?thesis using "1.prems" True st k Inr by (simp add: recover_loop.simps [of path s h n deadline sc])
      next
        case (Some sc1)
        have "recover_loop path s h n deadline sc1 (w1, t1) = ((w', t'), r)"
          using "1.prems" True st Inr Some by (simp add: recover_loop.simps [of path s h n deadline sc])
        from "1.hyps" [OF True st [symmetric] Inr Some this] show ?thesis using k by simp
      qed
    qed
  qed
qed

lemma finish_segment_key: "finish_segment force path s sc (w, t) = ((w', t'), Inr s') \<Longrightarrow> table_key t' = table_key t"
  by (auto simp: finish_segment_def io_ok table_key_def Let_def split: if_splits prod.splits sum.splits)

lemma scan_segment_key: "scan_segment limit force deadline path s h n (w, t) = ((w', t'), Inr s') \<Longrightarrow> table_key t' = table_key t"
  by (auto simp: scan_segment_def io_ok split: if_splits dest!: recover_loop_key finish_segment_key)

lemma use_index_key: "use_index s (w, t) = ((w', t'), Inr b) \<Longrightarrow> table_key t' = table_key t"
  by (auto simp: use_index_def table_key_def split: if_splits prod.splits sum.splits)

lemma recover_segment_key: "recover_segment limit force deadline s (w, t) = ((w', t'), Inr s') \<Longrightarrow> table_key t' = table_key t"
  by (auto simp: recover_segment_def io_ok split: if_splits dest!: use_index_key scan_segment_key)

lemma readable_reserve_key: "wadb_readable_reserve (w, t) = ((w', t'), Inr u) \<Longrightarrow> table_key t' = table_key t"
  by (auto simp: wadb_readable_reserve_def io_ok table_key_def Let_def split: if_splits)

lemma recover_segments_key: "recover_segments limit is (w, t) = ((w', t'), Inr u) \<Longrightarrow> table_key t' = table_key t"
proof (induction "is" arbitrary: w t)
  case (Cons i "is")
  show ?case
  proof (cases "sg_state (tb_segments t ! i) = WADB_SEG_RETIRED")
    case True
    then show ?thesis using Cons.IH Cons.prems by (fastforce simp: table_key_def Let_def)
  next
    case False
    let ?read = "\<lambda>s'. if sg_last_sequence s' = 0 then return_io ()
                     else bind_io wadb_readable_reserve (\<lambda>_. modify (\<lambda>t. t\<lparr>tb_readable := tb_readable t @ [i]\<rparr>))"
    obtain w1 t1 s' w2 t2 where a: "recover_segment limit False UINT64_MAX (tb_segments t ! i) (w, t) = ((w1, t1), Inr s')"
      "?read s' (w1, count_recovered i s' t1) = ((w2, t2), Inr ())" "recover_segments limit is (w2, t2) = ((w', t'), Inr u)"
      using Cons.prems False by (auto simp: Let_def io_ok)
    have "table_key t2 = table_key (count_recovered i s' t1)"
      using a(2) by (auto simp: io_ok table_key_def split: if_splits dest!: readable_reserve_key)
    then show ?thesis using recover_segment_key [OF a(1)] Cons.IH [OF a(3)] by (simp add: count_recovered_def table_key_def)
  qed
qed simp

lemma storage_recover_key:
  assumes "wadb_storage_recover limit (w, t) = ((w', t'), Inr u)" shows "table_key t' = table_key t"
proof -
  let ?pub = "\<lambda>t. t\<lparr>tb_published_dictionary_bytes := (case tb_dictionary t of None \<Rightarrow> 0 | Some d \<Rightarrow> di_allocated d)\<rparr>"
  obtain w1 t1 where a: "recover_segments limit [0..<length (tb_segments t)]
      (w, t\<lparr>tb_last_sequence := tb_preserved_sequence t, tb_last_time := tb_preserved_time t\<rparr>) = ((w1, t1), Inr ())"
    "fst (if tb_pending_retention (?pub t1) then wadb_retention_cleanup (w1, ?pub t1) else ((w1, ?pub t1), 0, Inr ())) = (w', t')"
    using assms by (auto simp: wadb_storage_recover_def io_ok Let_def)
  have "table_key t' = table_key t1"
    using a(2) by (auto simp: wadb_retention_cleanup_def cleanup_def table_key_def split: if_splits prod.splits)
  then show ?thesis using recover_segments_key [OF a(1)] by (simp add: table_key_def)
qed

lemma case_pair_io_ok:
  "(case m of ((w, t), Inl e) \<Rightarrow> f w t e | ((w, t), Inr x) \<Rightarrow> k w t x) = (s, Inr y) \<longleftrightarrow>
     (\<exists>w t e. m = ((w, t), Inl e) \<and> f w t e = (s, Inr y)) \<or> (\<exists>w t x. m = ((w, t), Inr x) \<and> k w t x = (s, Inr y))"
  by (cases m; cases "fst m"; cases "snd m") auto

lemma parse_schema_id: assumes "parse_schema t p = Inr t'" shows "tb_id t' = tb_id t"
proof -
  have "\<exists>s n. t' = t\<lparr>tb_schema := s, tb_name := n\<rparr>"
    using assms unfolding parse_schema_def bind_res_def Let_def
    by (auto simp only: sum.inject sum.distinct sum.case option.case split: sum.split_asm if_split_asm option.split_asm)
  then show ?thesis by auto
qed

lemma parse_manifest_id: assumes "parse_manifest t p w = (w', Inr t')" shows "tb_id t' = tb_id t"
proof -
  have "\<exists>a b c d e f. t' = t\<lparr>tb_segments := a, tb_next_segment_id := b, tb_preserved_sequence := c, tb_preserved_time := d,
      tb_retention_us := e, tb_manifest_generation := f\<rparr>"
    using assms unfolding parse_manifest_def Let_def
    by (auto simp only: bind_io_Inr fail_io_def return_io_def prod.inject sum.inject sum.distinct sum.case option.case
        split: sum.split_asm if_split_asm option.split_asm) blast+
  then show ?thesis by auto
qed

lemma read_table_id:
  assumes "read_table limit tables tid w = (w', Inr t)" shows "tb_id t = tid"
proof -
  obtain w1 dir w2 t1 w3 t2 where a: "wadb_load_schema ((blank_table tid)\<lparr>tb_directory := dir\<rparr>) w1 = (w2, Inr t1)"
    "wadb_load_manifest t1 w2 = (w3, Inr t2)" "wadb_storage_recover limit (w3, t2) = ((w', t), Inr ())"
    using assms by (auto simp: read_table_def io_ok case_pair_io_ok)
  have "tb_id t1 = tid" using a(1) by (auto simp: wadb_load_schema_def bind_io_Inr blank_table_def dest!: parse_schema_id)
  moreover have "tb_id t2 = tb_id t1" using a(2) by (auto simp: wadb_load_manifest_def bind_io_Inr dest!: parse_manifest_id)
  ultimately show ?thesis using storage_recover_key [OF a(3)] by (simp add: table_key_def)
qed

subsection \<open>Loading\<close>

text \<open>The part of \<open>catalog_ok\<close> that holds while tables are being loaded, the last of them with identifier \<open>previous\<close>.\<close>

definition tables_ok :: "nat \<Rightarrow> wadb_table list \<Rightarrow> bool" where
  "tables_ok previous ts \<longleftrightarrow>
     sorted_wrt (<) (map tb_id ts) \<and> (\<forall>t\<in>set ts. 0 < tb_id t \<and> tb_id t \<le> previous) \<and> distinct (map (\<lambda>t. cstr (tb_name t)) ts)"

lemma tables_ok_append:
  "tables_ok previous ts \<Longrightarrow> previous < tb_id t \<Longrightarrow> \<not> list_ex (\<lambda>u. strcmp_eq (tb_name u) (tb_name t)) ts \<Longrightarrow>
     tb_id t \<le> m \<Longrightarrow> tables_ok m (ts @ [t])"
  by (fastforce simp: tables_ok_def sorted_wrt_append strcmp_eq_def list_ex_iff)

lemma load_table_ok:
  assumes "load_table tables tid (w, db) = ((w', db'), Inr u)" "tables_ok previous (db_tables db)" "previous < tid"
  shows "\<exists>t. db' = db\<lparr>db_tables := db_tables db @ [t]\<rparr> \<and> tables_ok tid (db_tables db')"
proof -
  obtain w1 t where a: "read_table (op_dictionary_limit_bytes (db_options db)) tables tid w1 = (w', Inr t)"
    "\<not> list_ex (\<lambda>u. strcmp_eq (tb_name u) (tb_name t)) (db_tables db)" "db' = db\<lparr>db_tables := db_tables db @ [t]\<rparr>"
    using assms(1) by (auto simp: load_table_def io_ok case_io_ok split: if_splits)
  then show ?thesis using tables_ok_append [OF assms(2), of t tid] assms(3) read_table_id [OF a(1)] by auto
qed

lemma load_tables_ok:
  "load_tables tables next_table previous ids (w, db) = ((w', db'), Inr u) \<Longrightarrow> tables_ok previous (db_tables db) \<Longrightarrow>
   (\<forall>t\<in>set (db_tables db). tb_id t < next_table) \<Longrightarrow>
   \<exists>ts. db' = db\<lparr>db_tables := ts\<rparr> \<and> length ts = length (db_tables db) + length ids \<and> (\<exists>m. tables_ok m ts) \<and> (\<forall>t\<in>set ts. tb_id t < next_table)"
proof (induction ids arbitrary: previous w db)
  case Nil
  then show ?case by (auto intro!: exI [of _ "db_tables db"])
next
  case (Cons tid ids)
  obtain w1 db1 where a: "load_table tables tid (w, db) = ((w1, db1), Inr ())"
    "load_tables tables next_table tid ids (w1, db1) = ((w', db'), Inr u)" "previous < tid" "tid < next_table"
    using Cons.prems(1) by (auto simp: io_ok split: if_splits)
  obtain t where t: "db1 = db\<lparr>db_tables := db_tables db @ [t]\<rparr>" "tables_ok tid (db_tables db1)"
    using load_table_ok [OF a(1) Cons.prems(2) a(3)] by blast
  have "tb_id t < next_table" using t a(4) by (auto simp: tables_ok_def)
  then show ?case using Cons.IH [OF a(2) t(2)] t Cons.prems(3) by auto
qed

lemma parse_catalog_ok:
  assumes "parse_catalog m p = Inr (next_table, ids)"
  shows "length ids \<le> m" "0 < next_table" "next_table \<le> UINT64_MAX"
proof -
  have "\<exists>n f. next_table = unat (wadb_get_u64 (drop 24 p)) \<and> next_table \<noteq> 0 \<and> ids = map f [0..<n] \<and> \<not> n > m"
    using assms unfolding parse_catalog_def bind_res_def Let_def
    by (auto simp only: sum.inject sum.distinct sum.case prod.inject split: sum.split_asm if_split_asm)
  then show "length ids \<le> m" "0 < next_table" "next_table \<le> UINT64_MAX" by (auto simp: unat_u64_le)
qed

lemma load_catalog_ok:
  assumes "wadb_load_catalog (w, db) = ((w', db'), Inr u)" "db_tables db = []"
  shows "catalog_ok db' \<and> (\<exists>ts n. db' = db\<lparr>db_tables := ts, db_next_table_id := n\<rparr>)"
proof -
  obtain w1 p next_table ids tables w2 db2 where a: "parse_catalog (op_max_tables (db_options db)) p = Inr (next_table, ids)"
    "load_tables tables next_table 0 ids (w1, db) = ((w2, db2), Inr ())" "db' = db2\<lparr>db_next_table_id := next_table\<rparr>"
    using assms(1) by (auto simp: wadb_load_catalog_def io_ok)
  have "tables_ok 0 (db_tables db)" "\<forall>t\<in>set (db_tables db). tb_id t < next_table" using assms(2) by (simp_all add: tables_ok_def)
  from load_tables_ok [OF a(2) this] obtain ts m where t: "db2 = db\<lparr>db_tables := ts\<rparr>" "length ts = length ids" "tables_ok m ts"
      "\<forall>t\<in>set ts. tb_id t < next_table"
    using assms(2) by auto
  then show ?thesis using parse_catalog_ok [OF a(1)] a(3) by (auto simp: catalog_ok_def tables_ok_def)
qed

text \<open>Only a missing catalog is reported as such, before any table is loaded.\<close>

lemma load_table_found: "load_table tables tid st = (st', Inl e) \<Longrightarrow> e \<noteq> WADB_NOT_FOUND"
  by (cases st) (auto simp: load_table_def bind_io_Inl on_world_def split: prod.splits sum.splits if_splits dest!: call_files)

lemma load_tables_found: "load_tables tables next_table previous ids st = (st', Inl e) \<Longrightarrow> e \<noteq> WADB_NOT_FOUND"
  by (induction ids arbitrary: previous st) (auto simp: bind_io_Inl split: if_splits dest: load_table_found)

lemma parse_catalog_found: "parse_catalog m p = Inl e \<Longrightarrow> e \<noteq> WADB_NOT_FOUND"
  unfolding parse_catalog_def bind_res_def Let_def envelope_def
  by (auto simp only: sum.inject sum.distinct sum.case wadb_status.distinct split: sum.split_asm if_split_asm)

lemma load_catalog_missing:
  assumes "wadb_load_catalog (w, db) = ((w', db'), Inl WADB_NOT_FOUND)"
  shows "db' = db"
  using assms
  by (auto simp: wadb_load_catalog_def bind_io_Inl io_ok modify_def from_res_def dest: load_tables_found parse_catalog_found split: sum.splits)

subsection \<open>Opening\<close>

lemma save_catalog_db: "on_world (wadb_save_catalog db0 a) (w, db) = ((w', db'), r) \<Longrightarrow> db' = db"
  by (simp add: io_ok)

lemma initialize_catalog_ok:
  "initialize_catalog (w, db) = ((w', db'), Inr u) \<Longrightarrow> db' = db"
  by (auto simp: initialize_catalog_def case_io_ok io_ok split: if_splits)

lemma new_catalog_ok: "db_tables db = [] \<Longrightarrow> db_next_table_id db = 1 \<Longrightarrow> catalog_ok db"
  by (simp add: catalog_ok_def)

definition opened :: "wadb_db \<Rightarrow> bool" where
  "opened db \<longleftrightarrow> catalog_ok db \<and> db_locked db \<and> db_writer_started db \<and> \<not> db_stopping db \<and> db_queue db = [] \<and> db_queue_bytes db = 0"

lemma open_catalog_ok:
  assumes "open_catalog (w, db) = ((w', db'), Inr u)" "db_tables db = []" "db_next_table_id db = 1"
  shows "catalog_ok db' \<and> (\<exists>ts n. db' = db\<lparr>db_tables := ts, db_next_table_id := n\<rparr>)"
proof -
  obtain w1 db1 r where l: "wadb_load_catalog (w, db) = ((w1, db1), r)" by (metis surj_pair)
  show ?thesis
  proof (cases r)
    case (Inr x)
    then show ?thesis using load_catalog_ok [of w db w1 db1 x] l assms by (simp add: open_catalog_def)
  next
    case (Inl e)
    then have e: "e = WADB_NOT_FOUND" "initialize_catalog (w1, db1) = ((w', db'), Inr u)" using assms(1) l by (simp_all add: open_catalog_def split: if_splits)
    have "db1 = db" "db' = db1" using load_catalog_missing l Inl e initialize_catalog_ok by auto
    then show ?thesis using new_catalog_ok [OF assms(2,3)] assms(2,3) by (auto intro!: exI [of _ "db_tables db"] exI [of _ "db_next_table_id db"])
  qed
qed

lemma open_database_ok:
  assumes "open_database (w, new_database dir opts boot) = ((w', db'), Inr u)"
  shows "opened db' \<and> db_options db' = opts \<and> db_directory db' = dir"
proof -
  let ?db = "(new_database dir opts boot)\<lparr>db_locked := True\<rparr>"
  obtain w1 w2 db2 where a: "open_catalog (w1, ?db) = ((w2, db2), Inr ())" "wadb_writer_start (w2, db2) = ((w', db'), Inr u)"
    using assms by (auto simp: open_database_def acquire_lock_def io_ok)
  have b: "catalog_ok db2" "\<exists>ts n. db2 = ?db\<lparr>db_tables := ts, db_next_table_id := n\<rparr>"
    using open_catalog_ok [OF a(1)] by (simp_all add: new_database_def)
  have "db' = db2\<lparr>db_writer_started := True\<rparr>" using a(2) by (auto simp: wadb_writer_start_def io_ok)
  then show ?thesis using b by (auto simp: opened_def catalog_ok_def new_database_def)
qed

lemma open_ok:
  assumes "wadb_open realpath (Some dir) (Some opts) out w = (w', Inr db)"
  shows "opened db \<and> \<not> options_invalid (db_options db) \<and> db_options db = opts \<and> db_directory db = realpath dir"
proof -
  obtain w1 w2 boot where a: "bind_io (on_world initialize) (\<lambda>_. open_database) (w1, new_database (realpath dir) opts boot) = ((w2, db), Inr ())"
    "\<not> options_invalid opts"
    using assms by (auto simp: wadb_open_def bind_io_Inr case_pair_io_ok case_prod_beta [of _ "clock_ns _"] Let_def split: if_splits) blast
  then obtain w3 where "open_database (w3, new_database (realpath dir) opts boot) = ((w2, db), Inr ())" by (auto simp: io_ok)
  then show ?thesis using open_database_ok a(2) by blast
qed

section \<open>Creating tables\<close>

lemma claim_directory_ok:
  "claim_directory tables (w, db) = ((w', db'), r) \<Longrightarrow> db_next_table_id db \<le> UINT64_MAX \<Longrightarrow>
   (\<exists>n. db' = db\<lparr>db_next_table_id := n\<rparr> \<and> db_next_table_id db \<le> n \<and> n \<le> UINT64_MAX \<and>
     (case r of Inl e \<Rightarrow> w_files w' = w_files w \<and> (e = WADB_LIMIT \<or> e = WADB_NOMEM \<or> e = WADB_IO)
      | Inr (tid, dir) \<Rightarrow> n = tid + 1 \<and> db_next_table_id db \<le> tid \<and> dir = tables @ 47 # decimal20 tid \<and> w_files w dir = None \<and>
          w_files w' = (w_files w)(dir \<mapsto> Directory)))"
proof (induction tables "(w, db)" arbitrary: w db rule: claim_directory.induct)
  case (1 tables w db)
  let ?n = "db_next_table_id db" and ?db = "db\<lparr>db_next_table_id := db_next_table_id db + 1\<rparr>"
  obtain w1 p where p: "wadb_id_path tables ?n w = (w1, p)" by fastforce
  obtain w2 c where c: "call WADB_IO w1 = (w2, c)" by fastforce
  have f: "w_files w1 = w_files w" "p = Inr (tables @ 47 # decimal20 ?n) \<or> p = Inl WADB_NOMEM" "w_files w2 = w_files w1" "\<forall>e. c = Inl e \<longrightarrow> e = WADB_IO"
    using path_result [OF p [unfolded wadb_id_path_def]] call_files [OF c] by auto
  show ?case
  proof (cases "?n \<ge> UINT64_MAX")
    case True
    have "w' = w" "db' = db" "r = Inl WADB_LIMIT" using "1.prems"(1) [unfolded claim_directory.simps [of tables w db] if_P [OF True]] by simp_all
    then show ?thesis using "1.prems"(2) by (intro exI [of _ ?n]) simp
  next
    case False
    note step = "1.prems"(1) [unfolded claim_directory.simps [of tables w db] Let_def if_not_P [OF False] p c]
    consider (path) e where "p = Inl e" | (call) dir e where "p = Inr dir" "c = Inl e" | (go) dir k where "p = Inr dir" "c = Inr k" by (cases p; cases c) auto
    then show ?thesis
    proof cases
      case path
      then show ?thesis using step f False by (auto intro!: exI [of _ "?n + 1"])
    next
      case call
      then show ?thesis using step p c f False by (auto intro!: exI [of _ "?n + 1"])
    next
      case go
      show ?thesis
      proof (cases "w_files w2 dir = None")
        case True
        then show ?thesis using step p c go f False by (auto intro!: exI [of _ "?n + 1"])
      next
        case taken: False
        then have "claim_directory tables (w2, ?db) = ((w', db'), r)"
          using step unfolding go by (simp only: c [unfolded go(2)] prod.case sum.case if_not_P [OF taken] if_False)
        from "1.hyps" [OF False refl refl p [symmetric] go(1) c [symmetric] go(2) taken this] False f show ?thesis
          by (auto split: sum.splits)
      qed
    qed
  qed
qed

text \<open>Installing a file changes no file that existed, other than the one it installs.\<close>

lemma install_ok:
  assumes "install dir name p w = (w', r)"
  shows "(\<forall>q. q \<noteq> dir @ 47 # name \<and> w_files w q \<noteq> None \<longrightarrow> w_files w' q = w_files w q) \<and>
    (\<forall>q. length q \<le> length dir + length name \<longrightarrow> w_files w' q = w_files w q) \<and>
    (case r of Inr _ \<Rightarrow> w_files w' (dir @ 47 # name) = Some (File (seal p))
     | Inl e \<Rightarrow> e \<noteq> WADB_INDETERMINATE \<longrightarrow> w_files w' (dir @ 47 # name) = w_files w (dir @ 47 # name))"
proof -
  let ?path = "dir @ 47 # name"
  obtain w1 q where q: "wadb_path dir name w = (w1, q)" by fastforce
  note pq = path_result [OF q]
  show ?thesis
  proof (cases q)
    case (Inl e)
    then show ?thesis using assms q pq by (auto simp: install_def bind_io_def)
  next
    case (Inr path)
    then have a: "wadb_atomic_file ?path (seal p) w1 = (w', r)" using assms q pq by (simp add: install_def bind_io_def)
    have "length (temp_path ?path k) > length dir + length name" for k by (simp add: temp_path_def)
    moreover have ch: "w_files w q = None \<and> (\<exists>k. q = temp_path ?path k)" if "q \<noteq> ?path" "w_files w' q \<noteq> w_files w q" for q
      using atomic_file_ok [OF a] pq that by auto
    moreover have "q \<noteq> ?path" if "length q \<le> length dir + length name" for q using that by auto
    ultimately have "w_files w' q = w_files w q" if "length q \<le> length dir + length name" for q
      using that by (metis linorder_not_less)
    moreover have "\<forall>q. q \<noteq> ?path \<and> w_files w q \<noteq> None \<longrightarrow> w_files w' q = w_files w q" using ch by metis
    moreover have "case r of Inr _ \<Rightarrow> w_files w' ?path = Some (File (seal p)) | Inl e \<Rightarrow> e \<noteq> WADB_INDETERMINATE \<longrightarrow> w_files w' ?path = w_files w ?path"
      using atomic_file_ok [OF a] pq by (cases r) (simp_all del: Not_eq_iff)
    ultimately show ?thesis by blast
  qed
qed

text \<open>The errors of building a schema.\<close>

lemma schema_build_status: "wadb_schema_build defs = Inl e \<Longrightarrow> e = WADB_INVALID \<or> e = WADB_LIMIT"
proof -
  have c: "check_defs seen ds n = Inl e \<Longrightarrow> e = WADB_INVALID" for seen ds n
    by (induction seen ds n rule: check_defs.induct) (auto simp: Let_def split: if_splits)
  have p: "place_fields ds off nb = Inl e \<Longrightarrow> e = WADB_LIMIT" for ds off nb
    by (induction ds off nb rule: place_fields.induct) (auto simp: Let_def bind_res_def split: if_splits sum.splits)
  show "wadb_schema_build defs = Inl e \<Longrightarrow> e = WADB_INVALID \<or> e = WADB_LIMIT"
    by (auto simp: wadb_schema_build_def bind_res_def Let_def split: if_splits sum.splits dest: c p)
qed

definition catalog_path :: "wadb_db \<Rightarrow> path" where
  "catalog_path db = db_directory db @ 47 # ascii ''catalog''"

text \<open>Every file lies in a directory.\<close>

definition no_orphans :: "world \<Rightarrow> bool" where
  "no_orphans w \<longleftrightarrow> (\<forall>p name. p \<noteq> [] \<and> w_files w (p @ 47 # name) \<noteq> None \<longrightarrow> w_files w p = Some Directory)"

text \<open>The files of \<open>w\<close> other than the catalog are unchanged in \<open>w'\<close>.\<close>

definition files_kept :: "path \<Rightarrow> world \<Rightarrow> world \<Rightarrow> bool" where
  "files_kept path w w' \<longleftrightarrow> (\<forall>q. q \<noteq> path \<and> w_files w q \<noteq> None \<longrightarrow> w_files w' q = w_files w q)"

lemma install_kept:
  assumes "install dir name p w1 = (w2, r)" "files_kept path w w1" "dir @ 47 # name = path \<or> w_files w (dir @ 47 # name) = None"
  shows "files_kept path w w2"
  using install_ok [OF assms(1)] assms(2,3) unfolding files_kept_def by metis

lemma with_call: "bind_io (call WADB_NOMEM) (\<lambda>_. m) w = (w', r) \<Longrightarrow>
  (\<exists>w1. w_files w1 = w_files w \<and> m w1 = (w', r)) \<or> (w_files w' = w_files w \<and> r = Inl WADB_NOMEM)"
  by (auto simp: bind_io_def split: prod.splits sum.splits dest!: call_files)

text \<open>What the steps of creating a table leave in the files.\<close>

definition table_stored :: "wadb_table \<Rightarrow> world \<Rightarrow> bool" where
  "table_stored t w \<longleftrightarrow>
     w_files w (tb_directory t @ 47 # ascii ''schema'') = Some (File (seal (schema_image t))) \<and>
     w_files w (tb_directory t @ 47 # ascii ''manifest'') = Some (File (seal (manifest_image t)))"

lemma save_schema_ok:
  assumes "wadb_save_schema t w1 = (w2, r)" "files_kept path w w1" "no_orphans w" "w_files w (tb_directory t) = None"
    "length path < length (tb_directory t)"
  shows "files_kept path w w2 \<and> w_files w2 path = w_files w1 path \<and>
    (r = Inr () \<longrightarrow> w_files w2 (tb_directory t @ 47 # ascii ''schema'') = Some (File (seal (schema_image t))))"
proof -
  have n: "w_files w (tb_directory t @ 47 # ascii ''schema'') = None" using assms(3-5) unfolding no_orphans_def by (metis list.size(3) not_less_zero option.distinct(1))
  from with_call [OF assms(1) [unfolded wadb_save_schema_def]] show ?thesis
  proof (elim disjE exE conjE)
    fix w0 assume f: "w_files w0 = w_files w1" and i: "install (tb_directory t) (ascii ''schema'') (schema_image t) w0 = (w2, r)"
    have "files_kept path w w0" using assms(2) f by (simp add: files_kept_def)
    then show ?thesis using install_kept [OF i] install_ok [OF i] n f assms(5) by (auto split: sum.splits)
  qed (use assms(2) in \<open>simp add: files_kept_def\<close>)
qed

lemma save_manifest_ok:
  assumes "wadb_save_manifest t w1 = (w2, r)" "files_kept path w w1" "no_orphans w" "w_files w (tb_directory t) = None"
    "length path < length (tb_directory t)" "tb_segments t = []"
    "w_files w1 (tb_directory t @ 47 # ascii ''schema'') = Some (File (seal (schema_image t)))"
  shows "files_kept path w w2 \<and> w_files w2 path = w_files w1 path \<and> (r = Inr () \<longrightarrow> table_stored t w2)"
proof -
  have n: "w_files w (tb_directory t @ 47 # ascii ''manifest'') = None" using assms(3-5) unfolding no_orphans_def by (metis list.size(3) not_less_zero option.distinct(1))
  have m: "bind_io (call WADB_NOMEM) (\<lambda>_. install (tb_directory t) (ascii ''manifest'') (manifest_image t)) w1 = (w2, r)"
    using assms(1,6) by (simp add: wadb_save_manifest_def)
  from with_call [OF m] show ?thesis
  proof (elim disjE exE conjE)
    fix w0 assume f: "w_files w0 = w_files w1" and i: "install (tb_directory t) (ascii ''manifest'') (manifest_image t) w0 = (w2, r)"
    have "files_kept path w w0" using assms(2) f by (simp add: files_kept_def)
    moreover have "tb_directory t @ 47 # ascii ''schema'' \<noteq> tb_directory t @ 47 # ascii ''manifest''" by (simp add: ascii_def)
    ultimately show ?thesis using install_kept [OF i] install_ok [OF i] n f assms(5,7) by (auto simp: table_stored_def split: sum.splits)
  qed (use assms(2) in \<open>simp add: files_kept_def\<close>)
qed

lemma save_catalog_ok:
  assumes "wadb_save_catalog db (Some tid) w1 = (w2, r)" "files_kept (catalog_path db) w w1"
  shows "files_kept (catalog_path db) w w2 \<and> (\<forall>t. table_stored t w1 \<and> length (catalog_path db) < length (tb_directory t) \<longrightarrow> table_stored t w2) \<and>
    (case r of Inr _ \<Rightarrow> w_files w2 (catalog_path db) = Some (File (seal (catalog_image (db_next_table_id db) (map tb_id (db_tables db) @ [tid]))))
     | Inl e \<Rightarrow> e \<noteq> WADB_INDETERMINATE \<longrightarrow> w_files w2 (catalog_path db) = w_files w1 (catalog_path db))"
  using with_call [OF assms(1) [unfolded wadb_save_catalog_def]]
proof (elim disjE exE conjE)
  fix w0 assume f: "w_files w0 = w_files w1"
    and i: "install (db_directory db) (ascii ''catalog'') (catalog_image (db_next_table_id db) (map tb_id (db_tables db) @ (case Some tid of None \<Rightarrow> [] | Some n \<Rightarrow> [n]))) w0 = (w2, r)"
  have "files_kept (catalog_path db) w w0" using assms(2) f by (simp add: files_kept_def)
  then have "files_kept (catalog_path db) w w2" using install_kept [OF i] by (simp add: catalog_path_def)
  moreover have "table_stored t w2" if t: "table_stored t w1" "length (catalog_path db) < length (tb_directory t)" for t
  proof -
    have "tb_directory t @ 47 # x \<noteq> db_directory db @ 47 # ascii ''catalog''" for x
      using t(2) by (auto simp: catalog_path_def dest: arg_cong [of _ _ length])
    then show ?thesis using install_ok [OF i] t(1) f by (simp add: table_stored_def)
  qed
  ultimately show ?thesis using install_ok [OF i] f by (auto simp: catalog_path_def split: sum.splits)
qed (use assms(2) in \<open>simp_all add: files_kept_def table_stored_def\<close>)

lemma parse_catalog_image:
  assumes n: "0 < n" "n \<le> UINT64_MAX" and ids: "\<forall>i\<in>set ids. i \<le> UINT64_MAX" "length ids \<le> m" "m \<le> WADB_MAX_TABLES"
  shows "parse_catalog m (seal (catalog_image n ids)) = Inr (n, ids)"
proof -
  define b where "b = ascii ''WADBCAT1'' @ u32_bytes WADB_FORMAT_VERSION @ u32_bytes 32 @ u32_bytes (length ids) @ zeroes_bytes 4 @ u64_bytes n @
    concat (map u64_bytes ids)"
  define c where "c = wadb_put_u32 (wadb_crc32c b)"
  have se: "seal (catalog_image n ids) = b @ c" using seal_append [of b] by (simp add: catalog_image_def b_def c_def)
  have len: "length (concat (map u64_bytes ids)) = 8 * length ids" for ids by (induction ids) simp_all
  have lb: "length b = 32 + 8 * length ids" "length c = 4" by (simp_all add: b_def c_def len)
  have env: "envelope (b @ c) (ascii ''WADBCAT1'') 36 = Inr ()"
  proof -
    have "take 12 b = ascii ''WADBCAT1'' @ u32_bytes WADB_FORMAT_VERSION" by (simp add: b_def)
    from envelope_sealed [OF this, of 36] show ?thesis using lb by (simp add: seal_append c_def)
  qed
  have cnt: "length ids \<le> UINT32_MAX" using ids by (simp add: WADB_MAX_TABLES_def)
  have g: "unat (wadb_get_u32 (drop 16 (b @ c))) = length ids" "unat (wadb_get_u64 (drop 24 (b @ c))) = n"
    "unat (wadb_get_u32 (drop 12 (b @ c))) = 32" "zeroes (drop 20 (b @ c)) 4"
    using cnt n(2) by (simp_all add: b_def image_simps)
  have el: "unat (wadb_get_u64 (drop (8 * i) (concat (map u64_bytes ids) @ r))) = ids ! i" if "i < length ids" "\<forall>i\<in>set ids. i \<le> UINT64_MAX" for i r ids
    using that
  proof (induction ids arbitrary: i)
    case (Cons x ids)
    then show ?case by (cases i) (simp_all add: image_simps)
  qed simp
  have "map (\<lambda>i. unat (wadb_get_u64 (drop (32 + i * 8) (b @ c)))) [0..<length ids] = ids"
    using el [OF _ ids(1), of _ c] by (intro nth_equalityI) (simp_all add: b_def mult.commute)
  then show ?thesis using env g n(1) ids(2,3) lb
    by (simp add: parse_catalog_def se bind_res_def Let_def del: drop_append)
qed

lemma store_files_ok:
  assumes "bind_io (on_world (wadb_sync_directory tables)) (\<lambda>_. bind_io (on_world (wadb_save_schema t)) (\<lambda>_.
      bind_io (on_world (wadb_save_manifest t)) (\<lambda>_ (w, db). bind_io (on_world (wadb_save_catalog db (Some tid))) (\<lambda>_. return_io t) (w, db))))
      (w2, db2) = ((w', db'), r)"
    and k: "files_kept cat w w2" "w_files w2 cat = w_files w cat" and o: "no_orphans w" and d: "w_files w (tb_directory t) = None"
    and l: "length cat < length (tb_directory t)" "tb_segments t = []" and c: "catalog_path db2 = cat"
  shows "db' = db2 \<and> files_kept cat w w' \<and> (case r of Inr u \<Rightarrow> u = t \<and> table_stored t w' \<and>
        w_files w' cat = Some (File (seal (catalog_image (db_next_table_id db2) (map tb_id (db_tables db2) @ [tid]))))
      | Inl e \<Rightarrow> e \<noteq> WADB_INDETERMINATE \<longrightarrow> w_files w' cat = w_files w cat)"
proof -
  obtain w3 a where a: "wadb_sync_directory tables w2 = (w3, a)" by fastforce
  have f3: "w_files w3 = w_files w2" using sync_directory_files [OF a] by simp
  have k3: "files_kept cat w w3" using k(1) f3 by (simp add: files_kept_def)
  obtain w4 b where b: "wadb_save_schema t w3 = (w4, b)" by fastforce
  note s4 = save_schema_ok [OF b k3 o d l(1)]
  obtain w5 e where e: "wadb_save_manifest t w4 = (w5, e)" by fastforce
  obtain w6 g where g: "wadb_save_catalog db2 (Some tid) w5 = (w6, g)" by fastforce
  consider (sync) x where "a = Inl x" | (schema) x where "a = Inr ()" "b = Inl x" | (manifest) x where "a = Inr ()" "b = Inr ()" "e = Inl x"
    | (catalog) "a = Inr ()" "b = Inr ()" "e = Inr ()" by (cases a; cases b; cases e) auto
  then show ?thesis
  proof cases
    case sync
    then show ?thesis using assms(1) a k3 k(2) f3 by (auto simp: bind_io_def on_world_def)
  next
    case schema
    then show ?thesis using assms(1) a b s4 k(2) f3 by (auto simp: bind_io_def on_world_def)
  next
    case manifest
    have "w_files w4 (tb_directory t @ 47 # ascii ''schema'') = Some (File (seal (schema_image t)))" using s4 manifest by simp
    from save_manifest_ok [OF e _ o d l this] s4 show ?thesis
      using assms(1) a b e manifest k(2) f3 by (auto simp: bind_io_def on_world_def)
  next
    case catalog
    have "w_files w4 (tb_directory t @ 47 # ascii ''schema'') = Some (File (seal (schema_image t)))" using s4 catalog by simp
    from save_manifest_ok [OF e _ o d l this] s4 catalog have s5: "files_kept cat w w5" "w_files w5 cat = w_files w cat" "table_stored t w5"
      using k(2) f3 by simp_all
    show ?thesis using save_catalog_ok [OF g] s5 l c assms(1) a b e g catalog
      by (cases g) (auto simp: bind_io_def on_world_def return_io_def)
  qed
qed

lemma length_decimal20 [simp]: "length (decimal20 n) = 20"
  by (simp add: decimal20_def)

text \<open>The whole of creating a table, under the mutex.\<close>

lemma store_table_ok:
  assumes s: "store_table name schema retention (w, db) = ((w', db'), r)" and o: "no_orphans w" and n: "db_next_table_id db \<le> UINT64_MAX"
  shows "files_kept (catalog_path db) w w' \<and> (\<exists>m. db' = db\<lparr>db_next_table_id := m\<rparr> \<and> db_next_table_id db \<le> m \<and> m \<le> UINT64_MAX) \<and>
    (case r of Inr t \<Rightarrow> \<exists>tid dir. t = new_table name schema retention tid dir \<and> db_next_table_id db \<le> tid \<and> db_next_table_id db' = tid + 1 \<and>
        table_stored t w' \<and>
        w_files w' (catalog_path db) = Some (File (seal (catalog_image (db_next_table_id db') (map tb_id (db_tables db) @ [tid]))))
     | Inl e \<Rightarrow> e \<noteq> WADB_INDETERMINATE \<longrightarrow> w_files w' (catalog_path db) = w_files w (catalog_path db))"
    (is "?kept \<and> ?next \<and> ?res")
proof -
  let ?cat = "catalog_path db"
  obtain w1 p where p: "wadb_path (db_directory db) (ascii ''tables'') w = (w1, p)" by fastforce
  note f1 = path_result [OF p]
  have same: "files_kept ?cat w w2" if "w_files w2 = w_files w" for w2 using that by (simp add: files_kept_def)
  show ?thesis
  proof (cases p)
    case (Inl e)
    then have "w_files w' = w_files w" "db' = db" "r = Inl e" using s p f1 by (auto simp: store_table_def bind_io_def on_world_def)
    then show ?thesis using same n by (auto intro!: exI [of _ "db_next_table_id db"])
  next
    case (Inr tables)
    obtain w2 db2 q where q: "claim_directory tables (w1, db) = ((w2, db2), q)" by (metis surj_pair)
    from claim_directory_ok [OF q n] obtain m where m: "db2 = db\<lparr>db_next_table_id := m\<rparr>" "db_next_table_id db \<le> m" "m \<le> UINT64_MAX"
      and cl: "case q of Inl e \<Rightarrow> w_files w2 = w_files w1 \<and> (e = WADB_LIMIT \<or> e = WADB_NOMEM \<or> e = WADB_IO)
        | Inr (tid, dir) \<Rightarrow> m = tid + 1 \<and> db_next_table_id db \<le> tid \<and> dir = tables @ 47 # decimal20 tid \<and> w_files w1 dir = None \<and>
            w_files w2 = (w_files w1)(dir \<mapsto> Directory)" by auto
    show ?thesis
    proof (cases q)
      case q': (Inl e)
      then have "w_files w' = w_files w" "db' = db2" "r = Inl e" using s p Inr q cl f1 by (auto simp: store_table_def bind_io_def on_world_def)
      then show ?thesis using same m by auto
    next
      case q': (Inr td)
      obtain tid dir where td: "td = (tid, dir)" by fastforce
      define t where "t = new_table name schema retention tid dir"
      have d: "m = tid + 1" "db_next_table_id db \<le> tid" "w_files w dir = None" "w_files w2 = (w_files w)(dir \<mapsto> Directory)" "length ?cat < length dir"
        using cl q' td f1 Inr length_decimal20 [of tid] by (auto simp: catalog_path_def ascii_def simp del: length_decimal20)
      have tt: "tb_directory t = dir" "tb_segments t = []" "tb_id t = tid" by (simp_all add: t_def new_table_def blank_table_def)
      have cp: "catalog_path db2 = ?cat" "db_next_table_id db2 = m" "db_tables db2 = db_tables db" using m(1) by (simp_all add: catalog_path_def)
      have k2: "files_kept ?cat w w2" "w_files w2 ?cat = w_files w ?cat" using d by (auto simp: files_kept_def)
      have rest: "bind_io (on_world (wadb_sync_directory tables)) (\<lambda>_. bind_io (on_world (wadb_save_schema t)) (\<lambda>_.
          bind_io (on_world (wadb_save_manifest t)) (\<lambda>_ (w, db). bind_io (on_world (wadb_save_catalog db (Some tid))) (\<lambda>_. return_io t) (w, db)))) (w2, db2) = ((w', db'), r)"
        using s p Inr q q' td by (simp add: store_table_def bind_io_def on_world_def t_def Let_def)
      have "db' = db2 \<and> files_kept ?cat w w' \<and> (case r of Inr u \<Rightarrow> u = t \<and> table_stored t w' \<and>
            w_files w' ?cat = Some (File (seal (catalog_image m (map tb_id (db_tables db) @ [tid]))))
          | Inl e \<Rightarrow> e \<noteq> WADB_INDETERMINATE \<longrightarrow> w_files w' ?cat = w_files w ?cat)"
        using store_files_ok [OF rest k2 o _ _ _ cp(1)] by (cases r) (simp_all add: tt d cp)
      note fin = this
      have nx: ?next using fin m by (intro exI [of _ m]) simp
      have nb: "db_next_table_id db' = tid + 1" using fin cp(2) d(1) by simp
      have ?res
      proof (cases r)
        case (Inl e)
        then show ?thesis using fin by simp
      next
        case r': (Inr u)
        then show ?thesis using fin d(1,2) nb t_def by (simp, intro exI [of _ tid] exI [of _ dir], simp)
      qed
      then show ?thesis using fin nx by blast
    qed
  qed
qed


lemma create_table_step:
  assumes c: "wadb_create_table have_db name_mem defs retention out (w, db) = ((w', db'), r)"
  obtains (stop) e where "w_files w' = w_files w" "db' = db" "r = Inl e" "e \<noteq> WADB_INDETERMINATE"
    | (store) w1 name schema db1 q where "w_files w1 = w_files w" "name_mem = Some name" "wadb_identifier (Some name)" "int retention \<le> INT64_MAX"
        "wadb_schema_build defs = Inr schema" "\<not> db_read_only db" "length (db_tables db) < op_max_tables (db_options db)"
        "\<not> list_ex (\<lambda>t. strcmp_eq (tb_name t) name) (db_tables db)" "store_table name schema retention (w1, db) = ((w', db1), q)"
        "(case q of Inl e \<Rightarrow> db' = (if e = WADB_INDETERMINATE then db1\<lparr>db_read_only := True\<rparr> else db1) \<and> r = Inl e
          | Inr t \<Rightarrow> db' = db1\<lparr>db_tables := db_tables db1 @ [t]\<rparr> \<and> r = Inr (length (db_tables db1)))"
proof (cases name_mem)
  case None
  then show ?thesis using c stop by (auto simp: wadb_create_table_def)
next
  case (Some name)
  show ?thesis
  proof (cases "\<not> have_db \<or> \<not> out \<or> \<not> wadb_identifier (Some name) \<or> int retention > INT64_MAX")
    case True
    then show ?thesis using c stop Some by (auto simp: wadb_create_table_def)
  next
    case False
    obtain w1 a where a: "call WADB_NOMEM w = (w1, a)" by fastforce
    note fa = call_files [OF a]
    show ?thesis
    proof (cases "\<exists>x. a = Inr x \<and> is_ok (wadb_schema_build defs)")
      case no: False
      then have "w_files w' = w_files w" "db' = db" "\<exists>e. r = Inl e \<and> (a = Inl e \<or> wadb_schema_build defs = Inl e)"
        using c Some False a fa
        by (auto simp: wadb_create_table_def bind_io_def on_world_def from_res_def is_ok_def split: sum.splits)
      then show ?thesis using stop fa schema_build_status by (metis wadb_status.distinct)
    next
      case True
      then obtain schema x where sc: "a = Inr x" "wadb_schema_build defs = Inr schema" by (cases "wadb_schema_build defs") (auto simp: is_ok_def)
      obtain db1 w2 q where q: "store_table name schema retention (w1, db) = ((w2, db1), q)" by (metis surj_pair)
      show ?thesis
      proof (cases "db_read_only db \<or> length (db_tables db) \<ge> op_max_tables (db_options db) \<or> list_ex (\<lambda>t. strcmp_eq (tb_name t) name) (db_tables db)")
        case True
        then show ?thesis using c Some False a fa sc stop
          by (auto simp: wadb_create_table_def bind_io_def on_world_def from_res_def split: if_splits)
      next
        case go: False
        have "w' = w2 \<and> (case q of Inl e \<Rightarrow> db' = (if e = WADB_INDETERMINATE then db1\<lparr>db_read_only := True\<rparr> else db1) \<and> r = Inl e
          | Inr t \<Rightarrow> db' = db1\<lparr>db_tables := db_tables db1 @ [t]\<rparr> \<and> r = Inr (length (db_tables db1)))"
          using c Some False a sc go q by (auto simp: wadb_create_table_def bind_io_def on_world_def from_res_def split: sum.splits)
        then show ?thesis using store [of w1 name schema db1 q] fa Some False sc go q by auto
      qed
    qed
  qed
qed

lemma store_table_db:
  assumes s: "store_table name schema retention (w, db) = ((w', db'), r)" and n: "db_next_table_id db \<le> UINT64_MAX"
  shows "\<exists>m. db' = db\<lparr>db_next_table_id := m\<rparr> \<and> db_next_table_id db \<le> m \<and> m \<le> UINT64_MAX \<and>
    (\<forall>t. r = Inr t \<longrightarrow> (\<exists>tid dir. t = new_table name schema retention tid dir \<and> db_next_table_id db \<le> tid \<and> m = tid + 1))"
proof -
  obtain w1 p where p: "wadb_path (db_directory db) (ascii ''tables'') w = (w1, p)" by fastforce
  show ?thesis
  proof (cases p)
    case (Inl e)
    then have "db' = db" "r = Inl e" using s p by (auto simp: store_table_def bind_io_def on_world_def)
    then show ?thesis using n by (intro exI [of _ "db_next_table_id db"]) simp
  next
    case (Inr tables)
    obtain w2 db2 q where q: "claim_directory tables (w1, db) = ((w2, db2), q)" by (metis surj_pair)
    from claim_directory_ok [OF q n] obtain m where m: "db2 = db\<lparr>db_next_table_id := m\<rparr>" "db_next_table_id db \<le> m" "m \<le> UINT64_MAX"
      "case q of Inl _ \<Rightarrow> True | Inr (tid, dir) \<Rightarrow> m = tid + 1 \<and> db_next_table_id db \<le> tid" by (cases q) (auto split: prod.splits)
    have "db' = db2 \<and> (\<forall>t. r = Inr t \<longrightarrow> (\<exists>tid dir. q = Inr (tid, dir) \<and> t = new_table name schema retention tid dir))"
    proof (cases q)
      case (Inl e)
      then show ?thesis using s p Inr q by (auto simp: store_table_def bind_io_def on_world_def)
    next
      case q': (Inr td)
      obtain tid dir where td: "td = (tid, dir)" by fastforce
      show ?thesis using s p Inr q q' td
        by (cases r) (auto simp: store_table_def bind_io_Inl bind_io_Inr pair_io_ok return_io_def Let_def split: prod.splits)
    qed
    then show ?thesis using m by (intro exI [of _ m]) (auto, blast)
  qed
qed

lemma create_table_catalog_ok:
  assumes c: "wadb_create_table have_db name_mem defs retention out (w, db) = ((w', db'), r)" and ok: "catalog_ok db"
  shows "catalog_ok db' \<and> db_options db' = db_options db"
  using c
proof (cases rule: create_table_step)
  case stop
  then show ?thesis using ok by simp
next
  case (store w1 name schema db1 q)
  obtain m where m: "db1 = db\<lparr>db_next_table_id := m\<rparr>" "db_next_table_id db \<le> m" "m \<le> UINT64_MAX"
    "\<And>t. q = Inr t \<Longrightarrow> \<exists>tid dir. t = new_table name schema retention tid dir \<and> db_next_table_id db \<le> tid \<and> m = tid + 1"
    using store_table_db [OF store(9)] ok by (auto simp: catalog_ok_def)
  have ok1: "catalog_ok db1" using ok m(1-3) by (fastforce simp: catalog_ok_def)
  show ?thesis
  proof (cases q)
    case (Inl e)
    then show ?thesis using store(10) ok1 m(1) by (auto simp: catalog_ok_def)
  next
    case (Inr t)
    obtain tid dir where t: "t = new_table name schema retention tid dir" "db_next_table_id db \<le> tid" "m = tid + 1" using m(4) [OF Inr] by blast
    have "cstr (cstr name) = cstr name" by (simp add: cstr_def takeWhile_takeWhile)
    then have "tb_id t = tid" "cstr (tb_name t) = cstr name" by (simp_all add: t(1) new_table_def blank_table_def)
    moreover have "db' = db1\<lparr>db_tables := db_tables db1 @ [t]\<rparr>" using store(10) Inr by simp
    ultimately show ?thesis using ok m(1,3) t(2,3) store(7,8)
      by (fastforce simp: catalog_ok_def sorted_wrt_append list_ex_iff strcmp_eq_def)
  qed
qed

fun create_tables :: "(bytes option \<times> wadb_field_def carr \<times> nat) list \<Rightarrow> world \<times> wadb_db \<Rightarrow> world \<times> wadb_db" where
  "create_tables [] st = st"
| "create_tables ((name, defs, retention) # calls) st = create_tables calls (fst (wadb_create_table True name defs retention True st))"

lemma create_tables_ok: "catalog_ok db \<Longrightarrow> catalog_ok (snd (create_tables calls (w, db))) \<and> db_options (snd (create_tables calls (w, db))) = db_options db"
proof (induction calls arbitrary: w db)
  case (Cons c calls)
  obtain name defs retention where c: "c = (name, defs, retention)" by (metis surj_pair)
  obtain w1 db1 r where s: "wadb_create_table True name defs retention True (w, db) = ((w1, db1), r)" by (metis surj_pair)
  show ?case using create_table_catalog_ok [OF s Cons.prems] Cons.IH [of db1 w1] by (simp add: c s)
qed simp

section \<open>Properties\<close>


text \<open>
  C8: The tables of an open database. After a database has been opened and any sequence of calls
  has tried to create tables, the identifiers of its tables increase and are below the next one to
  be given out, no two tables have the same name, and there are at most as many as configured.
\<close>

theorem catalog_invariant:
  assumes "wadb_open realpath (Some dir) (Some opts) True w = (w', Inr db)"
  shows "let db' = snd (create_tables calls (w', db)) in
    sorted_wrt (<) (map tb_id (db_tables db')) \<and> (\<forall>t. t \<in> set (db_tables db') \<longrightarrow> tb_id t < db_next_table_id db') \<and>
    distinct (map (\<lambda>t. cstr (tb_name t)) (db_tables db')) \<and> length (db_tables db') \<le> op_max_tables opts"
proof -
  have "catalog_ok db" "db_options db = opts" using open_ok [OF assms] by (simp_all add: opened_def)
  then show ?thesis using create_tables_ok [of db calls w'] by (auto simp: catalog_ok_def Let_def)
qed

section \<open>A new database\<close>

lemma parent_path_append: "dir \<noteq> [] \<Longrightarrow> 47 \<notin> set name \<Longrightarrow> parent_path (dir @ 47 # name) = dir"
proof -
  assume d: "dir \<noteq> []" and n: "47 \<notin> set name"
  have "dropWhile (\<lambda>c. c \<noteq> 47) (rev name @ 47 # rev dir) = 47 # rev dir" using n by (subst dropWhile_append3) auto
  then show ?thesis using d by (simp add: parent_path_def)
qed

lemma install_quiet:
  assumes q: "no_failure w" and n: "dir \<noteq> []" "47 \<notin> set name" "length dir + length name + 2 \<le> 4096"
    and f: "w_files w dir = Some Directory" "w_files w (dir @ 47 # name) \<noteq> Some Directory" "w_files w (temp_path (dir @ 47 # name) 1) = None"
  obtains w' where "install dir name p w = (w', Inr ())" "no_failure w'" "w_files w' = (w_files w)(dir @ 47 # name \<mapsto> File (seal p))"
proof -
  let ?w = "w\<lparr>w_tick := w_tick w + 1\<rparr>" and ?path = "dir @ 47 # name"
  have pp: "parent_path ?path = dir" using n by (simp add: parent_path_append)
  have ne: "dir \<noteq> ?path" "dir \<noteq> temp_path ?path 1" by (auto simp: temp_path_def dest: arg_cong [of _ _ length])
  have "\<exists>w'. wadb_atomic_file ?path (seal p) ?w = (w', Inr ()) \<and> no_failure w' \<and> w_files w' = (w_files ?w)(?path \<mapsto> File (seal p))"
    by (rule atomic_file_quiet) (use q n f pp ne in simp_all)
  then show ?thesis using that q n by (auto simp: install_def bind_io_def path_quiet)
qed


definition fresh_world :: world where
  "fresh_world = \<lparr>w_files = [ascii ''/'' \<mapsto> Directory, ascii ''/d'' \<mapsto> Directory], w_script = (\<lambda>_. Ret 1), w_tick = 0\<rparr>"

lemma mkdir_quiet: "no_failure w \<Longrightarrow> w_files w p = Some Directory \<Longrightarrow> wadb_mkdir p w = (w\<lparr>w_tick := w_tick w + 2\<rparr>, Inr ())"
  "no_failure w \<Longrightarrow> w_files w p = None \<Longrightarrow> wadb_mkdir p w = (set_file p (Some Directory) (w\<lparr>w_tick := w_tick w + 1\<rparr>), Inr ())"
  by (simp_all add: wadb_mkdir_def bind_io_def call_quiet return_io_def)

lemma sync_directory_quiet:
  "no_failure w \<Longrightarrow> w_files w p = Some Directory \<Longrightarrow> wadb_sync_directory p w = (w\<lparr>w_tick := w_tick w + 2\<rparr>, Inr ())"
  by (simp add: wadb_sync_directory_def bind_io_def call_quiet return_io_def)

lemma initialize_quiet: "no_failure w \<Longrightarrow> initialize w = (w\<lparr>w_tick := w_tick w + 4\<rparr>, Inr ())"
  by (simp add: initialize_def bind_io_def call_quiet is_ok_def)

lemma open_catalog_quiet:
  assumes q: "no_failure w" and d: "db_directory db = ascii ''/d''"
    and f: "w_files w = [ascii ''/'' \<mapsto> Directory, ascii ''/d'' \<mapsto> Directory, ascii ''/d/LOCK'' \<mapsto> File [], ascii ''/d/tables'' \<mapsto> Directory]"
  obtains w' where "open_catalog (w, db) = ((w', db), Inr ())" "no_failure w'"
proof -
  let ?w1 = "w\<lparr>w_tick := w_tick w + 2\<rparr>"
  have "load_file (ascii ''/d'') (ascii ''catalog'') (36 + WADB_MAX_TABLES * 8) w = (?w1, Inl WADB_NOT_FOUND)"
    using q f by (simp add: load_file_def bind_io_def path_quiet wadb_read_file_def call_quiet fail_io_def ascii_def)
  then have l: "wadb_load_catalog (w, db) = ((?w1, db), Inl WADB_NOT_FOUND)" using d by (simp add: wadb_load_catalog_def bind_io_def on_world_def)
  let ?w3 = "w\<lparr>w_tick := w_tick w + 5\<rparr>"
  have "\<not> has_entry w' (ascii ''/d/tables'')" if "w_files w' = w_files w" for w' using f that by (auto simp: has_entry_def ascii_def split: if_splits)
  then have e: "directory_empty (ascii ''/d/tables'') (w\<lparr>w_tick := w_tick w + 3\<rparr>) = (?w3, Inr True)"
    using q f by (simp add: directory_empty_def bind_io_def call_quiet sys_def no_failure_def ascii_def)
  let ?im = "catalog_image (db_next_table_id db) (map tb_id (db_tables db) @ (case None of None \<Rightarrow> [] | Some n \<Rightarrow> [n]))"
  obtain w' where i: "install (ascii ''/d'') (ascii ''catalog'') ?im (w\<lparr>w_tick := w_tick w + 6\<rparr>) = (w', Inr ())" "no_failure w'"
    by (rule install_quiet [of "w\<lparr>w_tick := w_tick w + 6\<rparr>" "ascii ''/d''" "ascii ''catalog''"]) (use q f in \<open>auto simp: ascii_def temp_path_def\<close>)
  have "initialize_catalog (?w1, db) = ((w', db), Inr ())"
    using q e i d by (simp add: initialize_catalog_def path_quiet bind_io_def on_world_def wadb_save_catalog_def call_quiet ascii_def eval_nat_numeral)
  then show ?thesis using that i l by (simp add: open_catalog_def)
qed


lemma options_default_valid: "\<not> options_invalid wadb_options_default"
  by (simp add: options_invalid_def wadb_options_default_def WADB_MAX_TABLES_def WADB_MAX_FRAME_BYTES_def SIZEOF_CACHE_ENTRY_def)

lemma tick_set_file [simp]: "w_tick (set_file p n w) = w_tick w" "(set_file p n w)\<lparr>w_tick := k\<rparr> = set_file p n (w\<lparr>w_tick := k\<rparr>)"
  by (simp_all add: set_file_def)

lemma open_lock_quiet: "no_failure w \<Longrightarrow> w_files w p = None \<Longrightarrow> open_lock p w = (set_file p (Some (File [])) (w\<lparr>w_tick := w_tick w + 1\<rparr>), Inr ())"
  by (simp add: open_lock_def bind_io_def call_quiet)

lemma open_database_quiet:
  assumes q: "no_failure w" and d: "db_directory db = ascii ''/d''" and f: "w_files w = [ascii ''/'' \<mapsto> Directory, ascii ''/d'' \<mapsto> Directory]"
  shows "\<exists>w' db'. open_database (w, db) = ((w', db'), Inr ())"
proof -
  let ?db = "db\<lparr>db_locked := True\<rparr>"
  let ?w1 = "w\<lparr>w_tick := w_tick w + 3\<rparr>"
  let ?w2 = "(set_file (ascii ''/d/LOCK'') (Some (File [])) (w\<lparr>w_tick := w_tick w + 5\<rparr>))\<lparr>w_tick := w_tick w + 6\<rparr>"
  let ?w3 = "(set_file (ascii ''/d/tables'') (Some Directory) (?w2\<lparr>w_tick := w_tick w + 8\<rparr>))\<lparr>w_tick := w_tick w + 10\<rparr>"
  have p: "parent_path (ascii ''/d'') = ascii ''/''" by (simp add: parent_path_def ascii_def)
  have "bind_io (call WADB_NOMEM) (\<lambda>_. wadb_sync_directory (ascii ''/'')) w = (?w1, Inr ())"
    using q f by (simp add: bind_io_def call_quiet sync_directory_quiet ascii_def)
  moreover have "acquire_lock (?w1, db) = ((?w2, ?db), Inr ())"
    using q f d by (simp add: acquire_lock_def bind_io_def on_world_def path_quiet open_lock_quiet call_quiet modify_def ascii_def)
  moreover have "bind_io (wadb_path (ascii ''/d'') (ascii ''tables'')) (\<lambda>path. bind_io (wadb_mkdir path) (\<lambda>_. wadb_sync_directory (ascii ''/d''))) ?w2 = (?w3, Inr ())"
    using q f by (simp add: bind_io_def path_quiet mkdir_quiet sync_directory_quiet ascii_def)
  moreover have "no_failure ?w3" "w_files ?w3 = [ascii ''/'' \<mapsto> Directory, ascii ''/d'' \<mapsto> Directory, ascii ''/d/LOCK'' \<mapsto> File [], ascii ''/d/tables'' \<mapsto> Directory]"
    using q f by (simp_all add: fun_upd_twist ascii_def)
  then obtain w4 where "open_catalog (?w3, ?db) = ((w4, ?db), Inr ())" "no_failure w4" using open_catalog_quiet [of ?w3 ?db] d by auto
  moreover from this(2) have "wadb_writer_start (w4, ?db) = ((w4\<lparr>w_tick := w_tick w4 + 2\<rparr>, ?db\<lparr>db_writer_started := True\<rparr>), Inr ())"
    by (simp add: wadb_writer_start_def bind_io_def on_world_def call_quiet modify_def)
  ultimately show ?thesis unfolding open_database_def using d p
    by (auto simp: bind_io_def on_world_def split: prod.splits sum.splits)
qed


lemma open_quiet:
  "\<exists>w' db. wadb_open (\<lambda>p. p) (Some (ascii ''/d'')) (Some wadb_options_default) True fresh_world = (w', Inr db)"
proof -
  let ?w = "fresh_world\<lparr>w_tick := 8\<rparr>" and ?db = "new_database (ascii ''/d'') wadb_options_default 1"
  have q: "no_failure fresh_world" by (simp add: no_failure_def fresh_world_def)
  have f: "w_files fresh_world = [ascii ''/'' \<mapsto> Directory, ascii ''/d'' \<mapsto> Directory]" "w_tick fresh_world = 0" by (simp_all add: fresh_world_def)
  have c: "clock_ns (fresh_world\<lparr>w_tick := 3\<rparr>) = (fresh_world\<lparr>w_tick := 4\<rparr>, 1)"
    by (simp add: clock_ns_def sys_def fresh_world_def wadb_monotonic_ns_def mul64_def add64_exact)
  obtain w' db where o: "open_database (?w, ?db) = ((w', db), Inr ())" using open_database_quiet [of ?w ?db] q f by (auto simp: new_database_def)
  have "bind_io (on_world initialize) (\<lambda>_. open_database) (fresh_world\<lparr>w_tick := 4\<rparr>, ?db) = ((w', db), Inr ())"
    using o q by (simp add: bind_io_def on_world_def initialize_quiet)
  then show ?thesis using q f c options_default_valid
    by (simp add: wadb_open_def bind_io_def mkdir_quiet call_quiet ascii_def numeral_3_eq_3)
qed

theorem catalog_invariant_witness:
  "\<exists>w db. wadb_open (\<lambda>p. p) (Some (ascii ''/d'')) (Some wadb_options_default) True fresh_world = (w, Inr db) \<and>
     length (db_tables (snd (create_tables [(Some (ascii ''visits''), CMem [], 0)] (w, db)))) \<le> 1024"
proof -
  obtain w db where o: "wadb_open (\<lambda>p. p) (Some (ascii ''/d'')) (Some wadb_options_default) True fresh_world = (w, Inr db)" using open_quiet by blast
  from catalog_invariant [OF o, of "[(Some (ascii ''visits''), CMem [], 0)]"] o show ?thesis
    by (auto simp: Let_def wadb_options_default_def WADB_MAX_TABLES_def)
qed

definition tables_world :: world where
  "tables_world =
     \<lparr>w_files = [ascii ''/'' \<mapsto> Directory, ascii ''/d'' \<mapsto> Directory, ascii ''/d/tables'' \<mapsto> Directory], w_script = (\<lambda>_. Ret 1), w_tick = 0\<rparr>"

lemma tables_world_tree: "no_orphans tables_world"
  by (auto simp: no_orphans_def tables_world_def ascii_def append_eq_Cons_conv Cons_eq_append_conv split: if_splits)

lemma save_quiet:
  assumes q: "no_failure w" and n: "dir \<noteq> []" "47 \<notin> set name" "length dir + length name + 2 \<le> 4096"
    and f: "w_files w dir = Some Directory" "w_files w (dir @ 47 # name) \<noteq> Some Directory" "w_files w (temp_path (dir @ 47 # name) 1) = None"
  obtains w' where "bind_io (call WADB_NOMEM) (\<lambda>_. install dir name p) w = (w', Inr ())" "no_failure w'"
    "w_files w' = (w_files w)(dir @ 47 # name \<mapsto> File (seal p))"
proof -
  let ?w = "w\<lparr>w_tick := w_tick w + 1\<rparr>"
  obtain w' where "install dir name p ?w = (w', Inr ())" "no_failure w'" "w_files w' = (w_files ?w)(dir @ 47 # name \<mapsto> File (seal p))"
    by (rule install_quiet [of ?w dir name]) (use assms in simp_all)
  then show ?thesis using that q by (simp add: bind_io_def call_quiet)
qed


lemma claim_quiet:
  assumes q: "no_failure w" and n: "db_next_table_id db < UINT64_MAX" and f: "w_files w (tables @ 47 # decimal20 (db_next_table_id db)) = None"
    and l: "length tables + 22 \<le> 4096"
  shows "claim_directory tables (w, db) =
    ((set_file (tables @ 47 # decimal20 (db_next_table_id db)) (Some Directory) (w\<lparr>w_tick := w_tick w + 2\<rparr>),
      db\<lparr>db_next_table_id := db_next_table_id db + 1\<rparr>), Inr (db_next_table_id db, tables @ 47 # decimal20 (db_next_table_id db)))"
  using assms by (simp add: claim_directory.simps [of tables w db] wadb_id_path_def path_quiet call_quiet Let_def)

lemma store_quiet:
  assumes d: "db_directory db = ascii ''/d''" "db_next_table_id db = 1"
  shows "\<exists>w' t. store_table name schema 0 (tables_world\<lparr>w_tick := 1\<rparr>, db) = ((w', db\<lparr>db_next_table_id := 2\<rparr>), Inr t)"
proof -
  let ?tables = "ascii ''/d/tables''"
  define dir where "dir = ?tables @ 47 # decimal20 1"
  define t where "t = new_table name schema 0 1 dir"
  define w1 where "w1 = set_file dir (Some Directory) (tables_world\<lparr>w_tick := 6\<rparr>)"
  let ?db = "db\<lparr>db_next_table_id := 2\<rparr>"
  have ld: "length dir = 30" by (simp add: dir_def ascii_def)
  have nd: "dir \<noteq> []" "dir \<noteq> ascii ''/d''" "dir \<noteq> ascii ''/d/tables''" using ld by (auto simp: ascii_def)
  have q: "no_failure tables_world" and f: "w_files tables_world = [ascii ''/'' \<mapsto> Directory, ascii ''/d'' \<mapsto> Directory, ?tables \<mapsto> Directory]"
    by (simp_all add: tables_world_def no_failure_def)
  have f1: "no_failure w1" "w_files w1 = (w_files tables_world)(dir \<mapsto> Directory)" using q by (simp_all add: w1_def)
  have none: "w_files w1 (dir @ 47 # x) = None" "w_files w1 (temp_path (dir @ 47 # x) 1) = None" for x
    using ld by (auto simp: f1 f ascii_def temp_path_def dest!: arg_cong [of _ _ length])
  have sl: "dir @ 47 # ascii ''schema'' \<noteq> dir @ 47 # ascii ''manifest''" "dir @ 47 # ascii ''schema'' \<noteq> temp_path (dir @ 47 # ascii ''manifest'') 1"
      "47 \<notin> set (ascii ''schema'')" "47 \<notin> set (ascii ''manifest'')" "length (ascii ''schema'') = 6" "length (ascii ''manifest'') = 8"
    by (simp_all add: ascii_def temp_path_def)
  have tt: "tb_directory t = dir" "tb_segments t = []" by (simp_all add: t_def new_table_def blank_table_def)
  obtain w2 where s2: "wadb_save_schema t w1 = (w2, Inr ())" "no_failure w2" "w_files w2 = (w_files w1)(dir @ 47 # ascii ''schema'' \<mapsto> File (seal (schema_image t)))"
    unfolding wadb_save_schema_def tt by (rule save_quiet [of w1 dir "ascii ''schema''"]) (use f1 nd ld none sl in simp_all)
  have mf: "wadb_save_manifest t = bind_io (call WADB_NOMEM) (\<lambda>_. install dir (ascii ''manifest'') (manifest_image t))"
    by (simp add: wadb_save_manifest_def tt)
  obtain w3 where s3: "wadb_save_manifest t w2 = (w3, Inr ())" "no_failure w3"
    "w_files w3 = (w_files w2)(dir @ 47 # ascii ''manifest'' \<mapsto> File (seal (manifest_image t)))"
    unfolding mf by (rule save_quiet [of w2 dir "ascii ''manifest''"]) (use s2 f1 nd ld none sl in simp_all)
  have f3: "w_files w3 (ascii ''/d'') = Some Directory" "w_files w3 (ascii ''/d/catalog'') = None" "w_files w3 (temp_path (ascii ''/d/catalog'') 1) = None"
    using ld nd by (auto simp: s3 s2 f1 f ascii_def temp_path_def dest!: arg_cong [of _ _ length])
  obtain w4 where s4: "wadb_save_catalog ?db (Some 1) w3 = (w4, Inr ())"
    unfolding wadb_save_catalog_def by (rule save_quiet [of w3 "ascii ''/d''" "ascii ''catalog''"]) (use s3 f3 d in \<open>auto simp: ascii_def\<close>)
  have c: "claim_directory ?tables (tables_world\<lparr>w_tick := 2\<rparr>, db) = ((set_file dir (Some Directory) (tables_world\<lparr>w_tick := 4\<rparr>), ?db), Inr (1, dir))"
    using claim_quiet [of "tables_world\<lparr>w_tick := 2\<rparr>" db ?tables] q d f ld nd by (auto simp: dir_def ascii_def numeral_2_eq_2)
  have y: "wadb_sync_directory ?tables (set_file dir (Some Directory) (tables_world\<lparr>w_tick := 4\<rparr>)) = (w1, Inr ())"
    using q f nd by (simp add: sync_directory_quiet w1_def)
  have p: "wadb_path (ascii ''/d'') (ascii ''tables'') (tables_world\<lparr>w_tick := 1\<rparr>) = (tables_world\<lparr>w_tick := 2\<rparr>, Inr ?tables)"
    using q by (simp add: path_quiet ascii_def)
  have "new_table name schema 0 (Suc 0) dir = t" by (simp add: t_def)
  then show ?thesis using p c y s2(1) s3(1) s4 d
    by (simp add: store_table_def bind_io_def on_world_def return_io_def Let_def)
qed

lemma new_database_simps:
  "db_directory (new_database d opts b) = d" "db_next_table_id (new_database d opts b) = 1" "db_tables (new_database d opts b) = []"
  "db_options (new_database d opts b) = opts" "db_read_only (new_database d opts b) = False"
  by (simp_all add: new_database_def)



text \<open>A directory that cannot be read is taken for an empty one, so a missing catalog is created over existing tables.\<close>

lemma unreadable_looks_empty:
  "\<exists>w w'. has_entry w (ascii ''/d/tables'') \<and> directory_empty (ascii ''/d/tables'') w = (w', Inr True)"
proof -
  let ?w = "\<lparr>w_files = [ascii ''/d/tables'' \<mapsto> Directory, ascii ''/d/tables/1'' \<mapsto> Directory], w_script = (\<lambda>i. if i = 1 then Fail else Ret 1), w_tick = 0\<rparr>"
  have "has_entry ?w (ascii ''/d/tables'')" by (auto simp: has_entry_def ascii_def intro!: exI [of _ "ascii ''1''"])
  moreover have "\<exists>w'. directory_empty (ascii ''/d/tables'') ?w = (w', Inr True)"
    by (simp add: directory_empty_def bind_io_def call_def sys_def ascii_def)
  ultimately show ?thesis by blast
qed

end
