(* ===== verification/Wadb_Auth.thy ===== *)
theory Wadb_Auth
  imports Wadb_Files
begin

unbundle bit_operations_syntax

text \<open>
  The model of \<^verbatim>\<open>src/server/auth.c\<close>: the administrator token, sessions and the login rate limit.

  The bytes of \<^verbatim>\<open>/dev/urandom\<close> are an argument \<open>entropy\<close>: the bytes that the call at a position of
  the script would deliver. The owner and the mode of a file are not in the world; \<open>owner_only\<close>
  tells whether a path belongs to the user and is closed to others. Every operation runs under
  the mutex of the structure, so the operations are atomic steps.
\<close>

section \<open>Definitions\<close>

definition WADB_SESSION_LIMIT :: nat where "WADB_SESSION_LIMIT = 32"

record wadb_credentials =
  cr_session :: bytes
  cr_csrf :: bytes
  cr_expires_ns :: nat

record wadb_auth =
  au_token :: bytes
  au_sessions :: "wadb_credentials list"
  au_login_window :: nat
  au_login_attempts :: nat

definition no_credentials :: wadb_credentials where
  "no_credentials = \<lparr>cr_session = [], cr_csrf = [], cr_expires_ns = 0\<rparr>"

subsection \<open>Random secrets\<close>

function random_loop :: "(nat \<Rightarrow> nat \<Rightarrow> byte) \<Rightarrow> nat \<Rightarrow> bytes \<Rightarrow> world \<Rightarrow> world \<times> bytes option" where
  "random_loop entropy n buffer w =
     (if length buffer < n then
        (case sys w of
           (w', Fail) \<Rightarrow> (w', None)
         | (w', Ret k) \<Rightarrow>
             if k = 0 then (w', None)
             else random_loop entropy n (buffer @ map (entropy (w_tick w)) [0..<min k (n - length buffer)]) w')
      else (w, Some buffer))"
  by pat_completeness auto
termination by (relation "measure (\<lambda>(entropy, n, buffer, w). n - length buffer)") auto

declare random_loop.simps [simp del]

definition hex_digit :: "byte \<Rightarrow> byte" where
  "hex_digit d = ascii ''0123456789abcdef'' ! unat d"

definition hex_text :: "bytes \<Rightarrow> bytes" where
  "hex_text p = concat (map (\<lambda>b. [hex_digit (drop_bit 4 b), hex_digit (b AND 15)]) p)"

definition wadb_random_hex :: "(nat \<Rightarrow> nat \<Rightarrow> byte) \<Rightarrow> bool \<Rightarrow> nat \<Rightarrow> world \<Rightarrow> world \<times> bytes option" where
  "wadb_random_hex entropy out n w =
     (if \<not> out \<or> n > 64 then (w, None)
      else
        (case call WADB_IO w of
           (w1, Inl _) \<Rightarrow> (w1, None)
         | (w1, Inr _) \<Rightarrow>
             (case random_loop entropy n [] w1 of (w2, p) \<Rightarrow> (w2, map_option hex_text p))))"

text \<open>All 64 characters are compared, whatever the first difference is.\<close>

definition secret_equal :: "bytes option \<Rightarrow> bytes option \<Rightarrow> bool" where
  "secret_equal a b =
     (case (a, b) of
        (Some x, Some y) \<Rightarrow>
          if length (cstr x) \<noteq> 64 \<or> length (cstr y) \<noteq> 64 then False
          else foldl (\<lambda>difference i. difference OR (x ! i XOR y ! i)) 0 [0..<64] = 0
      | _ \<Rightarrow> False)"

subsection \<open>The token file\<close>

function token_write :: "path \<Rightarrow> bytes \<Rightarrow> nat \<Rightarrow> (world, unit) io" where
  "token_write path text done w =
     (if done < length text then
        (case sys w of
           (w', Fail) \<Rightarrow> (w', Inl WADB_IO)
         | (w', Ret k) \<Rightarrow>
             if k = 0 then (w', Inl WADB_IO)
             else (let n = min k (length text - done) in
                   token_write path text (done + n) (append_file path (take n (drop done text)) w')))
      else (w, Inr ()))"
  by pat_completeness auto
termination by (relation "measure (\<lambda>(path, text, done, w). length text - done)") auto

declare token_write.simps [simp del]

definition create_token :: "(nat \<Rightarrow> nat \<Rightarrow> byte) \<Rightarrow> path \<Rightarrow> (world, bytes) io" where
  "create_token entropy path w =
     (case wadb_random_hex entropy True 32 w of
        (w1, None) \<Rightarrow> (w1, Inl WADB_IO)
      | (w1, Some token) \<Rightarrow>
          bind_io (call WADB_IO) (\<lambda>_ w.
            if w_files w path \<noteq> None then (w, Inl WADB_IO)
            else
              bind_io (token_write path (token @ [10]) 0) (\<lambda>_.
                bind_io (call WADB_IO) (\<lambda>_. return_io token)) (set_file path (Some (File [])) w)) w1)"

definition lower_hex :: "byte \<Rightarrow> bool" where
  "lower_hex c \<longleftrightarrow> (48 \<le> c \<and> c \<le> 57) \<or> (97 \<le> c \<and> c \<le> 102)"

definition parse_token :: "bytes \<Rightarrow> bytes res" where
  "parse_token text =
     (if \<not> list_all lower_hex (take 64 text) then Inl WADB_INVALID
      else if length text = 65 \<and> text ! 64 \<noteq> 10 then Inl WADB_INVALID
      else Inr (take 64 text))"

definition load_token :: "(nat \<Rightarrow> nat \<Rightarrow> byte) \<Rightarrow> (path \<Rightarrow> bool) \<Rightarrow> path \<Rightarrow> (world, bytes) io" where
  "load_token entropy owner_only path w0 =
     (case w_files w0 path of
        None \<Rightarrow> bind_io (call WADB_IO) (\<lambda>_. create_token entropy path) w0
      | Some n \<Rightarrow>
          bind_io (call WADB_IO) (\<lambda>_. bind_io (call WADB_INVALID) (\<lambda>_.
            case n of
              File c \<Rightarrow>
                if \<not> owner_only path \<or> (length c \<noteq> 64 \<and> length c \<noteq> 65) then fail_io WADB_INVALID
                else (\<lambda>w.
                  case pread_loop path (length c) 0 [] w of
                    (w', Inl _) \<Rightarrow> (w', Inl WADB_IO)
                  | (w', Inr text) \<Rightarrow> (w', parse_token text))
            | _ \<Rightarrow> fail_io WADB_INVALID)) w0)"

definition wadb_auth_open ::
  "(nat \<Rightarrow> nat \<Rightarrow> byte) \<Rightarrow> (path \<Rightarrow> bool) \<Rightarrow> path option \<Rightarrow> bool \<Rightarrow> (world, wadb_auth) io" where
  "wadb_auth_open entropy owner_only path out =
     (case path of
        None \<Rightarrow> fail_io WADB_INVALID
      | Some p \<Rightarrow>
          if \<not> out then fail_io WADB_INVALID
          else
            bind_io (call WADB_NOMEM) (\<lambda>_.
              bind_io (load_token entropy owner_only p) (\<lambda>token.
                bind_io (call WADB_IO) (\<lambda>_.
                  return_io \<lparr>au_token = token, au_sessions = replicate WADB_SESSION_LIMIT no_credentials,
                             au_login_window = 0, au_login_attempts = 0\<rparr>))))"

subsection \<open>Sessions\<close>

text \<open>The rate limit: ten attempts in a window of one second.\<close>

definition login_gate :: "nat \<Rightarrow> wadb_auth \<Rightarrow> wadb_auth \<times> bool" where
  "login_gate now a =
     (let a = (if sub64 now (au_login_window a) \<ge> 1000000000 then a\<lparr>au_login_window := now, au_login_attempts := 0\<rparr> else a);
          attempts = add32 (au_login_attempts a) 1
      in (a\<lparr>au_login_attempts := attempts\<rparr>, \<not> attempts > 10))"

text \<open>The session that expires first is replaced.\<close>

definition oldest_slot :: "wadb_credentials list \<Rightarrow> nat" where
  "oldest_slot cs = foldl (\<lambda>slot i. if cr_expires_ns (cs ! i) < cr_expires_ns (cs ! slot) then i else slot) 0 [1..<WADB_SESSION_LIMIT]"

definition wadb_auth_login ::
  "(nat \<Rightarrow> nat \<Rightarrow> byte) \<Rightarrow> bytes option \<Rightarrow> nat \<Rightarrow> (world \<times> wadb_auth, wadb_credentials) io" where
  "wadb_auth_login entropy token n = (\<lambda>(w, a0).
     case clock_ns w of (w1, now) \<Rightarrow>
       (case login_gate now a0 of (a, allowed) \<Rightarrow>
          if \<not> allowed then ((w1, a), Inl WADB_BACKPRESSURE)
          else if token = None \<or> n \<noteq> 64 \<or> \<not> secret_equal (Some (au_token a)) token then ((w1, a), Inl WADB_INVALID)
          else
            (case wadb_random_hex entropy True 32 w1 of
               (w2, None) \<Rightarrow> ((w2, a), Inl WADB_IO)
             | (w2, Some session) \<Rightarrow>
                 (case wadb_random_hex entropy True 32 w2 of
                    (w3, None) \<Rightarrow> ((w3, a), Inl WADB_IO)
                  | (w3, Some csrf) \<Rightarrow>
                      (let c = \<lparr>cr_session = session, cr_csrf = csrf, cr_expires_ns = add64 now 43200000000000\<rparr> in
                       ((w3, a\<lparr>au_sessions := (au_sessions a)[oldest_slot (au_sessions a) := c]\<rparr>), Inr c))))))"

definition wadb_auth_bearer :: "wadb_auth \<Rightarrow> bytes option \<Rightarrow> bool" where
  "wadb_auth_bearer a header =
     (case header of
        None \<Rightarrow> False
      | Some h \<Rightarrow> take 7 (cstr h) = ascii ''Bearer '' \<and> secret_equal (Some (au_token a)) (Some (drop 7 h)))"

definition session_matches :: "nat \<Rightarrow> bytes option \<Rightarrow> bytes option \<Rightarrow> bool \<Rightarrow> wadb_credentials \<Rightarrow> bool" where
  "session_matches now session csrf mutation c \<longleftrightarrow>
     cr_expires_ns c > now \<and> secret_equal (Some (cr_session c)) session \<and> (\<not> mutation \<or> secret_equal (Some (cr_csrf c)) csrf)"

definition wadb_auth_session ::
  "bytes option \<Rightarrow> bytes option \<Rightarrow> bool \<Rightarrow> world \<times> wadb_auth \<Rightarrow> (world \<times> wadb_auth) \<times> wadb_credentials option" where
  "wadb_auth_session session csrf mutation = (\<lambda>(w, a).
     case clock_ns w of (w1, now) \<Rightarrow> ((w1, a), find (session_matches now session csrf mutation) (au_sessions a)))"

definition wadb_auth_logout :: "bytes option \<Rightarrow> wadb_auth \<Rightarrow> wadb_auth" where
  "wadb_auth_logout session a =
     a\<lparr>au_sessions := map (\<lambda>c. if secret_equal (Some (cr_session c)) session then no_credentials else c) (au_sessions a)\<rparr>"

section \<open>Secrets\<close>

lemma or_fold_zero:
  fixes d :: byte
  shows "foldl (\<lambda>d i. d OR f i) d is = 0 \<longleftrightarrow> d = 0 \<and> (\<forall>i\<in>set is. f i = 0)"
  by (induction "is" arbitrary: d) (auto simp: or_eq_0_iff)

lemma xor_zero_iff: "x XOR y = 0 \<longleftrightarrow> x = y" for x y :: byte
  by (auto simp: bit_eq_iff bit_xor_iff)

lemma cstr_nth: "i < length (cstr x) \<Longrightarrow> x ! i = cstr x ! i"
  by (simp add: cstr_def takeWhile_nth)

lemma differences:
  assumes "length (cstr x) = n" "length (cstr y) = n"
  shows "(\<forall>i\<in>set [0..<n]. x ! i XOR y ! i = 0) \<longleftrightarrow> cstr x = cstr y"
proof -
  have e: "cstr x ! i = x ! i" "cstr y ! i = y ! i" if "i < n" for i using that assms cstr_nth [of i x] cstr_nth [of i y] by simp_all
  have "(\<forall>i\<in>set [0..<n]. x ! i XOR y ! i = 0) \<longleftrightarrow> (\<forall>i<n. x ! i = y ! i)" by (simp add: xor_zero_iff Ball_def)
  also have "\<dots> \<longleftrightarrow> (\<forall>i<n. cstr x ! i = cstr y ! i)" by (simp add: e)
  also have "\<dots> \<longleftrightarrow> cstr x = cstr y" using list_eq_iff_nth_eq [of "cstr x" "cstr y"] assms by simp
  finally show ?thesis .
qed

lemma secret_equal_iff: "secret_equal (Some x) (Some y) \<longleftrightarrow> length (cstr x) = 64 \<and> cstr x = cstr y"
proof (cases "length (cstr x) = 64 \<and> length (cstr y) = 64")
  case True
  then show ?thesis using differences [of x 64 y] unfolding secret_equal_def prod.case option.case or_fold_zero by (simp only: simp_thms if_False)
qed (auto simp: secret_equal_def)

lemma secret_equalD: "secret_equal (Some x) s \<Longrightarrow> \<exists>y. s = Some y \<and> cstr x = cstr y"
proof (cases s)
  case None
  then show "secret_equal (Some x) s \<Longrightarrow> ?thesis" by (simp add: secret_equal_def)
qed (simp add: secret_equal_iff)

section \<open>Histories\<close>

datatype auth_call =
    Login "bytes option" nat
  | Check "bytes option" "bytes option" bool
  | Logout "bytes option"

text \<open>
  A history of calls, with the credentials that were granted in it and have not been revoked, each
  with the token that was presented for it.
\<close>

fun auth_run ::
  "(nat \<Rightarrow> nat \<Rightarrow> byte) \<Rightarrow> auth_call list \<Rightarrow> (world \<times> wadb_auth) \<times> (bytes \<times> wadb_credentials) list \<Rightarrow>
   (world \<times> wadb_auth) \<times> (bytes \<times> wadb_credentials) list" where
  "auth_run entropy [] s = s"
| "auth_run entropy (Login token n # calls) (st, granted) =
     (case wadb_auth_login entropy token n st of
        (st', Inl _) \<Rightarrow> auth_run entropy calls (st', granted)
      | (st', Inr c) \<Rightarrow> auth_run entropy calls (st', (the token, c) # granted))"
| "auth_run entropy (Check session csrf mutation # calls) (st, granted) =
     auth_run entropy calls (fst (wadb_auth_session session csrf mutation st), granted)"
| "auth_run entropy (Logout session # calls) ((w, a), granted) =
     auth_run entropy calls ((w, wadb_auth_logout session a), filter (\<lambda>(t, c). \<not> secret_equal (Some (cr_session c)) session) granted)"

definition sessions_ok :: "bytes \<Rightarrow> wadb_auth \<Rightarrow> (bytes \<times> wadb_credentials) list \<Rightarrow> bool" where
  "sessions_ok token a granted \<longleftrightarrow>
     au_token a = token \<and> length (au_sessions a) = WADB_SESSION_LIMIT \<and> (\<forall>(t, c)\<in>set granted. cstr t = cstr token) \<and>
     (\<forall>c\<in>set (au_sessions a). c = no_credentials \<or> c \<in> snd ` set granted)"

lemma login_gate_keeps: "login_gate now a = (a', b) \<Longrightarrow> au_token a' = au_token a \<and> au_sessions a' = au_sessions a"
  by (auto simp: login_gate_def Let_def split: if_splits)

lemma login_ok:
  assumes "wadb_auth_login entropy token n (w, a) = ((w', a'), r)" "sessions_ok key a granted"
  shows "case r of Inl e \<Rightarrow> sessions_ok key a' granted | Inr c \<Rightarrow> sessions_ok key a' ((the token, c) # granted)"
proof -
  obtain w1 now where c: "clock_ns w = (w1, now)" by fastforce
  obtain a1 b where g: "login_gate now a = (a1, b)" by fastforce
  have ok: "sessions_ok key a1 granted" using login_gate_keeps [OF g] assms(2) by (simp add: sessions_ok_def)
  show ?thesis
  proof (cases r)
    case (Inl e)
    then have "a' = a1" using assms(1) c g by (auto simp: wadb_auth_login_def Let_def split: if_splits prod.splits option.splits)
    then show ?thesis using ok Inl by simp
  next
    case (Inr cr)
    then have l: "secret_equal (Some (au_token a1)) token" "a' = a1\<lparr>au_sessions := (au_sessions a1)[oldest_slot (au_sessions a1) := cr]\<rparr>"
      using assms(1) c g by (auto simp: wadb_auth_login_def Let_def split: if_splits prod.splits option.splits)
    then have "cstr (the token) = cstr key" using ok secret_equalD [OF l(1)] by (auto simp: sessions_ok_def)
    moreover have "set (au_sessions a') \<subseteq> insert cr (set (au_sessions a1))" using l(2) set_update_subset_insert by simp
    ultimately show ?thesis using ok l(2) Inr by (fastforce simp: sessions_ok_def)
  qed
qed

lemma logout_ok:
  "sessions_ok key a granted \<Longrightarrow>
     sessions_ok key (wadb_auth_logout session a) (filter (\<lambda>(t, c). \<not> secret_equal (Some (cr_session c)) session) granted)"
  by (force simp: sessions_ok_def wadb_auth_logout_def image_iff)

lemma auth_run_ok:
  "auth_run entropy calls ((w, a), granted) = ((w', a'), granted') \<Longrightarrow> sessions_ok key a granted \<Longrightarrow> sessions_ok key a' granted'"
proof (induction calls arbitrary: w a granted)
  case (Cons call calls)
  show ?case
  proof (cases call)
    case (Login token n)
    obtain w1 a1 r where l: "wadb_auth_login entropy token n (w, a) = ((w1, a1), r)" by (metis surj_pair)
    show ?thesis using login_ok [OF l Cons.prems(2)] Cons.IH Cons.prems(1) l by (cases r) (auto simp: Login)
  next
    case (Check session csrf mutation)
    obtain w1 where "fst (wadb_auth_session session csrf mutation (w, a)) = (w1, a)" by (cases "clock_ns w") (simp add: wadb_auth_session_def)
    then show ?thesis using Cons by (simp add: Check)
  next
    case (Logout session)
    then show ?thesis using Cons logout_ok by simp
  qed
qed simp

section \<open>The rate limit\<close>

text \<open>The number of attempts that pass the limit, for attempts at the given times.\<close>

fun admitted :: "nat list \<Rightarrow> wadb_auth \<Rightarrow> nat" where
  "admitted [] a = 0"
| "admitted (now # ts) a = (case login_gate now a of (a', ok) \<Rightarrow> (if ok then 1 else 0) + admitted ts a')"

lemma sorted_last: "sorted ts \<Longrightarrow> t \<in> set ts \<Longrightarrow> t \<le> last ts" for ts :: "nat list"
  by (induction ts) auto

lemma gate_inside:
  assumes "au_login_window a \<le> now" "now < au_login_window a + 1000000000" "now \<le> UINT64_MAX" "au_login_attempts a < UINT32_MAX"
  shows "login_gate now a = (a\<lparr>au_login_attempts := au_login_attempts a + 1\<rparr>, au_login_attempts a < 10)"
  using assms by (auto simp: login_gate_def sub64_exact add32_exact Let_def)

lemma gate_reset:
  assumes "au_login_window a + 1000000000 \<le> now" "now \<le> UINT64_MAX"
  shows "login_gate now a = (a\<lparr>au_login_window := now, au_login_attempts := 1\<rparr>, True)"
proof -
  have "1000000000 \<le> sub64 now (au_login_window a)" using assms by (simp add: sub64_exact)
  then show ?thesis by (simp add: login_gate_def add32_exact Let_def)
qed

lemma admitted_inside:
  "\<forall>now\<in>set ts. au_login_window a \<le> now \<and> now < au_login_window a + 1000000000 \<and> now \<le> UINT64_MAX \<Longrightarrow>
     au_login_attempts a + length ts \<le> UINT32_MAX \<Longrightarrow> admitted ts a \<le> 10 - au_login_attempts a"
proof (induction ts arbitrary: a)
  case (Cons now ts)
  let ?a = "a\<lparr>au_login_attempts := au_login_attempts a + 1\<rparr>"
  have "login_gate now a = (?a, au_login_attempts a < 10)" using Cons.prems by (intro gate_inside) auto
  moreover have "admitted ts ?a \<le> 10 - au_login_attempts ?a" using Cons.prems by (intro Cons.IH) auto
  ultimately show ?case by auto
qed simp

lemma admitted_second:
  assumes "sorted ts" "\<forall>now\<in>set ts. au_login_window a \<le> now \<and> now < start + 1000000000 \<and> now \<le> UINT64_MAX \<and> start \<le> now"
    "au_login_attempts a + length ts \<le> UINT32_MAX" "au_login_window a \<le> start"
  shows "admitted ts a \<le> 10 + (10 - au_login_attempts a)"
  using assms
proof (induction ts arbitrary: a)
  case (Cons now ts)
  show ?case
  proof (cases "au_login_window a + 1000000000 \<le> now")
    case True
    let ?a = "a\<lparr>au_login_window := now, au_login_attempts := 1\<rparr>"
    have "login_gate now a = (?a, True)" using True Cons.prems by (intro gate_reset) auto
    moreover have "admitted ts ?a \<le> 10 - au_login_attempts ?a" using Cons.prems by (intro admitted_inside) fastforce+
    ultimately show ?thesis by simp
  next
    case False
    let ?a = "a\<lparr>au_login_attempts := au_login_attempts a + 1\<rparr>"
    have "login_gate now a = (?a, au_login_attempts a < 10)" using False Cons.prems by (intro gate_inside) auto
    moreover have "admitted ts ?a \<le> 10 + (10 - au_login_attempts ?a)" using Cons.prems by (intro Cons.IH) auto
    ultimately show ?thesis by auto
  qed
qed simp

section \<open>Properties\<close>

text \<open>
  C7: A session is only accepted when it was granted. After any history of logins, checks and
  logouts since the structure was opened, an accepted session has the credentials of a login of
  that history at which the token was presented, that no later logout revoked and that have not
  expired; and for a request that changes something the second secret is the one that was granted
  with the session.
\<close>

theorem session_safety:
  assumes "au_sessions a = replicate WADB_SESSION_LIMIT no_credentials"
    and "auth_run entropy calls ((w, a), []) = ((w', a'), granted)"
    and "wadb_auth_session session csrf mutation (w', a') = (st, Some c)"
  shows "\<exists>token. (token, c) \<in> set granted \<and> cstr token = cstr (au_token a) \<and> snd (clock_ns w') < cr_expires_ns c \<and>
    (\<exists>s. session = Some s \<and> cstr s = cstr (cr_session c)) \<and> (mutation \<longrightarrow> (\<exists>k. csrf = Some k \<and> cstr k = cstr (cr_csrf c)))"
proof -
  have "sessions_ok (au_token a) a []" using assms(1) by (auto simp: sessions_ok_def)
  from auth_run_ok [OF assms(2) this] have ok: "sessions_ok (au_token a) a' granted" .
  have f: "find (session_matches (snd (clock_ns w')) session csrf mutation) (au_sessions a') = Some c"
    using assms(3) by (simp add: wadb_auth_session_def case_prod_beta)
  then have c: "c \<in> set (au_sessions a')" "session_matches (snd (clock_ns w')) session csrf mutation c" by (auto simp: find_Some_iff)
  then have "c \<noteq> no_credentials" by (auto simp: session_matches_def no_credentials_def)
  then obtain token where "(token, c) \<in> set granted" using ok c(1) by (auto simp: sessions_ok_def)
  then show ?thesis using ok c(2) by (fastforce simp: sessions_ok_def session_matches_def dest!: secret_equalD)
qed


section \<open>Examples\<close>

definition example_token :: bytes where
  "example_token = replicate 64 97"

definition example_auth :: wadb_auth where
  "example_auth =
     \<lparr>au_token = example_token, au_sessions = replicate WADB_SESSION_LIMIT no_credentials, au_login_window = 0, au_login_attempts = 0\<rparr>"

definition clock_world :: world where
  "clock_world = \<lparr>w_files = (\<lambda>_. None), w_script = (\<lambda>_. Ret 1000000000), w_tick = 0\<rparr>"

lemma random_hex_once:
  assumes "w_script w = (\<lambda>_. Ret 1000000000)"
  shows "wadb_random_hex (\<lambda>_ _. 0) True 32 w = (w\<lparr>w_tick := w_tick w + 2\<rparr>, Some (replicate 64 48))"
proof -
  let ?w = "w\<lparr>w_tick := w_tick w + 1\<rparr>"
  have h: "hex_text (replicate n 0) = replicate (2 * n) 48" for n
    by (induction n) (simp_all add: hex_text_def hex_digit_def ascii_def)
  have "random_loop (\<lambda>_ _. 0) 32 [] ?w = (w\<lparr>w_tick := w_tick w + 2\<rparr>, Some (replicate 32 0))"
    using assms by (simp add: random_loop.simps [of _ _ "[]"] random_loop.simps [of _ _ "replicate 32 0"] sys_def map_replicate_const)
  then show ?thesis using assms h [of 32] by (simp add: wadb_random_hex_def call_def sys_def)
qed

definition example_credentials :: wadb_credentials where
  "example_credentials = \<lparr>cr_session = replicate 64 48, cr_csrf = replicate 64 48, cr_expires_ns = 43201000000000\<rparr>"

lemma example_secrets: "secret_equal (Some (replicate 64 48)) (Some (replicate 64 48))" "secret_equal (Some example_token) (Some example_token)"
  by (simp_all add: secret_equal_iff cstr_def example_token_def)

lemma example_clock: "w_script w = (\<lambda>_. Ret 1000000000) \<Longrightarrow> clock_ns w = (w\<lparr>w_tick := w_tick w + 1\<rparr>, 1000000000)"
  by (simp add: clock_ns_def sys_def wadb_monotonic_ns_def mul64_def add64_def)

lemma example_login:
  "\<exists>w a. wadb_auth_login (\<lambda>_ _. 0) (Some example_token) 64 (clock_world, example_auth) = ((w, a), Inr example_credentials) \<and>
     w_script w = (\<lambda>_. Ret 1000000000) \<and> find (session_matches 1000000000 (Some (replicate 64 48)) None False) (au_sessions a) = Some example_credentials"
proof -
  have sc: "w_script clock_world = (\<lambda>_. Ret 1000000000)" by (simp add: clock_world_def)
  have g: "login_gate 1000000000 example_auth = (example_auth\<lparr>au_login_window := 1000000000, au_login_attempts := 1\<rparr>, True)"
    by (rule gate_reset) (simp_all add: example_auth_def)
  have o: "oldest_slot (replicate WADB_SESSION_LIMIT no_credentials) = 0"
  proof -
    have "foldl (\<lambda>slot i. if cr_expires_ns (replicate n no_credentials ! i) < cr_expires_ns (replicate n no_credentials ! slot) then i else slot) 0 xs = 0"
      if "\<forall>i\<in>set xs. i < n" "0 < n" for xs n using that by (induction xs) simp_all
    from this [of "[1..<WADB_SESSION_LIMIT]" WADB_SESSION_LIMIT] show ?thesis by (simp add: oldest_slot_def WADB_SESSION_LIMIT_def del: upt_rec_numeral)
  qed
  have m: "session_matches 1000000000 (Some (replicate 64 48)) None False example_credentials"
    using example_secrets(1) by (simp add: session_matches_def example_credentials_def)
  have s: "(replicate WADB_SESSION_LIMIT no_credentials)[0 := example_credentials] = example_credentials # replicate 31 no_credentials"
    by (simp add: WADB_SESSION_LIMIT_def numeral_eq_Suc)
  have cr: "\<lparr>cr_session = replicate 64 48, cr_csrf = replicate 64 48, cr_expires_ns = add64 1000000000 43200000000000\<rparr> = example_credentials"
    by (simp add: example_credentials_def add64_def)
  show ?thesis
    using example_clock [OF sc] g o s m cr example_secrets(2) sc
    by (simp add: wadb_auth_login_def random_hex_once example_auth_def Let_def)
qed

theorem session_safety_witness:
  "\<exists>w a granted st. auth_run (\<lambda>_ _. 0) [Login (Some example_token) 64] ((clock_world, example_auth), []) = ((w, a), granted) \<and>
     wadb_auth_session (Some (replicate 64 48)) None False (w, a) = (st, Some example_credentials) \<and>
     (\<exists>token. (token, example_credentials) \<in> set granted \<and> cstr token = cstr (au_token example_auth))"
proof -
  obtain w a where l: "wadb_auth_login (\<lambda>_ _. 0) (Some example_token) 64 (clock_world, example_auth) = ((w, a), Inr example_credentials)"
    "w_script w = (\<lambda>_. Ret 1000000000)" "find (session_matches 1000000000 (Some (replicate 64 48)) None False) (au_sessions a) = Some example_credentials"
    using example_login by blast
  have r: "auth_run (\<lambda>_ _. 0) [Login (Some example_token) 64] ((clock_world, example_auth), []) = ((w, a), [(example_token, example_credentials)])"
    using l(1) by simp
  have s: "wadb_auth_session (Some (replicate 64 48)) None False (w, a) = ((w\<lparr>w_tick := w_tick w + 1\<rparr>, a), Some example_credentials)"
    using l(3) by (simp add: wadb_auth_session_def example_clock [OF l(2)])
  have "au_sessions example_auth = replicate WADB_SESSION_LIMIT no_credentials" by (simp add: example_auth_def)
  from session_safety [OF this r s] show ?thesis using r s by blast
qed


end
