(* ===== verification/Spec2Isabelle.thy ===== *)
theory Spec2Isabelle
  imports Wadb_Database Wadb_Auth
begin

text \<open>
  A verification development for WebAnalyticsDB, an append-only analytics store written in C.
  Paths below are relative to the sources of the program (\<^verbatim>\<open>src/core\<close>, \<^verbatim>\<open>src/storage\<close> and so on).

  \<^bold>\<open>The program.\<close> A database is a directory with a catalog of tables. A table has a schema, a
  manifest that lists its segments, one segment file per day and part, and a derived index file
  beside every segment. Producers stage rows and put them into a bounded queue
  (\<^verbatim>\<open>src/ingest/writer.c\<close>); one writer thread takes batches from the queue, encodes them against
  the dictionary of the active segment and appends each as one frame with a checksum
  (\<^verbatim>\<open>src/storage/segments.c\<close>, \<^verbatim>\<open>format.c\<close>, \<^verbatim>\<open>dictionary.c\<close>), and publishes the new committed boundary. After
  a restart, recovery walks the frames, cuts off an incomplete tail and rebuilds the index. Readers
  take a snapshot of the readable segments, look positions up in the index, decode rows with
  cached dictionaries, and aggregate or page through them (\<^verbatim>\<open>src/query\<close>). Retention retires whole
  segments, an integrity check reads everything again, and an HTTP server with token logins stands
  in front (\<^verbatim>\<open>src/server\<close>).

  \<^bold>\<open>Conventions.\<close> A byte buffer is a list of 8-bit words. Unsigned integers are natural numbers,
  with the wrap-around written out (\<open>add64\<close>, \<open>sub64\<close>, \<open>mul64\<close> and their 32-bit forms) at every
  operation that may overflow; checksums and hashes are words of their own width. A call that may fail
  returns a sum whose left side is the status code of \<^verbatim>\<open>wadb.h\<close>. Stateful code passes its state
  explicitly. The operating system is a world of files together with a script of outcomes: every
  system call may succeed, fail, or transfer only part of its data, and every allocation may fail,
  as the script says, so that a statement about all worlds covers all failures. Floating point
  values are bit patterns with rounding written out. A critical section under a mutex is one step.

  \<^bold>\<open>Foundations.\<close>
  \<^item> \<open>Wadb_Prelude\<close>: machine types, status codes, fallible results, wrap-around arithmetic, C buffers,
    and the interface of interleaved critical sections (\<open>step_invariant\<close>).
  \<^item> \<open>Wadb_Encoding\<close> (\<^verbatim>\<open>core/encoding.c\<close>): names, UTF-8, little-endian integers, CRC-32C, FNV-1a.
    The table-driven CRC is the bitwise one and detects every burst of at most four bytes; the UTF-8
    check accepts exactly the encodings of Unicode scalar values.
  \<^item> \<open>Wadb_Float\<close>: the binary32 and binary64 operations that the sources use.
  \<^item> \<open>Wadb_Schema\<close> (\<^verbatim>\<open>core/schema.c\<close>): row layouts and the row codec. Built layouts have disjoint
    fields inside an aligned row; the exact condition for each rejection is proved.
  \<^item> \<open>Wadb_Hash\<close>: the linear probing that the dictionary and the group table share, with its
    termination in every table that has a free slot.
  \<^item> \<open>Wadb_Files\<close> (\<^verbatim>\<open>platform/files.c\<close>): the world, complete reads and writes, atomic replacement of a
    file, which leaves the old or the complete new content whatever fails.

  \<^bold>\<open>Storage.\<close>
  \<^item> \<open>Wadb_Format\<close> (\<^verbatim>\<open>storage/format.c\<close>): segment headers and frames, with round trips, soundness of
    decoding, and rejection of torn writes and of damage within four bytes.
  \<^item> \<open>Wadb_Dictionary\<close> (\<^verbatim>\<open>storage/dictionary.c\<close>): interning as a refinement of an append-only table of
    distinct strings, rollback, and export and application of a frame's dictionary section.
  \<^item> \<open>Wadb_Engine\<close> (\<^verbatim>\<open>core/engine.h\<close>, \<^verbatim>\<open>core/stats.c\<close>): the structures of the engine, lookup of tables,
    statistics, the notification ring as a refinement of a log, and segment listing.
  \<^item> \<open>Wadb_Metadata\<close> (\<^verbatim>\<open>storage/metadata.c\<close>): catalog, schema and manifest files; what is saved loads
    back, and what loads is well formed.
  \<^item> \<open>Wadb_Segments\<close> (\<^verbatim>\<open>storage/segments.c\<close>, \<^verbatim>\<open>storage/index.c\<close>), \<open>Wadb_Recovery\<close> and \<open>Wadb_Commit\<close>: the
    frame index and its files, recovery of a table, and the group commit.
  \<^item> \<open>Wadb_Maintenance\<close> (\<^verbatim>\<open>storage/retention.c\<close>, \<^verbatim>\<open>storage/integrity.c\<close>): retention and the integrity
    check, with the lemma that retention can leave a segment without rows in front of a retired
    one: a manifest that is valid but that recovery refuses.
  \<^item> \<open>Wadb_Durability\<close>: a segment file is tiled by the frames that its index describes. A commit is
    atomic, and recovery keeps all that was committed and cuts off at most one incomplete frame.
  \<^item> \<open>Wadb_Database\<close> (\<^verbatim>\<open>core/database.c\<close>): opening, closing and creating tables. A table is created
    completely or not at all, and the tables of a database have increasing identifiers and distinct
    names.

  \<^bold>\<open>Ingestion, queries and the server.\<close>
  \<^item> \<open>Wadb_Writer\<close> (\<^verbatim>\<open>ingest/writer.c\<close>): reservation, staging, batching, group commit with splitting and
    completion. The inductive relation \<open>ingest_step\<close> interleaves producers and the writer; the
    accounting of the queue is an invariant of it, and stopping the writer completes every request.
  \<^item> \<open>Wadb_Plan\<close> (\<^verbatim>\<open>query/plan.c\<close>) and \<open>Wadb_Query\<close> (\<^verbatim>\<open>query/query.c\<close>): compiled plans are well formed, value
    comparison is a total preorder, and consuming rows implements grouping and aggregation within
    the memory budget; the output is sorted and cut at the limit.
  \<^item> \<open>Wadb_Readers\<close> (\<^verbatim>\<open>query/snapshot.c\<close>, \<^verbatim>\<open>query/cache.c\<close>, the list of \<^verbatim>\<open>query/cursor.c\<close>): the relation
    \<open>cache_step\<close> interleaves the readers of the dictionary cache, which stays within its budget and
    never drops a dictionary that a reader holds.
  \<^item> \<open>Wadb_Scan\<close> (\<^verbatim>\<open>query/scan.c\<close>) and \<open>Wadb_Execute\<close> (the end of \<^verbatim>\<open>query/query.c\<close>, \<^verbatim>\<open>query/cursor.c\<close>): scanning a
    snapshot, whole queries and paging.
  \<^item> \<open>Wadb_Auth\<close> (\<^verbatim>\<open>server/auth.c\<close>): the administrator token, sessions and the login rate. A session is
    accepted only with credentials that were granted, not revoked and have not expired.

  \<^bold>\<open>Interfaces.\<close> The locale \<open>slot_rehash\<close> is what both hash tables promise of a rehash and is
  interpreted on the dictionary and on the group table; \<open>symbol_table\<close> is what the row codec needs of
  a dictionary and is interpreted on interning and resolving; \<open>checksummed\<close> and \<open>record_codec\<close> are
  interpreted on segment headers and frames; \<open>step_invariant\<close> is interpreted on the ingestion queue and
  on the dictionary cache.

  \<^bold>\<open>Loops.\<close> No definition uses fuel. Loops over buffers, lists and identifiers are structural
  or have a measure. The probe loops of the hash tables are the combinator \<open>while\<close>, and that they stop
  in every table that satisfies the invariant is proved for \<open>while_option\<close>. Loops that repeat a
  system call decrease the bytes that remain, since a transfer of nothing is an error, and a call
  interrupted before it did anything is counted as not made. The rounds of the writer decrease the queue.

  \<^bold>\<open>Arguments that stand for the environment.\<close> The resolution of a path by \<^verbatim>\<open>realpath\<close>, the bytes of
  \<^verbatim>\<open>/dev/urandom\<close>, the ownership of the token file and the callbacks of a scan are
  arguments of the definitions that use them, and no property assumes more of them than it states.

  \<^bold>\<open>Not modelled.\<close> The text of error messages, only their codes; releasing memory, which has no
  effect on a value; condition variables (\<^verbatim>\<open>platform/threads.c\<close>), which only delay the steps modelled
  here; the fault-injection hooks of the tests (\<^verbatim>\<open>platform/fault.h\<close>), since every call of the model may
  fail; background jobs (\<^verbatim>\<open>server/jobs.c\<close>), which run modelled operations in threads; JSON conversion
  (\<^verbatim>\<open>server/json.c\<close>), which is written against the vendored yyjson library; routing, sockets and process
  set-up (\<^verbatim>\<open>server/api.c\<close>, \<^verbatim>\<open>server/server.c\<close>, \<^verbatim>\<open>main.c\<close>); the benchmark program and the web console. A
  crash is modelled by what it may leave in a segment file, the committed bytes followed by anything,
  and not by the reordering of writes inside the operating system.
\<close>

end
